(* ===== verification/Prelude.thy ===== *)
theory Prelude
  imports Main "HOL-Library.Word"
begin

text \<open>
  Shared vocabulary of the development: the C integer types as words, the result type that
  carries every abnormal exit of the C code, checked array access, and the little-endian
  view of byte memory that the bitmap routines use when they cast an \<open>u8 *\<close> to an
  \<open>u32 *\<close> or \<open>u64 *\<close>. The lemmas relate a word read from memory to its bytes, so that the
  component proofs can argue byte by byte.
\<close>

unbundle bit_operations_syntax

section \<open>Integer types (include/types.h)\<close>

type_synonym u8 = "8 word"
type_synonym u16 = "16 word"
type_synonym u32 = "32 word"
type_synonym u64 = "64 word"
type_synonym bytes = "u8 list"

section \<open>Abnormal exits\<close>

text \<open>
  \<open>Oob\<close> is an access outside an array, \<open>NullPtr\<close> the dereference of a null pointer and
  \<open>DivZero\<close> an integer division by zero (all three undefined behaviour in C); \<open>Fatal\<close> and
  \<open>PFatal\<close> are the macros \<open>FATAL\<close> and \<open>PFATAL\<close> of include/debug.h, which print a message
  and end the process. \<open>Hang\<close> is a loop that never ends, \<open>NotFinite\<close> a \<open>double\<close> that would
  become an infinity or a NaN, which the idealisation of \<open>double\<close> as \<open>real\<close> does not follow.
\<close>

datatype err = Oob | NullPtr | DivZero | Hang | NotFinite | Fatal string | PFatal string

type_synonym 'a res = "err + 'a"

definition bnd :: "'e + 'a \<Rightarrow> ('a \<Rightarrow> 'e + 'b) \<Rightarrow> 'e + 'b" where
  "bnd m f = (case m of Inl e \<Rightarrow> Inl e | Inr x \<Rightarrow> f x)"

lemma bnd_simps [simp]:
  "bnd (Inl e) f = Inl e"
  "bnd (Inr x) f = f x"
  by (simp_all add: bnd_def)

lemma bnd_eq_Inr_iff: "bnd m f = Inr y \<longleftrightarrow> (\<exists>x. m = Inr x \<and> f x = Inr y)"
  by (cases m) auto

lemma bnd_InrE [elim]:
  assumes "bnd m f = Inr y"
  obtains x where "m = Inr x" and "f x = Inr y"
  using assms by (auto simp: bnd_eq_Inr_iff)

text \<open>What holds of every result a checked operation can yield, by the shape of the operation.\<close>

definition yields :: "('b \<Rightarrow> bool) \<Rightarrow> 'e + 'b \<Rightarrow> bool" where
  "yields P m \<longleftrightarrow> (\<forall>c. m = Inr c \<longrightarrow> P c)"

lemma yieldsD: "yields P m \<Longrightarrow> m = Inr c \<Longrightarrow> P c"
  by (simp add: yields_def)

lemma yields_intros:
  "P c \<Longrightarrow> yields P (Inr c)" "yields P (Inl e)"
  "(\<And>x. m = Inr x \<Longrightarrow> yields P (f x)) \<Longrightarrow> yields P (bnd m f)"
  "(b \<Longrightarrow> yields P r) \<Longrightarrow> (\<not> b \<Longrightarrow> yields P r') \<Longrightarrow> yields P (if b then r else r')"
  "(\<And>y. y = v \<Longrightarrow> yields P (g y)) \<Longrightarrow> yields P (let y = v in g y)"
  "(\<And>s t. p = (s, t) \<Longrightarrow> yields P (h s t)) \<Longrightarrow> yields P (case p of (s, t) \<Rightarrow> h s t)"
  by (auto simp: yields_def bnd_def split: sum.splits prod.splits)

text \<open>A \<open>for\<close> loop over the elements of a list, ending at the first abnormal exit.\<close>

fun foldm :: "('a \<Rightarrow> 's \<Rightarrow> 'e + 's) \<Rightarrow> 'a list \<Rightarrow> 's \<Rightarrow> 'e + 's" where
  "foldm f [] s = Inr s"
| "foldm f (x # xs) s = bnd (f x s) (foldm f xs)"

lemma foldm_append: "foldm f (xs @ ys) s = bnd (foldm f xs s) (foldm f ys)"
  by (induction xs arbitrary: s) (auto simp: bnd_def split: sum.splits)

lemma foldm_upt_Suc: "foldm f [0..<Suc n] s = bnd (foldm f [0..<n] s) (f n)"
proof -
  have "bnd (f n s) Inr = f n s" for s by (cases "f n s") simp_all
  then show ?thesis by (simp add: foldm_append bnd_def split: sum.splits)
qed

lemma foldm_upt_total:
  assumes "P 0 s" and "\<And>i s. i < n \<Longrightarrow> P i s \<Longrightarrow> \<exists>s'. f i s = Inr s' \<and> P (Suc i) s'"
  shows "\<exists>s'. foldm f [0..<n] s = Inr s' \<and> P n s'"
  using assms
proof (induction n)
  case (Suc n)
  then obtain t where "foldm f [0..<n] s = Inr t" "P n t" by (meson less_Suc_eq)
  then show ?case using Suc.prems(2) [of n t] by (auto simp: foldm_upt_Suc simp del: upt_Suc)
qed simp

lemma foldm_upt_total_or:
  assumes "P 0 s"
    and "\<And>i s. i < n \<Longrightarrow> P i s \<Longrightarrow> (\<exists>s'. f i s = Inr s' \<and> P (Suc i) s') \<or> (\<exists>e \<in> E. f i s = Inl e)"
  shows "(\<exists>s'. foldm f [0..<n] s = Inr s' \<and> P n s') \<or> (\<exists>e \<in> E. foldm f [0..<n] s = Inl e)"
  using assms
proof (induction n)
  case (Suc n)
  then consider t where "foldm f [0..<n] s = Inr t" "P n t" | e where "e \<in> E" "foldm f [0..<n] s = Inl e"
    by (meson less_Suc_eq)
  then show ?case
  proof cases
    case 1
    then show ?thesis using Suc.prems(2) [of n t] by (auto simp: foldm_upt_Suc simp del: upt_Suc)
  next
    case 2
    then show ?thesis by (auto simp: foldm_upt_Suc simp del: upt_Suc)
  qed
qed simp

lemma foldm_upt_inv:
  assumes "foldm f [0..<n] s = Inr s'" "P 0 s"
    and "\<And>i s t. i < n \<Longrightarrow> P i s \<Longrightarrow> f i s = Inr t \<Longrightarrow> P (Suc i) t"
  shows "P n s'"
  using assms
proof (induction n arbitrary: s')
  case (Suc n)
  then obtain t where "foldm f [0..<n] s = Inr t" "f n t = Inr s'"
    by (auto simp: foldm_upt_Suc simp del: upt_Suc)
  then show ?case using Suc by (meson less_Suc_eq)
qed simp

definition rd :: "'a list \<Rightarrow> nat \<Rightarrow> 'a res" where
  "rd xs i = (if i < length xs then Inr (xs ! i) else Inl Oob)"

definition wr :: "'a list \<Rightarrow> nat \<Rightarrow> 'a \<Rightarrow> 'a list res" where
  "wr xs i v = (if i < length xs then Inr (xs[i := v]) else Inl Oob)"

lemma rd_ok [simp]: "i < length xs \<Longrightarrow> rd xs i = Inr (xs ! i)"
  by (simp add: rd_def)

lemma wr_ok [simp]: "i < length xs \<Longrightarrow> wr xs i v = Inr (xs[i := v])"
  by (simp add: wr_def)

lemma rd_eq_Inr_iff: "rd xs i = Inr v \<longleftrightarrow> i < length xs \<and> v = xs ! i"
  by (auto simp: rd_def)

lemma wr_eq_Inr_iff: "wr xs i v = Inr ys \<longleftrightarrow> i < length xs \<and> ys = xs[i := v]"
  by (auto simp: wr_def)

section \<open>Little-endian words in memory\<close>

text \<open>
  \<open>le_word\<close> assembles a word from the narrower words that make it up in memory order,
  \<open>part_of w k\<close> is the \<open>k\<close>-th of them (\<open>((u8 *)&w)[k]\<close> at width 8), \<open>le_parts n w\<close> the
  first \<open>n\<close> of them. The code is built for little-endian machines (x86-64, aarch64).
\<close>

fun le_word :: "'c::len word list \<Rightarrow> 'a::len word" where
  "le_word [] = 0"
| "le_word (b # bs) = ucast b OR push_bit LENGTH('c) (le_word bs)"

definition part_of :: "'a::len word \<Rightarrow> nat \<Rightarrow> 'c::len word" where
  "part_of w k = ucast (drop_bit (LENGTH('c) * k) w)"

definition le_parts :: "nat \<Rightarrow> 'a::len word \<Rightarrow> 'c::len word list" where
  "le_parts n w = map (part_of w) [0..<n]"

abbreviation byte_of :: "'a::len word \<Rightarrow> nat \<Rightarrow> u8" where
  "byte_of \<equiv> part_of"

abbreviation le_bytes :: "nat \<Rightarrow> 'a::len word \<Rightarrow> bytes" where
  "le_bytes \<equiv> le_parts"

lemma bit_le_word:
  "bit (le_word bs :: 'a::len word) n \<longleftrightarrow>
     n < LENGTH('a) \<and> n div LENGTH('c) < length bs \<and>
     bit (bs ! (n div LENGTH('c)) :: 'c::len word) (n mod LENGTH('c))"
proof (induction bs arbitrary: n)
  case Nil
  then show ?case by simp
next
  case (Cons b bs)
  show ?case
  proof (cases "n < LENGTH('c)")
    case True
    then show ?thesis
      by (auto simp: bit_or_iff bit_push_bit_iff bit_ucast_iff)
  next
    case False
    then obtain m where m: "n = m + LENGTH('c)"
      using le_Suc_ex [of "LENGTH('c)" n] by (auto simp: add.commute)
    have "\<not> bit b n"
      using False by (auto dest: bit_imp_le_length)
    moreover have d: "(m + LENGTH('c)) div LENGTH('c) = Suc (m div LENGTH('c))"
      by (metis Suc_eq_plus1 div_add_self2 len_not_eq_0)
    ultimately show ?thesis
      using m
      by (auto simp: bit_or_iff bit_push_bit_iff bit_ucast_iff Cons.IH d
          simp del: div_add_self2 dest: bit_imp_le_length)
  qed
qed

lemma bit_part_of:
  "bit (part_of w k :: 'c::len word) j \<longleftrightarrow> j < LENGTH('c) \<and> bit w (LENGTH('c) * k + j)"
  by (auto simp: part_of_def bit_ucast_iff bit_drop_bit_eq)

lemma length_le_parts [simp]: "length (le_parts n w) = n"
  by (simp add: le_parts_def)

lemma nth_le_parts [simp]: "k < n \<Longrightarrow> le_parts n w ! k = part_of w k"
  by (simp add: le_parts_def)

lemma part_of_le_word:
  assumes "k < length bs" "LENGTH('c::len) * length bs \<le> LENGTH('a::len)"
  shows "part_of (le_word bs :: 'a word) k = (bs ! k :: 'c word)"
proof (rule bit_word_eqI)
  fix n assume n: "n < LENGTH('c)"
  have "LENGTH('c) * k + n < LENGTH('c) * Suc k" using n by simp
  also have "\<dots> \<le> LENGTH('c) * length bs" using assms(1) by (intro mult_le_mono2) simp
  finally have "LENGTH('c) * k + n < LENGTH('a)" using assms(2) by linarith
  then show "bit (part_of (le_word bs :: 'a word) k :: 'c word) n = bit (bs ! k) n"
    using assms n by (simp add: bit_part_of bit_le_word)
qed

lemma le_parts_le_word:
  "LENGTH('c::len) * length bs \<le> LENGTH('a::len) \<Longrightarrow>
     le_parts (length bs) (le_word bs :: 'a word) = (bs :: 'c word list)"
  by (intro nth_equalityI) (auto simp: part_of_le_word)

lemma le_word_le_parts:
  assumes "LENGTH('a::len) = LENGTH('c::len) * n"
  shows "le_word (le_parts n w :: 'c word list) = (w :: 'a word)"
proof (rule bit_word_eqI)
  fix m assume "m < LENGTH('a)"
  then have "m div LENGTH('c) < n" using assms by (simp add: less_mult_imp_div_less mult.commute)
  then show "bit (le_word (le_parts n w :: 'c word list) :: 'a word) m = bit w m"
    using \<open>m < LENGTH('a)\<close> by (simp add: bit_le_word bit_part_of)
qed

lemma word_parts_eqI:
  assumes "LENGTH('a::len) = LENGTH('c::len) * n"
    and "\<And>k. k < n \<Longrightarrow> (part_of v k :: 'c word) = part_of w k"
  shows "v = (w :: 'a word)"
proof -
  have "(le_parts n v :: 'c word list) = le_parts n w"
    using assms(2) by (intro nth_equalityI) auto
  then show ?thesis using le_word_le_parts [OF assms(1)] by metis
qed

lemma le_word_eq_0_iff:
  assumes "LENGTH('c::len) * length bs \<le> LENGTH('a::len)"
  shows "(le_word (bs :: 'c word list) :: 'a word) = 0 \<longleftrightarrow> (\<forall>b \<in> set bs. b = 0)"
proof
  assume z: "(le_word bs :: 'a word) = 0"
  show "\<forall>b \<in> set bs. b = 0"
  proof
    fix b assume "b \<in> set bs"
    then obtain k where k: "k < length bs" "b = bs ! k" by (auto simp: in_set_conv_nth)
    with part_of_le_word [OF k(1) assms] z show "b = 0" by (simp add: part_of_def)
  qed
next
  assume "\<forall>b \<in> set bs. b = 0"
  then have "bs ! k = 0" if "k < length bs" for k
    using that by simp
  then show "(le_word bs :: 'a word) = 0"
    by (intro bit_word_eqI) (auto simp: bit_le_word)
qed

lemma le_word_and:
  "length bs = length cs \<Longrightarrow>
     (le_word bs :: 'a::len word) AND le_word cs = le_word (map2 (AND) bs (cs :: 'c::len word list))"
  by (intro bit_word_eqI) (auto simp: bit_le_word bit_and_iff)

lemma le_word_and_not:
  assumes "length bs = length cs" "LENGTH('c::len) * length bs = LENGTH('a::len)"
  shows "(le_word bs :: 'a word) AND NOT (le_word cs)
    = le_word (map2 (\<lambda>b c. b AND NOT c) bs (cs :: 'c word list))"
proof (rule bit_word_eqI)
  fix n assume n: "n < LENGTH('a)"
  then have "n div LENGTH('c) < length bs"
    using assms by (simp add: less_mult_imp_div_less mult.commute)
  with n assms show "bit ((le_word bs :: 'a word) AND NOT (le_word cs)) n =
      bit (le_word (map2 (\<lambda>b c. b AND NOT c) bs cs) :: 'a word) n"
    by (auto simp: bit_le_word bit_and_iff bit_not_iff)
qed

lemma le_word_inject:
  assumes "length bs = length cs" "LENGTH('c::len) * length bs \<le> LENGTH('a::len)"
  shows "(le_word bs :: 'a word) = le_word cs \<longleftrightarrow> bs = (cs :: 'c word list)"
  using le_parts_le_word [where 'a = 'a, of bs] le_parts_le_word [where 'a = 'a, of cs] assms
  by metis

lemma le_word_all_ones_iff:
  assumes "LENGTH('c::len) * length bs = LENGTH('a::len)"
  shows "(le_word (bs :: 'c word list) :: 'a word) = - 1 \<longleftrightarrow> (\<forall>b \<in> set bs. b = - 1)"
proof -
  have "(le_word (replicate (length bs) (- 1 :: 'c word)) :: 'a word) = - 1"
  proof (rule bit_word_eqI)
    fix n assume n: "n < LENGTH('a)"
    then have "n div LENGTH('c) < length bs"
      using assms by (simp add: less_mult_imp_div_less mult.commute)
    with n show "bit (le_word (replicate (length bs) (- 1 :: 'c word)) :: 'a word) n = bit (- 1 :: 'a word) n"
      by (simp add: bit_le_word)
  qed
  then have "(le_word bs :: 'a word) = - 1 \<longleftrightarrow> bs = replicate (length bs) (- 1)"
    using le_word_inject [where 'a = 'a, of bs "replicate (length bs) (- 1)"] assms by simp
  also have "\<dots> \<longleftrightarrow> (\<forall>b \<in> set bs. b = - 1)"
    by (metis in_set_replicate replicate_eqI)
  finally show ?thesis .
qed

lemma le_word_Cons_add:
  "(le_word (b # bs) :: 'a::len word) = ucast (b :: 'c::len word) + 2 ^ LENGTH('c) * le_word bs"
proof -
  have "(ucast b :: 'a word) AND push_bit LENGTH('c) (le_word bs) = 0"
    by (rule bit_word_eqI) (auto simp: bit_simps dest: bit_imp_le_length)
  then show ?thesis
    by (simp add: disjunctive_add_eq_or push_bit_eq_mult mult.commute)
qed

lemma unat_le_word_Cons:
  assumes "LENGTH('c::len) * length (b # bs) \<le> LENGTH('a::len)"
  shows "unat (le_word (b # bs) :: 'a word) = unat (b :: 'c word) + 2 ^ LENGTH('c) * unat (le_word bs :: 'a word)"
proof -
  have "unat (le_word (b # bs) :: 'a word) = unat (ucast b OR push_bit LENGTH('c) (le_word bs :: 'a word))"
    by simp
  also have "\<dots> = unat b OR push_bit LENGTH('c) (unat (le_word bs :: 'a word))"
  proof (rule bit_eqI)
    fix n
    show "bit (unat (ucast b OR push_bit LENGTH('c) (le_word bs :: 'a word))) n
       = bit (unat b OR push_bit LENGTH('c) (unat (le_word bs :: 'a word))) n"
    proof (cases "n < LENGTH('a)")
      case True
      then show ?thesis by (auto simp: bit_simps)
    next
      case False
      have "\<not> bit (le_word bs :: 'a word) (n - LENGTH('c))"
      proof
        assume "bit (le_word bs :: 'a word) (n - LENGTH('c))"
        then have "(n - LENGTH('c)) div LENGTH('c) < length bs" by (simp add: bit_le_word)
        moreover have "LENGTH('c) * length bs \<le> n - LENGTH('c)" using False assms by auto
        ultimately show False
          by (metis div_le_mono div_mult_self1_is_m leD len_gt_0)
      qed
      moreover have "LENGTH('c) \<le> n" using False assms by auto
      ultimately show ?thesis using False by (auto simp: bit_simps dest: bit_imp_le_length)
    qed
  qed
  also have "\<dots> = unat b + push_bit LENGTH('c) (unat (le_word bs :: 'a word))"
  proof -
    have "unat b AND push_bit LENGTH('c) (unat (le_word bs :: 'a word)) = 0"
      by (rule bit_eqI) (auto simp: bit_simps dest: bit_imp_le_length)
    then show ?thesis by (simp add: disjunctive_add_eq_or)
  qed
  finally show ?thesis by (simp add: push_bit_eq_mult mult.commute)
qed
text \<open>The first word of memory, and splitting memory after it.\<close>

definition wbytes :: "'a::len itself \<Rightarrow> nat" where
  "wbytes _ = LENGTH('a) div 8"

lemma wbytes_simps [simp]:
  "wbytes TYPE(64) = 8" "wbytes TYPE(32) = 4"
  by (simp_all add: wbytes_def)

definition ldw :: "bytes \<Rightarrow> 'a::len word" where
  "ldw p = le_word (take (wbytes TYPE('a)) p)"

section \<open>Generic lemmas\<close>

lemma ball_map2_nth:
  "length xs = length ys \<Longrightarrow>
     (\<forall>b \<in> set (map2 f xs ys). P b) \<longleftrightarrow> (\<forall>i < length ys. P (f (xs ! i) (ys ! i)))"
  by (simp add: all_set_conv_all_nth)

lemma ex_nat_shift: "(\<exists>k. a \<le> k \<and> k < b \<and> P k) \<longleftrightarrow> (\<exists>k < b - a. P (a + k :: nat))"
proof
  assume "\<exists>k. a \<le> k \<and> k < b \<and> P k"
  then obtain k where "a \<le> k" "k < b" "P k" by blast
  then show "\<exists>k < b - a. P (a + k)" by (intro exI [of _ "k - a"]) auto
next
  assume "\<exists>k < b - a. P (a + k)"
  then obtain k where "k < b - a" "P (a + k)" by blast
  then show "\<exists>k. a \<le> k \<and> k < b \<and> P k" by (intro exI [of _ "a + k"]) auto
qed

lemma unat_drop_bit: "unat (drop_bit n (w :: 'a::len word)) = unat w div 2 ^ n"
proof -
  have "take_bit LENGTH('a) (unat w) = unat w"
    by (rule bit_eqI) (auto simp: bit_simps dest: bit_imp_le_length)
  then show ?thesis
    by (metis unat_drop_bit_eq drop_bit_eq_div)
qed

lemma unat_ucast_up:
  "LENGTH('c) \<le> LENGTH('a) \<Longrightarrow> unat (ucast (w :: 'c::len word) :: 'a::len word) = unat w"
  by (rule bit_eqI) (auto simp: bit_simps dest: bit_imp_le_length)

lemma unat_of_nat_small: "k < 2 ^ LENGTH('a) \<Longrightarrow> unat (of_nat k :: 'a::len word) = k"
  by (simp add: unat_of_nat take_bit_eq_mod)

lemma unat_lt: "unat (w :: 'a::len word) < 2 ^ LENGTH('a)"
  by (rule unsigned_less)

lemma unat_mult_le:
  assumes "unat (p :: 'a::len word) * k < 2 ^ LENGTH('a)"
  shows "unat (p * of_nat k) = unat p * k"
proof -
  have "p * of_nat k = of_nat (unat p * k)" by (simp add: of_nat_unat)
  then show ?thesis using unat_of_nat_small [where 'a = 'a, of "unat p * k"] assms by (simp del: of_nat_mult)
qed

end
