(* ===== verification/State.thy ===== *)
theory State
  imports Prelude Complex_Main
begin

text \<open>
  The state the fuzzer threads through its calls: \<open>afl_forkserver_t\<close> (include/forkserver.h),
  \<open>struct queue_entry\<close> and \<open>afl_state_t\<close> (include/afl-fuzz.h), with the fields the modelled
  routines read or write. A pointer to a queue entry is the entry's index in \<open>queue_buf\<close>
  (the number \<open>add_to_queue\<close> stores in \<open>id\<close>), a null pointer is \<open>None\<close>; C arrays are lists;
  flags are \<open>bool\<close>; \<open>double\<close> is idealised as \<open>real\<close>.

  \<open>afl_state_t\<close> is one flat struct in C. Here its fields are declared along a chain of record
  extensions, one link per component, so that each operation is typed with the part of the
  state it can touch and still applies, unchanged, to the whole \<open>afl_state\<close>.
\<close>

section \<open>Fork server\<close>

record afl_forkserver =
  trace_bits :: bytes
  call_stack_file :: "string option"
  crash_symbol :: "bytes option"
  crash_module :: "bytes option"
  crash_offset :: u32
  actual_counts :: u64
  exec_tmout :: u32
  map_size :: u32
  real_map_size :: u32
  total_execs :: u64
  target_path :: bytes
  use_stdin :: bool
  out_file :: "string option"
  fsrv_no_unlink :: bool
  out_fd :: "bytes option"
  out_fd_open :: bool
  use_shmem_fuzz :: bool
  shmem_fuzz :: bytes
  shmem_fuzz_len :: u32
  child_pid :: u32
  last_run_timed_out :: bool
  last_kill_signal :: u8
  child_kill_signal :: u8
  uses_asan :: bool
  uses_crash_exitcode :: bool
  crash_exitcode :: u8

text \<open>\<open>fsrv_run_result_t\<close>: the numbers are the C enumerators, which the code stores in an \<open>u8\<close>.\<close>

datatype fsrv_run_result =
  FSRV_RUN_OK | FSRV_RUN_TMOUT | FSRV_RUN_CRASH | FSRV_RUN_ERROR | FSRV_RUN_NOINST | FSRV_RUN_NOBITS

section \<open>Queue entries\<close>

record queue_entry =
  fname :: string
  q_len :: u32
  q_id :: u32
  cal_failed :: u8
  trim_done :: bool
  was_fuzzed :: bool
  passed_det :: bool
  has_new_cov :: bool
  var_behavior :: bool
  favored :: bool
  fs_redundant :: bool
  is_ascii :: bool
  disabled :: bool
  bitmap_size :: u32
  fuzz_level :: u32
  n_fuzz_entry :: u32
  exec_us :: u64
  handicap :: u64
  depth :: u64
  exec_cksum :: u64
  trace_mini :: "bytes option"
  tc_ref :: u32
  perf_score :: real
  weight :: real
  testcase_buf :: "bytes option"
  mother :: "nat option"

section \<open>Fuzzer state\<close>

text \<open>afl-performance.c: the generator; \<open>urandom\<close> holds what the next reads of /dev/urandom return.\<close>

record afl_rand =
  rand_cnt :: u32
  fixed_seed :: bool
  rand_seed0 :: u64
  rand_seed1 :: u64
  rand_seed2 :: u64
  init_seed :: u64
  urandom :: "(u64 \<times> u64 \<times> u64) list"

text \<open>afl-fuzz-bitmap.c: coverage maps and the minima of the coverage-decrease search.\<close>

record afl_cov = afl_rand +
  fsrv :: afl_forkserver
  virgin_bits :: bytes
  virgin_tmout :: bytes
  virgin_crash :: bytes
  bitmap_changed :: bool
  testcase_matrix :: "nat option"
  min_actual_cnts :: u64
  min_bitmap_size :: u32

text \<open>afl-fuzz-queue.c: the queue, its favourites and the inputs of the power schedules.\<close>

record afl_queue = afl_cov +
  schedule :: u8
  non_instrumented_mode :: bool
  cmplog_mode :: bool
  custom_mutators_count :: u32
  syncing_party :: "string option"
  out_dir :: string
  map_tmp_buf :: bytes
  score_changed :: bool
  n_fuzz :: "nat \<Rightarrow> u32"
  queue :: "nat option"
  queue_cur :: "nat option"
  queue_top :: "nat option"
  queue_buf :: "queue_entry list"
  top_rated :: "nat option list"
  queued_items :: u32
  active_items :: u32
  pending_not_fuzzed :: u32
  queued_favored :: u32
  pending_favored :: u32
  ready_for_splicing_count :: u32
  cur_depth :: u32
  max_depth :: u32
  cycles_wo_finds :: u64
  start_time :: u64
  last_find_time :: u64
  longest_find_time :: u64

record afl_sched = afl_queue +
  havoc_max_mult :: u8
  limit_time_sig :: int
  total_cal_us :: u64
  total_cal_cycles :: u64
  total_bitmap_size :: u64
  total_bitmap_entries :: u64
  queued_discovered :: u32
  alias_probability :: "real list"
  alias_table :: "u32 list"
  reinit_table :: bool

record afl_cache = afl_sched +
  q_testcase_max_cache_size :: u64
  q_testcase_max_cache_entries :: u32
  q_testcase_cache_size :: u64
  q_testcase_max_cache_count :: u32
  q_testcase_cache_count :: u32
  q_testcase_smallest_free :: u32
  q_testcase_evictions :: u32
  q_testcase_do_once :: bool
  q_testcase_cache :: "nat option list"

section \<open>The file system\<close>

text \<open>
  What the fuzzer's system calls see: the regular files by path, the symbolic links, the paths
  on which system calls fail (permissions, a full disk) and whether links are supported.
\<close>

record world =
  files :: "string \<Rightarrow> bytes option"
  links :: "string \<Rightarrow> string option"
  deny :: "string \<Rightarrow> bool"
  can_link :: bool

text \<open>\<open>open\<close> with \<open>O_WRONLY | O_CREAT | O_EXCL\<close>, followed by \<open>close\<close>; \<open>open\<close> with \<open>O_RDONLY\<close>;
  \<open>unlink\<close>; \<open>symlink\<close>. The Boolean is success.\<close>

definition create_excl :: "string \<Rightarrow> world \<Rightarrow> bool \<times> world" where
  "create_excl p w = (if deny w p \<or> files w p \<noteq> None \<or> links w p \<noteq> None then (False, w)
     else (True, w\<lparr>files := (files w)(p := Some [])\<rparr>))"

definition open_read :: "string \<Rightarrow> world \<Rightarrow> bytes option" where
  "open_read p w = (if deny w p then None else files w p)"

definition unlink :: "string \<Rightarrow> world \<Rightarrow> bool \<times> world" where
  "unlink p w = (if deny w p \<or> (files w p = None \<and> links w p = None) then (False, w)
     else (True, w\<lparr>files := (files w)(p := None), links := (links w)(p := None)\<rparr>))"

definition symlink :: "string \<Rightarrow> string \<Rightarrow> world \<Rightarrow> bool \<times> world" where
  "symlink target p w =
     (if \<not> can_link w \<or> deny w p \<or> files w p \<noteq> None \<or> links w p \<noteq> None then (False, w)
      else (True, w\<lparr>links := (links w)(p := Some target)\<rparr>))"

definition empty_world :: world where
  "empty_world = \<lparr>files = (\<lambda>_. None), links = (\<lambda>_. None), deny = (\<lambda>_. False), can_link = True\<rparr>"

section \<open>Concrete states\<close>

text \<open>
  A fork server over a given map, a queue entry as \<open>ck_alloc\<close> leaves it (all zero), and the
  all-zero fuzzer state: the starting points of the concrete instances in the theories below.
\<close>

definition example_fsrv :: "bytes \<Rightarrow> afl_forkserver" where
  "example_fsrv mem = \<lparr>trace_bits = mem, call_stack_file = None, crash_symbol = None,
     crash_module = None, crash_offset = 0, actual_counts = 0, exec_tmout = 1000,
     map_size = of_nat (length mem), real_map_size = of_nat (length mem), total_execs = 0,
     target_path = [0x2F, 0x74], use_stdin = True, out_file = None, fsrv_no_unlink = False,
     out_fd = Some [], out_fd_open = True, use_shmem_fuzz = False, shmem_fuzz = [], shmem_fuzz_len = 0,
     child_pid = - 1, last_run_timed_out = False, last_kill_signal = 0, child_kill_signal = 9,
     uses_asan = False, uses_crash_exitcode = False, crash_exitcode = 0\<rparr>"

lemma example_fsrv_simps [simp]:
  "trace_bits (example_fsrv mem) = mem" "actual_counts (example_fsrv mem) = 0"
  "map_size (example_fsrv mem) = of_nat (length mem)"
  "real_map_size (example_fsrv mem) = of_nat (length mem)"
  by (simp_all add: example_fsrv_def)

definition zero_entry :: queue_entry where
  "zero_entry = \<lparr>fname = [], q_len = 0, q_id = 0, cal_failed = 0, trim_done = False,
     was_fuzzed = False, passed_det = False, has_new_cov = False, var_behavior = False,
     favored = False, fs_redundant = False, is_ascii = False, disabled = False,
     bitmap_size = 0, fuzz_level = 0, n_fuzz_entry = 0, exec_us = 0, handicap = 0, depth = 0,
     exec_cksum = 0, trace_mini = None, tc_ref = 0, perf_score = 0, weight = 0,
     testcase_buf = None, mother = None\<rparr>"

definition zero_afl :: afl_cache where
  "zero_afl = \<lparr>rand_cnt = 0, fixed_seed = False, rand_seed0 = 0, rand_seed1 = 0, rand_seed2 = 0, init_seed = 0, urandom = [],
     fsrv = example_fsrv [], virgin_bits = [], virgin_tmout = [], virgin_crash = [],
     bitmap_changed = False, testcase_matrix = None, min_actual_cnts = 0, min_bitmap_size = 0,
     schedule = 0, non_instrumented_mode = False, cmplog_mode = False,
     custom_mutators_count = 0, syncing_party = None, out_dir = ''o'', map_tmp_buf = [], score_changed = False,
     n_fuzz = (\<lambda>_. 0), queue = None, queue_cur = None, queue_top = None, queue_buf = [],
     top_rated = [], queued_items = 0, active_items = 0, pending_not_fuzzed = 0,
     queued_favored = 0, pending_favored = 0, ready_for_splicing_count = 0, cur_depth = 0,
     max_depth = 0, cycles_wo_finds = 0, start_time = 0, last_find_time = 0,
     longest_find_time = 0, havoc_max_mult = 0, limit_time_sig = 0, total_cal_us = 0,
     total_cal_cycles = 0, total_bitmap_size = 0, total_bitmap_entries = 0,
     queued_discovered = 0, alias_probability = [], alias_table = [], reinit_table = False,
     q_testcase_max_cache_size = 0, q_testcase_max_cache_entries = 0, q_testcase_cache_size = 0,
     q_testcase_max_cache_count = 0, q_testcase_cache_count = 0, q_testcase_smallest_free = 0,
     q_testcase_evictions = 0, q_testcase_do_once = False, q_testcase_cache = []\<rparr>"

end
