(* ===== verification/Coverage.thy ===== *)
theory Coverage
  imports State
begin

text \<open>
  Coverage maps: the hit-count tables, the word-at-a-time routines of include/coverage-64.h
  and include/coverage-32.h, and the bitmap routines of src/afl-fuzz-bitmap.c built on them.

  The two headers and the \<open>#ifdef WORD_SIZE_64\<close> branches are one text written for two word
  types. A loop that only differs in that type is one definition, polymorphic in the word;
  what each header writes out on its own (\<open>classify_word\<close>, \<open>sum_word\<close>, \<open>discover_word\<close>)
  is one definition per header. A loop walks a pointer: its argument is the memory from the
  pointer on, and reading past its end is \<open>Oob\<close>.
\<close>

section \<open>Hit-count classes\<close>

definition simplify_lookup :: "u8 \<Rightarrow> u8" where
  "simplify_lookup b = (if b = 0 then 1 else 128)"

definition count_class_lookup8 :: "u8 \<Rightarrow> u8" where
  "count_class_lookup8 b =
     (if b = 0 then 0 else if b = 1 then 1 else if b = 2 then 2 else if b = 3 then 4
      else if b \<le> 7 then 8 else if b \<le> 15 then 16 else if b \<le> 31 then 32
      else if b \<le> 127 then 64 else 128)"

text \<open>\<open>init_count_class16\<close> fills the global 16-bit table from the 8-bit one.\<close>

definition class16_entry :: "nat \<Rightarrow> nat \<Rightarrow> u16" where
  "class16_entry b1 b2 =
     push_bit 8 (ucast (count_class_lookup8 (of_nat b1))) OR ucast (count_class_lookup8 (of_nat b2))"

definition init_count_class16 :: "u16 list \<Rightarrow> u16 list" where
  "init_count_class16 t =
     fold (\<lambda>b1 t. fold (\<lambda>b2 t. t[b1 * 256 + b2 := class16_entry b1 b2]) [0..<256] t) [0..<256] t"

definition count_class_lookup16 :: "u16 list" where
  "count_class_lookup16 = init_count_class16 (replicate 65536 0)"

section \<open>Word routines (coverage-64.h, coverage-32.h)\<close>

definition classify_word :: "u64 \<Rightarrow> u64" where
  "classify_word word =
     le_word (map (\<lambda>m. count_class_lookup16 ! unat m) (le_parts 4 word :: u16 list))"

definition classify_word_32 :: "u32 \<Rightarrow> u32" where
  "classify_word_32 word =
     le_word (map (\<lambda>m. count_class_lookup16 ! unat m) (le_parts 2 word :: u16 list))"

text \<open>
  \<open>sum_word\<close> adds the 16-bit halves as \<open>int\<close>; the 64-bit flavour returns an \<open>u32\<close>, the
  32-bit flavour truncates the sum to \<open>u16\<close> before the caller widens it again.
\<close>

definition sum_word :: "u64 \<Rightarrow> u32" where
  "sum_word word = sum_list (map ucast (le_parts 4 word :: u16 list))"

definition sum_word_32 :: "u32 \<Rightarrow> u16" where
  "sum_word_32 word = sum_list (le_parts 2 word :: u16 list)"

definition discover_word :: "u8 \<Rightarrow> u64 \<Rightarrow> u64 \<Rightarrow> u8 \<times> u64" where
  "discover_word ret current virgin =
     (if current AND virgin \<noteq> 0
      then (if ret < 2
            then (if \<exists>k \<in> {0..<8}. byte_of current k \<noteq> 0 \<and> byte_of virgin k = 0xff then 2 else 1)
            else ret, virgin AND NOT current)
      else (ret, virgin))"

definition discover_word_32 :: "u8 \<Rightarrow> u32 \<Rightarrow> u32 \<Rightarrow> u8 \<times> u32" where
  "discover_word_32 ret current virgin =
     (if current AND virgin \<noteq> 0
      then (if ret < 2
            then (if \<exists>k \<in> {0..<4}. byte_of current k \<noteq> 0 \<and> byte_of virgin k = 0xff then 2 else 1)
            else ret, virgin AND NOT current)
      else (ret, virgin))"

section \<open>Loops over the map\<close>

text \<open>\<open>simplify_trace\<close>: \<open>ones\<close> is the flavour's constant \<open>0x0101...\<close>.\<close>

fun simplify_loop :: "'w::len word \<Rightarrow> nat \<Rightarrow> bytes \<Rightarrow> bytes res" where
  "simplify_loop ones 0 mem = Inr mem"
| "simplify_loop ones (Suc i) mem =
     (let n = wbytes TYPE('w) in
      if length mem < n then Inl Oob
      else bnd (simplify_loop ones i (drop n mem)) (\<lambda>rest.
        Inr ((if (ldw mem :: 'w word) \<noteq> 0 then map simplify_lookup (take n mem) else le_bytes n ones)
             @ rest)))"

definition simplify_trace :: "('a) afl_cov_scheme \<Rightarrow> bytes \<Rightarrow> bytes res" where
  "simplify_trace afl mem =
     simplify_loop (0x0101010101010101 :: u64) (unat (drop_bit 3 (map_size (fsrv afl)))) mem"

definition simplify_trace_32 :: "('a) afl_cov_scheme \<Rightarrow> bytes \<Rightarrow> bytes res" where
  "simplify_trace_32 afl mem =
     simplify_loop (0x01010101 :: u32) (unat (drop_bit 2 (map_size (fsrv afl)))) mem"

fun classify_loop ::
  "('w::len word \<Rightarrow> 'w word) \<Rightarrow> ('w word \<Rightarrow> u64) \<Rightarrow> nat \<Rightarrow> bytes \<Rightarrow> u64 \<Rightarrow> (u64 \<times> bytes) res" where
  "classify_loop classify sumw 0 mem acc = Inr (acc, mem)"
| "classify_loop classify sumw (Suc i) mem acc =
     (let n = wbytes TYPE('w); w = (ldw mem :: 'w word) in
      if length mem < n then Inl Oob
      else bnd (classify_loop classify sumw i (drop n mem) (if w \<noteq> 0 then acc + sumw w else acc))
        (\<lambda>(acc', rest). Inr (acc', (if w \<noteq> 0 then le_bytes n (classify w) else take n mem) @ rest)))"

definition classify_counts :: "afl_forkserver \<Rightarrow> afl_forkserver res" where
  "classify_counts fs =
     bnd (classify_loop classify_word (\<lambda>w. ucast (sum_word w))
         (unat (drop_bit 3 (map_size fs))) (trace_bits fs) 0)
       (\<lambda>(acc, mem). Inr (fs\<lparr>trace_bits := mem, actual_counts := acc\<rparr>))"

definition classify_counts_32 :: "afl_forkserver \<Rightarrow> afl_forkserver res" where
  "classify_counts_32 fs =
     bnd (classify_loop classify_word_32 (\<lambda>w. ucast (sum_word_32 w))
         (unat (drop_bit 2 (map_size fs))) (trace_bits fs) 0)
       (\<lambda>(acc, mem). Inr (fs\<lparr>trace_bits := mem, actual_counts := acc\<rparr>))"

text \<open>
  \<open>skim\<close> (the portable version) walks both maps four words at a time up to \<open>current_end\<close>;
  \<open>current\<close> is the memory between the pointer and \<open>current_end\<close>.
\<close>

definition word_hit :: "('w::len word \<Rightarrow> 'w word) \<Rightarrow> bytes \<Rightarrow> bytes \<Rightarrow> nat \<Rightarrow> bool" where
  "word_hit classify virgin current k =
     (let n = wbytes TYPE('w); c = (ldw (drop (n * k) current) :: 'w word) in
      c \<noteq> 0 \<and> classify c AND ldw (drop (n * k) virgin) \<noteq> 0)"

function skim_loop :: "('w::len word \<Rightarrow> 'w word) \<Rightarrow> bytes \<Rightarrow> bytes \<Rightarrow> u32 res" where
  "skim_loop classify virgin current =
     (let n = wbytes TYPE('w) in
      if current = [] then Inr 0
      else if n = 0 \<or> length current < 4 * n \<or> length virgin < 4 * n then Inl Oob
      else if word_hit classify virgin current 0 then Inr 1
      else if word_hit classify virgin current 1 then Inr 1
      else if word_hit classify virgin current 2 then Inr 1
      else if word_hit classify virgin current 3 then Inr 1
      else skim_loop classify (drop (4 * n) virgin) (drop (4 * n) current))"
  by pat_completeness auto
termination
  by (relation "measure (\<lambda>(_, _, current). length current)") auto

declare skim_loop.simps [simp del]

definition skim :: "bytes \<Rightarrow> bytes \<Rightarrow> u32 res" where
  "skim virgin current = skim_loop classify_word virgin current"

definition skim_32 :: "bytes \<Rightarrow> bytes \<Rightarrow> u32 res" where
  "skim_32 virgin current = skim_loop classify_word_32 virgin current"

section \<open>The tables\<close>

lemma fold_update_length [simp]: "length (fold (\<lambda>k t. t[f k := g k]) ks t) = length t"
  by (induction ks arbitrary: t) auto

lemma fold_update_nth:
  "a + n \<le> length t \<Longrightarrow>
     fold (\<lambda>k t. t[a + k := g k]) [0..<n] t ! i = (if a \<le> i \<and> i < a + n then g (i - a) else t ! i)"
  by (induction n) (auto simp: nth_list_update less_Suc_eq)

lemma class16_rows:
  assumes "length t = 65536" "n \<le> 256"
  shows "length (fold (\<lambda>b1 t. fold (\<lambda>b2 t. t[b1 * 256 + b2 := class16_entry b1 b2]) [0..<256] t) [0..<n] t)
           = 65536 \<and>
         (\<forall>i < 65536. fold (\<lambda>b1 t. fold (\<lambda>b2 t. t[b1 * 256 + b2 := class16_entry b1 b2]) [0..<256] t) [0..<n] t ! i
           = (if i div 256 < n then class16_entry (i div 256) (i mod 256) else t ! i))"
  using assms(2)
proof (induction n)
  case 0
  then show ?case using assms by simp
next
  case (Suc n)
  let ?t = "fold (\<lambda>b1 t. fold (\<lambda>b2 t. t[b1 * 256 + b2 := class16_entry b1 b2]) [0..<256] t) [0..<n] t"
  have len: "length ?t = 65536" and bnd: "n * 256 + 256 \<le> 65536"
    using Suc by auto
  have row: "fold (\<lambda>b2 t. t[n * 256 + b2 := class16_entry n b2]) [0..<256] ?t ! i =
      (if i div 256 = n then class16_entry (i div 256) (i mod 256) else ?t ! i)" for i
  proof -
    have iff: "(n * 256 \<le> i \<and> i < n * 256 + 256) = (i div 256 = n)"
      by (auto simp: div_nat_eqI dest: less_mult_imp_div_less)
    have "fold (\<lambda>b2 t. t[n * 256 + b2 := class16_entry n b2]) [0..<256] ?t ! i =
      (if n * 256 \<le> i \<and> i < n * 256 + 256 then class16_entry n (i - n * 256) else ?t ! i)"
      by (rule fold_update_nth) (simp only: len bnd)
    then show ?thesis unfolding iff by (auto simp: minus_div_mult_eq_mod)
  qed
  show ?case
    using Suc len by (simp add: row)
qed

lemma length_count_class_lookup16 [simp]: "length count_class_lookup16 = 65536"
  using class16_rows [of "replicate 65536 0" 256]
  by (simp add: count_class_lookup16_def init_count_class16_def)

lemma count_class_lookup16_nth:
  "i < 65536 \<Longrightarrow> count_class_lookup16 ! i = class16_entry (i div 256) (i mod 256)"
  using class16_rows [of "replicate 65536 0" 256] less_mult_imp_div_less [of i 256 256]
  by (simp add: count_class_lookup16_def init_count_class16_def)

lemma class16_bytes:
  "count_class_lookup16 ! unat (m :: u16) = (le_word (map count_class_lookup8 (le_bytes 2 m)) :: u16)"
proof -
  have "unat m div 256 = drop_bit 8 (unat m)"
    by (simp add: drop_bit_eq_div)
  then have hi: "of_nat (unat m div 256) = byte_of m 1"
    by (intro bit_word_eqI) (simp add: bit_part_of bit_of_nat_iff bit_drop_bit_eq bit_unsigned_iff)
  have "unat m mod 256 = take_bit 8 (unat m)"
    by (simp add: take_bit_eq_mod)
  then have lo: "of_nat (unat m mod 256) = byte_of m 0"
    by (intro bit_word_eqI) (simp add: bit_part_of bit_of_nat_iff bit_take_bit_iff bit_unsigned_iff)
  have "unat m < 2 ^ LENGTH(16)" by (rule unsigned_less)
  then have "unat m < 65536" by simp
  then have "count_class_lookup16 ! unat m = class16_entry (unat m div 256) (unat m mod 256)"
    by (rule count_class_lookup16_nth)
  also have "\<dots> = le_word (map count_class_lookup8 (le_bytes 2 m))"
    by (simp add: class16_entry_def hi lo le_parts_def upt_rec or.commute)
  finally show ?thesis .
qed

section \<open>Word routines, byte by byte\<close>

lemma byte_of_half:
  assumes "j < 2"
  shows "byte_of (part_of w k :: u16) j = byte_of w (2 * k + j)"
proof (rule bit_word_eqI)
  fix n assume "n < LENGTH(8)"
  moreover have "16 * k + (8 * j + n) = 8 * (2 * k + j) + n" by simp
  moreover have "8 * j + n < 16" if "n < 8" using that assms by simp
  ultimately show "bit (byte_of (part_of w k :: u16) j) n = bit (byte_of w (2 * k + j)) n"
    using assms by (auto simp: bit_part_of add.assoc)
qed

lemma classify_halves:
  fixes w :: "'a::len word"
  assumes "LENGTH('a) = 16 * n"
  shows "(le_word (map (\<lambda>m. count_class_lookup16 ! unat m) (le_parts n w :: u16 list)) :: 'a word)
    = le_word (map count_class_lookup8 (le_bytes (2 * n) w))"
proof (rule bit_word_eqI)
  fix i assume i: "i < LENGTH('a)"
  define h where "h = i div 16"
  define r where "r = i mod 16"
  have h: "h < n" and b: "i div 8 < 2 * n" using i assms unfolding h_def by linarith+
  have i_eq: "i = 8 * (2 * h) + r" unfolding h_def r_def by simp
  have r1: "r div 8 < 2" by (simp add: r_def)
  have r2: "r mod 8 = i mod 8" by (simp only: i_eq mod_mult_self4)
  have r3: "2 * h + r div 8 = i div 8" by (simp only: i_eq div_mult_self4)
  have "bit (le_word (map (\<lambda>m. count_class_lookup16 ! unat m) (le_parts n w :: u16 list)) :: 'a word) i
    \<longleftrightarrow> bit (le_word (map count_class_lookup8 (le_bytes 2 (part_of w h :: u16))) :: u16) r"
    using i h by (simp add: bit_le_word class16_bytes flip: h_def r_def)
  also have "\<dots> \<longleftrightarrow> bit (count_class_lookup8 (byte_of (part_of w h :: u16) (r div 8))) (r mod 8)"
    using r1 by (simp add: bit_le_word r_def)
  also have "\<dots> \<longleftrightarrow> bit (count_class_lookup8 (byte_of w (i div 8))) (i mod 8)"
    by (simp only: byte_of_half [OF r1] r2 r3)
  also have "\<dots> \<longleftrightarrow> bit (le_word (map count_class_lookup8 (le_bytes (2 * n) w)) :: 'a word) i"
    using i b by (simp add: bit_le_word)
  finally show "bit (le_word (map (\<lambda>m. count_class_lookup16 ! unat m) (le_parts n w :: u16 list)) :: 'a word) i
    = bit (le_word (map count_class_lookup8 (le_bytes (2 * n) w)) :: 'a word) i" .
qed

lemma classify_word_bytes:
  "length bs = 8 \<Longrightarrow> classify_word (le_word bs) = le_word (map count_class_lookup8 bs)"
  using le_parts_le_word [where 'a = 64, of bs]
  by (simp add: classify_word_def classify_halves)

lemma classify_word_32_bytes:
  "length bs = 4 \<Longrightarrow> classify_word_32 (le_word bs) = le_word (map count_class_lookup8 bs)"
  using le_parts_le_word [where 'a = 32, of bs]
  by (simp add: classify_word_32_def classify_halves)

lemma discover_aux:
  fixes cs vs :: bytes
  assumes "length cs = length vs" "LENGTH('a::len) = 8 * length vs"
  shows "(le_word cs :: 'a word) AND le_word vs \<noteq> 0 \<longleftrightarrow> (\<exists>k < length vs. cs ! k AND vs ! k \<noteq> 0)"
    and "(le_word vs :: 'a word) AND NOT (le_word cs) = le_word (map2 (\<lambda>c v. v AND NOT c) cs vs)"
    and "(le_word cs :: 'a word) AND le_word vs = 0 \<Longrightarrow>
         (le_word vs :: 'a word) = le_word (map2 (\<lambda>c v. v AND NOT c) cs vs)"
proof -
  show and0: "(le_word cs :: 'a word) AND le_word vs \<noteq> 0 \<longleftrightarrow> (\<exists>k < length vs. cs ! k AND vs ! k \<noteq> 0)"
    using le_word_eq_0_iff [where 'a = 'a and 'c = 8, of "map2 (AND) cs vs"] assms
    by (auto simp: le_word_and set_zip)
  have swap: "map2 (\<lambda>b c. b AND NOT c) vs cs = map2 (\<lambda>c v. v AND NOT c) cs vs"
    by (intro nth_equalityI) (auto simp: assms)
  show "(le_word vs :: 'a word) AND NOT (le_word cs) = le_word (map2 (\<lambda>c v. v AND NOT c) cs vs)"
    using assms by (simp add: le_word_and_not swap)
  assume "(le_word cs :: 'a word) AND le_word vs = 0"
  then have z: "cs ! k AND vs ! k = 0" if "k < length vs" for k
    using and0 that by auto
  have "vs ! k AND NOT (cs ! k) = vs ! k" if "k < length vs" for k
    using z [OF that] by (auto simp: bit_eq_iff bit_simps)
  then show "(le_word vs :: 'a word) = le_word (map2 (\<lambda>c v. v AND NOT c) cs vs)"
    by (intro arg_cong [where f = le_word] nth_equalityI) (auto simp: assms)
qed
section \<open>The interface both flavours provide\<close>

text \<open>What \<open>discover_word\<close> does to a run of bytes, in terms of the bytes alone.\<close>

definition news :: "u8 \<Rightarrow> bytes \<Rightarrow> bytes \<Rightarrow> u8" where
  "news ret cs vs =
     (if ret < 2 \<and> (\<exists>k < length vs. cs ! k AND vs ! k \<noteq> 0)
      then (if \<exists>k < length vs. cs ! k \<noteq> 0 \<and> vs ! k = 0xff then 2 else 1) else ret)"

abbreviation clear_seen :: "bytes \<Rightarrow> bytes \<Rightarrow> bytes" where
  "clear_seen cs vs \<equiv> map2 (\<lambda>c v. v AND NOT c) cs vs"

lemma discover_word_bytes:
  assumes "length cs = 8" "length vs = 8"
  shows "discover_word ret (le_word cs) (le_word vs) = (news ret cs vs, le_word (clear_seen cs vs))"
proof -
  have "(\<exists>k \<in> {0..<8}. byte_of (le_word cs :: u64) k \<noteq> 0 \<and> byte_of (le_word vs :: u64) k = 0xff)
    \<longleftrightarrow> (\<exists>k < length vs. cs ! k \<noteq> 0 \<and> vs ! k = 0xff)"
    using assms by (auto simp: part_of_le_word)
  then show ?thesis
    unfolding discover_word_def news_def
    using discover_aux [of cs vs, where 'a = 64] assms by auto
qed

lemma discover_word_32_bytes:
  assumes "length cs = 4" "length vs = 4"
  shows "discover_word_32 ret (le_word cs) (le_word vs) = (news ret cs vs, le_word (clear_seen cs vs))"
proof -
  have "(\<exists>k \<in> {0..<4}. byte_of (le_word cs :: u32) k \<noteq> 0 \<and> byte_of (le_word vs :: u32) k = 0xff)
    \<longleftrightarrow> (\<exists>k < length vs. cs ! k \<noteq> 0 \<and> vs ! k = 0xff)"
    using assms by (auto simp: part_of_le_word)
  then show ?thesis
    unfolding discover_word_32_def news_def
    using discover_aux [of cs vs, where 'a = 32] assms by auto
qed

lemma count_class_lookup8_0 [simp]: "count_class_lookup8 0 = 0"
  by (simp add: count_class_lookup8_def)

locale coverage_word =
  fixes n :: nat
    and classify :: "'w::len word \<Rightarrow> 'w word"
    and discover :: "u8 \<Rightarrow> 'w word \<Rightarrow> 'w word \<Rightarrow> u8 \<times> 'w word"
  assumes width: "LENGTH('w) = 8 * n"
    and classify_bytes: "\<And>bs. length bs = n \<Longrightarrow>
      classify (le_word bs) = le_word (map count_class_lookup8 bs)"
    and discover_bytes: "\<And>cs vs ret. length cs = n \<Longrightarrow> length vs = n \<Longrightarrow>
      discover ret (le_word cs) (le_word vs) = (news ret cs vs, le_word (clear_seen cs vs))"
begin

lemma wbytes_n [simp]: "wbytes TYPE('w) = n"
  by (simp add: wbytes_def width)

lemma n_pos: "0 < n"
  using width len_gt_0 [where 'a = 'w] by (cases n) auto

lemma ldw_eq: "(ldw mem :: 'w word) = le_word (take n mem)"
  by (simp add: ldw_def)

lemma le_bytes_n: "length bs = n \<Longrightarrow> le_bytes n (le_word bs :: 'w word) = bs"
  using le_parts_le_word [where 'a = 'w, of bs] by (simp add: width)

lemma word_zero: "length (bs :: bytes) = n \<Longrightarrow> (le_word bs :: 'w word) = 0 \<longleftrightarrow> (\<forall>b \<in> set bs. b = 0)"
  by (simp add: le_word_eq_0_iff width)

lemma simplify_loop_bytes:
  assumes ones: "le_bytes n (ones :: 'w word) = replicate n 1"
  shows "n * i \<le> length mem \<Longrightarrow>
    simplify_loop ones i mem = Inr (map simplify_lookup (take (n * i) mem) @ drop (n * i) mem)"
proof (induction i arbitrary: mem)
  case 0
  then show ?case by simp
next
  case (Suc i)
  have chunk: "(if (ldw mem :: 'w word) \<noteq> 0 then map simplify_lookup (take n mem) else le_bytes n ones)
    = map simplify_lookup (take n mem)"
  proof (cases "(ldw mem :: 'w word) = 0")
    case True
    then have "\<forall>b \<in> set (take n mem). b = 0"
      using Suc.prems by (simp add: ldw_eq word_zero)
    then have "map simplify_lookup (take n mem) = replicate n 1"
      using Suc.prems by (intro replicate_eqI) (auto simp: simplify_lookup_def)
    with True show ?thesis by (simp add: ones)
  qed simp
  have "simplify_loop ones i (drop n mem) =
    Inr (map simplify_lookup (take (n * i) (drop n mem)) @ drop (n * i) (drop n mem))"
    using Suc.prems by (intro Suc.IH) simp
  then show ?case
    using Suc.prems by (simp add: chunk Let_def take_add add.commute)
qed

lemma classify_loop_bytes:
  assumes sum0: "sumw 0 = 0"
  shows "n * i \<le> length mem \<Longrightarrow>
    classify_loop classify sumw i mem acc =
      Inr (acc + (\<Sum>j<i. sumw (ldw (drop (n * j) mem))),
           map count_class_lookup8 (take (n * i) mem) @ drop (n * i) mem)"
proof (induction i arbitrary: mem acc)
  case 0
  then show ?case by simp
next
  case (Suc i)
  let ?w = "ldw mem :: 'w word"
  have len: "length (take n mem) = n" using Suc.prems by simp
  have chunk: "(if ?w \<noteq> 0 then le_bytes n (classify ?w) else take n mem)
    = map count_class_lookup8 (take n mem)"
  proof (cases "?w = 0")
    case True
    then have "\<forall>b \<in> set (take n mem). b = 0"
      using len by (simp add: ldw_eq word_zero)
    then have "map count_class_lookup8 (take n mem) = take n mem"
      by (intro map_idI) auto
    with True show ?thesis by simp
  next
    case False
    then show ?thesis using len by (simp add: ldw_eq classify_bytes le_bytes_n)
  qed
  have acc: "(if ?w \<noteq> 0 then acc + sumw ?w else acc) = acc + sumw ?w"
    by (simp add: sum0)
  have "classify_loop classify sumw i (drop n mem) (acc + sumw ?w) =
    Inr (acc + sumw ?w + (\<Sum>j<i. sumw (ldw (drop (n * j) (drop n mem)))),
         map count_class_lookup8 (take (n * i) (drop n mem)) @ drop (n * i) (drop n mem))"
    using Suc.prems by (intro Suc.IH) simp
  moreover have "acc + sumw ?w + (\<Sum>j<i. sumw (ldw (drop (n * j) (drop n mem))))
    = acc + (\<Sum>j<Suc i. sumw (ldw (drop (n * j) mem)))"
    by (subst sum.lessThan_Suc_shift) (simp add: add.assoc add.commute [of n])
  ultimately show ?case
    using Suc.prems by (simp add: chunk acc Let_def take_add add.commute)
qed

lemma word_hit_iff:
  assumes "n * k + n \<le> length current" "n * k + n \<le> length virgin"
  shows "word_hit classify virgin current k \<longleftrightarrow>
    (\<exists>j < n. count_class_lookup8 (current ! (n * k + j)) AND virgin ! (n * k + j) \<noteq> 0)"
proof -
  define cs where "cs = take n (drop (n * k) current)"
  define vs where "vs = take n (drop (n * k) virgin)"
  have len: "length cs = n" "length vs = n" using assms by (simp_all add: cs_def vs_def)
  have nth: "cs ! j = current ! (n * k + j)" "vs ! j = virgin ! (n * k + j)" if "j < n" for j
    using that assms by (simp_all add: cs_def vs_def)
  have "classify (le_word cs) AND le_word vs
    = (le_word (map2 (AND) (map count_class_lookup8 cs) vs) :: 'w word)"
    using len by (simp add: classify_bytes le_word_and)
  then have hit: "classify (le_word cs) AND le_word vs \<noteq> 0 \<longleftrightarrow>
    (\<exists>j < n. count_class_lookup8 (cs ! j) AND vs ! j \<noteq> 0)"
    using word_zero [of "map2 (AND) (map count_class_lookup8 cs) vs"]
      ball_map2_nth [of "map count_class_lookup8 cs" vs "(AND)" "\<lambda>b. b = 0"] len
    by simp
  have "(le_word cs :: 'w word) = 0 \<Longrightarrow> classify (le_word cs) AND le_word vs = 0"
    using word_zero [OF len(1)] hit len by (auto simp: all_set_conv_all_nth)
  then show ?thesis
    using hit nth by (auto simp: word_hit_def Let_def ldw_eq simp flip: cs_def vs_def)
qed

lemma skim_loop_bytes:
  "length current = 4 * n * m \<Longrightarrow> length current \<le> length virgin \<Longrightarrow>
     skim_loop classify virgin current =
       Inr (if \<exists>k < length current. count_class_lookup8 (current ! k) AND virgin ! k \<noteq> 0 then 1 else 0)"
proof (induction m arbitrary: virgin current)
  case 0
  then show ?case by (simp add: skim_loop.simps)
next
  case (Suc m)
  let ?hit = "\<lambda>k. count_class_lookup8 (current ! k) AND virgin ! k \<noteq> 0"
  have hits: "word_hit classify virgin current k \<longleftrightarrow> (\<exists>j < n. ?hit (n * k + j))" if "k < 4" for k
  proof (rule word_hit_iff)
    have "n * Suc k \<le> n * 4" using that by (intro mult_le_mono2) simp
    then have "n * k + n \<le> 4 * n" by simp
    moreover have "4 * n \<le> length current" using Suc.prems by simp
    ultimately show "n * k + n \<le> length current" "n * k + n \<le> length virgin"
      using Suc.prems by linarith+
  qed
  have step: "skim_loop classify (drop (4 * n) virgin) (drop (4 * n) current) =
    Inr (if \<exists>k < length (drop (4 * n) current).
      count_class_lookup8 (drop (4 * n) current ! k) AND drop (4 * n) virgin ! k \<noteq> 0 then 1 else 0)"
    using Suc.prems by (intro Suc.IH) auto
  have rest: "(\<exists>k < length (drop (4 * n) current).
      count_class_lookup8 (drop (4 * n) current ! k) AND drop (4 * n) virgin ! k \<noteq> 0)
    \<longleftrightarrow> (\<exists>k. 4 * n \<le> k \<and> k < length current \<and> ?hit k)"
    using Suc.prems by (simp add: ex_nat_shift)
  have low: "(\<exists>k. k < 4 * n \<and> ?hit k) \<longleftrightarrow> (\<exists>k < 4. word_hit classify virgin current k)"
  proof
    assume "\<exists>k. k < 4 * n \<and> ?hit k"
    then obtain k where k: "k < 4 * n" "?hit k" by blast
    then have "k div n < 4" "k mod n < n" "k = n * (k div n) + k mod n"
      using n_pos by (auto simp: less_mult_imp_div_less)
    with k(2) hits show "\<exists>k < 4. word_hit classify virgin current k" by metis
  next
    assume "\<exists>k < 4. word_hit classify virgin current k"
    then obtain k j where kj: "k < 4" "j < n" "?hit (n * k + j)" using hits by blast
    have "n * k + j < n * Suc k" using kj by simp
    also have "\<dots> \<le> n * 4" using kj by (intro mult_le_mono2) simp
    finally show "\<exists>k. k < 4 * n \<and> ?hit k" using kj by (auto simp: mult.commute)
  qed
  have len: "current \<noteq> []" "4 * n \<le> length current" "4 * n \<le> length virgin"
    using Suc.prems n_pos by auto
  have split: "(\<exists>k < length current. ?hit k) \<longleftrightarrow>
    (\<exists>k. k < 4 * n \<and> ?hit k) \<or> (\<exists>k. 4 * n \<le> k \<and> k < length current \<and> ?hit k)"
    using len by (metis not_le order_less_le_trans)
  have four: "(\<exists>k < 4. word_hit classify virgin current k) \<longleftrightarrow>
    word_hit classify virgin current 0 \<or> word_hit classify virgin current 1 \<or>
    word_hit classify virgin current 2 \<or> word_hit classify virgin current 3"
    by (auto simp: less_Suc_eq numeral_eq_Suc)
  show ?case
    unfolding skim_loop.simps [of classify virgin current] split low four
    using len n_pos by (simp add: Let_def step [unfolded rest])
qed

end

interpretation w64: coverage_word 8 classify_word discover_word
  by unfold_locales (simp_all add: classify_word_bytes discover_word_bytes)

interpretation w32: coverage_word 4 classify_word_32 discover_word_32
  by unfold_locales (simp_all add: classify_word_32_bytes discover_word_32_bytes)


section \<open>What the routines compute\<close>

text \<open>
  Well-formed maps, as the fork server handshake leaves them: \<open>map_size\<close> is \<open>real_map_size\<close>
  rounded up to a multiple of 64 and at most \<open>1 << 29\<close> (\<open>get_map_size\<close>, src/afl-common.c).
\<close>

definition map_wf :: "afl_forkserver \<Rightarrow> bool" where
  "map_wf fs \<longleftrightarrow> length (trace_bits fs) = unat (map_size fs) \<and> unat (map_size fs) mod 64 = 0 \<and>
     unat (real_map_size fs) \<le> unat (map_size fs) \<and> unat (map_size fs) \<le> 2 ^ 29"

lemma map_wf_words64:
  assumes "map_wf fs"
  shows "8 * unat (drop_bit 3 (map_size fs)) = unat (map_size fs)"
    and "unat (drop_bit 3 (real_map_size fs + 7)) = (unat (real_map_size fs) + 7) div 8"
    and "8 * unat (drop_bit 3 (real_map_size fs + 7)) \<le> unat (map_size fs)"
proof -
  have "unat (map_size fs) mod 8 = 0"
    using assms mod_mod_cancel [of 8 64 "unat (map_size fs)"] by (simp add: map_wf_def)
  then show "8 * unat (drop_bit 3 (map_size fs)) = unat (map_size fs)"
    unfolding unat_drop_bit by (auto simp: mod_eq_0_iff_dvd)
  have "unat (real_map_size fs + 7) = unat (real_map_size fs) + 7"
    using assms by (simp add: map_wf_def unat_add_lem [THEN iffD1])
  then show real: "unat (drop_bit 3 (real_map_size fs + 7)) = (unat (real_map_size fs) + 7) div 8"
    by (simp add: unat_drop_bit)
  show "8 * unat (drop_bit 3 (real_map_size fs + 7)) \<le> unat (map_size fs)"
  proof -
    have "unat (real_map_size fs) \<le> unat (map_size fs)" using assms by (simp add: map_wf_def)
    with \<open>unat (map_size fs) mod 8 = 0\<close> show ?thesis unfolding real by presburger
  qed
qed

lemma map_wf_words32:
  assumes "map_wf fs"
  shows "4 * unat (drop_bit 2 (map_size fs)) = unat (map_size fs)"
    and "unat (drop_bit 2 (real_map_size fs + 3)) = (unat (real_map_size fs) + 3) div 4"
    and "4 * unat (drop_bit 2 (real_map_size fs + 3)) \<le> unat (map_size fs)"
proof -
  have "unat (map_size fs) mod 4 = 0"
    using assms mod_mod_cancel [of 4 64 "unat (map_size fs)"] by (simp add: map_wf_def)
  then show "4 * unat (drop_bit 2 (map_size fs)) = unat (map_size fs)"
    unfolding unat_drop_bit by (auto simp: mod_eq_0_iff_dvd)
  have "unat (real_map_size fs + 3) = unat (real_map_size fs) + 3"
    using assms by (simp add: map_wf_def unat_add_lem [THEN iffD1])
  then show real: "unat (drop_bit 2 (real_map_size fs + 3)) = (unat (real_map_size fs) + 3) div 4"
    by (simp add: unat_drop_bit)
  show "4 * unat (drop_bit 2 (real_map_size fs + 3)) \<le> unat (map_size fs)"
  proof -
    have "unat (real_map_size fs) \<le> unat (map_size fs)" using assms by (simp add: map_wf_def)
    with \<open>unat (map_size fs) mod 4 = 0\<close> show ?thesis unfolding real by presburger
  qed
qed

text \<open>
  The number \<open>classify_counts\<close> leaves in \<open>actual_counts\<close>: the bytes at odd offsets weigh
  256, because \<open>sum_word\<close> adds 16-bit halves of the map.
\<close>

fun weighted_hits :: "bytes \<Rightarrow> nat" where
  "weighted_hits [] = 0"
| "weighted_hits [b] = unat b"
| "weighted_hits (b # c # bs) = unat b + 256 * unat c + weighted_hits bs"

lemma weighted_hits_append:
  "even (length bs) \<Longrightarrow> weighted_hits (bs @ cs) = weighted_hits bs + weighted_hits cs"
  by (induction bs rule: weighted_hits.induct) auto

lemma half_le_word: "(part_of w k :: u16) = le_word [byte_of w (2 * k), byte_of w (2 * k + 1)]"
  using le_word_le_parts [where 'a = 16 and 'c = 8 and n = 2 and w = "part_of w k"]
    byte_of_half [of 0 w k] byte_of_half [of 1 w k]
  by (simp add: le_parts_def upt_rec)

lemma unat_half: "unat (part_of w k :: u16) = unat (byte_of w (2 * k)) + 256 * unat (byte_of w (2 * k + 1))"
  unfolding half_le_word
  by (subst unat_le_word_Cons, simp, subst unat_le_word_Cons, simp, simp)

lemma sum_word_weighted:
  assumes "length bs = 8"
  shows "unat (sum_word (le_word bs)) = weighted_hits bs"
proof -
  let ?w = "le_word bs :: u64"
  let ?h = "\<lambda>k. unat (part_of ?w k :: u16)"
  have lt: "?h k < 65536" for k
    using unsigned_less [of "part_of ?w k :: u16", where ?'a = nat] by simp
  define N where "N = ?h 0 + ?h 1 + ?h 2 + ?h 3"
  have "sum_word ?w = of_nat N"
    by (simp add: N_def sum_word_def le_parts_def upt_rec numeral_eq_Suc add.assoc)
  moreover have "N < 2 ^ LENGTH(32)"
    using lt [of 0] lt [of 1] lt [of 2] lt [of 3] unfolding N_def by simp
  ultimately have "unat (sum_word ?w) = ?h 0 + ?h 1 + ?h 2 + ?h 3"
    unfolding N_def by (simp only: unat_of_nat_small)
  moreover obtain b0 b1 b2 b3 b4 b5 b6 b7 where bs: "bs = [b0, b1, b2, b3, b4, b5, b6, b7]"
    using assms by (auto simp: numeral_eq_Suc length_Suc_conv)
  moreover have "byte_of ?w k = bs ! k" if "k < 8" for k
    using that assms by (simp add: part_of_le_word)
  ultimately show ?thesis
    by (simp add: unat_half)
qed

lemma sum_words_weighted:
  "8 * i \<le> length mem \<Longrightarrow>
     (\<Sum>j<i. ucast (sum_word (ldw (drop (8 * j) mem))) :: u64) = of_nat (weighted_hits (take (8 * i) mem))"
proof (induction i)
  case 0
  then show ?case by simp
next
  case (Suc i)
  let ?bs = "take 8 (drop (8 * i) mem)"
  have split: "take (8 * Suc i) mem = take (8 * i) mem @ ?bs"
    using take_add [of "8 * i" 8 mem] by (simp add: add.commute)
  have "(ucast (sum_word (ldw (drop (8 * i) mem))) :: u64) = of_nat (unat (sum_word (le_word ?bs)))"
    by (simp add: ldw_def)
  also have "\<dots> = of_nat (weighted_hits ?bs)"
    using Suc.prems by (subst sum_word_weighted) simp_all
  finally show ?case
    using Suc unfolding split by (subst weighted_hits_append) simp_all
qed

lemma sum_word_0 [simp]: "sum_word 0 = 0" "sum_word_32 0 = 0"
  by (simp_all add: sum_word_def sum_word_32_def le_parts_def part_of_def upt_rec)

text \<open>Both flavours over a whole well-formed map.\<close>

lemma classify_counts_map:
  assumes "map_wf fs"
  shows "classify_counts fs = Inr (fs\<lparr>trace_bits := map count_class_lookup8 (trace_bits fs),
    actual_counts := of_nat (weighted_hits (trace_bits fs))\<rparr>)"
  using w64.classify_loop_bytes [of "\<lambda>w. ucast (sum_word w)" "unat (drop_bit 3 (map_size fs))"
      "trace_bits fs" 0] sum_words_weighted [of "unat (drop_bit 3 (map_size fs))" "trace_bits fs"]
    map_wf_words64(1) [OF assms] assms
  by (simp add: classify_counts_def map_wf_def)

lemma classify_counts_32_map:
  assumes "map_wf fs"
  shows "\<exists>n. classify_counts_32 fs =
    Inr (fs\<lparr>trace_bits := map count_class_lookup8 (trace_bits fs), actual_counts := n\<rparr>)"
  using w32.classify_loop_bytes [of "\<lambda>w. ucast (sum_word_32 w)" "unat (drop_bit 2 (map_size fs))"
      "trace_bits fs" 0] map_wf_words32(1) [OF assms] assms
  by (simp add: classify_counts_32_def map_wf_def) (rule exI, rule refl)

lemma simplify_trace_map:
  assumes "map_wf (fsrv afl)" and "length mem = unat (map_size (fsrv afl))"
  shows "simplify_trace afl mem = Inr (map simplify_lookup mem)"
    and "simplify_trace_32 afl mem = Inr (map simplify_lookup mem)"
proof -
  have "le_bytes 8 (0x0101010101010101 :: u64) = replicate 8 1" by code_simp
  from w64.simplify_loop_bytes [OF this, of "unat (drop_bit 3 (map_size (fsrv afl)))" mem]
  show "simplify_trace afl mem = Inr (map simplify_lookup mem)"
    using assms map_wf_words64(1) [OF assms(1)] by (simp add: simplify_trace_def)
  have "le_bytes 4 (0x01010101 :: u32) = replicate 4 1" by code_simp
  from w32.simplify_loop_bytes [OF this, of "unat (drop_bit 2 (map_size (fsrv afl)))" mem]
  show "simplify_trace_32 afl mem = Inr (map simplify_lookup mem)"
    using assms map_wf_words32(1) [OF assms(1)] by (simp add: simplify_trace_32_def)
qed

section \<open>Properties\<close>

lemma map_wf_example: "length mem = 64 \<Longrightarrow> map_wf (example_fsrv mem)"
  by (simp add: map_wf_def)

text \<open>C23. \<open>classify_counts\<close>, which looks counts up 16 bits at a time and skips all-zero words,
  replaces every byte of the trace by its hit-count class (the 8-bit table), never leaves the
  map, and sets \<open>actual_counts\<close> to the position-weighted sum of the raw counts.\<close>

theorem classify_counts_correct:
  assumes "map_wf fs"
  shows "classify_counts fs = Inr (fs\<lparr>trace_bits := map count_class_lookup8 (trace_bits fs),
    actual_counts := of_nat (weighted_hits (trace_bits fs))\<rparr>)"
  using assms by (rule classify_counts_map)

theorem classify_counts_correct_witness:
  "\<exists>fs'. classify_counts (example_fsrv ([5, 1, 0, 200] @ replicate 60 0)) = Inr fs' \<and>
     trace_bits fs' = [8, 1, 0, 128] @ replicate 60 0 \<and> actual_counts fs' = 5 + 256 * 1 + 256 * 200"
proof -
  have len: "length ([5, 1, 0, 200] @ replicate 60 (0 :: u8)) = 64" by simp
  have "weighted_hits (concat (replicate m [0, 0])) = 0" for m
    by (induction m) auto
  moreover have "replicate 60 (0 :: u8) = concat (replicate 30 [0, 0])"
    by (simp add: numeral_eq_Suc)
  ultimately have "weighted_hits ([5, 1, 0, 200] @ replicate 60 0) = 51461" by simp
  then show ?thesis
    using classify_counts_correct [OF map_wf_example [OF len]]
    by (simp add: count_class_lookup8_def)
qed

text \<open>The 32-bit flavour of \<open>classify_counts\<close> classifies every map exactly as the 64-bit
  flavour does.\<close>

theorem classify_counts_flavours_agree:
  assumes "map_wf fs"
  shows "map_sum id trace_bits (classify_counts_32 fs) = map_sum id trace_bits (classify_counts fs)"
  using classify_counts_map [OF assms] classify_counts_32_map [OF assms] by auto

theorem classify_counts_flavours_agree_witness:
  "map_sum id trace_bits (classify_counts_32 (example_fsrv (5 # replicate 63 0)))
     = map_sum id trace_bits (classify_counts (example_fsrv (5 # replicate 63 0)))"
  by (rule classify_counts_flavours_agree) (simp add: map_wf_example)

text \<open>\<open>simplify_trace\<close>, in both flavours, maps untouched bytes to 1 and touched ones to 128
  over the whole map.\<close>

theorem simplify_trace_correct:
  assumes "map_wf (fsrv afl)" and "length mem = unat (map_size (fsrv afl))"
  shows "simplify_trace afl mem = Inr (map simplify_lookup mem) \<and>
    simplify_trace_32 afl mem = Inr (map simplify_lookup mem)"
  using simplify_trace_map [OF assms] by simp

theorem simplify_trace_correct_witness:
  "simplify_trace (zero_afl\<lparr>fsrv := example_fsrv (replicate 64 0)\<rparr>) (5 # replicate 63 0)
    = Inr (128 # replicate 63 1)"
  using simplify_trace_correct [of "zero_afl\<lparr>fsrv := example_fsrv (replicate 64 0)\<rparr>" "5 # replicate 63 0"]
  by (simp add: map_wf_example simplify_lookup_def)

end
