(* ===== verification/Counting.thy ===== *)
theory Counting
  imports Coverage
begin

text \<open>
  \<open>count_bits\<close>, \<open>count_bytes\<close> and \<open>count_non_255_bytes\<close> of src/afl-fuzz-bitmap.c, which read
  a map four bytes at a time, and the proof that they count bits and bytes.
\<close>

section \<open>Counting\<close>

definition popcount32_swar :: "u32 \<Rightarrow> u32" where
  "popcount32_swar v0 =
     (let v1 = v0 - (drop_bit 1 v0 AND 0x55555555);
          v2 = (v1 AND 0x33333333) + (drop_bit 2 v1 AND 0x33333333)
      in drop_bit 24 (((v2 + drop_bit 4 v2) AND 0x0F0F0F0F) * 0x01010101))"

fun count_bits_loop :: "nat \<Rightarrow> bytes \<Rightarrow> u32 \<Rightarrow> u32 res" where
  "count_bits_loop 0 ptr ret = Inr ret"
| "count_bits_loop (Suc i) ptr ret =
     (if length ptr < 4 then Inl Oob
      else let v = (ldw ptr :: u32) in
        if v = 0xffffffff then count_bits_loop i (drop 4 ptr) (ret + 32)
        else count_bits_loop i (drop 4 ptr) (ret + popcount32_swar v))"

fun count_bytes_loop :: "nat \<Rightarrow> bytes \<Rightarrow> u32 \<Rightarrow> u32 res" where
  "count_bytes_loop 0 ptr ret = Inr ret"
| "count_bytes_loop (Suc i) ptr ret =
     (if length ptr < 4 then Inl Oob
      else let v = (ldw ptr :: u32) in
        if v = 0 then count_bytes_loop i (drop 4 ptr) ret
        else count_bytes_loop i (drop 4 ptr)
          (ret + (if v AND 0x000000ff \<noteq> 0 then 1 else 0) + (if v AND 0x0000ff00 \<noteq> 0 then 1 else 0)
               + (if v AND 0x00ff0000 \<noteq> 0 then 1 else 0) + (if v AND 0xff000000 \<noteq> 0 then 1 else 0)))"

fun count_non_255_loop :: "nat \<Rightarrow> bytes \<Rightarrow> u32 \<Rightarrow> u32 res" where
  "count_non_255_loop 0 ptr ret = Inr ret"
| "count_non_255_loop (Suc i) ptr ret =
     (if length ptr < 4 then Inl Oob
      else let v = (ldw ptr :: u32) in
        if v = 0xffffffff then count_non_255_loop i (drop 4 ptr) ret
        else count_non_255_loop i (drop 4 ptr)
          (ret + (if v AND 0x000000ff \<noteq> 0x000000ff then 1 else 0)
               + (if v AND 0x0000ff00 \<noteq> 0x0000ff00 then 1 else 0)
               + (if v AND 0x00ff0000 \<noteq> 0x00ff0000 then 1 else 0)
               + (if v AND 0xff000000 \<noteq> 0xff000000 then 1 else 0)))"

text \<open>The number of 4-byte words the three counters visit.\<close>

definition words32 :: "('a) afl_cov_scheme \<Rightarrow> nat" where
  "words32 afl = unat (drop_bit 2 (real_map_size (fsrv afl) + 3))"

definition count_bits :: "('a) afl_cov_scheme \<Rightarrow> bytes \<Rightarrow> u32 res" where
  "count_bits afl mem = count_bits_loop (words32 afl) mem 0"

definition count_bytes :: "('a) afl_cov_scheme \<Rightarrow> bytes \<Rightarrow> u32 res" where
  "count_bytes afl mem = count_bytes_loop (words32 afl) mem 0"

definition count_non_255_bytes :: "('a) afl_cov_scheme \<Rightarrow> bytes \<Rightarrow> u32 res" where
  "count_non_255_bytes afl mem = count_non_255_loop (words32 afl) mem 0"

section \<open>Population count\<close>

definition popcount :: "'a::len word \<Rightarrow> nat" where
  "popcount w = length (filter (bit w) [0..<LENGTH('a)])"

lemma popcount_card: "popcount w = card {n. bit w n}"
proof -
  have "set (filter (bit w) [0..<LENGTH('a)]) = {n. bit w n}"
    by (auto dest: bit_imp_le_length)
  then show ?thesis
    using distinct_card [of "filter (bit w) [0..<LENGTH('a)]"] unfolding popcount_def by simp
qed

lemma finite_bits: "finite {n. bit (w :: 'a::len word) n}"
  by (rule finite_subset [of _ "{..<LENGTH('a)}"]) (auto dest: bit_imp_le_length)

lemma popcount_le_word:
  "LENGTH('c::len) * length bs \<le> LENGTH('a::len) \<Longrightarrow>
     popcount (le_word (bs :: 'c word list) :: 'a word) = sum_list (map popcount bs)"
proof (induction bs)
  case Nil
  then show ?case by (simp add: popcount_def)
next
  case (Cons b bs)
  let ?w = "le_word bs :: 'a word"
  have hi: "n + LENGTH('c) < LENGTH('a)" if "bit ?w n" for n
  proof -
    have "n div LENGTH('c) < length bs" using that by (simp add: bit_le_word)
    then have "n < LENGTH('c) * length bs" by (simp add: div_less_iff_less_mult mult.commute)
    with Cons.prems show ?thesis by simp
  qed
  have "{n. bit (le_word (b # bs) :: 'a word) n} = {n. bit b n} \<union> (\<lambda>n. n + LENGTH('c)) ` {n. bit ?w n}"
  proof (intro set_eqI)
    fix n
    show "n \<in> {n. bit (le_word (b # bs) :: 'a word) n} \<longleftrightarrow>
        n \<in> {n. bit b n} \<union> (\<lambda>n. n + LENGTH('c)) ` {n. bit ?w n}"
    proof (cases "n < LENGTH('c)")
      case True
      then show ?thesis using Cons.prems by (auto simp: bit_simps)
    next
      case False
      then obtain m where "n = m + LENGTH('c)" by (metis le_add_diff_inverse2 not_less)
      then show ?thesis using hi by (auto simp: bit_simps dest: bit_imp_le_length)
    qed
  qed
  moreover have "{n. bit b n} \<inter> (\<lambda>n. n + LENGTH('c)) ` {n. bit ?w n} = {}"
    by (auto dest: bit_imp_le_length)
  ultimately show ?case
    using Cons by (simp add: popcount_card card_Un_disjoint finite_bits card_image)
qed

section \<open>Digit-wise arithmetic\<close>

lemma ucast_plus:
  assumes "unat x + unat y < 2 ^ LENGTH('c)"
  shows "(ucast (x + y) :: 'a::len word) = ucast (x :: 'c::len word) + ucast y"
proof -
  have "unat (x + y) = unat x + unat y"
    using assms by (simp add: unat_add_lem [THEN iffD1])
  then have "(of_nat (unat (x + y)) :: 'a word) = of_nat (unat x) + of_nat (unat y)" by simp
  then show ?thesis by simp
qed

lemma ucast_minus:
  assumes "unat y \<le> unat x"
  shows "(ucast (x - y) :: 'a::len word) = ucast (x :: 'c::len word) - ucast y"
proof -
  have "unat (x - y) + unat y = unat x"
    using assms by (simp add: unat_sub word_le_nat_alt)
  then have "(of_nat (unat (x - y)) :: 'a word) + of_nat (unat y) = of_nat (unat x)"
    by (metis of_nat_add)
  then show ?thesis by (simp add: eq_diff_eq)
qed

lemma le_word_plus:
  "length xs = length ys \<Longrightarrow>
   (\<forall>k < length xs. unat (xs ! k) + unat (ys ! k) < 2 ^ LENGTH('c)) \<Longrightarrow>
     le_word xs + le_word ys = (le_word (map2 (+) xs (ys :: 'c::len word list)) :: 'a::len word)"
proof (induction xs ys rule: list_induct2)
  case Nil
  then show ?case by simp
next
  case (Cons x xs y ys)
  have "unat x + unat y < 2 ^ LENGTH('c)" using Cons.prems by force
  moreover have "\<forall>k < length xs. unat (xs ! k) + unat (ys ! k) < 2 ^ LENGTH('c)"
    using Cons.prems by force
  ultimately show ?case
    by (simp add: le_word_Cons_add ucast_plus algebra_simps Cons.IH [symmetric] del: le_word.simps)
qed

lemma le_word_minus:
  "length xs = length ys \<Longrightarrow>
   (\<forall>k < length xs. unat (ys ! k) \<le> unat (xs ! k)) \<Longrightarrow>
     le_word xs - le_word ys = (le_word (map2 (-) xs (ys :: 'c::len word list)) :: 'a::len word)"
proof (induction xs ys rule: list_induct2)
  case Nil
  then show ?case by simp
next
  case (Cons x xs y ys)
  have "unat y \<le> unat x" using Cons.prems by force
  moreover have "\<forall>k < length xs. unat (ys ! k) \<le> unat (xs ! k)"
    using Cons.prems by force
  ultimately show ?case
    using Cons.IH by (simp add: le_word_Cons_add ucast_minus algebra_simps del: le_word.simps)
qed

lemma shift_mask_digits:
  assumes "\<And>j. bit m j \<Longrightarrow> j + s < LENGTH('c)" and "LENGTH('c) * length xs = LENGTH('a::len)"
  shows "drop_bit s (le_word xs) AND le_word (replicate (length xs) m)
    = (le_word (map (\<lambda>x. drop_bit s x AND m) (xs :: 'c::len word list)) :: 'a word)"
proof (rule bit_word_eqI)
  fix n assume n: "n < LENGTH('a)"
  then have k: "n div LENGTH('c) < length xs"
    using assms(2) by (simp add: less_mult_imp_div_less mult.commute)
  have "(s + n) div LENGTH('c) = n div LENGTH('c) \<and> (s + n) mod LENGTH('c) = s + n mod LENGTH('c)
      \<and> s + n < LENGTH('a)" if "bit m (n mod LENGTH('c))"
  proof -
    have lt: "n mod LENGTH('c) + s < LENGTH('c)" using assms(1) that by blast
    have eq: "s + n = LENGTH('c) * (n div LENGTH('c)) + (n mod LENGTH('c) + s)" by simp
    have d: "(s + n) div LENGTH('c) = n div LENGTH('c)"
      by (subst eq, subst div_mult_self4) (use lt in auto)
    moreover have "(s + n) mod LENGTH('c) = s + n mod LENGTH('c)"
      by (subst eq, subst mod_mult_self4) (use lt in auto)
    moreover have "s + n < LENGTH('a)"
      using d k assms(2) by (metis div_less_iff_less_mult len_gt_0 mult.commute)
    ultimately show ?thesis by blast
  qed
  then show "bit (drop_bit s (le_word xs) AND le_word (replicate (length xs) m) :: 'a word) n
    = bit (le_word (map (\<lambda>x. drop_bit s x AND m) xs) :: 'a word) n"
    using n k by (auto simp: bit_simps bit_le_word)
qed

section \<open>The bit-parallel counter\<close>

text \<open>The first two steps of the counter work inside each 4-bit digit.\<close>

definition digit_step :: "4 word \<Rightarrow> 4 word" where
  "digit_step d = (let e = d - (drop_bit 1 d AND 5) in (e AND 3) + (drop_bit 2 e AND 3))"

lemma all_digits: "(\<forall>d :: 4 word. P d) \<longleftrightarrow> list_all (\<lambda>n. P (of_nat n)) [0..<16]"
proof -
  have "P d" if "list_all (\<lambda>n. P (of_nat n)) [0..<16]" for d :: "4 word"
  proof -
    have "unat d < 2 ^ LENGTH(4)" by (rule unsigned_less)
    then have "unat d \<in> set [0..<16]" by simp
    then have "P (of_nat (unat d))" using that unfolding list_all_iff by blast
    then show ?thesis by simp
  qed
  then show ?thesis by (auto simp: list_all_iff)
qed

lemma digit_facts:
  "\<forall>d :: 4 word. unat (drop_bit 1 d AND 5) \<le> unat d \<and>
     unat (d - (drop_bit 1 d AND 5) AND 3) + unat (drop_bit 2 (d - (drop_bit 1 d AND 5)) AND 3) < 16 \<and>
     unat (digit_step d) = popcount d \<and> popcount d \<le> 4"
  unfolding all_digits by code_simp

lemma digit_steps:
  assumes "length ds = 8"
  defines "v \<equiv> (le_word (ds :: 4 word list) :: u32)"
  defines "v1 \<equiv> v - (drop_bit 1 v AND 0x55555555)"
  shows "(v1 AND 0x33333333) + (drop_bit 2 v1 AND 0x33333333) = le_word (map digit_step ds)"
proof -
  have masks: "(0x55555555 :: u32) = le_word (replicate (length ds) (5 :: 4 word))"
    "(0x33333333 :: u32) = le_word (replicate (length ds) (3 :: 4 word))"
    by (simp_all add: assms(1), code_simp+)
  have m5: "bit (5 :: 4 word) j \<Longrightarrow> j + 1 < LENGTH(4)" and m3: "bit (3 :: 4 word) j \<Longrightarrow> j + 2 < LENGTH(4)"
    and m30: "bit (3 :: 4 word) j \<Longrightarrow> j + 0 < LENGTH(4)" for j
    by (auto simp: bit_numeral_rec(1) numeral_eq_Suc less_Suc_eq dest: bit_imp_le_length)
  let ?e = "\<lambda>d :: 4 word. d - (drop_bit 1 d AND 5)"
  have "drop_bit 1 v AND 0x55555555 = le_word (map (\<lambda>d. drop_bit 1 d AND 5) ds)"
    unfolding v_def masks by (rule shift_mask_digits [OF m5]) (simp_all add: assms(1))
  then have "v1 = le_word (map2 (-) ds (map (\<lambda>d. drop_bit 1 d AND 5) ds))"
    unfolding v1_def using digit_facts by (simp add: v_def le_word_minus)
  also have "map2 (-) ds (map (\<lambda>d. drop_bit 1 d AND 5) ds) = map ?e ds"
    by (intro nth_equalityI) auto
  finally have v1: "v1 = le_word (map ?e ds)" .
  have lo: "v1 AND 0x33333333 = le_word (map (\<lambda>d. ?e d AND 3) ds)"
    using shift_mask_digits [of 3 0 "map ?e ds", where 'a = 32, OF m30]
    by (simp add: v1 masks assms(1) comp_def)
  have hi: "drop_bit 2 v1 AND 0x33333333 = le_word (map (\<lambda>d. drop_bit 2 (?e d) AND 3) ds)"
    using shift_mask_digits [of 3 2 "map ?e ds", where 'a = 32, OF m3]
    by (simp add: v1 masks assms(1) comp_def)
  have "(v1 AND 0x33333333) + (drop_bit 2 v1 AND 0x33333333)
    = le_word (map2 (+) (map (\<lambda>d. ?e d AND 3) ds) (map (\<lambda>d. drop_bit 2 (?e d) AND 3) ds))"
    unfolding lo hi using digit_facts by (intro le_word_plus) simp_all
  also have "map2 (+) (map (\<lambda>d. ?e d AND 3) ds) (map (\<lambda>d. drop_bit 2 (?e d) AND 3) ds) = map digit_step ds"
    by (intro nth_equalityI) (auto simp: digit_step_def Let_def)
  finally show ?thesis .
qed

lemma drop_bit_le_word:
  assumes "LENGTH('c::len) * length (b # bs) \<le> LENGTH('a::len)"
  shows "drop_bit LENGTH('c) (le_word (b # bs) :: 'a word) = le_word (bs @ [0 :: 'c word])"
proof (rule bit_word_eqI)
  fix n assume n: "n < LENGTH('a)"
  have "(LENGTH('c) + n) div LENGTH('c) = Suc (n div LENGTH('c))" by simp
  moreover have "n div LENGTH('c) < length bs \<Longrightarrow> n < LENGTH('c) * length bs"
    by (simp add: div_less_iff_less_mult mult.commute)
  ultimately show "bit (drop_bit LENGTH('c) (le_word (b # bs) :: 'a word)) n
    = bit (le_word (bs @ [0 :: 'c word]) :: 'a word) n"
    using n assms by (auto simp: bit_simps bit_le_word nth_append simp del: le_word.simps)
qed

lemma sum_of_digits:
  assumes "p0 \<le> 8" "p1 \<le> 8" "p2 \<le> 8" "p3 \<le> (8 :: nat)"
    and "unat (w :: u32) = p0 + 256 * (p1 + 256 * (p2 + 256 * p3))"
  shows "unat (drop_bit 24 (w * 0x01010101)) = p0 + p1 + p2 + p3"
proof -
  define q where "q = p0 + 256 * (p0 + p1) + 65536 * (p0 + p1 + p2)"
  define t where "t = p1 + p2 + p3 + 256 * (p2 + p3) + 65536 * p3"
  have q: "q < 2 ^ 24" and s: "p0 + p1 + p2 + p3 < 256" using assms(1-4) by (simp_all add: q_def)
  have "unat w * 0x01010101 = 2 ^ 32 * t + (2 ^ 24 * (p0 + p1 + p2 + p3) + q)"
    by (simp add: assms(5) q_def t_def algebra_simps)
  moreover have "2 ^ 24 * (p0 + p1 + p2 + p3) + q < 2 ^ 32" using q s by simp
  ultimately have "unat w * 0x01010101 mod 2 ^ 32 = 2 ^ 24 * (p0 + p1 + p2 + p3) + q"
    by simp
  moreover have "unat (w * 0x01010101) = unat w * 0x01010101 mod 2 ^ 32"
    by (simp add: unat_word_ariths)
  ultimately have "unat (drop_bit 24 (w * 0x01010101)) = (2 ^ 24 * (p0 + p1 + p2 + p3) + q) div 2 ^ 24"
    by (simp only: unat_drop_bit)
  then show ?thesis using q by simp
qed

lemma popcount32_swar_correct: "unat (popcount32_swar v) = popcount v"
proof -
  define ds where "ds = (le_parts 8 v :: 4 word list)"
  have len: "length ds = 8" by (simp add: ds_def)
  have v: "v = le_word ds" unfolding ds_def by (subst le_word_le_parts) simp_all
  obtain n0 n1 n2 n3 n4 n5 n6 n7 where ns: "map digit_step ds = [n0, n1, n2, n3, n4, n5, n6, n7]"
    using len by (auto simp: numeral_eq_Suc length_Suc_conv)
  define v2 where "v2 = (le_word [n0, n1, n2, n3, n4, n5, n6, n7] :: u32)"
  have small: "unat n \<le> 4" if "n \<in> set (map digit_step ds)" for n
    using that digit_facts by auto
  have sums: "unat (n + n') = unat n + unat n'" if "unat n \<le> 4" "unat n' \<le> 4" for n n' :: "4 word"
    using that by (simp add: unat_add_lem [THEN iffD1])
  have shift: "drop_bit 4 v2 = le_word [n1, n2, n3, n4, n5, n6, n7, 0]"
    using drop_bit_le_word [where 'a = 32, of n0 "[n1, n2, n3, n4, n5, n6, n7]"]
    by (simp add: v2_def del: le_word.simps)
  have n4: "unat n0 \<le> 4" "unat n1 \<le> 4" "unat n2 \<le> 4" "unat n3 \<le> 4" "unat n4 \<le> 4"
    "unat n5 \<le> 4" "unat n6 \<le> 4" "unat n7 \<le> 4"
    using small unfolding ns by auto
  have plus: "v2 + drop_bit 4 v2
    = le_word [n0 + n1, n1 + n2, n2 + n3, n3 + n4, n4 + n5, n5 + n6, n6 + n7, n7]"
    unfolding v2_def shift [unfolded v2_def] using n4
    by (subst le_word_plus) (auto simp: less_Suc_eq numeral_eq_Suc simp del: le_word.simps)
  have mask: "(0x0F0F0F0F :: u32) = le_word [15 :: 4 word, 0, 15, 0, 15, 0, 15, 0]" by code_simp
  have "\<forall>n :: 4 word. n AND 15 = n" unfolding all_digits by code_simp
  then have id15: "n AND 15 = n" for n :: "4 word" by blast
  have "(v2 + drop_bit 4 v2) AND 0x0F0F0F0F = le_word [n0 + n1, 0, n2 + n3, 0, n4 + n5, 0, n6 + n7, 0]"
    unfolding plus mask by (subst le_word_and) (simp_all add: id15 del: le_word.simps)
  moreover have "unat (le_word [n0 + n1, 0, n2 + n3, 0, n4 + n5, 0, n6 + n7, 0] :: u32)
    = (unat n0 + unat n1) + 256 * ((unat n2 + unat n3) + 256 * ((unat n4 + unat n5) + 256 * (unat n6 + unat n7)))"
    using n4 by (simp add: unat_le_word_Cons sums del: le_word.simps(2))
  ultimately have "unat (drop_bit 24 (((v2 + drop_bit 4 v2) AND 0x0F0F0F0F) * 0x01010101))
    = (unat n0 + unat n1) + (unat n2 + unat n3) + (unat n4 + unat n5) + (unat n6 + unat n7)"
    using n4 by (intro sum_of_digits) simp_all
  also have "\<dots> = sum_list (map unat (map digit_step ds))" unfolding ns by simp
  also have "\<dots> = sum_list (map popcount ds)" using digit_facts by (simp add: comp_def)
  also have "\<dots> = popcount v" unfolding v by (subst popcount_le_word) (simp_all add: len)
  finally show ?thesis
    using digit_steps [OF len] by (simp add: popcount32_swar_def Let_def v2_def ns v del: le_word.simps)
qed

section \<open>The counters count\<close>

lemma ldw32: "4 \<le> length ptr \<Longrightarrow> (ldw ptr :: u32) = le_word (take 4 ptr)"
  by (simp add: ldw_def)

lemma list4:
  assumes "4 \<le> length ptr"
  obtains b0 b1 b2 b3 where "take 4 ptr = [b0, b1, b2, b3]"
proof -
  have "\<exists>b0 b1 b2 b3. xs = [b0, b1, b2, b3]" if "length xs = 4" for xs :: "'a list"
    using that by (auto simp: numeral_eq_Suc length_Suc_conv)
  moreover have "length (take 4 ptr) = 4" using assms by simp
  ultimately show thesis using that by blast
qed

lemma byte_masks:
  "(0x000000ff :: u32) = le_word [255 :: u8, 0, 0, 0]" "(0x0000ff00 :: u32) = le_word [0, 255 :: u8, 0, 0]"
  "(0x00ff0000 :: u32) = le_word [0, 0, 255 :: u8, 0]" "(0xff000000 :: u32) = le_word [0, 0, 0, 255 :: u8]"
  "(0xffffffff :: u32) = le_word [255 :: u8, 255, 255, 255]"
  by code_simp+

lemma and_255: "(b :: u8) AND 255 = b"
proof -
  have "(255 :: u8) = - 1" by simp
  then show ?thesis by (metis and.right_neutral)
qed

lemma masked_byte:
  fixes b0 b1 b2 b3 :: u8
  shows "(le_word [b0, b1, b2, b3] :: u32) AND 0x000000ff = le_word [b0, 0, 0, 0]"
    and "(le_word [b0, b1, b2, b3] :: u32) AND 0x0000ff00 = le_word [0, b1, 0, 0]"
    and "(le_word [b0, b1, b2, b3] :: u32) AND 0x00ff0000 = le_word [0, 0, b2, 0]"
    and "(le_word [b0, b1, b2, b3] :: u32) AND 0xff000000 = le_word [0, 0, 0, b3]"
  unfolding byte_masks by (subst le_word_and, simp, simp add: and_255 del: le_word.simps)+

lemma masked_byte_zero:
  fixes b0 b1 b2 b3 :: u8
  shows "(le_word [b0, b1, b2, b3] :: u32) AND 0x000000ff = 0 \<longleftrightarrow> b0 = 0"
    and "(le_word [b0, b1, b2, b3] :: u32) AND 0x0000ff00 = 0 \<longleftrightarrow> b1 = 0"
    and "(le_word [b0, b1, b2, b3] :: u32) AND 0x00ff0000 = 0 \<longleftrightarrow> b2 = 0"
    and "(le_word [b0, b1, b2, b3] :: u32) AND 0xff000000 = 0 \<longleftrightarrow> b3 = 0"
  unfolding masked_byte by (simp_all add: le_word_eq_0_iff del: le_word.simps)

lemma masked_byte_ones:
  fixes b0 b1 b2 b3 :: u8
  shows "(le_word [b0, b1, b2, b3] :: u32) AND 0x000000ff = 0x000000ff \<longleftrightarrow> b0 = 255"
    and "(le_word [b0, b1, b2, b3] :: u32) AND 0x0000ff00 = 0x0000ff00 \<longleftrightarrow> b1 = 255"
    and "(le_word [b0, b1, b2, b3] :: u32) AND 0x00ff0000 = 0x00ff0000 \<longleftrightarrow> b2 = 255"
    and "(le_word [b0, b1, b2, b3] :: u32) AND 0xff000000 = 0xff000000 \<longleftrightarrow> b3 = 255"
    and "(le_word [b0, b1, b2, b3] :: u32) = 0xffffffff \<longleftrightarrow> b0 = 255 \<and> b1 = 255 \<and> b2 = 255 \<and> b3 = 255"
  unfolding masked_byte unfolding byte_masks
  by (simp_all add: le_word_inject del: le_word.simps)

lemma count_bits_loop_spec:
  "4 * i \<le> length ptr \<Longrightarrow>
     count_bits_loop i ptr ret = Inr (ret + of_nat (sum_list (map popcount (take (4 * i) ptr))))"
proof (induction i arbitrary: ptr ret)
  case 0
  then show ?case by simp
next
  case (Suc i)
  then have len: "4 \<le> length ptr" by simp
  let ?v = "ldw ptr :: u32"
  have "popcount ?v = sum_list (map popcount (take 4 ptr))"
    unfolding ldw32 [OF len] by (rule popcount_le_word) simp
  moreover have "(if ?v = 0xffffffff then 32 else popcount32_swar ?v) = of_nat (popcount ?v)"
  proof (cases "?v = 0xffffffff")
    case True
    have "popcount (0xffffffff :: u32) = 32" by code_simp
    then show ?thesis by (simp add: True)
  next
    case False
    then show ?thesis by (simp flip: popcount32_swar_correct)
  qed
  moreover have "count_bits_loop i (drop 4 ptr) r
    = Inr (r + of_nat (sum_list (map popcount (take (4 * i) (drop 4 ptr)))))" for r
    using Suc.prems by (intro Suc.IH) simp
  ultimately show ?case
    using len by (auto simp: Let_def take_add add.commute split: if_splits)
qed

lemma count_bytes_loop_spec:
  "4 * i \<le> length ptr \<Longrightarrow>
     count_bytes_loop i ptr ret = Inr (ret + of_nat (length (filter (\<lambda>b. b \<noteq> 0) (take (4 * i) ptr))))"
proof (induction i arbitrary: ptr ret)
  case 0
  then show ?case by simp
next
  case (Suc i)
  then have len: "4 \<le> length ptr" by simp
  then obtain b0 b1 b2 b3 where t: "take 4 ptr = [b0, b1, b2, b3]" by (rule list4)
  have split: "take (4 * Suc i) ptr = [b0, b1, b2, b3] @ take (4 * i) (drop 4 ptr)"
    using take_add [of 4 "4 * i" ptr] t by simp
  have "count_bytes_loop i (drop 4 ptr) r
    = Inr (r + of_nat (length (filter (\<lambda>b. b \<noteq> 0) (take (4 * i) (drop 4 ptr)))))" for r
    using Suc.prems by (intro Suc.IH) simp
  then show ?case
    using len unfolding split
    by (simp add: Let_def ldw32 t masked_byte_zero le_word_eq_0_iff del: le_word.simps)
qed

lemma count_non_255_loop_spec:
  "4 * i \<le> length ptr \<Longrightarrow>
     count_non_255_loop i ptr ret = Inr (ret + of_nat (length (filter (\<lambda>b. b \<noteq> 255) (take (4 * i) ptr))))"
proof (induction i arbitrary: ptr ret)
  case 0
  then show ?case by simp
next
  case (Suc i)
  then have len: "4 \<le> length ptr" by simp
  then obtain b0 b1 b2 b3 where t: "take 4 ptr = [b0, b1, b2, b3]" by (rule list4)
  have split: "take (4 * Suc i) ptr = [b0, b1, b2, b3] @ take (4 * i) (drop 4 ptr)"
    using take_add [of 4 "4 * i" ptr] t by simp
  have "count_non_255_loop i (drop 4 ptr) r
    = Inr (r + of_nat (length (filter (\<lambda>b. b \<noteq> 255) (take (4 * i) (drop 4 ptr)))))" for r
    using Suc.prems by (intro Suc.IH) simp
  then show ?case
    using len unfolding split
    by (simp add: Let_def ldw32 t masked_byte_ones del: le_word.simps)
qed

text \<open>The bytes the counters visit: \<open>real_map_size\<close> rounded up to whole 32-bit words.\<close>

definition counted :: "('a) afl_cov_scheme \<Rightarrow> bytes \<Rightarrow> bytes" where
  "counted afl mem = take (4 * ((unat (real_map_size (fsrv afl)) + 3) div 4)) mem"

lemma words32_wf:
  assumes "map_wf (fsrv afl)" "length mem = unat (map_size (fsrv afl))"
  shows "4 * words32 afl \<le> length mem" and "take (4 * words32 afl) mem = counted afl mem"
  using map_wf_words32 [OF assms(1)] assms(2) by (simp_all add: words32_def counted_def)

lemma count_bytes_wf:
  assumes "map_wf (fsrv afl)" "length mem = unat (map_size (fsrv afl))"
  shows "count_bytes afl mem = Inr (of_nat (length (filter (\<lambda>b. b \<noteq> 0) (counted afl mem))))"
  using words32_wf [OF assms] by (simp add: count_bytes_def count_bytes_loop_spec)

section \<open>Properties\<close>

text \<open>\<open>count_bits\<close>, a bit-parallel population count on 32-bit words, returns the number of
  set bits of the visited part of the map, modulo \<open>2 ^ 32\<close>, and reads no byte outside it.\<close>

theorem count_bits_correct:
  assumes "map_wf (fsrv afl)" "length mem = unat (map_size (fsrv afl))"
  shows "count_bits afl mem = Inr (of_nat (sum_list (map popcount (counted afl mem))))"
  using words32_wf [OF assms] by (simp add: count_bits_def count_bits_loop_spec)

theorem count_bits_correct_witness:
  "count_bits (zero_afl\<lparr>fsrv := example_fsrv (replicate 64 0)\<rparr>) ([255, 129] @ replicate 62 0) = Inr 10"
proof -
  have "sum_list (map popcount ([255, 129 :: u8] @ replicate 62 0)) = 10" by code_simp
  then show ?thesis
    using count_bits_correct [of "zero_afl\<lparr>fsrv := example_fsrv (replicate 64 0)\<rparr>" "[255, 129] @ replicate 62 0"]
    by (simp add: map_wf_example counted_def)
qed

text \<open>\<open>count_bytes\<close> and \<open>count_non_255_bytes\<close> return the number of visited bytes that are
  not 0, and that are not 255.\<close>

theorem count_bytes_correct:
  assumes "map_wf (fsrv afl)" "length mem = unat (map_size (fsrv afl))"
  shows "count_bytes afl mem = Inr (of_nat (length (filter (\<lambda>b. b \<noteq> 0) (counted afl mem)))) \<and>
    count_non_255_bytes afl mem = Inr (of_nat (length (filter (\<lambda>b. b \<noteq> 255) (counted afl mem))))"
  using words32_wf [OF assms] count_bytes_wf [OF assms]
  by (simp add: count_non_255_bytes_def count_non_255_loop_spec)

theorem count_bytes_correct_witness:
  "count_bytes (zero_afl\<lparr>fsrv := example_fsrv (replicate 64 0)\<rparr>) ([255, 0, 3] @ replicate 61 0) = Inr 2 \<and>
   count_non_255_bytes (zero_afl\<lparr>fsrv := example_fsrv (replicate 64 0)\<rparr>) ([255, 0, 3] @ replicate 61 0) = Inr 63"
  using count_bytes_correct [of "zero_afl\<lparr>fsrv := example_fsrv (replicate 64 0)\<rparr>" "[255, 0, 3] @ replicate 61 0"]
  by (simp add: map_wf_example counted_def)

end
