(* ===== verification/Virgin.thy ===== *)
theory Virgin
  imports Counting
begin

text \<open>
  The virgin maps of src/afl-fuzz-bitmap.c: \<open>has_new_bits\<close>, its lazy variant
  \<open>has_new_bits_unclassified\<close>, \<open>minimize_bits\<close> and IgorFuzz's \<open>has_few_bits\<close>, which looks for
  coverage that went away. The callers pass one of the three virgin maps of the state; the
  code compares the pointer with \<open>afl->virgin_bits\<close>, so the model passes the map's name.
\<close>

datatype virgin_map = VIRGIN_BITS | VIRGIN_TMOUT | VIRGIN_CRASH

fun get_virgin :: "virgin_map \<Rightarrow> ('a) afl_cov_scheme \<Rightarrow> bytes" where
  "get_virgin VIRGIN_BITS afl = virgin_bits afl"
| "get_virgin VIRGIN_TMOUT afl = virgin_tmout afl"
| "get_virgin VIRGIN_CRASH afl = virgin_crash afl"

fun set_virgin :: "virgin_map \<Rightarrow> bytes \<Rightarrow> ('a) afl_cov_scheme \<Rightarrow> ('a) afl_cov_scheme" where
  "set_virgin VIRGIN_BITS m afl = afl\<lparr>virgin_bits := m\<rparr>"
| "set_virgin VIRGIN_TMOUT m afl = afl\<lparr>virgin_tmout := m\<rparr>"
| "set_virgin VIRGIN_CRASH m afl = afl\<lparr>virgin_crash := m\<rparr>"

section \<open>New coverage\<close>

fun has_new_bits_loop ::
  "(u8 \<Rightarrow> 'w::len word \<Rightarrow> 'w word \<Rightarrow> u8 \<times> 'w word) \<Rightarrow> nat \<Rightarrow> bytes \<Rightarrow> bytes \<Rightarrow> u8 \<Rightarrow> (u8 \<times> bytes) res" where
  "has_new_bits_loop discover 0 current virgin ret = Inr (ret, virgin)"
| "has_new_bits_loop discover (Suc i) current virgin ret =
     (let n = wbytes TYPE('w); c = (ldw current :: 'w word); v = (ldw virgin :: 'w word);
          (ret', v') = (if c \<noteq> 0 then discover ret c v else (ret, v)) in
      if length current < n \<or> length virgin < n then Inl Oob
      else bnd (has_new_bits_loop discover i (drop n current) (drop n virgin) ret')
        (\<lambda>(r, rest). Inr (r, le_bytes n v' @ rest)))"

definition finish_new_bits ::
  "('a) afl_cov_scheme \<Rightarrow> virgin_map \<Rightarrow> u8 \<times> bytes \<Rightarrow> (u8 \<times> ('a) afl_cov_scheme) res" where
  "finish_new_bits afl vm = (\<lambda>(ret, m).
     let afl' = set_virgin vm m afl
     in Inr (ret, if ret \<noteq> 0 \<and> vm = VIRGIN_BITS then afl'\<lparr>bitmap_changed := True\<rparr> else afl'))"

definition has_new_bits ::
  "('a) afl_cov_scheme \<Rightarrow> virgin_map \<Rightarrow> (u8 \<times> ('a) afl_cov_scheme) res" where
  "has_new_bits afl vm =
     bnd (has_new_bits_loop discover_word (unat (drop_bit 3 (real_map_size (fsrv afl) + 7)))
            (trace_bits (fsrv afl)) (get_virgin vm afl) 0)
       (finish_new_bits afl vm)"

definition has_new_bits_32 ::
  "('a) afl_cov_scheme \<Rightarrow> virgin_map \<Rightarrow> (u8 \<times> ('a) afl_cov_scheme) res" where
  "has_new_bits_32 afl vm =
     bnd (has_new_bits_loop discover_word_32 (unat (drop_bit 2 (real_map_size (fsrv afl) + 3)))
            (trace_bits (fsrv afl)) (get_virgin vm afl) 0)
       (finish_new_bits afl vm)"

definition has_new_bits_unclassified ::
  "('a) afl_cov_scheme \<Rightarrow> virgin_map \<Rightarrow> (u8 \<times> ('a) afl_cov_scheme) res" where
  "has_new_bits_unclassified afl vm =
     bnd (skim (get_virgin vm afl) (take (unat (map_size (fsrv afl))) (trace_bits (fsrv afl))))
       (\<lambda>s. if s = 0 then Inr (0, afl)
            else bnd (classify_counts (fsrv afl)) (\<lambda>fs. has_new_bits (afl\<lparr>fsrv := fs\<rparr>) vm))"

section \<open>Compacting a trace\<close>

fun minimize_loop :: "nat \<Rightarrow> nat \<Rightarrow> bytes \<Rightarrow> bytes \<Rightarrow> bytes res" where
  "minimize_loop 0 i dst src = Inr dst"
| "minimize_loop (Suc m) i dst src =
     bnd (rd src i) (\<lambda>b.
     bnd (if b \<noteq> 0 then bnd (rd dst (i div 8)) (\<lambda>d. wr dst (i div 8) (d OR push_bit (i mod 8) 1))
          else Inr dst) (\<lambda>dst'.
     minimize_loop m (Suc i) dst' src))"

definition minimize_bits :: "('a) afl_cov_scheme \<Rightarrow> bytes \<Rightarrow> bytes \<Rightarrow> bytes res" where
  "minimize_bits afl dst src = minimize_loop (unat (map_size (fsrv afl))) 0 dst src"

section \<open>Coverage decrease\<close>

text \<open>
  One pass of the \<open>while (i--)\<close> loop of \<open>has_few_bits\<close>: \<open>fewer\<close> is the comparison
  \<open>actual_counts < min_actual_cnts\<close>, the result is \<open>hcn_decrease\<close>, \<open>cov_decrease\<close> and the
  updated virgin map. Both flags are only ever raised.
\<close>

definition disappeared :: "u8 \<Rightarrow> u8 \<Rightarrow> bool" where
  "disappeared c v \<longleftrightarrow> v \<noteq> 0xff \<and> c = 0"

fun has_few_bits_loop ::
  "'w::len itself \<Rightarrow> bool \<Rightarrow> nat \<Rightarrow> bytes \<Rightarrow> bytes \<Rightarrow> (bool \<times> bool \<times> bytes) res" where
  "has_few_bits_loop w fewer 0 current virgin = Inr (False, False, virgin)"
| "has_few_bits_loop w fewer (Suc i) current virgin =
     (let n = wbytes w; c = (ldw current :: 'w word); v = (ldw virgin :: 'w word);
          cur = take n current; vir = take n virgin;
          touched = (v + 1 \<noteq> 0);
          hit = (touched \<and> c AND v \<noteq> 0 \<and> fewer);
          gone = (touched \<and> list_ex (\<lambda>(c, v). disappeared c v) (zip cur vir));
          vir' = (if gone then map2 (\<lambda>c v. if disappeared c v then 0xff else v) cur vir else vir)
      in if length current < n \<or> length virgin < n then Inl Oob
      else bnd (has_few_bits_loop w fewer i (drop n current) (drop n virgin))
        (\<lambda>(hcn, cov, rest). Inr (hit \<or> hcn, gone \<or> cov, vir' @ rest)))"

definition few_bits_code :: "bool \<Rightarrow> bool \<Rightarrow> bool \<Rightarrow> u8" where
  "few_bits_code bms cov hcn =
     0x10 + push_bit 2 (of_bool bms) + push_bit 1 (of_bool cov) + of_bool hcn"

definition finish_few_bits ::
  "('a) afl_cov_scheme \<Rightarrow> virgin_map \<Rightarrow> bool \<Rightarrow> bool \<times> bool \<times> bytes \<Rightarrow> (u8 \<times> ('a) afl_cov_scheme) res" where
  "finish_few_bits afl vm bms = (\<lambda>(hcn, cov, m).
     let afl' = set_virgin vm m afl
     in Inr (few_bits_code bms cov hcn, if cov then afl'\<lparr>bitmap_changed := True\<rparr> else afl'))"

definition has_few_bits ::
  "('a) afl_cov_scheme \<Rightarrow> virgin_map \<Rightarrow> (u8 \<times> ('a) afl_cov_scheme) res" where
  "has_few_bits afl vm =
     (if testcase_matrix afl = None then has_new_bits afl vm
      else bnd (count_bytes afl (trace_bits (fsrv afl))) (\<lambda>cur_bitmap_size.
           bnd (has_few_bits_loop TYPE(64) (actual_counts (fsrv afl) < min_actual_cnts afl)
                  (unat (drop_bit 3 (real_map_size (fsrv afl) + 7)))
                  (trace_bits (fsrv afl)) (get_virgin vm afl))
             (finish_few_bits afl vm (cur_bitmap_size < min_bitmap_size afl))))"

definition has_few_bits_32 ::
  "('a) afl_cov_scheme \<Rightarrow> virgin_map \<Rightarrow> (u8 \<times> ('a) afl_cov_scheme) res" where
  "has_few_bits_32 afl vm =
     (if testcase_matrix afl = None then has_new_bits_32 afl vm
      else bnd (count_bytes afl (trace_bits (fsrv afl))) (\<lambda>cur_bitmap_size.
           bnd (has_few_bits_loop TYPE(32) (actual_counts (fsrv afl) < min_actual_cnts afl)
                  (unat (drop_bit 2 (real_map_size (fsrv afl) + 3)))
                  (trace_bits (fsrv afl)) (get_virgin vm afl))
             (finish_few_bits afl vm (cur_bitmap_size < min_bitmap_size afl))))"

section \<open>Byte-level meaning of the loops\<close>

lemma clear_seen_append:
  "length cs = length vs \<Longrightarrow> clear_seen (cs @ cs') (vs @ vs') = clear_seen cs vs @ clear_seen cs' vs'"
  by simp

lemma clear_seen_zeros: "\<forall>c \<in> set cs. c = 0 \<Longrightarrow> length cs = length vs \<Longrightarrow> clear_seen cs vs = vs"
  by (intro nth_equalityI) (auto simp: all_set_conv_all_nth)

lemma news_zeros: "\<forall>c \<in> set cs. c = 0 \<Longrightarrow> length cs = length vs \<Longrightarrow> news ret cs vs = ret"
  by (auto simp: news_def all_set_conv_all_nth)

lemma ex_less_append:
  "(\<exists>k < m + n. P k) \<longleftrightarrow> (\<exists>k < m. P k) \<or> (\<exists>k < n. P (m + k :: nat))"
  by (metis add_diff_inverse_nat nat_add_left_cancel_less trans_less_add1)

lemma news_append:
  assumes "length cs = length vs"
  shows "news (news ret cs vs) cs' vs' = news ret (cs @ cs') (vs @ vs')"
proof -
  define C where "C k \<longleftrightarrow> (cs @ cs') ! k AND (vs @ vs') ! k \<noteq> 0" for k
  define T where "T k \<longleftrightarrow> (cs @ cs') ! k \<noteq> 0 \<and> (vs @ vs') ! k = 0xff" for k
  have TC: "T k \<Longrightarrow> C k" for k by (auto simp: T_def C_def and_255)
  have lo: "(\<exists>k < length vs. cs ! k AND vs ! k \<noteq> 0) \<longleftrightarrow> (\<exists>k < length vs. C k)"
    "(\<exists>k < length vs. cs ! k \<noteq> 0 \<and> vs ! k = 0xff) \<longleftrightarrow> (\<exists>k < length vs. T k)"
    using assms by (auto simp: C_def T_def nth_append)
  have hi: "(\<exists>k < length vs'. cs' ! k AND vs' ! k \<noteq> 0) \<longleftrightarrow> (\<exists>k < length vs'. C (length vs + k))"
    "(\<exists>k < length vs'. cs' ! k \<noteq> 0 \<and> vs' ! k = 0xff) \<longleftrightarrow> (\<exists>k < length vs'. T (length vs + k))"
    using assms by (auto simp: C_def T_def nth_append)
  have all: "news ret (cs @ cs') (vs @ vs') =
    (if ret < 2 \<and> (\<exists>k < length vs + length vs'. C k)
     then (if \<exists>k < length vs + length vs'. T k then 2 else 1) else ret)"
    unfolding news_def C_def T_def length_append by (rule refl)
  show ?thesis
    unfolding all ex_less_append unfolding news_def lo hi using TC by auto
qed

context coverage_word
begin

lemma has_new_bits_loop_bytes:
  "n * i \<le> length cur \<Longrightarrow> n * i \<le> length vir \<Longrightarrow>
    has_new_bits_loop discover i cur vir ret =
      Inr (news ret (take (n * i) cur) (take (n * i) vir),
           clear_seen (take (n * i) cur) (take (n * i) vir) @ drop (n * i) vir)"
proof (induction i arbitrary: cur vir ret)
  case 0
  then show ?case by (simp add: news_def)
next
  case (Suc i)
  let ?cs = "take n cur" and ?vs = "take n vir"
  have len: "length ?cs = n" "length ?vs = n" using Suc.prems by simp_all
  have zero: "\<forall>c \<in> set ?cs. c = 0" if "(le_word ?cs :: 'w word) = 0"
    using that word_zero [OF len(1)] by simp
  have step: "(if (ldw cur :: 'w word) \<noteq> 0 then discover ret (ldw cur) (ldw vir) else (ret, ldw vir))
    = (news ret ?cs ?vs, le_word (clear_seen ?cs ?vs))"
  proof (cases "(le_word ?cs :: 'w word) = 0")
    case True
    have "news ret ?cs ?vs = ret" and "clear_seen ?cs ?vs = ?vs"
      by (rule news_zeros [OF zero [OF True]], simp only: len)
        (rule clear_seen_zeros [OF zero [OF True]], simp only: len)
    with True show ?thesis unfolding ldw_eq by simp
  next
    case False
    then show ?thesis unfolding ldw_eq using len by (simp add: discover_bytes)
  qed
  have written: "le_bytes n (le_word (clear_seen ?cs ?vs) :: 'w word) = clear_seen ?cs ?vs"
    using len by (intro le_bytes_n) simp
  have IH: "has_new_bits_loop discover i (drop n cur) (drop n vir) (news ret ?cs ?vs) =
    Inr (news (news ret ?cs ?vs) (take (n * i) (drop n cur)) (take (n * i) (drop n vir)),
      clear_seen (take (n * i) (drop n cur)) (take (n * i) (drop n vir)) @ drop (n * i) (drop n vir))"
    using Suc.prems by (intro Suc.IH) simp_all
  have split: "take (n * Suc i) xs = take n xs @ take (n * i) (drop n xs)" for xs :: bytes
    by (simp add: take_add)
  show ?case
    using Suc.prems len unfolding split has_new_bits_loop.simps Let_def wbytes_n step prod.case IH
    by (simp add: news_append written add.commute)
qed

end

text \<open>The specification of coverage novelty on a pair of maps of equal length.\<close>

lemma news_cases:
  "news 0 cs vs = 2 \<longleftrightarrow> (\<exists>k < length vs. cs ! k \<noteq> 0 \<and> vs ! k = 0xff)"
  "news 0 cs vs = 0 \<longleftrightarrow> (\<forall>k < length vs. cs ! k AND vs ! k = 0)"
  by (auto simp: news_def and_255)

lemma news_after_clear:
  assumes "length cs = length vs"
  shows "news 0 cs (clear_seen cs vs) = 0"
proof -
  have "c AND (v AND NOT c) = 0" for c v :: u8
    by (rule bit_word_eqI) (auto simp: bit_simps)
  then show ?thesis using assms by (simp add: news_def)
qed

text \<open>The part of the map \<open>has_new_bits\<close> visits: \<open>real_map_size\<close> rounded up to 8 bytes.\<close>

definition seen64 :: "('a) afl_cov_scheme \<Rightarrow> nat" where
  "seen64 afl = 8 * ((unat (real_map_size (fsrv afl)) + 7) div 8)"

definition cov_wf :: "('a) afl_cov_scheme \<Rightarrow> bool" where
  "cov_wf afl \<longleftrightarrow> map_wf (fsrv afl) \<and>
     (\<forall>vm. length (get_virgin vm afl) = unat (map_size (fsrv afl)))"

lemma cov_wfD:
  assumes "cov_wf afl"
  shows "map_wf (fsrv afl)" "length (get_virgin vm afl) = unat (map_size (fsrv afl))"
    "length (trace_bits (fsrv afl)) = unat (map_size (fsrv afl))"
    "8 * unat (drop_bit 3 (real_map_size (fsrv afl) + 7)) = seen64 afl"
    "seen64 afl \<le> unat (map_size (fsrv afl))"
  using assms map_wf_words64(2,3) [of "fsrv afl"] by (auto simp: cov_wf_def map_wf_def seen64_def)

lemma get_set_virgin [simp]:
  "get_virgin vm (set_virgin vm m afl) = m"
  "vm \<noteq> vm' \<Longrightarrow> get_virgin vm' (set_virgin vm m afl) = get_virgin vm' afl"
  "fsrv (set_virgin vm m afl) = fsrv afl"
  "testcase_matrix (set_virgin vm m afl) = testcase_matrix afl"
  "min_actual_cnts (set_virgin vm m afl) = min_actual_cnts afl"
  "min_bitmap_size (set_virgin vm m afl) = min_bitmap_size afl"
  by (cases vm; cases vm'; simp)+

lemma get_virgin_upd [simp]:
  "get_virgin vm (afl\<lparr>bitmap_changed := b\<rparr>) = get_virgin vm afl"
  "get_virgin vm (afl\<lparr>fsrv := fs\<rparr>) = get_virgin vm afl"
  by (cases vm; simp)+

lemma has_new_bits_spec:
  assumes "cov_wf afl"
  shows "has_new_bits afl vm =
    (let cs = take (seen64 afl) (trace_bits (fsrv afl)); vs = take (seen64 afl) (get_virgin vm afl)
     in finish_new_bits afl vm (news 0 cs vs, clear_seen cs vs @ drop (seen64 afl) (get_virgin vm afl)))"
  unfolding has_new_bits_def Let_def
  by (subst w64.has_new_bits_loop_bytes) (simp_all add: cov_wfD [OF assms(1)])


lemma set_get_virgin [simp]: "set_virgin vm (get_virgin vm afl) afl = afl"
  by (cases vm) simp_all

lemma finish_new_bits_simps:
  "finish_new_bits afl vm (r, m) =
     Inr (r, if r \<noteq> 0 \<and> vm = VIRGIN_BITS then (set_virgin vm m afl)\<lparr>bitmap_changed := True\<rparr>
             else set_virgin vm m afl)"
  by (simp add: finish_new_bits_def Let_def)

lemma cov_wf_set_virgin:
  "cov_wf afl \<Longrightarrow> length m = unat (map_size (fsrv afl)) \<Longrightarrow> cov_wf (set_virgin vm m afl)"
  unfolding cov_wf_def by (metis get_set_virgin(1,2,3))

lemma cov_wf_upd [simp]:
  "cov_wf (afl\<lparr>bitmap_changed := b\<rparr>) \<longleftrightarrow> cov_wf afl"
  by (simp add: cov_wf_def)

lemma cov_wf_classified:
  "cov_wf afl \<Longrightarrow> cov_wf (afl\<lparr>fsrv := (fsrv afl)\<lparr>trace_bits := map f (trace_bits (fsrv afl)),
     actual_counts := n\<rparr>\<rparr>)"
  by (auto simp: cov_wf_def map_wf_def)

lemma seen64_upd [simp]:
  "seen64 (set_virgin vm m afl) = seen64 afl"
  "seen64 (afl\<lparr>bitmap_changed := b\<rparr>) = seen64 afl"
  "seen64 (afl\<lparr>fsrv := (fsrv afl)\<lparr>trace_bits := t, actual_counts := n\<rparr>\<rparr>) = seen64 afl"
  by (simp_all add: seen64_def)

lemma clear_seen_id:
  assumes "length cs = length vs" "\<forall>k < length vs. cs ! k AND vs ! k = 0"
  shows "clear_seen cs vs = vs"
proof (rule nth_equalityI)
  fix k assume "k < length (clear_seen cs vs)"
  then have k: "k < length vs" by simp
  have "v AND NOT c = v" if "c AND v = 0" for c v :: u8
    using that by (auto simp: bit_eq_iff bit_simps)
  then show "clear_seen cs vs ! k = vs ! k" using k assms by simp
qed (simp add: assms(1))

lemma skim_spec:
  assumes "cov_wf afl"
  shows "skim (get_virgin vm afl) (take (unat (map_size (fsrv afl))) (trace_bits (fsrv afl))) =
    Inr (if \<exists>k < unat (map_size (fsrv afl)).
      count_class_lookup8 (trace_bits (fsrv afl) ! k) AND get_virgin vm afl ! k \<noteq> 0 then 1 else 0)"
proof -
  have "32 dvd unat (map_size (fsrv afl))"
    using assms dvd_trans [of 32 64 "unat (map_size (fsrv afl))"]
    by (simp add: cov_wf_def map_wf_def mod_eq_0_iff_dvd)
  then obtain m where "unat (map_size (fsrv afl)) = 4 * 8 * m" by auto
  then show ?thesis
    unfolding skim_def using assms
    by (subst w64.skim_loop_bytes [where m = m]) (simp_all add: cov_wfD)
qed

lemma has_new_bits_unclassified_spec:
  assumes wf: "cov_wf afl"
    and tail: "\<And>k. seen64 afl \<le> k \<Longrightarrow> k < unat (map_size (fsrv afl)) \<Longrightarrow> trace_bits (fsrv afl) ! k = 0"
  shows "has_new_bits_unclassified afl vm =
    bnd (classify_counts (fsrv afl)) (\<lambda>fs.
    bnd (has_new_bits (afl\<lparr>fsrv := fs\<rparr>) vm) (\<lambda>(r, afl'). Inr (r, if r = 0 then afl else afl')))"
proof -
  let ?N = "unat (map_size (fsrv afl))" and ?t = "trace_bits (fsrv afl)" and ?v = "get_virgin vm afl"
  let ?hit = "\<lambda>k. count_class_lookup8 (?t ! k) AND ?v ! k \<noteq> 0"
  let ?fs = "(fsrv afl)\<lparr>trace_bits := map count_class_lookup8 ?t, actual_counts := of_nat (weighted_hits ?t)\<rparr>"
  let ?cs = "take (seen64 afl) (map count_class_lookup8 ?t)" and ?vs = "take (seen64 afl) ?v"
  have le: "seen64 afl \<le> ?N" and lt: "length ?t = ?N" and lv: "length ?v = ?N"
    using cov_wfD [OF wf] by simp_all
  have cl: "classify_counts (fsrv afl) = Inr ?fs"
    using wf by (simp add: classify_counts_map cov_wf_def)
  have nb: "has_new_bits (afl\<lparr>fsrv := ?fs\<rparr>) vm = finish_new_bits (afl\<lparr>fsrv := ?fs\<rparr>) vm
      (news 0 ?cs ?vs, clear_seen ?cs ?vs @ drop (seen64 afl) ?v)"
    using has_new_bits_spec [OF cov_wf_classified [OF wf, of "of_nat (weighted_hits ?t)" count_class_lookup8], of vm] by (simp add: take_map Let_def)
  have len: "length ?cs = length ?vs" using lt lv by simp
  have "?hit k \<Longrightarrow> k < ?N \<Longrightarrow> k < seen64 afl" for k using tail [of k] by (metis and_zero_eq count_class_lookup8_0 not_less and.commute)
  moreover have "news 0 ?cs ?vs \<noteq> 0 \<longleftrightarrow> (\<exists>k < seen64 afl. ?hit k)"
    using le lt lv by (auto simp: news_cases)
  ultimately have hits: "(\<exists>k < ?N. ?hit k) \<longleftrightarrow> news 0 ?cs ?vs \<noteq> 0"
    using le by (meson less_le_trans)
  show ?thesis
    unfolding has_new_bits_unclassified_def skim_spec [OF wf] hits cl nb bnd_simps finish_new_bits_simps
    by (cases "news 0 ?cs ?vs = 0") (simp_all add: cl nb finish_new_bits_simps)
qed

section \<open>minimize_bits\<close>

definition mini_bit :: "bytes \<Rightarrow> nat \<Rightarrow> bool" where
  "mini_bit m k \<longleftrightarrow> k div 8 < length m \<and> bit (m ! (k div 8)) (k mod 8)"

lemma minimize_loop_spec:
  "i + m \<le> length src \<Longrightarrow> i + m \<le> 8 * length dst \<Longrightarrow>
     \<exists>r. minimize_loop m i dst src = Inr r \<and> length r = length dst \<and>
       (\<forall>k. mini_bit r k \<longleftrightarrow> mini_bit dst k \<or> (i \<le> k \<and> k < i + m \<and> src ! k \<noteq> 0))"
proof (induction m arbitrary: i dst)
  case 0
  then show ?case by auto
next
  case (Suc m)
  have i: "i < length src" "i div 8 < length dst" using Suc.prems by auto
  define dst' where "dst' = (if src ! i \<noteq> 0 then dst[i div 8 := dst ! (i div 8) OR push_bit (i mod 8) 1] else dst)"
  have step: "minimize_loop (Suc m) i dst src = minimize_loop m (Suc i) dst' src"
    using i by (simp add: dst'_def)
  have bits: "mini_bit dst' k \<longleftrightarrow> mini_bit dst k \<or> (k = i \<and> src ! i \<noteq> 0)" for k
  proof (cases "k div 8 = i div 8")
    case True
    have "bit (push_bit (i mod 8) (1 :: u8)) (k mod 8) \<longleftrightarrow> k mod 8 = i mod 8"
      by (auto simp: bit_simps bit_1_iff)
    moreover have "k mod 8 = i mod 8 \<longleftrightarrow> k = i"
      using True by (metis div_mult_mod_eq)
    ultimately show ?thesis
      using True i by (auto simp: dst'_def mini_bit_def bit_or_iff)
  next
    case False
    then show ?thesis by (auto simp: dst'_def mini_bit_def)
  qed
  have "length dst' = length dst" by (simp add: dst'_def)
  then obtain r where r: "minimize_loop m (Suc i) dst' src = Inr r" "length r = length dst"
    "\<forall>k. mini_bit r k \<longleftrightarrow> mini_bit dst' k \<or> (Suc i \<le> k \<and> k < Suc i + m \<and> src ! k \<noteq> 0)"
    using Suc.IH [of "Suc i" dst'] Suc.prems by auto
  have "mini_bit r k \<longleftrightarrow> mini_bit dst k \<or> (i \<le> k \<and> k < i + Suc m \<and> src ! k \<noteq> 0)" for k
  proof -
    have "i \<le> k \<and> k < i + Suc m \<longleftrightarrow> k = i \<or> Suc i \<le> k \<and> k < Suc i + m" by auto
    then show ?thesis using r(3) bits by blast
  qed
  then show ?case using r step by auto
qed

section \<open>The loop of has_few_bits\<close>

definition restore :: "u8 \<Rightarrow> u8 \<Rightarrow> u8" where
  "restore c v = (if disappeared c v then 0xff else v)"

text \<open>
  Some word of the map is already touched in the virgin map and shares a bit with the trace:
  the condition under which the loop compares the hit counts. It depends on the word width.
\<close>

definition overlap :: "nat \<Rightarrow> nat \<Rightarrow> bytes \<Rightarrow> bytes \<Rightarrow> bool" where
  "overlap n i cs vs \<longleftrightarrow>
     (\<exists>j < i. (\<exists>k < n. vs ! (n * j + k) \<noteq> 0xff) \<and> (\<exists>k < n. cs ! (n * j + k) AND vs ! (n * j + k) \<noteq> 0))"

lemma minus_one_u8: "(- 1 :: u8) = 0xff"
  by simp

lemma overlap_Suc:
  assumes "n * Suc i \<le> length cs" "n * Suc i \<le> length vs"
  shows "overlap n (Suc i) cs vs \<longleftrightarrow>
    (\<exists>k < n. vs ! k \<noteq> 0xff) \<and> (\<exists>k < n. cs ! k AND vs ! k \<noteq> 0) \<or> overlap n i (drop n cs) (drop n vs)"
  using assms by (simp add: overlap_def Ex_less_Suc2 add.assoc add.left_commute)

context coverage_word
begin

lemma has_few_bits_loop_bytes:
  "n * i \<le> length cur \<Longrightarrow> n * i \<le> length vir \<Longrightarrow>
    has_few_bits_loop TYPE('w) fewer i cur vir =
      Inr (fewer \<and> overlap n i cur vir, \<exists>k < n * i. disappeared (cur ! k) (vir ! k),
           map2 restore (take (n * i) cur) (take (n * i) vir) @ drop (n * i) vir)"
proof (induction i arbitrary: cur vir)
  case 0
  then show ?case by (simp add: overlap_def)
next
  case (Suc i)
  let ?cs = "take n cur" and ?vs = "take n vir"
  let ?gone = "\<exists>k < n. disappeared (cur ! k) (vir ! k)"
  have len: "length ?cs = n" "length ?vs = n" using Suc.prems by simp_all
  have touched: "(ldw vir :: 'w word) + 1 \<noteq> 0 \<longleftrightarrow> (\<exists>k < n. vir ! k \<noteq> 0xff)"
  proof -
    have "(ldw vir :: 'w word) + 1 \<noteq> 0 \<longleftrightarrow> (le_word ?vs :: 'w word) \<noteq> - 1"
      by (metis add.right_inverse add_eq_0_iff2 ldw_eq minus_minus)
    also have "\<dots> \<longleftrightarrow> (\<exists>b \<in> set ?vs. b \<noteq> 0xff)"
      using le_word_all_ones_iff [where 'a = 'w, of ?vs] len(2) width by (simp add: minus_one_u8)
    also have "\<dots> \<longleftrightarrow> (\<exists>k < n. vir ! k \<noteq> 0xff)"
      using len(2) by (metis in_set_conv_nth nth_take)
    finally show ?thesis .
  qed
  have meet: "(ldw cur :: 'w word) AND ldw vir \<noteq> 0 \<longleftrightarrow> (\<exists>k < n. cur ! k AND vir ! k \<noteq> 0)"
    using discover_aux(1) [where 'a = 'w, of ?cs ?vs] len width by (simp add: ldw_eq cong: conj_cong)
  have gone: "list_ex (\<lambda>(c, v). disappeared c v) (zip ?cs ?vs) \<longleftrightarrow> ?gone"
    using len by (simp add: list_ex_length cong: conj_cong)
  have both: "(\<exists>k < n. vir ! k \<noteq> 0xff) \<and> ?gone \<longleftrightarrow> ?gone"
    by (auto simp: disappeared_def)
  have chunk: "(if ?gone then map2 (\<lambda>c v. if disappeared c v then 0xff else v) ?cs ?vs else ?vs)
    = map2 restore ?cs ?vs"
    using len by (auto intro!: nth_equalityI simp: restore_def)
  have IH: "has_few_bits_loop TYPE('w) fewer i (drop n cur) (drop n vir) =
    Inr (fewer \<and> overlap n i (drop n cur) (drop n vir),
      \<exists>k < n * i. disappeared (drop n cur ! k) (drop n vir ! k),
      map2 restore (take (n * i) (drop n cur)) (take (n * i) (drop n vir)) @ drop (n * i) (drop n vir))"
    using Suc.prems by (intro Suc.IH) simp_all
  have split: "take (n * Suc i) xs = take n xs @ take (n * i) (drop n xs)" for xs :: bytes
    by (simp add: take_add)
  have cov: "(\<exists>k < n * Suc i. disappeared (cur ! k) (vir ! k)) \<longleftrightarrow>
    ?gone \<or> (\<exists>k < n * i. disappeared (drop n cur ! k) (drop n vir ! k))"
    using Suc.prems by (simp add: ex_less_append)
  show ?case
    unfolding split cov overlap_Suc [OF Suc.prems] has_few_bits_loop.simps Let_def wbytes_n
      touched meet gone both chunk IH
    using Suc.prems len by (auto simp: add.commute)
qed

end


section \<open>Specifications\<close>

lemma cov_wf_map_wf: "cov_wf afl \<Longrightarrow> map_wf (fsrv afl)"
  by (simp add: cov_wf_def)

text \<open>The part of the map the 32-bit flavours visit.\<close>

definition seen32 :: "('a) afl_cov_scheme \<Rightarrow> nat" where
  "seen32 afl = 4 * ((unat (real_map_size (fsrv afl)) + 3) div 4)"

lemma seen32_words:
  assumes "cov_wf afl"
  shows "4 * unat (drop_bit 2 (real_map_size (fsrv afl) + 3)) = seen32 afl"
    "seen32 afl \<le> seen64 afl" "seen32 afl \<le> unat (map_size (fsrv afl))"
  using map_wf_words32(2,3) [OF cov_wf_map_wf [OF assms]] assms
  by (auto simp: seen32_def seen64_def cov_wf_def map_wf_def)

lemma has_new_bits_32_spec:
  assumes "cov_wf afl"
  shows "has_new_bits_32 afl vm =
    (let cs = take (seen32 afl) (trace_bits (fsrv afl)); vs = take (seen32 afl) (get_virgin vm afl)
     in finish_new_bits afl vm (news 0 cs vs, clear_seen cs vs @ drop (seen32 afl) (get_virgin vm afl)))"
  unfolding has_new_bits_32_def Let_def
  by (subst w32.has_new_bits_loop_bytes) (simp_all add: cov_wfD [OF assms(1)] seen32_words [OF assms])

lemma has_new_bits_nth:
  assumes "cov_wf afl"
  shows "\<exists>afl'. has_new_bits afl vm = Inr (
      if \<exists>k < seen64 afl. trace_bits (fsrv afl) ! k \<noteq> 0 \<and> get_virgin vm afl ! k = 0xff then 2
      else if \<exists>k < seen64 afl. trace_bits (fsrv afl) ! k AND get_virgin vm afl ! k \<noteq> 0 then 1
      else 0, afl') \<and>
    length (get_virgin vm afl') = length (get_virgin vm afl) \<and>
    (\<forall>k < length (get_virgin vm afl). get_virgin vm afl' ! k =
       (if k < seen64 afl then get_virgin vm afl ! k AND NOT (trace_bits (fsrv afl) ! k)
        else get_virgin vm afl ! k)) \<and>
    (\<forall>vm'. vm' \<noteq> vm \<longrightarrow> get_virgin vm' afl' = get_virgin vm' afl) \<and> fsrv afl' = fsrv afl \<and>
    (bitmap_changed afl' \<longleftrightarrow> bitmap_changed afl \<or> (vm = VIRGIN_BITS \<and>
       (\<exists>k < seen64 afl. trace_bits (fsrv afl) ! k AND get_virgin vm afl ! k \<noteq> 0)))"
proof -
  let ?cs = "take (seen64 afl) (trace_bits (fsrv afl))" and ?vs = "take (seen64 afl) (get_virgin vm afl)"
  let ?S = "seen64 afl"
  have len: "length ?cs = ?S" "length ?vs = ?S" using cov_wfD [OF assms] by simp_all
  define r where "r = news 0 ?cs ?vs"
  define m where "m = clear_seen ?cs ?vs @ drop ?S (get_virgin vm afl)"
  have r2: "(\<exists>k < ?S. trace_bits (fsrv afl) ! k \<noteq> 0 \<and> get_virgin vm afl ! k = 0xff) \<longleftrightarrow> r = 2"
    using len by (simp add: r_def news_cases cong: conj_cong)
  have r1: "(\<exists>k < ?S. trace_bits (fsrv afl) ! k AND get_virgin vm afl ! k \<noteq> 0) \<longleftrightarrow> r \<noteq> 0"
    using len by (auto simp: r_def news_cases)
  have r: "r = (if r = 2 then 2 else if r \<noteq> 0 then 1 else 0)"
    by (auto simp: r_def news_def)
  have m: "length m = length (get_virgin vm afl)"
    "\<forall>k < length (get_virgin vm afl). m ! k =
       (if k < ?S then get_virgin vm afl ! k AND NOT (trace_bits (fsrv afl) ! k)
        else get_virgin vm afl ! k)"
    using len cov_wfD(2,5) [OF assms] by (auto simp: m_def nth_append)
  have bc: "bitmap_changed (set_virgin vm m afl) = bitmap_changed afl" by (cases vm) simp_all
  have run: "has_new_bits afl vm = finish_new_bits afl vm (r, m)"
    by (simp add: has_new_bits_spec [OF assms] r_def m_def Let_def)
  define c where "c \<longleftrightarrow> r \<noteq> 0 \<and> vm = VIRGIN_BITS"
  have c: "vm = VIRGIN_BITS \<and> r \<noteq> 0 \<longleftrightarrow> c" by (auto simp: c_def)
  show ?thesis
    unfolding run finish_new_bits_simps r1 r2 c c_def [symmetric]
    using m bc r by (cases c) auto
qed

lemma seen_words:
  assumes "cov_wf afl"
  shows "unat (drop_bit 3 (real_map_size (fsrv afl) + 7)) = seen64 afl div 8"
    "8 * (seen64 afl div 8) = seen64 afl"
    "unat (drop_bit 2 (real_map_size (fsrv afl) + 3)) = seen32 afl div 4"
    "4 * (seen32 afl div 4) = seen32 afl"
  using cov_wfD(4) [OF assms] seen32_words(1) [OF assms]
  by (simp_all flip: cov_wfD(4) [OF assms] seen32_words(1) [OF assms])

lemma has_few_bits_matrix:
  assumes "cov_wf afl" "testcase_matrix afl \<noteq> None"
  shows "has_few_bits afl vm =
    (let cs = trace_bits (fsrv afl); vs = get_virgin vm afl; s = seen64 afl in
     finish_few_bits afl vm
       ((of_nat (length (filter (\<lambda>b. b \<noteq> 0) (counted afl cs))) :: u32) < min_bitmap_size afl)
       (actual_counts (fsrv afl) < min_actual_cnts afl \<and> overlap 8 (s div 8) cs vs,
        \<exists>k < s. disappeared (cs ! k) (vs ! k),
        map2 restore (take s cs) (take s vs) @ drop s vs))"
  unfolding has_few_bits_def Let_def if_not_P [OF assms(2)] seen_words(1) [OF assms(1)]
  by (subst w64.has_few_bits_loop_bytes)
    (simp_all add: cov_wfD [OF assms(1)] count_bytes_wf cov_wf_map_wf seen_words [OF assms(1)] assms(1))

lemma has_few_bits_32_matrix:
  assumes "cov_wf afl" "testcase_matrix afl \<noteq> None"
  shows "has_few_bits_32 afl vm =
    (let cs = trace_bits (fsrv afl); vs = get_virgin vm afl; s = seen32 afl in
     finish_few_bits afl vm
       ((of_nat (length (filter (\<lambda>b. b \<noteq> 0) (counted afl cs))) :: u32) < min_bitmap_size afl)
       (actual_counts (fsrv afl) < min_actual_cnts afl \<and> overlap 4 (s div 4) cs vs,
        \<exists>k < s. disappeared (cs ! k) (vs ! k),
        map2 restore (take s cs) (take s vs) @ drop s vs))"
  unfolding has_few_bits_32_def Let_def if_not_P [OF assms(2)] seen_words(3) [OF assms(1)]
  by (subst w32.has_few_bits_loop_bytes)
    (simp_all add: cov_wfD [OF assms(1)] count_bytes_wf cov_wf_map_wf seen_words [OF assms(1)]
       seen32_words(3) [OF assms(1)] assms(1))

lemma finish_few_bits_simps:
  "finish_few_bits afl vm bms (hcn, cov, m) =
     Inr (few_bits_code bms cov hcn,
          if cov then (set_virgin vm m afl)\<lparr>bitmap_changed := True\<rparr> else set_virgin vm m afl)"
  by (simp add: finish_few_bits_def Let_def)

lemma few_bits_code_bits:
  "bit (few_bits_code bms cov hcn) 0 = hcn" "bit (few_bits_code bms cov hcn) 1 = cov"
  "bit (few_bits_code bms cov hcn) (Suc 0) = cov"
  "bit (few_bits_code bms cov hcn) 2 = bms"
  "0x10 \<le> few_bits_code bms cov hcn" "few_bits_code bms cov hcn \<le> 0x17"
  by (cases bms; cases cov; cases hcn; simp add: few_bits_code_def bit_simps)+

text \<open>After a pass every touched byte of the visited part is hit by the trace.\<close>

lemma restore_not_disappeared: "\<not> disappeared c (restore c v)"
  by (simp add: disappeared_def restore_def)

text \<open>A small state on which the properties below are instantiated: a map of 64 bytes.\<close>

definition small_cov :: "bytes \<Rightarrow> bytes \<Rightarrow> afl_cache" where
  "small_cov cs vs = zero_afl\<lparr>fsrv := example_fsrv cs, virgin_bits := vs, virgin_tmout := vs,
     virgin_crash := vs, testcase_matrix := Some 0, min_actual_cnts := 10\<rparr>"

lemma small_cov_wf: "length cs = 64 \<Longrightarrow> length vs = 64 \<Longrightarrow> cov_wf (small_cov cs vs)"
  unfolding cov_wf_def
proof (intro conjI allI)
  assume "length cs = 64" "length vs = 64"
  then show "map_wf (fsrv (small_cov cs vs))" by (simp add: small_cov_def map_wf_example)
  show "length (get_virgin vm (small_cov cs vs)) = unat (map_size (fsrv (small_cov cs vs)))" for vm
    using \<open>length cs = 64\<close> \<open>length vs = 64\<close> by (cases vm) (simp_all add: small_cov_def)
qed

lemma small_cov_simps [simp]:
  "get_virgin vm (small_cov cs vs) = vs"
  "trace_bits (fsrv (small_cov cs vs)) = cs"
  "actual_counts (fsrv (small_cov cs vs)) = 0"
  "map_size (fsrv (small_cov cs vs)) = of_nat (length cs)"
  "testcase_matrix (small_cov cs vs) = Some 0" "min_actual_cnts (small_cov cs vs) = 10"
  "min_bitmap_size (small_cov cs vs) = 0"
  "length cs = 64 \<Longrightarrow> seen64 (small_cov cs vs) = 64"
  "length cs = 64 \<Longrightarrow> seen32 (small_cov cs vs) = 64"
  "length cs = 64 \<Longrightarrow> counted (small_cov cs vs) mem = take 64 mem"
  by (cases vm) (simp_all add: small_cov_def zero_afl_def seen64_def seen32_def counted_def)

section \<open>Properties\<close>

text \<open>C15. \<open>has_new_bits\<close> is total on a well-formed map. It returns 2 exactly when a byte of
  the visited part is hit and still pristine (255) in the virgin map, 1 when only new hit-count
  bits appear, 0 otherwise; it clears exactly the trace's bits from the visited part of the
  given virgin map, leaves the other maps and the trace alone, and raises \<open>bitmap_changed\<close>
  exactly when it found something in \<open>virgin_bits\<close>.\<close>

theorem has_new_bits_correct:
  assumes "cov_wf afl"
  shows "\<exists>afl'. has_new_bits afl vm = Inr (
      if \<exists>k < seen64 afl. trace_bits (fsrv afl) ! k \<noteq> 0 \<and> get_virgin vm afl ! k = 0xff then 2
      else if \<exists>k < seen64 afl. trace_bits (fsrv afl) ! k AND get_virgin vm afl ! k \<noteq> 0 then 1
      else 0, afl') \<and>
    length (get_virgin vm afl') = length (get_virgin vm afl) \<and>
    (\<forall>k < length (get_virgin vm afl). get_virgin vm afl' ! k =
       (if k < seen64 afl then get_virgin vm afl ! k AND NOT (trace_bits (fsrv afl) ! k)
        else get_virgin vm afl ! k)) \<and>
    (\<forall>vm'. vm' \<noteq> vm \<longrightarrow> get_virgin vm' afl' = get_virgin vm' afl) \<and> fsrv afl' = fsrv afl \<and>
    (bitmap_changed afl' \<longleftrightarrow> bitmap_changed afl \<or> (vm = VIRGIN_BITS \<and>
       (\<exists>k < seen64 afl. trace_bits (fsrv afl) ! k AND get_virgin vm afl ! k \<noteq> 0)))"
  using assms by (rule has_new_bits_nth)

theorem has_new_bits_correct_witness:
  "\<exists>afl'. has_new_bits (small_cov (replicate 64 1) (replicate 64 3)) VIRGIN_BITS = Inr (1, afl') \<and>
     bitmap_changed afl' \<and> get_virgin VIRGIN_BITS afl' ! 5 = 2"
proof -
  let ?a = "small_cov (replicate 64 1) (replicate 64 3)"
  have "cov_wf ?a" by (simp add: small_cov_wf)
  have e: "\<exists>k :: nat. k < 64" by (rule exI [of _ 0]) simp
  from has_new_bits_correct [OF \<open>cov_wf ?a\<close>, of VIRGIN_BITS] obtain afl'
    where a: "has_new_bits ?a VIRGIN_BITS = Inr (1, afl')" "bitmap_changed afl'"
      "\<forall>k < 64. get_virgin VIRGIN_BITS afl' ! k = 2"
    by (auto simp add: e simp del: get_virgin.simps cong: conj_cong)
  moreover from a(3) have "get_virgin VIRGIN_BITS afl' ! 5 = 2" by (rule spec [of _ 5, THEN mp]) simp
  ultimately show ?thesis by blast
qed

text \<open>The map update of \<open>has_new_bits\<close> makes it idempotent: whatever the first call found, a
  second call on the same trace returns 0 and changes nothing.\<close>

theorem has_new_bits_idempotent:
  assumes "cov_wf afl" and "has_new_bits afl vm = Inr (r, afl')"
  shows "has_new_bits afl' vm = Inr (0, afl')"
proof -
  let ?S = "seen64 afl"
  define v where "v = get_virgin vm afl"
  define cs where "cs = take ?S (trace_bits (fsrv afl))"
  define ws where "ws = clear_seen cs (take ?S v)"
  have len: "length cs = ?S" "length ws = ?S" "?S \<le> length v"
    using cov_wfD [OF assms(1)] by (simp_all add: cs_def ws_def v_def)
  obtain b where afl': "afl' = set_virgin vm (ws @ drop ?S v) afl \<or>
      afl' = (set_virgin vm (ws @ drop ?S v) afl)\<lparr>bitmap_changed := b\<rparr>"
    using assms(2) unfolding has_new_bits_spec [OF assms(1)] Let_def finish_new_bits_simps
      v_def [symmetric] cs_def [symmetric] ws_def [symmetric]
    by (auto split: if_splits)
  then have get: "get_virgin vm afl' = ws @ drop ?S v" "seen64 afl' = ?S" "fsrv afl' = fsrv afl"
    by auto
  have "length (ws @ drop ?S v) = unat (map_size (fsrv afl))"
    using len cov_wfD(2) [OF assms(1)] by (simp add: v_def)
  with afl' have wf: "cov_wf afl'"
    using cov_wf_set_virgin [OF assms(1), of "ws @ drop ?S v" vm] by auto
  have "clear_seen cs ws = ws"
    using len by (intro clear_seen_id) (auto simp: ws_def bit_eq_iff bit_simps)
  moreover have "news 0 cs ws = 0" unfolding ws_def using len by (intro news_after_clear) simp
  moreover have "take ?S (ws @ drop ?S v) = ws" "drop ?S (ws @ drop ?S v) = drop ?S v"
    using len by simp_all
  ultimately have "has_new_bits afl' vm = Inr (0, set_virgin vm (ws @ drop ?S v) afl')"
    unfolding has_new_bits_spec [OF wf] Let_def get cs_def [symmetric] by (simp only: finish_new_bits_simps) simp
  then show ?thesis using set_get_virgin [of vm afl'] get(1) by simp
qed

theorem has_new_bits_idempotent_witness:
  "\<exists>r afl'. has_new_bits (small_cov (replicate 64 1) (replicate 64 255)) VIRGIN_CRASH = Inr (r, afl') \<and>
     has_new_bits afl' VIRGIN_CRASH = Inr (0, afl')"
proof -
  have wf: "cov_wf (small_cov (replicate 64 1) (replicate 64 255))" by (simp add: small_cov_wf)
  then obtain r afl' where "has_new_bits (small_cov (replicate 64 1) (replicate 64 255)) VIRGIN_CRASH = Inr (r, afl')"
    using has_new_bits_nth [OF wf, of VIRGIN_CRASH] by blast
  with has_new_bits_idempotent [OF wf this] show ?thesis by blast
qed

text \<open>C29. The one-pass fast path is exact: provided the trace is untouched beyond the part
  \<open>has_new_bits\<close> visits, \<open>has_new_bits_unclassified\<close> returns what classifying first would
  have returned and keeps the original state, trace included, when that is 0.\<close>

theorem has_new_bits_unclassified_correct:
  assumes "cov_wf afl"
    and "\<And>k. seen64 afl \<le> k \<Longrightarrow> k < unat (map_size (fsrv afl)) \<Longrightarrow> trace_bits (fsrv afl) ! k = 0"
  shows "has_new_bits_unclassified afl vm =
    bnd (classify_counts (fsrv afl)) (\<lambda>fs.
    bnd (has_new_bits (afl\<lparr>fsrv := fs\<rparr>) vm) (\<lambda>(r, afl'). Inr (r, if r = 0 then afl else afl')))"
  using assms by (rule has_new_bits_unclassified_spec)

theorem has_new_bits_unclassified_correct_witness:
  "has_new_bits_unclassified (small_cov (replicate 64 5) (replicate 64 247)) VIRGIN_BITS =
    bnd (classify_counts (fsrv (small_cov (replicate 64 5) (replicate 64 247)))) (\<lambda>fs.
    bnd (has_new_bits ((small_cov (replicate 64 5) (replicate 64 247))\<lparr>fsrv := fs\<rparr>) VIRGIN_BITS)
      (\<lambda>(r, afl'). Inr (r, if r = 0 then small_cov (replicate 64 5) (replicate 64 247) else afl')))"
proof (rule has_new_bits_unclassified_correct)
  show "cov_wf (small_cov (replicate 64 5) (replicate 64 247))" by (simp add: small_cov_wf)
next
  fix k
  assume "seen64 (small_cov (replicate 64 5) (replicate 64 247)) \<le> k"
    and "k < unat (map_size (fsrv (small_cov (replicate 64 5) (replicate 64 247))))"
  then show "trace_bits (fsrv (small_cov (replicate 64 5) (replicate 64 247))) ! k = 0"
    by simp
qed

text \<open>The 32-bit flavour of \<open>has_new_bits\<close> agrees with the 64-bit one, result and maps,
  when the bytes only the wider flavour visits (the rounding of \<open>real_map_size\<close>) are not hit.\<close>

theorem has_new_bits_flavours_agree:
  assumes wf: "cov_wf afl"
    and tail: "\<And>k. seen32 afl \<le> k \<Longrightarrow> k < seen64 afl \<Longrightarrow> trace_bits (fsrv afl) ! k = 0"
  shows "has_new_bits_32 afl vm = has_new_bits afl vm"
proof -
  let ?c = "trace_bits (fsrv afl)" and ?v = "get_virgin vm afl"
  let ?a = "seen32 afl" and ?b = "seen64 afl"
  have le: "?a \<le> ?b" "?b \<le> length ?c" "?b \<le> length ?v"
    using seen32_words(2) [OF wf] cov_wfD [OF wf] by auto
  have tk: "take ?b xs = take ?a xs @ take (?b - ?a) (drop ?a xs)" for xs :: bytes
    using le(1) by (metis le_add_diff_inverse take_add)
  have dr: "drop ?a ?v = take (?b - ?a) (drop ?a ?v) @ drop ?b ?v"
    using le by (metis append_take_drop_id drop_drop le_add_diff_inverse2)
  have z: "\<forall>c \<in> set (take (?b - ?a) (drop ?a ?c)). c = 0"
    using le tail by (auto simp: all_set_conv_all_nth)
  have len: "length (take ?a ?c) = length (take ?a ?v)"
    "length (take (?b - ?a) (drop ?a ?c)) = length (take (?b - ?a) (drop ?a ?v))"
    using le by simp_all
  have n: "news 0 (take ?b ?c) (take ?b ?v) = news 0 (take ?a ?c) (take ?a ?v)"
    unfolding tk news_append [OF len(1), symmetric] by (rule news_zeros [OF z len(2)])
  have c: "clear_seen (take ?b ?c) (take ?b ?v) @ drop ?b ?v = clear_seen (take ?a ?c) (take ?a ?v) @ drop ?a ?v"
    unfolding tk clear_seen_append [OF len(1)] clear_seen_zeros [OF z len(2)] using dr by simp
  show ?thesis
    by (simp only: has_new_bits_spec [OF wf] has_new_bits_32_spec [OF wf] Let_def n c)
qed

theorem has_new_bits_flavours_agree_witness:
  "has_new_bits_32 (small_cov (replicate 64 1) (replicate 64 255)) VIRGIN_TMOUT
    = has_new_bits (small_cov (replicate 64 1) (replicate 64 255)) VIRGIN_TMOUT"
  by (rule has_new_bits_flavours_agree) (simp_all add: small_cov_wf)

text \<open>\<open>minimize_bits\<close> into a zeroed buffer of at least one bit per map byte sets bit
  \<open>k mod 8\<close> of byte \<open>k div 8\<close> exactly when byte \<open>k\<close> of the trace is hit, and never leaves
  either buffer.\<close>

theorem minimize_bits_correct:
  assumes "unat (map_size (fsrv afl)) \<le> length src" and "unat (map_size (fsrv afl)) \<le> 8 * n"
  shows "\<exists>dst. minimize_bits afl (replicate n 0) src = Inr dst \<and> length dst = n \<and>
    (\<forall>k < 8 * n. bit (dst ! (k div 8)) (k mod 8) \<longleftrightarrow> k < unat (map_size (fsrv afl)) \<and> src ! k \<noteq> 0)"
proof -
  obtain r where r: "minimize_bits afl (replicate n 0) src = Inr r" "length r = n"
    "\<forall>k. mini_bit r k \<longleftrightarrow> mini_bit (replicate n 0) k \<or> (k < unat (map_size (fsrv afl)) \<and> src ! k \<noteq> 0)"
    using minimize_loop_spec [of 0 "unat (map_size (fsrv afl))" src "replicate n 0"] assms
    by (auto simp: minimize_bits_def)
  have "bit (r ! (k div 8)) (k mod 8) \<longleftrightarrow> k < unat (map_size (fsrv afl)) \<and> src ! k \<noteq> 0" if "k < 8 * n" for k
  proof -
    have "k div 8 < n" using that by auto
    with r(3) [rule_format, of k] r(2) show ?thesis by (simp add: mini_bit_def)
  qed
  with r(1,2) show ?thesis by blast
qed

theorem minimize_bits_correct_witness:
  "\<exists>dst. minimize_bits (small_cov (replicate 64 0) (replicate 64 0)) (replicate 8 0) (replicate 10 0 @ replicate 54 7)
      = Inr dst \<and> \<not> bit (dst ! 1) 1 \<and> bit (dst ! 1) 2"
proof -
  let ?a = "small_cov (replicate 64 0) (replicate 64 0)"
  let ?src = "replicate 10 0 @ replicate 54 (7 :: u8)"
  obtain dst where d: "minimize_bits ?a (replicate 8 0) ?src = Inr dst"
    "\<forall>k < 8 * 8. bit (dst ! (k div 8)) (k mod 8) \<longleftrightarrow> k < unat (map_size (fsrv ?a)) \<and> ?src ! k \<noteq> 0"
    using minimize_bits_correct [of ?a ?src 8] by auto
  show ?thesis
    using d(1) d(2) [rule_format, of 9] d(2) [rule_format, of 10] by (simp add: nth_append)
qed

text \<open>C1. With a testcase matrix present, \<open>has_few_bits\<close> encodes three facts in the low bits of
  a code between 0x10 and 0x17: bit 2, fewer map bytes are hit than ever before; bit 1, some
  byte touched in the virgin map is no longer hit; bit 0, the hit count is below the minimum
  and some 8-byte word is both touched and shares bits with the trace. Exactly the bytes that
  disappeared go back to 255; without a matrix it is \<open>has_new_bits\<close>.\<close>

theorem has_few_bits_correct:
  assumes "cov_wf afl"
  shows "if testcase_matrix afl = None then has_few_bits afl vm = has_new_bits afl vm else
    \<exists>r afl'. has_few_bits afl vm = Inr (r, afl') \<and> 0x10 \<le> r \<and> r \<le> 0x17 \<and>
    (bit r 2 \<longleftrightarrow> of_nat (length (filter (\<lambda>b. b \<noteq> 0) (counted afl (trace_bits (fsrv afl))))) < min_bitmap_size afl) \<and>
    (bit r 1 \<longleftrightarrow> (\<exists>k < seen64 afl. get_virgin vm afl ! k \<noteq> 0xff \<and> trace_bits (fsrv afl) ! k = 0)) \<and>
    (bit r 0 \<longleftrightarrow> actual_counts (fsrv afl) < min_actual_cnts afl \<and>
       (\<exists>j < seen64 afl div 8. (\<exists>k < 8. get_virgin vm afl ! (8 * j + k) \<noteq> 0xff) \<and>
          (\<exists>k < 8. trace_bits (fsrv afl) ! (8 * j + k) AND get_virgin vm afl ! (8 * j + k) \<noteq> 0))) \<and>
    (\<forall>k < length (get_virgin vm afl). get_virgin vm afl' ! k =
       (if k < seen64 afl \<and> trace_bits (fsrv afl) ! k = 0 then 0xff else get_virgin vm afl ! k)) \<and>
    (bitmap_changed afl' \<longleftrightarrow> bitmap_changed afl \<or> bit r 1) \<and> fsrv afl' = fsrv afl"
proof (cases "testcase_matrix afl = None")
  case True
  then show ?thesis by (simp add: has_few_bits_def)
next
  case False
  let ?S = "seen64 afl"
  define cs where "cs = trace_bits (fsrv afl)"
  define vs where "vs = get_virgin vm afl"
  define m where "m = map2 restore (take ?S cs) (take ?S vs) @ drop ?S vs"
  define cov where "cov \<longleftrightarrow> (\<exists>k < ?S. disappeared (cs ! k) (vs ! k))"
  define hcn where "hcn \<longleftrightarrow> actual_counts (fsrv afl) < min_actual_cnts afl \<and> overlap 8 (?S div 8) cs vs"
  define bms where "bms \<longleftrightarrow> (of_nat (length (filter (\<lambda>b. b \<noteq> 0) (counted afl cs))) :: u32) < min_bitmap_size afl"
  have len: "?S \<le> length cs" "?S \<le> length vs" using cov_wfD [OF assms] by (simp_all add: cs_def vs_def)
  have m: "\<forall>k < length vs. m ! k = (if k < ?S \<and> cs ! k = 0 then 0xff else vs ! k)"
    using len by (auto simp: m_def nth_append restore_def disappeared_def)
  have run: "has_few_bits afl vm = Inr (few_bits_code bms cov hcn,
      if cov then (set_virgin vm m afl)\<lparr>bitmap_changed := True\<rparr> else set_virgin vm m afl)"
    using has_few_bits_matrix [OF assms False, of vm]
    by (simp only: Let_def finish_few_bits_simps cs_def vs_def m_def cov_def hcn_def bms_def)
  have bc: "bitmap_changed (set_virgin vm m afl) = bitmap_changed afl" by (cases vm) simp_all
  show ?thesis
    unfolding if_not_P [OF False] run
    by (rule exI [of _ "few_bits_code bms cov hcn"], cases cov)
      (use m bc in \<open>simp_all add: few_bits_code_bits bms_def [unfolded cs_def] cov_def disappeared_def hcn_def overlap_def
        cs_def vs_def conj_commute\<close>, blast)
qed

theorem has_few_bits_correct_witness:
  "\<exists>r afl'. has_few_bits (small_cov (replicate 64 0) (replicate 64 3)) VIRGIN_BITS = Inr (r, afl') \<and>
     bit r 1 \<and> \<not> bit r 0 \<and> get_virgin VIRGIN_BITS afl' ! 5 = 255"
proof -
  let ?a = "small_cov (replicate 64 0) (replicate 64 3)"
  have wf: "cov_wf ?a" and no: "testcase_matrix ?a \<noteq> None" by (simp_all add: small_cov_wf)
  have e: "\<exists>k :: nat. k < 64" by (rule exI [of _ 0]) simp
  from has_few_bits_correct [OF wf, of VIRGIN_BITS, unfolded if_not_P [OF no]]
  obtain r afl' where "has_few_bits ?a VIRGIN_BITS = Inr (r, afl')"
    "bit r 1" "\<not> bit r 0"
    and g: "\<forall>k < 64. get_virgin VIRGIN_BITS afl' ! k = 255"
    by (auto simp del: get_virgin.simps simp add: e cong: conj_cong)
  moreover have "get_virgin VIRGIN_BITS afl' ! 5 = 255" by (rule g [rule_format]) simp
  ultimately show ?thesis using e by blast
qed

text \<open>A reported disappearance is consumed: the same trace never reports it twice, because
  after a call every byte still touched in the visited part of the virgin map is hit.\<close>

theorem has_few_bits_reports_once:
  assumes "cov_wf afl" and "testcase_matrix afl \<noteq> None" and "has_few_bits afl vm = Inr (r, afl')"
  shows "\<exists>r' afl''. has_few_bits afl' vm = Inr (r', afl'') \<and> \<not> bit r' 1"
proof -
  let ?S = "seen64 afl"
  define cs where "cs = trace_bits (fsrv afl)"
  define vs where "vs = get_virgin vm afl"
  define ws where "ws = map2 restore (take ?S cs) (take ?S vs) @ drop ?S vs"
  have len: "?S \<le> length cs" "?S \<le> length vs" "length vs = unat (map_size (fsrv afl))"
    using cov_wfD [OF assms(1)] by (simp_all add: cs_def vs_def)
  obtain b where afl': "afl' = set_virgin vm ws afl \<or> afl' = (set_virgin vm ws afl)\<lparr>bitmap_changed := b\<rparr>"
    using assms(3) unfolding has_few_bits_matrix [OF assms(1,2)] Let_def finish_few_bits_simps
      cs_def [symmetric] vs_def [symmetric] ws_def [symmetric]
    by (auto split: if_splits)
  then have get: "get_virgin vm afl' = ws" "seen64 afl' = ?S" "fsrv afl' = fsrv afl"
    "testcase_matrix afl' \<noteq> None"
    using assms(2) by auto
  have "length ws = unat (map_size (fsrv afl))" using len by (simp add: ws_def)
  with afl' have wf: "cov_wf afl'"
    using cov_wf_set_virgin [OF assms(1), of ws vm] by auto
  have "\<not> disappeared (cs ! k) (ws ! k)" if "k < ?S" for k
    using that len by (simp add: ws_def nth_append restore_not_disappeared)
  then have "(\<exists>k < ?S. disappeared (cs ! k) (ws ! k)) = False" by blast
  then show ?thesis
    unfolding has_few_bits_matrix [OF wf get(4)] Let_def get cs_def [symmetric] finish_few_bits_simps
    by (simp only:) (auto simp: few_bits_code_bits)
qed

theorem has_few_bits_reports_once_witness:
  "\<exists>r afl' r' afl''. has_few_bits (small_cov (replicate 64 0) (replicate 64 3)) VIRGIN_BITS = Inr (r, afl') \<and>
     has_few_bits afl' VIRGIN_BITS = Inr (r', afl'') \<and> \<not> bit r' 1"
proof -
  let ?a = "small_cov (replicate 64 0) (replicate 64 3)"
  have wf: "cov_wf ?a" and no: "testcase_matrix ?a \<noteq> None" by (simp_all add: small_cov_wf)
  obtain r afl' where r: "has_few_bits ?a VIRGIN_BITS = Inr (r, afl')"
    by (simp add: has_few_bits_matrix [OF wf no] Let_def finish_few_bits_simps)
  with has_few_bits_reports_once [OF wf no r] show ?thesis by blast
qed

text \<open>The hit-count bit of \<open>has_few_bits\<close> depends on the word width the binary was built
  for: on the same trace and virgin map the 64-bit flavour reports a decrease and the 32-bit
  one does not.\<close>

theorem has_few_bits_flavours_differ:
  "map_sum id fst (has_few_bits (small_cov ([1, 0, 0, 0, 1] @ replicate 59 0) (0xfe # replicate 63 255)) VIRGIN_BITS)
     = Inr 0x11 \<and>
   map_sum id fst (has_few_bits_32 (small_cov ([1, 0, 0, 0, 1] @ replicate 59 0) (0xfe # replicate 63 255)) VIRGIN_BITS)
     = Inr 0x10"
proof -
  let ?cs = "[1, 0, 0, 0, 1] @ replicate 59 (0 :: u8)" and ?vs = "0xfe # replicate 63 (255 :: u8)"
  let ?a = "small_cov ?cs ?vs"
  have wf: "cov_wf ?a" and no: "testcase_matrix ?a \<noteq> None" by (simp_all add: small_cov_wf)
  have vs: "?vs ! k = (if k = 0 then 0xfe else 255)" if "k < 64" for k
    using that by (simp add: nth_Cons')
  have cs: "?cs ! k = (if k = 0 \<or> k = 4 then 1 else 0)" if "k < 64" for k
    using that by (auto simp: nth_append nth_Cons' numeral_eq_Suc)
  have gone: "\<not> (\<exists>k < 64. disappeared (?cs ! k) (?vs ! k))"
    using cs vs by (auto simp: disappeared_def)
  have "overlap 8 8 ?cs ?vs"
    unfolding overlap_def by (rule exI [of _ 0]) (auto intro: exI [of _ 0] exI [of _ 4])
  moreover have "\<not> overlap 4 16 ?cs ?vs"
  proof
    assume "overlap 4 16 ?cs ?vs"
    then obtain j k k' where j: "j < 16" "k < 4" "?vs ! (4 * j + k) \<noteq> 0xff" "k' < 4"
      "?cs ! (4 * j + k') AND ?vs ! (4 * j + k') \<noteq> 0" by (auto simp: overlap_def)
    then have "j = 0" using vs [of "4 * j + k"] by (auto split: if_splits)
    with j cs [of k'] vs [of k'] show False by (auto split: if_splits)
  qed
  ultimately show ?thesis
    using has_few_bits_matrix [OF wf no, of VIRGIN_BITS] has_few_bits_32_matrix [OF wf no, of VIRGIN_BITS] gone
    by (simp add: Let_def finish_few_bits_simps few_bits_code_def)
qed

end
