(* ===== verification/Text.thy ===== *)
theory Text
  imports State
begin

text \<open>
  The text detectors of src/afl-fuzz-queue.c: \<open>check_if_text_buf\<close> (a buffer, used by redqueen)
  and \<open>check_if_text\<close> (a queue entry's file, used when cmplog is on). Both run the same
  recogniser of printable ASCII and well-formed UTF-8 over the bytes; one iteration of it is
  \<open>text_step\<close>. The specification is the UTF-8 encoder \<open>utf8_enc\<close> of code points.
\<close>

section \<open>The recogniser\<close>

abbreviation between :: "u8 \<Rightarrow> u8 \<Rightarrow> u8 \<Rightarrow> bool" where
  "between lo b hi \<equiv> lo \<le> b \<and> b \<le> hi"

definition plain_ascii :: "u8 \<Rightarrow> bool" where
  "plain_ascii b \<longleftrightarrow> b = 0x09 \<or> b = 0x0A \<or> b = 0x0D \<or> between 0x20 b 0x7E"

definition isascii :: "u8 \<Rightarrow> bool" where
  "isascii b \<longleftrightarrow> b \<le> 0x7F"

text \<open>\<open>isprint\<close> in the C locale, which the fuzzer never leaves.\<close>

definition isprint :: "u8 \<Rightarrow> bool" where
  "isprint b \<longleftrightarrow> between 0x20 b 0x7E"

definition utf8_two :: "bytes \<Rightarrow> nat \<Rightarrow> bool" where
  "utf8_two buf i \<longleftrightarrow> between 0xC2 (buf ! i) 0xDF \<and> between 0x80 (buf ! (i + 1)) 0xBF"

definition utf8_three :: "bytes \<Rightarrow> nat \<Rightarrow> bool" where
  "utf8_three buf i \<longleftrightarrow>
     (buf ! i = 0xE0 \<and> between 0xA0 (buf ! (i + 1)) 0xBF \<and> between 0x80 (buf ! (i + 2)) 0xBF) \<or>
     ((between 0xE1 (buf ! i) 0xEC \<or> buf ! i = 0xEE \<or> buf ! i = 0xEF) \<and>
      between 0x80 (buf ! (i + 1)) 0xBF \<and> between 0x80 (buf ! (i + 2)) 0xBF) \<or>
     (buf ! i = 0xED \<and> between 0x80 (buf ! (i + 1)) 0x9F \<and> between 0x80 (buf ! (i + 2)) 0xBF)"

definition utf8_four :: "bytes \<Rightarrow> nat \<Rightarrow> bool" where
  "utf8_four buf i \<longleftrightarrow>
     (buf ! i = 0xF0 \<and> between 0x90 (buf ! (i + 1)) 0xBF \<and> between 0x80 (buf ! (i + 2)) 0xBF \<and>
      between 0x80 (buf ! (i + 3)) 0xBF) \<or>
     (between 0xF1 (buf ! i) 0xF3 \<and> between 0x80 (buf ! (i + 1)) 0xBF \<and>
      between 0x80 (buf ! (i + 2)) 0xBF \<and> between 0x80 (buf ! (i + 3)) 0xBF) \<or>
     (buf ! i = 0xF4 \<and> between 0x80 (buf ! (i + 1)) 0x8F \<and> between 0x80 (buf ! (i + 2)) 0xBF \<and>
      between 0x80 (buf ! (i + 3)) 0xBF)"

text \<open>One iteration: how far \<open>offset\<close> moves, and what \<open>ascii\<close> and \<open>utf8\<close> grow by.\<close>

definition text_step :: "bytes \<Rightarrow> nat \<Rightarrow> nat \<Rightarrow> nat \<times> u32 \<times> u32" where
  "text_step buf len offset =
     (if plain_ascii (buf ! offset) then (1, 1, 1)
      else let a = of_bool (isascii (buf ! offset) \<or> isprint (buf ! offset)) in
        if len - offset > 1 \<and> utf8_two buf offset then (2, a, 1)
        else if len - offset > 2 \<and> utf8_three buf offset then (3, a, 1)
        else if len - offset > 3 \<and> utf8_four buf offset then (4, a, 1)
        else (1, a, 0))"

text \<open>The loop; \<open>cnt\<close> (\<open>comp\<close> in the code) counts the bytes less the continuation bytes of recognised sequences.\<close>

function text_loop :: "bytes \<Rightarrow> nat \<Rightarrow> nat \<Rightarrow> u32 \<Rightarrow> u32 \<Rightarrow> int \<Rightarrow> u32 \<times> u32 \<times> int" where
  "text_loop buf len offset ascii utf8 cnt =
     (if offset < len then
        let (d, a, u) = text_step buf len offset
        in text_loop buf len (offset + d) (ascii + a) (utf8 + u) (cnt - (int d - 1))
      else (ascii, utf8, cnt))"
  by auto

lemma text_step_advance:
  "text_step buf len offset = (d, a, u) \<Longrightarrow> 0 < d \<and> (offset < len \<longrightarrow> offset + d \<le> len)"
  by (auto simp: text_step_def Let_def split: if_splits)

termination text_loop
  by (relation "measure (\<lambda>(buf, len, offset, _). len - offset)")
    (auto dest!: text_step_advance [OF sym])

declare text_loop.simps [simp del]

definition check_if_text_buf :: "bytes \<Rightarrow> u32 \<Rightarrow> u8 res" where
  "check_if_text_buf buf len =
     (if length buf < unat len then Inl Oob
      else let (ascii, utf8, cnt) = text_loop buf (unat len) 0 0 0 0
           in Inr (ucast (if utf8 > ascii then utf8 else ascii)))"

definition AFL_TXT_MIN_LEN :: u32 where "AFL_TXT_MIN_LEN = 12"
definition AFL_TXT_MAX_LEN :: u32 where "AFL_TXT_MAX_LEN = 65535"
definition AFL_TXT_MIN_PERCENT :: u32 where "AFL_TXT_MIN_PERCENT = 99"
definition MAX_FILE :: u32 where "MAX_FILE = 1024 * 1024"

text \<open>The division by \<open>cnt\<close> is signed 64-bit, the one by \<open>len\<close> unsigned 32-bit.\<close>

definition check_if_text :: "world \<Rightarrow> queue_entry \<Rightarrow> u8 res" where
  "check_if_text w q =
     (if q_len q < AFL_TXT_MIN_LEN \<or> q_len q < AFL_TXT_MAX_LEN then Inr 0
      else let len = (if q_len q \<ge> MAX_FILE then MAX_FILE - 1 else q_len q) in
        case open_read (fname q) w of
          None \<Rightarrow> Inr 0
        | Some data \<Rightarrow>
            if length data < unat len then Inr 0
            else let (ascii, utf8, cnt) =
                   text_loop (take (unat len) data @ [0]) (unat len) 0 0 0 (int (unat len))
                 in if cnt = 0 \<or> len = 0 then Inl DivZero
                 else let percent_utf8 = (of_int (uint (utf8 * 100) div cnt) :: u32);
                          percent_ascii = (ascii * 100) div len
                      in if percent_utf8 \<ge> percent_ascii \<and> percent_utf8 \<ge> AFL_TXT_MIN_PERCENT then Inr 2
                         else if percent_ascii \<ge> AFL_TXT_MIN_PERCENT then Inr 1
                         else Inr 0)"

section \<open>UTF-8\<close>

definition utf8_enc :: "nat \<Rightarrow> bytes" where
  "utf8_enc c =
     (if c < 0x80 then [of_nat c]
      else if c < 0x800 then [of_nat (0xC0 + c div 64), of_nat (0x80 + c mod 64)]
      else if c < 0x10000 then
        [of_nat (0xE0 + c div 4096), of_nat (0x80 + c div 64 mod 64), of_nat (0x80 + c mod 64)]
      else [of_nat (0xF0 + c div 262144), of_nat (0x80 + c div 4096 mod 64),
        of_nat (0x80 + c div 64 mod 64), of_nat (0x80 + c mod 64)])"

text \<open>The code points of a text: printable ASCII, tab and line ends, and every Unicode scalar
  value from 128 on (surrogates excluded).\<close>

definition text_char :: "nat \<Rightarrow> bool" where
  "text_char c \<longleftrightarrow> c = 9 \<or> c = 10 \<or> c = 13 \<or> (0x20 \<le> c \<and> c \<le> 0x7E) \<or>
     (0x80 \<le> c \<and> c < 0x110000 \<and> \<not> (0xD800 \<le> c \<and> c \<le> 0xDFFF))"

lemma u8_of_nat_le:
  "k < 256 \<Longrightarrow> of_nat k \<le> (v :: u8) \<longleftrightarrow> k \<le> unat v"
  "k < 256 \<Longrightarrow> (v :: u8) \<le> of_nat k \<longleftrightarrow> unat v \<le> k"
  "k < 256 \<Longrightarrow> of_nat k = (v :: u8) \<longleftrightarrow> k = unat v"
  by (auto simp: word_le_nat_alt unat_of_nat_small unat_of_nat_small [of k, where 'a = 8])

lemma length_utf8_enc_pos: "0 < length (utf8_enc c)"
  by (simp add: utf8_enc_def)

lemma text_step_enc:
  assumes c: "text_char c" and len: "length pre + length (utf8_enc c) \<le> len"
  shows "text_step (pre @ utf8_enc c @ post) len (length pre)
    = (length (utf8_enc c), of_bool (c < 0x80), 1)"
proof -
  let ?b = "pre @ utf8_enc c @ post"
  have nth: "?b ! (length pre + k) = utf8_enc c ! k" if "k < length (utf8_enc c)" for k
    using that by (simp add: nth_append)
  note simps = text_step_def Let_def plain_ascii_def isascii_def isprint_def utf8_two_def
    utf8_three_def utf8_four_def u8_of_nat_le
  have "c < 0x110000" using c by (auto simp: text_char_def)
  then consider (one) "c < 0x80" | (two) "0x80 \<le> c" "c < 0x800" | (three) "0x800 \<le> c" "c < 0x10000"
    | (four) "0x10000 \<le> c" "c < 0x110000"
    by fastforce
  then show ?thesis
  proof cases
    case one
    then have "utf8_enc c = [of_nat c]" by (simp add: utf8_enc_def)
    with one c show ?thesis by (auto simp: simps nth_append text_char_def)
  next
    case two
    define x where "x = c div 64"
    define y where "y = c mod 64"
    have e: "utf8_enc c = [of_nat (0xC0 + x), of_nat (0x80 + y)]"
      using two by (simp add: utf8_enc_def x_def y_def del: of_nat_add)
    have "2 \<le> x" "x < 32" "y < 64" using two by (auto simp: x_def y_def)
    with two len show ?thesis
      unfolding e by (simp add: simps nth_append del: of_nat_add)
  next
    case three
    define x where "x = c div 4096"
    define y where "y = c div 64 mod 64"
    define z where "z = c mod 64"
    have e: "utf8_enc c = [of_nat (0xE0 + x), of_nat (0x80 + y), of_nat (0x80 + z)]"
      using three by (simp add: utf8_enc_def x_def y_def z_def del: of_nat_add)
    have b: "x < 16" "y < 64" "z < 64" using three by (auto simp: x_def y_def z_def)
    have d: "c div 64 = 64 * x + y"
      using div_mult2_eq [of c 64 64] mult_div_mod_eq [of 64 "c div 64"] by (simp add: x_def y_def)
    have low: "x = 0 \<Longrightarrow> 32 \<le> y" using d three(1) by linarith
    have "c < 0xD800 \<or> 0xDFFF < c" using c three unfolding text_char_def by linarith
    then have high: "x = 13 \<Longrightarrow> y < 32" using d b by linarith
    have "x = 0 \<or> x = 13 \<or> x = 14 \<or> x = 15 \<or> 1 \<le> x \<and> x \<le> 12" using b(1) by linarith
    with three len b low high show ?thesis
      unfolding e by (elim disjE) (simp_all add: simps nth_append del: of_nat_add)
  next
    case four
    define x where "x = c div 262144"
    define y where "y = c div 4096 mod 64"
    define z where "z = c div 64 mod 64"
    define t where "t = c mod 64"
    have e: "utf8_enc c = [of_nat (0xF0 + x), of_nat (0x80 + y), of_nat (0x80 + z), of_nat (0x80 + t)]"
      using four by (simp add: utf8_enc_def x_def y_def z_def t_def del: of_nat_add)
    have b: "x < 5" "y < 64" "z < 64" "t < 64" using four by (auto simp: x_def y_def z_def t_def)
    have d: "c div 4096 = 64 * x + y"
      using div_mult2_eq [of c 4096 64] mult_div_mod_eq [of 64 "c div 4096"] by (simp add: x_def y_def)
    have low: "x = 0 \<Longrightarrow> 16 \<le> y" using d four(1) by linarith
    have high: "x = 4 \<Longrightarrow> y < 16" using d four(2) by linarith
    have "x = 0 \<or> x = 4 \<or> 1 \<le> x \<and> x \<le> 3" using b(1) by linarith
    with four len b low high show ?thesis
      unfolding e by (elim disjE) (simp_all add: simps nth_append del: of_nat_add)
  qed
qed

section \<open>The loop\<close>

lemma text_loop_enc:
  assumes "\<forall>c \<in> set cs. text_char c"
    and "length pre + length (concat (map utf8_enc cs)) = len"
  shows "text_loop (pre @ concat (map utf8_enc cs) @ post) len (length pre) a u k =
    (a + of_nat (length (filter (\<lambda>c. c < 0x80) cs)), u + of_nat (length cs),
     k - (int (length (concat (map utf8_enc cs))) - int (length cs)))"
  using assms
proof (induction cs arbitrary: pre a u k)
  case Nil
  then show ?case by (simp add: text_loop.simps)
next
  case (Cons c cs)
  let ?e = "utf8_enc c" and ?r = "concat (map utf8_enc cs)"
  have step: "text_step (pre @ ?e @ ?r @ post) len (length pre) = (length ?e, of_bool (c < 0x80), 1)"
    using Cons.prems text_step_enc [of c pre len "?r @ post"] by simp
  have more: "length pre < len" using Cons.prems(2) length_utf8_enc_pos [of c]
    by (simp del: length_greater_0_conv)
  have IH: "text_loop ((pre @ ?e) @ ?r @ post) len (length (pre @ ?e)) a' u' k' =
    (a' + of_nat (length (filter (\<lambda>c. c < 0x80) cs)), u' + of_nat (length cs),
     k' - (int (length ?r) - int (length cs)))" for a' u' k'
    using Cons.prems by (intro Cons.IH) simp_all
  have "text_loop (pre @ ?e @ ?r @ post) len (length pre) a u k =
    text_loop (pre @ ?e @ ?r @ post) len (length pre + length ?e) (a + of_bool (c < 0x80)) (u + 1)
      (k - (int (length ?e) - 1))"
    by (subst text_loop.simps) (simp add: more step)
  with IH show ?case by (simp add: algebra_simps)
qed

text \<open>Every iteration consumes at least one byte and lowers \<open>cnt\<close> by at most one less than
  what it consumed.\<close>

lemma text_loop_units:
  "offset \<le> len \<Longrightarrow> text_loop buf len offset a u k = (a', u', k') \<Longrightarrow>
     k - (int len - int offset) + of_bool (offset < len) \<le> k'"
proof (induction buf len offset a u k rule: text_loop.induct)
  case (1 buf len offset a u k)
  show ?case
  proof (cases "offset < len")
    case True
    obtain d da du where s: "text_step buf len offset = (d, da, du)" by (metis prod_cases3)
    have d: "0 < d" "offset + d \<le> len" using text_step_advance [OF s] True by simp_all
    have "text_loop buf len (offset + d) (a + da) (u + du) (k - (int d - 1)) = (a', u', k')"
      using "1.prems"(2) True s by (subst (asm) text_loop.simps) simp
    from "1.IH" [OF True s [symmetric] refl refl d(2) this] True d(1) show ?thesis
      by (cases "offset + d < len") simp_all
  next
    case False
    with "1.prems" show ?thesis using text_loop.simps [of buf len offset a u k] by simp
  qed
qed

lemma head_bytes:
  "plain_ascii b \<Longrightarrow> isascii b" "isprint b \<Longrightarrow> isascii b"
  "utf8_two buf i \<Longrightarrow> \<not> isascii (buf ! i)"
  "utf8_three buf i \<Longrightarrow> \<not> isascii (buf ! i)"
  "utf8_four buf i \<Longrightarrow> \<not> isascii (buf ! i)"
  by (auto simp: plain_ascii_def isascii_def isprint_def utf8_two_def utf8_three_def utf8_four_def
      word_le_nat_alt)

lemma text_step_cases:
  assumes "text_step buf len offset = (d, da, du)"
  shows "(d = 1 \<and> da = 1 \<and> isascii (buf ! offset) \<and> (du = 0 \<or> du = 1)) \<or>
      (d = 1 \<and> da = 0 \<and> du = 0 \<and> \<not> isascii (buf ! offset)) \<or>
      (2 \<le> d \<and> da = 0 \<and> du = 1 \<and> \<not> isascii (buf ! offset))"
proof (cases "isascii (buf ! offset)")
  case True
  then have "\<not> utf8_two buf offset" "\<not> utf8_three buf offset" "\<not> utf8_four buf offset"
    using head_bytes(3-5) by blast+
  with True assms show ?thesis by (auto simp: text_step_def split: if_splits)
next
  case False
  then have "\<not> plain_ascii (buf ! offset)" "\<not> isprint (buf ! offset)"
    using head_bytes(1,2) by blast+
  with False assms show ?thesis by (auto simp: text_step_def split: if_splits)
qed

lemma text_loop_all_ascii:
  "offset \<le> len \<Longrightarrow> text_loop buf len offset a u k = (a', u', k') \<Longrightarrow>
     \<exists>na nu. a' = a + of_nat na \<and> u' = u + of_nat nu \<and> na \<le> len - offset \<and> nu \<le> len - offset \<and>
       (na = len - offset \<longleftrightarrow> (\<forall>i. offset \<le> i \<and> i < len \<longrightarrow> isascii (buf ! i))) \<and>
       (nu = len - offset \<longrightarrow> na = len - offset)"
proof (induction buf len offset a u k arbitrary: a' u' rule: text_loop.induct)
  case (1 buf len offset a u k)
  let ?ok = "\<lambda>j. \<forall>i. j \<le> i \<and> i < len \<longrightarrow> isascii (buf ! i)"
  show ?case
  proof (cases "offset < len")
    case True
    obtain d da du where s: "text_step buf len offset = (d, da, du)" by (metis prod_cases3)
    have d: "0 < d" "offset + d \<le> len" using text_step_advance [OF s] True by simp_all
    have "text_loop buf len (offset + d) (a + da) (u + du) (k - (int d - 1)) = (a', u', k')"
      using "1.prems"(2) True s by (subst (asm) text_loop.simps) simp
    from "1.IH" [OF True s [symmetric] refl refl d(2) this] obtain na nu where n:
      "a' = a + da + of_nat na" "u' = u + du + of_nat nu" "na \<le> len - (offset + d)"
      "nu \<le> len - (offset + d)" "na = len - (offset + d) \<longleftrightarrow> ?ok (offset + d)"
      "nu = len - (offset + d) \<longrightarrow> na = len - (offset + d)" by blast
    have ok: "?ok offset \<longleftrightarrow> isascii (buf ! offset) \<and> ?ok (offset + 1)"
    proof -
      have "offset \<le> i \<longleftrightarrow> i = offset \<or> offset + 1 \<le> i" for i by auto
      with True show ?thesis by auto
    qed
    define A where "A \<longleftrightarrow> ?ok offset"
    define B where "B \<longleftrightarrow> ?ok (offset + d)"
    define r where "r = len - (offset + d)"
    have r: "len - offset = r + d" using d(2) by (simp add: r_def)
    have A: "isascii (buf ! offset) \<Longrightarrow> d = 1 \<Longrightarrow> A \<longleftrightarrow> B" "\<not> isascii (buf ! offset) \<Longrightarrow> \<not> A"
      using ok by (simp_all add: A_def B_def)
    note n' = n(3-6) [folded B_def r_def]
    show ?thesis
      unfolding A_def [symmetric] r
      using text_step_cases [OF s]
    proof (elim disjE conjE)
      assume c: "d = 1" "da = 1" "isascii (buf ! offset)" "du = 0"
      show "\<exists>na nu. a' = a + of_nat na \<and> u' = u + of_nat nu \<and> na \<le> r + d \<and> nu \<le> r + d \<and>
          (na = r + d \<longleftrightarrow> A) \<and> (nu = r + d \<longrightarrow> na = r + d)"
        using n' A(1) [OF c(3,1)] c(1)
        by (intro exI [of _ "Suc na"] exI [of _ nu]) (simp add: n(1,2) c(2,4))
    next
      assume c: "d = 1" "da = 1" "isascii (buf ! offset)" "du = 1"
      show "\<exists>na nu. a' = a + of_nat na \<and> u' = u + of_nat nu \<and> na \<le> r + d \<and> nu \<le> r + d \<and>
          (na = r + d \<longleftrightarrow> A) \<and> (nu = r + d \<longrightarrow> na = r + d)"
        using n' A(1) [OF c(3,1)] c(1)
        by (intro exI [of _ "Suc na"] exI [of _ "Suc nu"]) (simp add: n(1,2) c(2,4))
    next
      assume c: "d = 1" "da = 0" "du = 0" "\<not> isascii (buf ! offset)"
      show "\<exists>na nu. a' = a + of_nat na \<and> u' = u + of_nat nu \<and> na \<le> r + d \<and> nu \<le> r + d \<and>
          (na = r + d \<longleftrightarrow> A) \<and> (nu = r + d \<longrightarrow> na = r + d)"
        using n' A(2) [OF c(4)] c(1)
        by (intro exI [of _ na] exI [of _ nu]) (simp add: n(1,2) c(2,3))
    next
      assume c: "2 \<le> d" "da = 0" "du = 1" "\<not> isascii (buf ! offset)"
      show "\<exists>na nu. a' = a + of_nat na \<and> u' = u + of_nat nu \<and> na \<le> r + d \<and> nu \<le> r + d \<and>
          (na = r + d \<longleftrightarrow> A) \<and> (nu = r + d \<longrightarrow> na = r + d)"
        using n' A(2) [OF c(4)] c(1)
        by (intro exI [of _ na] exI [of _ "Suc nu"]) (simp add: n(1,2) c(2,3))
    qed
  next
    case False
    with "1.prems" show ?thesis
      using text_loop.simps [of buf len offset a u k] by (intro exI [of _ 0]) auto
  qed
qed


lemma check_if_text_result:
  "\<exists>r. check_if_text w q = Inr r \<and> r \<in> {0, 1, 2} \<and> (r = 0 \<or> AFL_TXT_MAX_LEN \<le> q_len q)"
proof (cases "q_len q < AFL_TXT_MAX_LEN")
  case True
  then show ?thesis by (simp add: check_if_text_def)
next
  case False
  define len where "len = (if q_len q \<ge> MAX_FILE then MAX_FILE - 1 else q_len q)"
  have big: "0 < unat len" and "len \<noteq> 0"
    using False by (auto simp: len_def MAX_FILE_def AFL_TXT_MAX_LEN_def word_less_nat_alt word_le_nat_alt
      unat_gt_0)
  have min: "\<not> q_len q < AFL_TXT_MIN_LEN"
    using False by (simp add: AFL_TXT_MIN_LEN_def AFL_TXT_MAX_LEN_def word_less_nat_alt)
  show ?thesis
  proof (cases "open_read (fname q) w")
    case None
    with False min show ?thesis by (simp add: check_if_text_def)
  next
    case (Some data)
    obtain a u k where run: "text_loop (take (unat len) data @ [0]) (unat len) 0 0 0 (int (unat len)) = (a, u, k)"
      by (metis prod_cases3)
    have "k \<noteq> 0" using text_loop_units [OF _ run] big by simp
    with \<open>len \<noteq> 0\<close> False min Some run show ?thesis
      by (auto simp: check_if_text_def len_def [symmetric] Let_def)
  qed
qed

section \<open>Properties\<close>

text \<open>On buffers of up to 255 bytes \<open>check_if_text_buf\<close> never leaves the buffer, and its
  result equals the length, which is what every caller tests, exactly when the buffer is pure
  7-bit ASCII. (A multi-byte UTF-8 sequence counts one, so UTF-8 text fails the test.)\<close>

theorem check_if_text_buf_all_ascii:
  assumes "unat len \<le> length buf" and "unat len \<le> 255"
  shows "\<exists>r. check_if_text_buf buf len = Inr r \<and>
    (unat r = unat len \<longleftrightarrow> (\<forall>b \<in> set (take (unat len) buf). b \<le> 0x7F))"
proof -
  let ?n = "unat len"
  obtain a u k where run: "text_loop buf ?n 0 0 0 0 = (a, u, k)" by (metis prod_cases3)
  from text_loop_all_ascii [OF _ run] obtain na nu where n: "a = of_nat na" "u = of_nat nu"
    "na \<le> ?n" "nu \<le> ?n" "na = ?n \<longleftrightarrow> (\<forall>i < ?n. isascii (buf ! i))" "nu = ?n \<longrightarrow> na = ?n"
    by auto
  have val: "unat a = na" "unat u = nu"
    unfolding n(1,2) using n(3,4) assms(2) by (intro unat_of_nat_small; simp)+
  have "unat (ucast (if u > a then u else a) :: u8) = (if nu > na then nu else na)"
    using val n(3,4) assms(2) by (auto simp: unsigned_ucast_eq take_bit_nat_eq_self word_less_nat_alt)
  moreover have "(\<forall>b \<in> set (take ?n buf). b \<le> 0x7F) \<longleftrightarrow> (\<forall>i < ?n. isascii (buf ! i))"
    using assms(1) by (auto simp: all_set_conv_all_nth isascii_def)
  ultimately show ?thesis
    using assms(1) run n(3-6) by (auto simp: check_if_text_buf_def)
qed

theorem check_if_text_buf_all_ascii_witness:
  "\<exists>r. check_if_text_buf [0x41, 0x0A, 0x7F] 3 = Inr r \<and> unat r = 3"
  using check_if_text_buf_all_ascii [of 3 "[0x41, 0x0A, 0x7F]"] by auto

text \<open>C31. \<open>check_if_text\<close> always returns 0, 1 or 2: the counter it divides by is at least the
  number of iterations, so the division is never by zero; and a positive answer is given only
  for entries of at least \<open>AFL_TXT_MAX_LEN\<close> bytes (the guard tests \<open><\<close> where the constant is
  an upper bound).\<close>

theorem check_if_text_total:
  "\<exists>r. check_if_text w q = Inr r \<and> r \<in> {0, 1, 2} \<and> (r = 0 \<or> AFL_TXT_MAX_LEN \<le> q_len q)"
  by (rule check_if_text_result)

text \<open>C30. A file that is the UTF-8 encoding of printable ASCII and arbitrary other Unicode
  scalar values, of a size between \<open>AFL_TXT_MAX_LEN\<close> and \<open>MAX_FILE\<close>, is classified as UTF-8
  (2): the recogniser accepts every encoded scalar value.\<close>

theorem check_if_text_utf8:
  assumes chars: "\<forall>c \<in> set cs. text_char c"
    and data: "open_read (fname q) w = Some (concat (map utf8_enc cs))"
    and len: "unat (q_len q) = length (concat (map utf8_enc cs))"
    and lo: "AFL_TXT_MAX_LEN \<le> q_len q" and hi: "q_len q < MAX_FILE"
  shows "check_if_text w q = Inr 2"
proof -
  let ?f = "concat (map utf8_enc cs)" and ?a = "length (filter (\<lambda>c. c < 0x80) cs)"
  have run: "text_loop (?f @ [0]) (length ?f) 0 0 0 (int (length ?f)) = (of_nat ?a, of_nat (length cs), int (length cs))"
    using text_loop_enc [OF chars, of "[]" "length ?f" "[0]" 0 0 "int (length ?f)"] by simp
  have count: "length cs \<le> length ?f"
  proof (induction cs)
    case (Cons c cs)
    then show ?case using length_utf8_enc_pos [of c] by (simp del: length_greater_0_conv)
  qed simp
  have f: "65535 \<le> length ?f" "length ?f < 1048576"
    using len lo hi by (simp_all add: AFL_TXT_MAX_LEN_def MAX_FILE_def word_le_nat_alt word_less_nat_alt)
  have pos: "0 < length cs" using f(1) by (cases cs) auto
  have a: "?a \<le> length ?f" using count length_filter_le [of "\<lambda>c. c < 0x80" cs] by linarith
  have small: "100 * length cs < 2 ^ 32" "100 * ?a < 2 ^ 32" using f count a by simp_all
  have utf: "(of_int (uint ((of_nat (length cs) :: u32) * 100) div int (length cs)) :: u32) = 100"
  proof -
    have "uint ((of_nat (length cs) :: u32) * 100) = uint (of_nat (100 * length cs) :: u32)"
      by (simp add: mult.commute)
    also have "\<dots> = int (100 * length cs)"
      unfolding uint_nat by (subst unat_of_nat_small) (use small(1) in simp_all)
    finally show ?thesis using pos by simp
  qed
  have asc: "((of_nat ?a :: u32) * 100) div q_len q \<le> 100"
  proof -
    have "unat (of_nat (100 * ?a) :: u32) = 100 * ?a"
      using small(2) by (intro unat_of_nat_small) simp
    then have "unat (((of_nat ?a :: u32) * 100) div q_len q) = 100 * ?a div length ?f"
      by (simp add: unat_div len mult.commute)
    also have "\<dots> \<le> 100 * length ?f div length ?f" using a by (intro div_le_mono mult_le_mono2)
    also have "\<dots> = 100" by (rule nonzero_mult_div_cancel_right) (use f in linarith)
    finally show ?thesis by (simp only: word_le_nat_alt) simp
  qed
  have "unat (q_len q) \<noteq> 0" using f len by linarith
  then have "q_len q \<noteq> 0" by auto
  moreover have "\<not> q_len q < AFL_TXT_MIN_LEN" "\<not> q_len q < AFL_TXT_MAX_LEN" "\<not> MAX_FILE \<le> q_len q"
    using lo hi f(1) len
    by (simp_all add: not_less not_le AFL_TXT_MIN_LEN_def word_le_nat_alt word_less_nat_alt)
  ultimately show ?thesis
    using data len run utf asc pos
    by (simp add: check_if_text_def AFL_TXT_MIN_PERCENT_def)
qed

lemma utf8_enc_euro: "utf8_enc 0x20AC = [0xE2, 0x82, 0xAC]"
  by (simp add: utf8_enc_def)

lemma euro_file:
  "\<forall>c \<in> set (replicate n (0x20AC :: nat)). text_char c"
  "length (concat (map utf8_enc (replicate n 0x20AC))) = 3 * n"
  by (simp add: text_char_def) (induction n, simp_all add: utf8_enc_euro)

theorem check_if_text_utf8_witness:
  "\<exists>cs. length cs = 30000 \<and> set cs = {0x20AC} \<and>
     check_if_text (empty_world\<lparr>files := (\<lambda>_. Some (concat (map utf8_enc cs)))\<rparr>)
       (zero_entry\<lparr>q_len := 90000\<rparr>) = Inr 2"
proof -
  obtain cs :: "nat list" where cs: "length cs = 30000" "set cs = {0x20AC}"
    "\<forall>c \<in> set cs. text_char c" "length (concat (map utf8_enc cs)) = 90000"
    by (rule that [of "replicate 30000 0x20AC"]) (simp_all only: euro_file length_replicate set_replicate, simp_all add: text_char_def)
  have "check_if_text (empty_world\<lparr>files := (\<lambda>_. Some (concat (map utf8_enc cs)))\<rparr>)
       (zero_entry\<lparr>q_len := 90000\<rparr>) = Inr 2"
    by (rule check_if_text_utf8 [OF cs(3)])
      (simp_all add: open_read_def empty_world_def AFL_TXT_MAX_LEN_def MAX_FILE_def cs(4) del: length_concat)
  with cs(1,2) show ?thesis by blast
qed

end
