(* ===== verification/Rng.thy ===== *)
theory Rng
  imports State
begin

text \<open>
  The fuzzer's random numbers: the generator of src/afl-performance.c (romuDuoJr, and RomuTrio32
  in the 32-bit flavour), \<open>rand_below\<close> with its rejection loop and periodic reseeding, and
  \<open>next_p2\<close>, both from include/afl-fuzz.h. The hash XXH3 is third-party code, passed as a function.
  A \<open>do ... while\<close> loop that might not end is an option-valued recursion: \<open>None\<close> is not
  returning, and becomes the error \<open>Hang\<close>.
\<close>

section \<open>The generator\<close>

definition ROTL :: "'a::len word \<Rightarrow> nat \<Rightarrow> 'a word" where
  "ROTL d lrot = push_bit lrot d OR drop_bit (LENGTH('a) - lrot) d"

definition rand_set_seed :: "(bytes \<Rightarrow> u64) \<Rightarrow> ('a) afl_rand_scheme \<Rightarrow> u64 \<Rightarrow> ('a) afl_rand_scheme" where
  "rand_set_seed hash64 afl seed =
     (let s0 = hash64 (le_bytes 8 seed); s1 = s0 XOR 0x1234567890abcdef;
          s2 = (s0 AND 0x1234567890abcdef) XOR (s1 OR 0xfedcba9876543210)
      in afl\<lparr>init_seed := seed, rand_seed0 := s0, rand_seed1 := s1, rand_seed2 := s2\<rparr>)"

definition rand_next :: "('a) afl_rand_scheme \<Rightarrow> u64 \<times> ('a) afl_rand_scheme" where
  "rand_next afl =
     (let xp = rand_seed0 afl
      in (xp, afl\<lparr>rand_seed0 := 15241094284759029579 * rand_seed1 afl,
                  rand_seed1 := ROTL (rand_seed1 afl - xp) 27\<rparr>))"

definition rand_next_32 :: "u32 \<times> u32 \<times> u32 \<Rightarrow> u32 \<times> u32 \<times> u32 \<times> u32" where
  "rand_next_32 = (\<lambda>(xp, yp, zp). (xp, 3323815723 * zp, ROTL (yp - xp) 6, ROTL (zp - yp) 22))"

definition rand_next_percent :: "('a) afl_rand_scheme \<Rightarrow> real \<times> ('a) afl_rand_scheme" where
  "rand_next_percent afl =
     (let (r, afl') = rand_next afl in (real (unat r) / real (2 ^ 64 - 1), afl'))"

definition rand_get_seed :: "('a) afl_rand_scheme \<Rightarrow> u64" where
  "rand_get_seed afl = (if fixed_seed afl then init_seed afl else rand_seed0 afl)"

section \<open>Bounded numbers\<close>

definition RESEED_RNG :: nat where "RESEED_RNG = 2500000"

text \<open>The draws at or above this value are rejected.\<close>

definition draw_bound :: "u32 \<Rightarrow> u64" where
  "draw_bound limit = - 1 - (- 1) mod ucast limit"

partial_function (option) rand_draw ::
  "u32 \<Rightarrow> ('a) afl_rand_scheme \<Rightarrow> (u64 \<times> ('a) afl_rand_scheme) option" where
  "rand_draw limit afl =
     (let (r, afl') = rand_next afl
      in if r \<ge> draw_bound limit then rand_draw limit afl' else Some (r, afl'))"

definition reseed :: "('a) afl_rand_scheme \<Rightarrow> ('a) afl_rand_scheme res" where
  "reseed afl =
     (let afl' = afl\<lparr>rand_cnt := rand_cnt afl - 1\<rparr> in
      if rand_cnt afl = 0 \<and> \<not> fixed_seed afl then
        (case urandom afl of
           [] \<Rightarrow> Inl (PFatal ''Short read from /dev/urandom'')
         | (s0, s1, s2) # rest \<Rightarrow>
             Inr (afl'\<lparr>rand_seed0 := s0, rand_seed1 := s1, rand_seed2 := s2, urandom := rest,
               rand_cnt := of_nat (RESEED_RNG div 2 + unat s1 mod RESEED_RNG)\<rparr>))
      else Inr afl')"

definition rand_below :: "('a) afl_rand_scheme \<Rightarrow> u32 \<Rightarrow> (u32 \<times> ('a) afl_rand_scheme) res" where
  "rand_below afl limit =
     (if limit \<le> 1 then Inr (0, afl)
      else bnd (reseed afl) (\<lambda>afl'.
        case rand_draw limit afl' of
          None \<Rightarrow> Inl Hang
        | Some (r, afl'') \<Rightarrow> Inr (ucast (r mod ucast limit), afl'')))"

text \<open>C leaves the order in which the operands are drawn open; the model takes the order of
  writing.\<close>

definition rand_below_datalen :: "('a) afl_rand_scheme \<Rightarrow> u32 \<Rightarrow> (u32 \<times> ('a) afl_rand_scheme) res" where
  "rand_below_datalen afl limit =
     (if limit \<le> 1 then Inr (0, afl)
      else bnd (rand_below afl 3) (\<lambda>(c, a0).
        bnd (rand_below a0 limit) (\<lambda>(x, a1).
        if c = 0 then Inr (x, a1)
        else bnd (rand_below a1 (limit - 1)) (\<lambda>(y, a2).
          if c = 1 then Inr (x mod (1 + y), a2)
          else bnd (rand_below a2 (limit - 1)) (\<lambda>(z, a3). Inr ((x mod (1 + y)) mod (1 + z), a3))))))"

section \<open>Powers of two\<close>

partial_function (option) next_p2_loop :: "u64 \<Rightarrow> u64 \<Rightarrow> u64 option" where
  "next_p2_loop val ret = (if val > ret then next_p2_loop val (push_bit 1 ret) else Some ret)"

definition next_p2 :: "u64 \<Rightarrow> u64 res" where
  "next_p2 val = (case next_p2_loop val 1 of None \<Rightarrow> Inl Hang | Some r \<Rightarrow> Inr r)"

section \<open>Facts\<close>

lemma bit_ROTL:
  "bit (ROTL (d :: 'a::len word) l) n \<longleftrightarrow>
     n < LENGTH('a) \<and> (l \<le> n \<and> bit d (n - l) \<or> bit d (n + (LENGTH('a) - l)))"
  by (auto simp: ROTL_def bit_simps add.commute dest: bit_imp_le_length)

lemma ROTL_inverse: "ROTL (ROTL (d :: u64) 27) 37 = d"
proof (rule bit_word_eqI)
  fix n :: nat assume n: "n < LENGTH(64)"
  have "\<not> bit d (n + 64)" by (auto dest: bit_imp_le_length)
  then show "bit (ROTL (ROTL d 27) 37) n = bit d n"
    using n by (cases "37 \<le> n") (auto simp: bit_ROTL add.assoc dest: bit_imp_le_length)
qed

definition rand_step :: "('a) afl_rand_scheme \<Rightarrow> ('a) afl_rand_scheme" where
  "rand_step afl = snd (rand_next afl)"

lemma rand_draw_Some:
  assumes "rand_draw limit afl = Some y"
  shows "fst y < draw_bound limit \<and> (\<exists>k. y = rand_next ((rand_step ^^ k) afl))"
proof (rule rand_draw.raw_induct [OF _ assms])
  fix draw limit and afl :: "('a) afl_rand_scheme" and y
  assume IH: "\<And>afl b y. draw afl b = Some y \<Longrightarrow>
      fst y < draw_bound afl \<and> (\<exists>k. y = rand_next ((rand_step ^^ k) b))"
    and step: "(let (r, afl') = rand_next afl
      in if draw_bound limit \<le> r then draw limit afl' else Some (r, afl')) = Some y"
  obtain x a where x: "rand_next afl = (x, a)" by fastforce
  show "fst y < draw_bound limit \<and> (\<exists>k. y = rand_next ((rand_step ^^ k) afl))"
  proof (cases "x \<ge> draw_bound limit")
    case True
    then have "draw limit a = Some y" using step x by (simp add: Let_def)
    from IH [OF this] obtain k where "fst y < draw_bound limit" "y = rand_next ((rand_step ^^ k) a)"
      by auto
    moreover have "(rand_step ^^ k) a = (rand_step ^^ Suc k) afl"
      by (simp add: funpow_swap1 rand_step_def x)
    ultimately show ?thesis by (auto simp del: funpow.simps)
  next
    case False
    then have "y = rand_next ((rand_step ^^ 0) afl)" "fst y < draw_bound limit"
      using step x by auto
    then show ?thesis by blast
  qed
qed

lemma rand_draw_accepts:
  "fst (rand_next ((rand_step ^^ k) afl)) < draw_bound limit \<Longrightarrow> \<exists>x. rand_draw limit afl = Some x"
proof (induction k arbitrary: afl)
  case 0
  then show ?case by (subst rand_draw.simps) (auto simp: Let_def split: prod.splits)
next
  case (Suc k)
  obtain x a where x: "rand_next afl = (x, a)" by fastforce
  then have "(rand_step ^^ Suc k) afl = (rand_step ^^ k) a"
    by (simp add: funpow_swap1 rand_step_def)
  then have "fst (rand_next ((rand_step ^^ k) a)) < draw_bound limit" using Suc.prems by simp
  with Suc.IH obtain y where "rand_draw limit a = Some y" by blast
  then show ?case by (subst rand_draw.simps) (auto simp: x)
qed

lemma unat_draw_bound:
  assumes "0 < limit"
  shows "unat (draw_bound limit) = (2 ^ 64 - 1) div unat limit * unat limit"
proof -
  have l: "unat (ucast limit :: u64) = unat limit" by (rule unat_ucast_up) simp
  have m: "unat (- 1 :: u64) = 2 ^ 64 - 1" by (simp add: unsigned_minus_1_eq_mask mask_eq_exp_minus_1)
  have "unat (- 1 mod ucast limit :: u64) = (2 ^ 64 - 1) mod unat limit"
    by (simp add: unat_mod l m)
  moreover have "- 1 mod ucast limit \<le> (- 1 :: u64)" by simp
  ultimately have "unat (draw_bound limit) = (2 ^ 64 - 1) - (2 ^ 64 - 1) mod unat limit"
    unfolding draw_bound_def by (simp add: unat_sub m)
  then show ?thesis by (metis minus_mod_eq_div_mult)
qed

lemma rand_below_lt:
  assumes "rand_below afl limit = Inr (r, afl')"
  shows "r = 0 \<or> r < limit"
proof (cases "limit \<le> 1")
  case True
  with assms show ?thesis by (simp add: rand_below_def)
next
  case False
  then have pos: "0 < unat limit" and "limit \<noteq> 0" by (auto simp: unat_gt_0)
  obtain x where x: "r = ucast (x mod ucast limit :: u64)"
    using assms False by (auto simp: rand_below_def bnd_eq_Inr_iff split: option.splits)
  have l: "unat (ucast limit :: u64) = unat limit" by (rule unat_ucast_up) simp
  have "unat (x mod ucast limit) < unat limit" using pos by (simp add: unat_mod l)
  moreover have "unat r = unat (x mod ucast limit) mod 2 ^ 32"
    by (simp add: x unsigned_ucast_eq take_bit_eq_mod)
  ultimately have "unat r < unat limit" by (metis le_less_trans mod_less_eq_dividend)
  then show ?thesis by (simp add: word_less_nat_alt)
qed

lemma next_p2_loop_Some:
  assumes "next_p2_loop val ret = Some y"
  shows "val \<le> y \<and> (\<exists>k. y = push_bit k ret)"
proof (rule next_p2_loop.raw_induct [OF _ assms])
  fix loop and val ret y :: u64
  assume IH: "\<And>val ret y. loop val ret = Some y \<Longrightarrow> val \<le> y \<and> (\<exists>k. y = push_bit k ret)"
    and step: "(if ret < val then loop val (push_bit 1 ret) else Some ret) = Some y"
  show "val \<le> y \<and> (\<exists>k. y = push_bit k ret)"
  proof (cases "ret < val")
    case True
    with IH [of val "push_bit 1 ret" y] step obtain k where "val \<le> y" "y = push_bit k (push_bit 1 ret)"
      by auto
    then have "val \<le> y \<and> y = push_bit (Suc k) ret" by (simp add: push_bit_push_bit)
    then show ?thesis by blast
  next
    case False
    with step show ?thesis by (auto intro: exI [of _ 0])
  qed
qed

lemma unat_two_power: "k < 64 \<Longrightarrow> unat (2 ^ k :: u64) = 2 ^ k"
proof -
  assume "k < 64"
  then have "(2 :: nat) ^ k < 2 ^ 64" by (intro power_strict_increasing) simp_all
  then show ?thesis using unat_of_nat_small [of "2 ^ k", where 'a = 64] by simp
qed

lemma two_power_le: "unat (2 ^ k :: u64) \<le> 2 ^ 63"
proof (cases "k < 64")
  case True
  then have "(2 :: nat) ^ k \<le> 2 ^ 63" by (intro power_increasing) simp_all
  with True show ?thesis by (simp only: unat_two_power)
next
  case False
  then have z: "(2 ^ k :: u64) = 0" by simp
  show ?thesis unfolding z by simp
qed

lemma next_p2_loop_finds:
  assumes "unat val \<le> 2 ^ (k + m)" "k + m < 64" "k = 0 \<or> 2 ^ (k - 1) < unat val"
  shows "\<exists>j. j < 64 \<and> next_p2_loop val (2 ^ k) = Some (2 ^ j) \<and>
    unat val \<le> 2 ^ j \<and> (j = 0 \<or> 2 ^ (j - 1) < unat val)"
  using assms
proof (induction m arbitrary: k)
  case 0
  then have "\<not> 2 ^ k < val" by (simp add: word_less_nat_alt unat_two_power)
  with 0 show ?case by (subst next_p2_loop.simps) auto
next
  case (Suc m)
  show ?case
  proof (cases "2 ^ k < val")
    case True
    then have "2 ^ k < unat val" using Suc.prems(2) by (simp add: word_less_nat_alt unat_two_power)
    then obtain j where "j < 64" "next_p2_loop val (2 ^ Suc k) = Some (2 ^ j)"
      "unat val \<le> 2 ^ j" "j = 0 \<or> 2 ^ (j - 1) < unat val"
      using Suc.IH [of "Suc k"] Suc.prems by auto
    with True show ?thesis by (subst next_p2_loop.simps) (auto simp: mult.commute)
  next
    case False
    then show ?thesis using Suc.prems
      by (subst next_p2_loop.simps) (auto simp: word_less_nat_alt unat_two_power intro!: exI [of _ k])
  qed
qed

section \<open>Properties\<close>

text \<open>Drawing numbers changes the generator only.\<close>

definition quiet :: "('a) afl_rand_scheme \<Rightarrow> ('a) afl_rand_scheme" where
  "quiet afl = afl\<lparr>rand_cnt := 0, rand_seed0 := 0, rand_seed1 := 0, rand_seed2 := 0, urandom := []\<rparr>"

lemma quiet_next: "quiet (snd (rand_next afl)) = quiet afl"
  by (simp add: quiet_def rand_next_def Let_def)

lemma quiet_steps: "quiet ((rand_step ^^ k) afl) = quiet afl"
  by (induction k) (simp_all add: rand_step_def quiet_next)

lemma quiet_reseed: "reseed afl = Inr a \<Longrightarrow> quiet a = quiet afl"
  by (auto simp: quiet_def reseed_def Let_def split: if_splits list.splits)

lemma quiet_rand_below:
  assumes "rand_below afl limit = Inr (r, a)"
  shows "quiet a = quiet afl"
proof (cases "limit \<le> 1")
  case True
  then show ?thesis using assms by (simp add: rand_below_def)
next
  case False
  then obtain b x where b: "reseed afl = Inr b" "rand_draw limit b = Some (x, a)"
    using assms by (auto simp: rand_below_def bnd_eq_Inr_iff split: option.splits)
  from rand_draw_Some [OF b(2)] obtain k where "(x, a) = rand_next ((rand_step ^^ k) b)" by auto
  then show ?thesis
    using quiet_next quiet_steps quiet_reseed [OF b(1)] by (metis snd_conv)
qed

text \<open>The generator never collapses two states: the state before a step is computed from
  the state after it.\<close>

theorem rand_next_reversible:
  "rand_seed1 afl = 4888251478366616163 * rand_seed0 (snd (rand_next afl)) \<and>
   rand_seed0 afl = rand_seed1 afl - ROTL (rand_seed1 (snd (rand_next afl))) 37"
proof -
  have inverse: "(4888251478366616163 :: u64) * 15241094284759029579 = 1" by simp
  have "(4888251478366616163 :: u64) * (15241094284759029579 * x) = x" for x
    by (simp only: mult.assoc [symmetric] inverse mult_1)
  moreover have "rand_seed0 (snd (rand_next afl)) = 15241094284759029579 * rand_seed1 afl"
    "rand_seed1 (snd (rand_next afl)) = ROTL (rand_seed1 afl - rand_seed0 afl) 27"
    by (simp_all add: rand_next_def Let_def)
  moreover have "rand_seed1 afl - (rand_seed1 afl - rand_seed0 afl) = rand_seed0 afl" by simp
  ultimately show ?thesis by (simp only: ROTL_inverse)
qed

text \<open>Of the draws it accepts, equally many leave each remainder.\<close>

lemma card_draws:
  assumes "0 < limit" and "c < limit"
  shows "card {x. x < draw_bound limit \<and> ucast (x mod ucast limit) = c} = (2 ^ 64 - 1) div unat limit"
proof -
  let ?l = "unat limit" and ?q = "(2 ^ 64 - 1) div unat limit"
  have pos: "0 < ?l" using assms(1) by (simp add: word_less_nat_alt)
  have c: "unat c < ?l" using assms(2) by (simp add: word_less_nat_alt)
  have l: "unat (ucast limit :: u64) = ?l" by (rule unat_ucast_up) simp
  have bound: "k * ?l + unat c < 2 ^ 64 - 1" if "k < ?q" for k
  proof -
    have "k * ?l + unat c < Suc k * ?l" using c by simp
    also have "\<dots> \<le> ?q * ?l" using that by (intro mult_le_mono1) simp
    also have "\<dots> \<le> 2 ^ 64 - 1" by (rule div_times_less_eq_dividend)
    finally show ?thesis .
  qed
  define f :: "nat \<Rightarrow> u64" where "f k = of_nat (k * ?l + unat c)" for k
  have f: "unat (f k) = k * ?l + unat c" if "k < ?q" for k
    unfolding f_def using bound [OF that] by (intro unat_of_nat_small) simp
  have small: "unat (x mod ucast limit :: u64) < 2 ^ 32" for x
  proof -
    have "unat (x mod ucast limit) < ?l" using pos by (simp add: unat_mod l)
    also have "?l < 2 ^ 32" using unsigned_less [of limit] by simp
    finally show ?thesis .
  qed
  have iff: "ucast (x mod ucast limit) = c \<longleftrightarrow> unat x mod ?l = unat c" for x :: u64
  proof -
    have m: "unat (x mod ucast limit) = unat x mod ?l" by (simp only: unat_mod l)
    have "unat (ucast (x mod ucast limit) :: u32) = unat x mod ?l"
      unfolding unsigned_ucast_eq m using small [of x] unfolding m by (simp add: take_bit_nat_eq_self)
    then show ?thesis by (metis word_unat_eq_iff)
  qed
  have "{x. x < draw_bound limit \<and> ucast (x mod ucast limit) = c} = f ` {..< ?q}"
  proof (intro set_eqI iffI)
    fix x assume "x \<in> {x. x < draw_bound limit \<and> ucast (x mod ucast limit) = c}"
    then have x: "unat x < ?q * ?l" "unat x mod ?l = unat c"
      using iff unat_draw_bound [OF assms(1)] by (auto simp: word_less_nat_alt)
    have "x = f (unat x div ?l)" unfolding f_def x(2) [symmetric] by simp
    moreover have "unat x div ?l < ?q" using x(1) pos by (simp add: div_less_iff_less_mult)
    ultimately show "x \<in> f ` {..< ?q}" by blast
  next
    fix x assume "x \<in> f ` {..< ?q}"
    then obtain k where k: "k < ?q" "x = f k" by auto
    have "k * ?l + unat c < Suc k * ?l" using c by simp
    also have "\<dots> \<le> ?q * ?l" using k(1) by (intro mult_le_mono1) simp
    finally have "unat x < unat (draw_bound limit)"
      unfolding unat_draw_bound [OF assms(1)] k(2) f [OF k(1)] .
    moreover have "unat x mod ?l = unat c" using c by (simp add: k(2) f [OF k(1)])
    ultimately show "x \<in> {x. x < draw_bound limit \<and> ucast (x mod ucast limit) = c}"
      using iff by (simp add: word_less_nat_alt)
  qed
  moreover have "inj_on f {..< ?q}"
  proof (rule inj_onI)
    fix j k assume "j \<in> {..< ?q}" "k \<in> {..< ?q}" "f j = f k"
    then have "j * ?l + unat c = k * ?l + unat c" using f by (metis lessThan_iff)
    then show "j = k" using pos by simp
  qed
  ultimately show ?thesis
    by (simp add: card_image)
qed

text \<open>A draw that is accepted at once, and no reseeding.\<close>

lemma rand_below_first:
  assumes "1 < limit" "fixed_seed afl \<or> rand_cnt afl \<noteq> 0" "s < draw_bound limit"
  shows "\<exists>a'. rand_below (afl\<lparr>rand_seed0 := s\<rparr>) limit = Inr (ucast (s mod ucast limit), a')"
proof -
  let ?a = "afl\<lparr>rand_seed0 := s, rand_cnt := rand_cnt afl - 1\<rparr>"
  have "reseed (afl\<lparr>rand_seed0 := s\<rparr>) = Inr ?a"
    using assms(2) by (auto simp: reseed_def Let_def)
  moreover have "rand_draw limit ?a = Some (rand_next ?a)"
    using assms(3) [folded not_le] by (subst rand_draw.simps) (simp add: rand_next_def Let_def del: not_le)
  ultimately show ?thesis
    using assms(1) [folded not_le] by (simp add: rand_below_def rand_next_def Let_def del: not_le)
qed


definition seeded :: "u64 \<Rightarrow> u64 \<Rightarrow> afl_cache" where
  "seeded s0 s1 = zero_afl\<lparr>fixed_seed := True, rand_seed0 := s0, rand_seed1 := s1\<rparr>"


text \<open>The rejection loop of \<open>rand_below\<close> returns exactly when some later draw of the
  generator is acceptable; otherwise it would never return.\<close>

theorem rand_below_returns_iff:
  "(\<exists>x. rand_draw limit afl = Some x) \<longleftrightarrow>
     (\<exists>k. fst (rand_next ((rand_step ^^ k) afl)) < draw_bound limit)"
  using rand_draw_Some rand_draw_accepts by metis

text \<open>\<open>next_p2\<close> returns the least power of two that is at least its argument when the
  argument is at most \<open>2 ^ 63\<close>, and never returns above that.\<close>

theorem next_p2_correct:
  "if unat val \<le> 2 ^ 63
   then \<exists>j < 64. next_p2 val = Inr (of_nat (2 ^ j)) \<and> unat val \<le> 2 ^ j \<and>
          (\<forall>i. unat val \<le> 2 ^ i \<longrightarrow> j \<le> i)
   else next_p2 val = Inl Hang"
proof (cases "unat val \<le> 2 ^ 63")
  case True
  then obtain j where j: "j < 64" "next_p2_loop val (2 ^ 0) = Some (2 ^ j)"
    "unat val \<le> 2 ^ j" "j = 0 \<or> 2 ^ (j - 1) < unat val"
    using next_p2_loop_finds [of val 0 63] by auto
  have "j \<le> i" if "unat val \<le> 2 ^ i" for i
  proof (rule ccontr)
    assume "\<not> j \<le> i"
    then have "(2 :: nat) ^ i \<le> 2 ^ (j - 1)" by (intro power_increasing) simp_all
    moreover have "2 ^ (j - 1) < unat val" using j(4) \<open>\<not> j \<le> i\<close> by simp
    ultimately show False using that by linarith
  qed
  with j True show ?thesis by (auto simp: next_p2_def push_bit_eq_mult)
next
  case False
  have "next_p2_loop val 1 \<noteq> Some y" for y
  proof
    assume "next_p2_loop val 1 = Some y"
    from next_p2_loop_Some [OF this] obtain k where "unat val \<le> unat (2 ^ k :: u64)"
      by (auto simp: word_le_nat_alt)
    with two_power_le [of k] False show False by linarith
  qed
  then have "next_p2_loop val 1 = None" by (cases "next_p2_loop val 1") auto
  with False show ?thesis by (simp add: next_p2_def)
qed

theorem next_p2_correct_witness: "next_p2 5 = Inr 8"
proof -
  obtain j where j: "j < 64" "next_p2 5 = Inr (of_nat (2 ^ j))" "5 \<le> (2 :: nat) ^ j"
    "\<forall>i. 5 \<le> (2 :: nat) ^ i \<longrightarrow> j \<le> i"
    using next_p2_correct [of 5] by auto
  then have "j \<le> 3" by simp
  with j(3) have "j = 3" by (cases j; cases "j - 1"; cases "j - 2") auto
  with j(2) show ?thesis by simp
qed

end
