(* ===== verification/Queue.thy ===== *)
theory Queue
  imports Virgin Text
begin

text \<open>
  The queue of src/afl-fuzz-queue.c: the markers under \<open>queue/.state\<close>, \<open>add_to_queue\<close>, the
  top-rated table (\<open>update_bitmap_score\<close>) and the choice of favourites (\<open>cull_queue\<close>), with
  IgorFuzz's testcase matrix: its trace is kept for good, and favourites are chosen for the
  bytes the matrix hits and the contender does not.
\<close>

section \<open>Entries\<close>

definition q_get :: "('a) afl_queue_scheme \<Rightarrow> nat \<Rightarrow> queue_entry res" where
  "q_get afl q = rd (queue_buf afl) q"

definition q_upd :: "nat \<Rightarrow> (queue_entry \<Rightarrow> queue_entry) \<Rightarrow> ('a) afl_queue_scheme \<Rightarrow> ('a) afl_queue_scheme" where
  "q_upd q f afl = afl\<lparr>queue_buf := (queue_buf afl)[q := f (queue_buf afl ! q)]\<rparr>"

text \<open>The power schedules, numbered as in the C enumeration.\<close>

abbreviation (input) EXPLORE :: u8 where "EXPLORE \<equiv> 0"
abbreviation (input) MMOPT :: u8 where "MMOPT \<equiv> 1"
abbreviation (input) EXPLOIT :: u8 where "EXPLOIT \<equiv> 2"
abbreviation (input) FAST :: u8 where "FAST \<equiv> 3"
abbreviation (input) COE :: u8 where "COE \<equiv> 4"
abbreviation (input) LIN :: u8 where "LIN \<equiv> 5"
abbreviation (input) QUAD :: u8 where "QUAD \<equiv> 6"
abbreviation (input) RARE :: u8 where "RARE \<equiv> 7"
abbreviation (input) SEEK :: u8 where "SEEK \<equiv> 8"

section \<open>Markers\<close>

definition PATH_MAX :: nat where "PATH_MAX = 4096"

text \<open>\<open>strrchr(s, '/') + 1\<close>, undefined when there is no slash.\<close>

definition after_slash :: "string \<Rightarrow> string res" where
  "after_slash s = (if CHR ''/'' \<in> set s then Inr (rev (takeWhile (\<lambda>c. c \<noteq> CHR ''/'') (rev s)))
     else Inl NullPtr)"

text \<open>\<open>sprintf\<close> into a buffer of \<open>PATH_MAX\<close> bytes; \<open>snprintf\<close> truncates instead.\<close>

definition sprintf_path :: "string \<Rightarrow> string res" where
  "sprintf_path s = (if length s < PATH_MAX then Inr s else Inl Oob)"

definition snprintf_path :: "string \<Rightarrow> string" where
  "snprintf_path s = take (PATH_MAX - 1) s"

definition create_or_die :: "string \<Rightarrow> world \<Rightarrow> world res" where
  "create_or_die p w = (case create_excl p w of
     (True, w') \<Rightarrow> Inr w' | (False, _) \<Rightarrow> Inl (PFatal (''Unable to create '' @ p)))"

definition mark_as_det_done ::
  "('a) afl_queue_scheme \<Rightarrow> world \<Rightarrow> nat \<Rightarrow> (('a) afl_queue_scheme \<times> world) res" where
  "mark_as_det_done afl w q =
     bnd (q_get afl q) (\<lambda>e.
     bnd (after_slash (fname e)) (\<lambda>b.
     bnd (create_or_die (snprintf_path (out_dir afl @ ''/queue/.state/deterministic_done/'' @ b)) w) (\<lambda>w'.
     Inr (q_upd q (\<lambda>e. e\<lparr>passed_det := True\<rparr>) afl, w'))))"

definition mark_as_variable ::
  "('a) afl_queue_scheme \<Rightarrow> world \<Rightarrow> nat \<Rightarrow> (('a) afl_queue_scheme \<times> world) res" where
  "mark_as_variable afl w q =
     bnd (q_get afl q) (\<lambda>e.
     bnd (after_slash (fname e)) (\<lambda>b.
     bnd (sprintf_path (''../../'' @ b)) (\<lambda>ldest.
     bnd (sprintf_path (out_dir afl @ ''/queue/.state/variable_behavior/'' @ b)) (\<lambda>fn.
     bnd (case symlink ldest fn w of (True, w') \<Rightarrow> Inr w' | (False, w') \<Rightarrow> create_or_die fn w') (\<lambda>w'.
     Inr (q_upd q (\<lambda>e. e\<lparr>var_behavior := True\<rparr>) afl, w'))))))"

definition mark_as_redundant ::
  "('a) afl_queue_scheme \<Rightarrow> world \<Rightarrow> nat \<Rightarrow> bool \<Rightarrow> (('a) afl_queue_scheme \<times> world) res" where
  "mark_as_redundant afl w q state =
     bnd (q_get afl q) (\<lambda>e.
     if state = fs_redundant e then Inr (afl, w)
     else bnd (after_slash (fname e)) (\<lambda>b.
          bnd (sprintf_path (out_dir afl @ ''/queue/.state/redundant_edges/'' @ b)) (\<lambda>fn.
          bnd (if state then create_or_die fn w
               else (case unlink fn w of
                       (True, w') \<Rightarrow> Inr w' | (False, _) \<Rightarrow> Inl (PFatal (''Unable to remove '' @ fn)))) (\<lambda>w'.
          Inr (q_upd q (\<lambda>e. e\<lparr>fs_redundant := state\<rparr>) afl, w')))))"

section \<open>Adding an entry\<close>

text \<open>
  The custom mutators' hook \<open>afl_custom_queue_new_entry\<close> (code of plug-ins): given the entry's
  file name, its mother's and the file system, it says whether it rewrote the file.
  \<open>run_afl_custom_queue_new_entry\<close> is in src/afl-fuzz-mutators.c.
\<close>

type_synonym new_entry_hook = "string \<Rightarrow> string \<Rightarrow> world \<Rightarrow> bool \<times> world"

fun run_hooks :: "new_entry_hook option list \<Rightarrow> string \<Rightarrow> string \<Rightarrow> bool \<Rightarrow> world \<Rightarrow> bool \<times> world" where
  "run_hooks [] fn mother_fname updated w = (updated, w)"
| "run_hooks (None # els) fn mother_fname updated w = run_hooks els fn mother_fname updated w"
| "run_hooks (Some h # els) fn mother_fname updated w =
     (let (u, w') = h fn mother_fname w in run_hooks els fn mother_fname (updated \<or> u) w')"

definition run_afl_custom_queue_new_entry ::
  "new_entry_hook option list \<Rightarrow> ('a) afl_queue_scheme \<Rightarrow> world \<Rightarrow> queue_entry \<Rightarrow> string \<Rightarrow> string
     \<Rightarrow> (queue_entry \<times> world) res" where
  "run_afl_custom_queue_new_entry hooks afl w q fn mother_fname =
     (if custom_mutators_count afl = 0 then Inr (q, w)
      else let (updated, w') = run_hooks hooks fn mother_fname False w in
        if \<not> updated then Inr (q, w')
        else case files w' fn of
          None \<Rightarrow> Inl (PFatal (''File is gone: '' @ fn))
        | Some data \<Rightarrow> if data = [] then Inl (Fatal (''File became empty in custom mutator: '' @ fn))
            else Inr (q\<lparr>q_len := of_nat (length data)\<rparr>, w'))"

text \<open>The cell \<open>queue_buf[i]\<close>, which the reallocation just made room for.\<close>

definition q_put :: "queue_entry list \<Rightarrow> nat \<Rightarrow> queue_entry \<Rightarrow> queue_entry list res" where
  "q_put buf i q = (if i < length buf then Inr (buf[i := q])
     else if i = length buf then Inr (buf @ [q]) else Inl Oob)"

definition new_entry :: "('a) afl_queue_scheme \<Rightarrow> string \<Rightarrow> u32 \<Rightarrow> bool \<Rightarrow> queue_entry" where
  "new_entry afl fn len det = zero_entry\<lparr>fname := fn, q_len := len,
     depth := ucast (cur_depth afl + 1), passed_det := det, trace_mini := None,
     testcase_buf := None, mother := queue_cur afl\<rparr>"

definition find_times :: "('a) afl_queue_scheme \<Rightarrow> u64 \<Rightarrow> ('a) afl_queue_scheme" where
  "find_times afl cur_time =
     (let longest = (if start_time afl \<noteq> 0 \<and> longest_find_time afl < cur_time - last_find_time afl
            then if last_find_time afl = 0 then cur_time - start_time afl
                 else cur_time - last_find_time afl
            else longest_find_time afl)
      in afl\<lparr>longest_find_time := longest, last_find_time := cur_time\<rparr>)"

text \<open>The counters and list ends; \<open>i\<close> is the index the entry gets.\<close>

definition link_entry :: "('a) afl_queue_scheme \<Rightarrow> queue_entry \<Rightarrow> nat \<Rightarrow> ('a) afl_queue_scheme" where
  "link_entry afl q i =
     (let a1 = (if depth q > ucast (max_depth afl) then afl\<lparr>max_depth := ucast (depth q)\<rparr> else afl);
          a2 = (if queue_top a1 \<noteq> None then a1\<lparr>queue_top := Some i\<rparr>
                else a1\<lparr>queue := Some i, queue_top := Some i\<rparr>);
          a3 = (if q_len q > 4 then a2\<lparr>ready_for_splicing_count := ready_for_splicing_count a2 + 1\<rparr> else a2)
      in a3\<lparr>queued_items := queued_items a3 + 1, active_items := active_items a3 + 1,
            pending_not_fuzzed := pending_not_fuzzed a3 + 1, cycles_wo_finds := 0\<rparr>)"

definition add_to_queue ::
  "new_entry_hook option list \<Rightarrow> u64 \<Rightarrow> ('a) afl_queue_scheme \<Rightarrow> world \<Rightarrow> string \<Rightarrow> u32 \<Rightarrow> bool
     \<Rightarrow> (('a) afl_queue_scheme \<times> world) res" where
  "add_to_queue hooks cur_time afl w fn len det =
     (let q = new_entry afl fn len det;
          i = unat (queued_items afl + 1 - 1);
          a4 = link_entry afl q i;
          q1 = q\<lparr>q_id := queued_items a4 - 1\<rparr>
      in bnd (q_put (queue_buf a4) i q1) (\<lambda>buf.
         let a5 = find_times (a4\<lparr>queue_buf := buf\<rparr>) cur_time in
         bnd (if custom_mutators_count a5 \<noteq> 0 then
                (case (queue_cur a5, syncing_party a5) of
                   (Some c, None) \<Rightarrow> bnd (q_get a5 c) (\<lambda>m.
                      run_afl_custom_queue_new_entry hooks a5 w q1 fn (fname m))
                 | _ \<Rightarrow> Inr (q1, w))
              else Inr (q1, w)) (\<lambda>(q2, w').
         bnd (if cmplog_mode a5 \<and> \<not> is_ascii q2 then
                bnd (check_if_text w' q2) (\<lambda>t. Inr (q2\<lparr>is_ascii := (t \<noteq> 0)\<rparr>))
              else Inr q2) (\<lambda>q3.
         Inr (q_upd i (\<lambda>_. q3) a5, w')))))"

section \<open>The top-rated table\<close>

text \<open>\<open>next_pow2\<close> of include/alloc-inl.h (\<open>size_t\<close> is 64 bits wide).\<close>

definition next_pow2 :: "u64 \<Rightarrow> u64" where
  "next_pow2 i =
     (let o0 = i - 1; o1 = o0 OR drop_bit 1 o0; o2 = o1 OR drop_bit 2 o1; o4 = o2 OR drop_bit 4 o2;
          o8 = o4 OR drop_bit 8 o4; o16 = o8 OR drop_bit 16 o8
      in o16 + 1)"

definition fuzz_p2_of :: "('a) afl_queue_scheme \<Rightarrow> queue_entry \<Rightarrow> u64" where
  "fuzz_p2_of afl q =
     (if schedule afl \<ge> FAST \<and> schedule afl < RARE then 0
      else if schedule afl = RARE then next_pow2 (ucast (n_fuzz afl (unat (n_fuzz_entry q))))
      else ucast (fuzz_level q))"

definition top_rated_fuzz_p2_of :: "('a) afl_queue_scheme \<Rightarrow> queue_entry \<Rightarrow> u64" where
  "top_rated_fuzz_p2_of afl t =
     (if schedule afl \<ge> FAST \<and> schedule afl \<le> RARE then next_pow2 (ucast (n_fuzz afl (unat (n_fuzz_entry t))))
      else ucast (fuzz_level t))"

text \<open>\<open>len << 2\<close> is computed in 32 bits, \<open>exec_us * len\<close> in 64.\<close>

definition fav_factor_of :: "('a) afl_queue_scheme \<Rightarrow> queue_entry \<Rightarrow> u64" where
  "fav_factor_of afl q =
     (if schedule afl \<ge> RARE \<or> fixed_seed afl then ucast (push_bit 2 (q_len q))
      else exec_us q * ucast (q_len q))"

text \<open>The three \<open>continue\<close>s: the present holder of the slot stays.\<close>

definition holder_stays :: "('a) afl_queue_scheme \<Rightarrow> u64 \<Rightarrow> u64 \<Rightarrow> queue_entry \<Rightarrow> bool" where
  "holder_stays afl fuzz_p2 fav_factor t \<longleftrightarrow>
     fuzz_p2 > top_rated_fuzz_p2_of afl t \<or>
     (fuzz_p2 = top_rated_fuzz_p2_of afl t \<and> fav_factor > fav_factor_of afl t) \<or>
     fav_factor > fav_factor_of afl t"

text \<open>The previous winner gives the slot up; the matrix keeps its trace.\<close>

definition drop_winner :: "('a) afl_queue_scheme \<Rightarrow> nat \<Rightarrow> queue_entry \<Rightarrow> queue_entry" where
  "drop_winner afl t e =
     (if testcase_matrix afl = Some t then (if tc_ref e > 0 then e\<lparr>tc_ref := tc_ref e - 1\<rparr> else e)
      else if tc_ref e - 1 = 0 then e\<lparr>tc_ref := tc_ref e - 1, trace_mini := None\<rparr>
      else e\<lparr>tc_ref := tc_ref e - 1\<rparr>)"

definition mini_of_trace :: "('a) afl_queue_scheme \<Rightarrow> bytes res" where
  "mini_of_trace afl =
     minimize_bits afl (replicate (unat (drop_bit 3 (map_size (fsrv afl)))) 0) (trace_bits (fsrv afl))"

definition ensure_mini :: "nat \<Rightarrow> ('a) afl_queue_scheme \<Rightarrow> ('a) afl_queue_scheme res" where
  "ensure_mini q afl =
     bnd (q_get afl q) (\<lambda>e.
     if trace_mini e = None then
       bnd (mini_of_trace afl) (\<lambda>m. Inr (q_upd q (\<lambda>e. e\<lparr>trace_mini := Some m\<rparr>) afl))
     else Inr afl)"

definition take_slot :: "nat \<Rightarrow> nat \<Rightarrow> ('a) afl_queue_scheme \<Rightarrow> ('a) afl_queue_scheme res" where
  "take_slot q i afl =
     bnd (wr (top_rated afl) i (Some q)) (\<lambda>tr.
     bnd (ensure_mini q (q_upd q (\<lambda>e. e\<lparr>tc_ref := tc_ref e + 1\<rparr>) (afl\<lparr>top_rated := tr\<rparr>))) (\<lambda>afl'.
     Inr (afl'\<lparr>score_changed := True\<rparr>)))"

definition score_slot :: "nat \<Rightarrow> u64 \<Rightarrow> u64 \<Rightarrow> nat \<Rightarrow> ('a) afl_queue_scheme \<Rightarrow> ('a) afl_queue_scheme res" where
  "score_slot q fuzz_p2 fav_factor i afl =
     bnd (rd (trace_bits (fsrv afl)) i) (\<lambda>b.
     if b = 0 then Inr afl
     else bnd (rd (top_rated afl) i) (\<lambda>h.
       case h of
         None \<Rightarrow> take_slot q i afl
       | Some t \<Rightarrow> bnd (q_get afl t) (\<lambda>e.
           if holder_stays afl fuzz_p2 fav_factor e then Inr afl
           else take_slot q i (q_upd t (drop_winner afl t) afl))))"

definition update_bitmap_score :: "('a) afl_queue_scheme \<Rightarrow> nat \<Rightarrow> ('a) afl_queue_scheme res" where
  "update_bitmap_score afl q =
     bnd (q_get afl q) (\<lambda>e.
     bnd (if testcase_matrix afl = Some q then ensure_mini q afl else Inr afl) (\<lambda>afl'.
     foldm (score_slot q (fuzz_p2_of afl e) (fav_factor_of afl e)) [0 ..< unat (map_size (fsrv afl))] afl'))"

section \<open>Choosing favourites\<close>

text \<open>\<open>while (j--)\<close>: drop from \<open>temp_v\<close> the bits the matrix has and the entry has not.\<close>

fun remove_bits :: "nat \<Rightarrow> bytes \<Rightarrow> bytes \<Rightarrow> bytes \<Rightarrow> bytes res" where
  "remove_bits 0 trated matrix temp_v = Inr temp_v"
| "remove_bits (Suc j) trated matrix temp_v =
     bnd (rd trated j) (\<lambda>t. bnd (rd matrix j) (\<lambda>m. bnd (rd temp_v j) (\<lambda>v.
       let gone = (t XOR m) AND m in
       remove_bits j trated matrix (if gone \<noteq> 0 then temp_v[j := v AND NOT gone] else temp_v))))"

definition mini_or_die :: "bytes option \<Rightarrow> bytes res" where
  "mini_or_die m = (case m of None \<Rightarrow> Inl NullPtr | Some b \<Rightarrow> Inr b)"

definition make_favored :: "nat \<Rightarrow> queue_entry \<Rightarrow> ('a) afl_queue_scheme \<Rightarrow> ('a) afl_queue_scheme" where
  "make_favored t e afl =
     (if favored e then afl
      else let afl' = (q_upd t (\<lambda>e. e\<lparr>favored := True\<rparr>) afl)\<lparr>queued_favored := queued_favored afl + 1\<rparr>
           in if was_fuzzed e then afl' else afl'\<lparr>pending_favored := pending_favored afl' + 1\<rparr>)"

definition cull_slot :: "nat \<Rightarrow> ('a) afl_queue_scheme \<times> bytes \<Rightarrow> (('a) afl_queue_scheme \<times> bytes) res" where
  "cull_slot i = (\<lambda>(afl, temp_v).
     bnd (rd (top_rated afl) i) (\<lambda>h.
     case h of
       None \<Rightarrow> Inr (afl, temp_v)
     | Some t \<Rightarrow>
         bnd (rd temp_v (i div 8)) (\<lambda>v.
         if v AND push_bit (i mod 8) 1 = 0 then Inr (afl, temp_v)
         else bnd (q_get afl t) (\<lambda>e.
              bnd (case testcase_matrix afl of None \<Rightarrow> Inl NullPtr | Some m \<Rightarrow> q_get afl m) (\<lambda>mx.
              let len = unat (drop_bit 3 (map_size (fsrv afl))) in
              bnd (if len = 0 then Inr temp_v
                   else bnd (mini_or_die (trace_mini e)) (\<lambda>trated.
                        bnd (mini_or_die (trace_mini mx)) (\<lambda>matrix. remove_bits len trated matrix temp_v)))
                (\<lambda>temp_v'. Inr (make_favored t e afl, temp_v')))))))"

definition redundant_slot ::
  "nat \<Rightarrow> ('a) afl_queue_scheme \<times> world \<Rightarrow> (('a) afl_queue_scheme \<times> world) res" where
  "redundant_slot i = (\<lambda>(afl, w).
     bnd (q_get afl i) (\<lambda>e.
     if disabled e then Inr (afl, w) else mark_as_redundant afl w i (\<not> favored e)))"

definition unfavor :: "nat \<Rightarrow> ('a) afl_queue_scheme \<Rightarrow> ('a) afl_queue_scheme res" where
  "unfavor i afl = bnd (q_get afl i) (\<lambda>_. Inr (q_upd i (\<lambda>e. e\<lparr>favored := False\<rparr>) afl))"

definition cull_queue :: "('a) afl_queue_scheme \<Rightarrow> world \<Rightarrow> (('a) afl_queue_scheme \<times> world) res" where
  "cull_queue afl w =
     (if testcase_matrix afl = None then Inl (Fatal ''World will go down without a matrix!'')
      else if \<not> score_changed afl \<or> non_instrumented_mode afl then Inr (afl, w)
      else let len = unat (drop_bit 3 (map_size (fsrv afl)));
               n = unat (queued_items afl);
               afl0 = afl\<lparr>score_changed := False, queued_favored := 0, pending_favored := 0\<rparr>
        in if length (map_tmp_buf afl) < len then Inl Oob
        else bnd (foldm unfavor [0 ..< n] afl0) (\<lambda>afl1.
             bnd (foldm cull_slot [0 ..< unat (map_size (fsrv afl))]
                    (afl1, replicate len 255 @ drop len (map_tmp_buf afl))) (\<lambda>(afl2, temp_v).
             foldm redundant_slot [0 ..< n] (afl2\<lparr>map_tmp_buf := temp_v\<rparr>, w))))"


section \<open>Facts about entries and slots\<close>

lemma q_get_ok [simp]: "q < length (queue_buf afl) \<Longrightarrow> q_get afl q = Inr (queue_buf afl ! q)"
  by (simp add: q_get_def)

lemma q_upd_simps [simp]:
  "queue_buf (q_upd q f afl) = (queue_buf afl)[q := f (queue_buf afl ! q)]"
  "top_rated (q_upd q f afl) = top_rated afl" "fsrv (q_upd q f afl) = fsrv afl"
  "testcase_matrix (q_upd q f afl) = testcase_matrix afl"
  "score_changed (q_upd q f afl) = score_changed afl"
  "queued_items (q_upd q f afl) = queued_items afl" "out_dir (q_upd q f afl) = out_dir afl"
  by (simp_all add: q_upd_def)

lemma count_list_update:
  "i < length xs \<Longrightarrow>
     count_list (xs[i := y]) x + of_bool (xs ! i = x) = count_list xs x + of_bool (y = x)"
proof (induction xs arbitrary: i)
  case (Cons a xs)
  show ?case
  proof (cases i)
    case (Suc j)
    then show ?thesis using Cons.IH [of j] Cons.prems by simp
  qed simp
qed simp

lemma count_list_pos: "x \<in> set xs \<longleftrightarrow> 0 < count_list xs x"
  using count_list_0_iff [of xs x] by auto

text \<open>
  The reference counts of the table: every entry counts the slots it holds; it has a compacted
  trace while it holds one, and gives it up with its last slot unless it is the matrix.
\<close>

definition top_inv :: "nat option \<Rightarrow> nat \<Rightarrow> queue_entry list \<Rightarrow> nat option list \<Rightarrow> bool" where
  "top_inv matrix len buf tr \<longleftrightarrow> (\<forall>t. Some t \<in> set tr \<longrightarrow> t < length buf) \<and>
     (\<forall>t < length buf. unat (tc_ref (buf ! t)) = count_list tr (Some t) \<and>
        (0 < count_list tr (Some t) \<longrightarrow> trace_mini (buf ! t) \<noteq> None) \<and>
        (count_list tr (Some t) = 0 \<and> matrix \<noteq> Some t \<longrightarrow> trace_mini (buf ! t) = None) \<and>
        (\<forall>m. trace_mini (buf ! t) = Some m \<longrightarrow> length m = len))"

lemma top_invD:
  assumes "top_inv matrix len buf tr"
  shows "Some t \<in> set tr \<Longrightarrow> t < length buf"
    "t < length buf \<Longrightarrow> unat (tc_ref (buf ! t)) = count_list tr (Some t)"
    "t < length buf \<Longrightarrow> 0 < count_list tr (Some t) \<Longrightarrow> trace_mini (buf ! t) \<noteq> None"
    "t < length buf \<Longrightarrow> count_list tr (Some t) = 0 \<Longrightarrow> matrix \<noteq> Some t \<Longrightarrow> trace_mini (buf ! t) = None"
    "t < length buf \<Longrightarrow> trace_mini (buf ! t) = Some m \<Longrightarrow> length m = len"
  using assms by (auto simp: top_inv_def)

definition add_ref :: "bytes \<Rightarrow> nat \<Rightarrow> queue_entry list \<Rightarrow> queue_entry list" where
  "add_ref m q buf = buf[q := (buf ! q)\<lparr>tc_ref := tc_ref (buf ! q) + 1,
     trace_mini := (case trace_mini (buf ! q) of None \<Rightarrow> Some m | Some x \<Rightarrow> Some x)\<rparr>]"

definition drop_ref :: "nat option \<Rightarrow> nat \<Rightarrow> queue_entry list \<Rightarrow> queue_entry list" where
  "drop_ref matrix t buf = buf[t := (let e = buf ! t in
     if matrix = Some t then (if tc_ref e > 0 then e\<lparr>tc_ref := tc_ref e - 1\<rparr> else e)
     else if tc_ref e - 1 = 0 then e\<lparr>tc_ref := tc_ref e - 1, trace_mini := None\<rparr>
     else e\<lparr>tc_ref := tc_ref e - 1\<rparr>)]"

lemma length_refs [simp]:
  "length (add_ref m q buf) = length buf" "length (drop_ref matrix t buf) = length buf"
  by (simp_all add: add_ref_def drop_ref_def)

lemma top_inv_add:
  assumes inv: "top_inv matrix len buf tr" and i: "i < length tr" "tr ! i = None"
    and q: "q < length buf" and m: "length m = len" and small: "length tr < 2 ^ 32"
  shows "top_inv matrix len (add_ref m q buf) (tr[i := Some q])"
proof -
  have c: "count_list (tr[i := Some q]) (Some t) = count_list tr (Some t) + of_bool (t = q)" for t
    using count_list_update [OF i(1), of "Some q" "Some t"] i(2) by auto
  have "count_list (tr[i := Some q]) (Some q) \<le> length tr"
    using count_le_length [of "tr[i := Some q]" "Some q"] by simp
  then have "unat (tc_ref (buf ! q)) + 1 < 2 ^ LENGTH(32)"
    using c [of q] top_invD(2) [OF inv q] small by simp
  then have "unat (tc_ref (buf ! q) + 1) = unat (tc_ref (buf ! q)) + 1"
    by (simp add: unat_word_ariths)
  moreover have "Some t \<in> set (tr[i := Some q]) \<Longrightarrow> t < length buf" for t
    using top_invD(1) [OF inv] q set_update_subset_insert [of tr i "Some q"] by auto
  ultimately show ?thesis
    unfolding top_inv_def c using inv q m
    by (auto simp: add_ref_def nth_list_update top_inv_def split: option.splits)
qed

lemma top_inv_drop:
  assumes inv: "top_inv matrix len buf tr" and i: "i < length tr" "tr ! i = Some t"
  shows "top_inv matrix len (drop_ref matrix t buf) (tr[i := None])"
proof -
  have t: "t < length buf" using top_invD(1) [OF inv, of t] i by (metis nth_mem)
  have c: "count_list (tr[i := None]) (Some u) + of_bool (u = t) = count_list tr (Some u)" for u
    using count_list_update [OF i(1), of None "Some u"] i(2) by auto
  have pos: "unat (tc_ref (buf ! t)) = Suc (count_list (tr[i := None]) (Some t))"
    using c [of t] top_invD(2) [OF inv t] by simp
  then have "tc_ref (buf ! t) \<noteq> 0" by auto
  then have gt: "0 < tc_ref (buf ! t)" by (simp add: word_gt_0)
  have dec: "unat (tc_ref (buf ! t) - 1) = count_list (tr[i := None]) (Some t)"
    using pos gt by (subst unat_sub) (simp_all add: word_le_nat_alt)
  then have z: "tc_ref (buf ! t) - 1 = 0 \<longleftrightarrow> count_list (tr[i := None]) (Some t) = 0"
    by (metis unat_eq_zero)
  have mem: "Some u \<in> set (tr[i := None]) \<Longrightarrow> u < length buf" for u
    using top_invD(1) [OF inv, of u] set_update_subset_insert [of tr i None] by auto
  have other: "u \<noteq> t \<Longrightarrow> count_list (tr[i := None]) (Some u) = count_list tr (Some u)" for u
    using c [of u] by simp
  have mini: "trace_mini (buf ! t) \<noteq> None" using top_invD(3) [OF inv t] c [of t] by simp
  show ?thesis
    unfolding top_inv_def
  proof (intro conjI allI impI)
    fix u assume "Some u \<in> set (tr[i := None])"
    then show "u < length (drop_ref matrix t buf)" using mem by simp
  next
    fix u assume "u < length (drop_ref matrix t buf)"
    then show "unat (tc_ref (drop_ref matrix t buf ! u)) = count_list (tr[i := None]) (Some u)"
      using top_invD(2) [OF inv, of u] t dec gt other
      by (cases "u = t") (auto simp: drop_ref_def Let_def)
  next
    fix u assume "u < length (drop_ref matrix t buf)" "0 < count_list (tr[i := None]) (Some u)"
    then show "trace_mini (drop_ref matrix t buf ! u) \<noteq> None"
      using top_invD(3) [OF inv, of u] t z other mini
      by (cases "u = t") (auto simp: drop_ref_def Let_def)
  next
    fix u assume "u < length (drop_ref matrix t buf)"
      "count_list (tr[i := None]) (Some u) = 0 \<and> matrix \<noteq> Some u"
    then show "trace_mini (drop_ref matrix t buf ! u) = None"
      using top_invD(4) [OF inv, of u] t z other
      by (cases "u = t") (auto simp: drop_ref_def Let_def)
  next
    fix u m assume "u < length (drop_ref matrix t buf)" "trace_mini (drop_ref matrix t buf ! u) = Some m"
    then show "length m = len"
      using top_invD(5) [OF inv, of u m] t
      by (cases "u = t") (auto simp: drop_ref_def Let_def split: if_splits)
  qed
qed

lemma top_inv_move:
  assumes "top_inv matrix len buf tr" "i < length tr" "tr ! i = Some t"
    and "q < length buf" "length m = len" "length tr < 2 ^ 32"
  shows "top_inv matrix len (add_ref m q (drop_ref matrix t buf)) (tr[i := Some q])"
  using top_inv_add [OF top_inv_drop [OF assms(1,2,3)], of i q m] assms(2,4-6) by simp



section \<open>One slot of the table\<close>

lemma mini_of_trace_cong: "fsrv afl = fsrv afl' \<Longrightarrow> mini_of_trace afl = mini_of_trace afl'"
  by (simp add: mini_of_trace_def minimize_bits_def)

lemma mini_of_trace_ok:
  assumes "map_wf (fsrv afl)"
  shows "\<exists>m. mini_of_trace afl = Inr m \<and> length m = unat (map_size (fsrv afl)) div 8 \<and>
    (\<forall>k < unat (map_size (fsrv afl)). mini_bit m k \<longleftrightarrow> trace_bits (fsrv afl) ! k \<noteq> 0)"
proof -
  let ?N = "unat (map_size (fsrv afl))"
  have N: "length (trace_bits (fsrv afl)) = ?N" "8 dvd ?N"
    using assms dvd_trans [of 8 64 ?N] by (auto simp: map_wf_def mod_eq_0_iff_dvd)
  then have "\<exists>r. minimize_loop ?N 0 (replicate (?N div 8) 0) (trace_bits (fsrv afl)) = Inr r \<and>
      length r = ?N div 8 \<and>
      (\<forall>k. mini_bit r k \<longleftrightarrow> mini_bit (replicate (?N div 8) 0) k \<or>
        (0 \<le> k \<and> k < 0 + ?N \<and> trace_bits (fsrv afl) ! k \<noteq> 0))"
    using minimize_loop_spec [of 0 ?N "trace_bits (fsrv afl)" "replicate (?N div 8) 0"] by simp
  moreover have "\<not> mini_bit (replicate n 0) k" for n k by (auto simp: mini_bit_def)
  ultimately show ?thesis
    by (auto simp: mini_of_trace_def minimize_bits_def unat_drop_bit)
qed

lemma trace_mini_same: "trace_mini e = v \<Longrightarrow> e\<lparr>tc_ref := x, trace_mini := v\<rparr> = e\<lparr>tc_ref := x\<rparr>"
  by (cases e) simp

lemma take_slot_eq:
  assumes "mini_of_trace afl = Inr m" "i < length (top_rated afl)" "q < length (queue_buf afl)"
  shows "take_slot q i afl = Inr (afl\<lparr>queue_buf := add_ref m q (queue_buf afl),
    top_rated := (top_rated afl)[i := Some q], score_changed := True\<rparr>)"
proof -
  have "mini_of_trace (afl\<lparr>top_rated := tr, queue_buf := buf\<rparr>) = Inr m" for tr buf
    using assms(1) mini_of_trace_cong [of "afl\<lparr>top_rated := tr, queue_buf := buf\<rparr>" afl] by simp
  then show ?thesis
    using assms(2,3)
    by (cases "trace_mini (queue_buf afl ! q)")
      (simp_all add: take_slot_def ensure_mini_def q_upd_def add_ref_def q_get_def trace_mini_same)
qed

lemma drop_winner_eq:
  "q_upd t (drop_winner afl t) afl = afl\<lparr>queue_buf := drop_ref (testcase_matrix afl) t (queue_buf afl)\<rparr>"
  by (simp add: q_upd_def drop_ref_def drop_winner_def Let_def)

text \<open>What scoring never changes of an entry, and what the comparison reads of it.\<close>

definition static :: "queue_entry \<Rightarrow> queue_entry" where
  "static e = e\<lparr>tc_ref := 0, trace_mini := None\<rparr>"

lemma static_fields:
  assumes "static e = static e'"
  shows "q_len e = q_len e'" "exec_us e = exec_us e'" "fuzz_level e = fuzz_level e'"
    "n_fuzz_entry e = n_fuzz_entry e'" "favored e = favored e'" "was_fuzzed e = was_fuzzed e'"
    "disabled e = disabled e'" "fs_redundant e = fs_redundant e'" "fname e = fname e'"
proof -
  have "q_len (static x) = q_len x" "exec_us (static x) = exec_us x" "fuzz_level (static x) = fuzz_level x"
    "n_fuzz_entry (static x) = n_fuzz_entry x" "favored (static x) = favored x"
    "was_fuzzed (static x) = was_fuzzed x" "disabled (static x) = disabled x"
    "fs_redundant (static x) = fs_redundant x" "fname (static x) = fname x" for x
    by (simp_all add: static_def)
  then show "q_len e = q_len e'" "exec_us e = exec_us e'" "fuzz_level e = fuzz_level e'"
    "n_fuzz_entry e = n_fuzz_entry e'" "favored e = favored e'" "was_fuzzed e = was_fuzzed e'"
    "disabled e = disabled e'" "fs_redundant e = fs_redundant e'" "fname e = fname e'"
    using assms by metis+
qed

lemma holder_stays_static:
  "static e = static e' \<Longrightarrow> holder_stays afl p f e = holder_stays afl p f e'"
  using static_fields(1-4) [of e e']
  by (simp add: holder_stays_def top_rated_fuzz_p2_of_def fav_factor_of_def)

lemma holder_stays_upd [simp]:
  "holder_stays (afl\<lparr>queue_buf := buf, top_rated := tr, score_changed := s\<rparr>) = holder_stays afl"
  by (intro ext) (simp add: holder_stays_def top_rated_fuzz_p2_of_def fav_factor_of_def)

lemma map_static_update:
  "static e = static (buf ! t) \<Longrightarrow> map static (buf[t := e]) = map static buf"
  by (cases "t < length buf") (simp_all add: map_update list_update_same_conv not_less list_update_beyond)

lemma static_refs [simp]:
  "map static (add_ref m q buf) = map static buf"
  "map static (drop_ref matrix t buf) = map static buf"
  unfolding add_ref_def drop_ref_def by (intro map_static_update; simp add: static_def Let_def)+

lemma matrix_mini_refs:
  "trace_mini (buf ! x) \<noteq> None \<Longrightarrow> trace_mini (add_ref m q buf ! x) \<noteq> None"
  "trace_mini (buf ! x) \<noteq> None \<Longrightarrow> trace_mini (drop_ref (Some x) t buf ! x) \<noteq> None"
proof -
  assume a: "trace_mini (buf ! x) \<noteq> None"
  show "trace_mini (add_ref m q buf ! x) \<noteq> None"
  proof (cases "q < length buf \<and> x = q")
    case True
    with a show ?thesis by (auto simp: add_ref_def split: option.splits)
  next
    case False
    with a show ?thesis by (cases "q < length buf") (simp_all add: add_ref_def list_update_beyond)
  qed
  show "trace_mini (drop_ref (Some x) t buf ! x) \<noteq> None"
  proof (cases "t < length buf \<and> x = t")
    case True
    with a show ?thesis by (auto simp: drop_ref_def Let_def)
  next
    case False
    with a show ?thesis by (cases "t < length buf") (simp_all add: drop_ref_def list_update_beyond)
  qed
qed

section \<open>Scoring a trace\<close>

text \<open>The slots the entry takes, and the table afterwards.\<close>

definition wins_slot :: "('a) afl_queue_scheme \<Rightarrow> nat \<Rightarrow> nat \<Rightarrow> bool" where
  "wins_slot afl q k \<longleftrightarrow> trace_bits (fsrv afl) ! k \<noteq> 0 \<and>
     (case top_rated afl ! k of None \<Rightarrow> True
      | Some t \<Rightarrow> \<not> holder_stays afl (fuzz_p2_of afl (queue_buf afl ! q)) (fav_factor_of afl (queue_buf afl ! q))
          (queue_buf afl ! t))"

definition queue_wf :: "('a) afl_queue_scheme \<Rightarrow> bool" where
  "queue_wf afl \<longleftrightarrow> map_wf (fsrv afl) \<and>
     length (top_rated afl) = unat (map_size (fsrv afl)) \<and>
     length (queue_buf afl) = unat (queued_items afl) \<and>
     unat (map_size (fsrv afl)) div 8 \<le> length (map_tmp_buf afl) \<and>
     top_inv (testcase_matrix afl) (unat (map_size (fsrv afl)) div 8) (queue_buf afl) (top_rated afl) \<and>
     (\<forall>m. testcase_matrix afl = Some m \<longrightarrow> m < length (queue_buf afl))"

definition matrix_ready :: "('a) afl_queue_scheme \<Rightarrow> bool" where
  "matrix_ready afl \<longleftrightarrow> (case testcase_matrix afl of None \<Rightarrow> False
     | Some m \<Rightarrow> m < length (queue_buf afl) \<and> trace_mini (queue_buf afl ! m) \<noteq> None)"

text \<open>The loop invariant after \<open>i\<close> slots, from the state \<open>afl\<close> the call started in.\<close>

definition scored :: "('a) afl_queue_scheme \<Rightarrow> nat \<Rightarrow> nat \<Rightarrow> ('a) afl_queue_scheme \<Rightarrow> bool" where
  "scored afl q i s \<longleftrightarrow> (\<exists>buf tr.
     s = afl\<lparr>queue_buf := buf, top_rated := tr,
       score_changed := (score_changed afl \<or> (\<exists>k < i. wins_slot afl q k))\<rparr> \<and>
     map static buf = map static (queue_buf afl) \<and> length tr = length (top_rated afl) \<and>
     top_inv (testcase_matrix afl) (unat (map_size (fsrv afl)) div 8) buf tr \<and>
     (\<forall>k < length tr. tr ! k = (if k < i \<and> wins_slot afl q k then Some q else top_rated afl ! k)) \<and>
     (testcase_matrix afl = Some q \<or> matrix_ready afl \<longrightarrow>
        trace_mini (buf ! the (testcase_matrix afl)) \<noteq> None))"

lemma scored_step:
  assumes wf: "queue_wf afl" and q: "q < length (queue_buf afl)"
    and i: "i < unat (map_size (fsrv afl))" and P: "scored afl q i s"
  shows "\<exists>s'. score_slot q (fuzz_p2_of afl (queue_buf afl ! q)) (fav_factor_of afl (queue_buf afl ! q)) i s = Inr s' \<and>
    scored afl q (Suc i) s'"
proof -
  let ?p = "fuzz_p2_of afl (queue_buf afl ! q)" and ?f = "fav_factor_of afl (queue_buf afl ! q)"
  let ?N = "unat (map_size (fsrv afl))" and ?M = "testcase_matrix afl"
  let ?ch = "\<lambda>i. score_changed afl \<or> (\<exists>k < i. wins_slot afl q k)"
  have mw: "map_wf (fsrv afl)" and lt: "length (top_rated afl) = ?N"
    using wf by (auto simp: queue_wf_def)
  have trace: "length (trace_bits (fsrv afl)) = ?N" using mw by (simp add: map_wf_def)
  have small: "?N < 2 ^ 32" using unsigned_less [of "map_size (fsrv afl)"] by simp
  from P obtain buf tr where s: "s = afl\<lparr>queue_buf := buf, top_rated := tr, score_changed := ?ch i\<rparr>"
    and st: "map static buf = map static (queue_buf afl)" and ltr: "length tr = length (top_rated afl)"
    and inv: "top_inv ?M (?N div 8) buf tr"
    and nth: "\<forall>k < length tr. tr ! k = (if k < i \<and> wins_slot afl q k then Some q else top_rated afl ! k)"
    and mx: "?M = Some q \<or> matrix_ready afl \<longrightarrow> trace_mini (buf ! the ?M) \<noteq> None"
    unfolding scored_def by blast
  have lb: "length buf = length (queue_buf afl)" using st by (metis length_map)
  have stat: "static (buf ! t) = static (queue_buf afl ! t)" if "t < length buf" for t
    using st that lb by (metis nth_map)
  have tri: "tr ! i = top_rated afl ! i" using nth i ltr lt by simp
  obtain m where m: "mini_of_trace s = Inr m" "length m = ?N div 8"
    using mini_of_trace_ok [OF mw] mini_of_trace_cong [of s afl] s by auto
  have skip: "scored afl q (Suc i) s" if "\<not> wins_slot afl q i"
  proof -
    have "?ch (Suc i) = ?ch i" using that by (auto simp: less_Suc_eq)
    moreover have "\<forall>k < length tr. tr ! k = (if k < Suc i \<and> wins_slot afl q k then Some q else top_rated afl ! k)"
      using nth that by (auto simp: less_Suc_eq)
    ultimately show ?thesis
      unfolding scored_def
      by (intro exI [of _ buf] exI [of _ tr] conjI) (use s st ltr inv mx in \<open>simp_all only:\<close>)
  qed
  have win: "scored afl q (Suc i) (afl\<lparr>queue_buf := buf', top_rated := tr[i := Some q], score_changed := True\<rparr>)"
    if w: "wins_slot afl q i" and b: "map static buf' = map static buf"
      and inv': "top_inv ?M (?N div 8) buf' (tr[i := Some q])"
      and mx': "?M = Some q \<or> matrix_ready afl \<longrightarrow> trace_mini (buf' ! the ?M) \<noteq> None" for buf'
  proof -
    have "?ch (Suc i)" using w by auto
    moreover have "\<forall>k < length (tr[i := Some q]). tr[i := Some q] ! k =
        (if k < Suc i \<and> wins_slot afl q k then Some q else top_rated afl ! k)"
    proof (intro allI impI)
      fix k assume "k < length (tr[i := Some q])"
      then show "tr[i := Some q] ! k = (if k < Suc i \<and> wins_slot afl q k then Some q else top_rated afl ! k)"
        using nth w by (cases "k = i") (auto simp: less_Suc_eq)
    qed
    ultimately show ?thesis
      unfolding scored_def using b st ltr inv' mx' by (intro exI [of _ buf'] exI [of _ "tr[i := Some q]"]) auto
  qed
  show ?thesis
  proof (cases "trace_bits (fsrv afl) ! i = 0")
    case True
    then have "\<not> wins_slot afl q i" by (simp add: wins_slot_def)
    from skip [OF this] True i trace show ?thesis
      by (intro exI [of _ s]) (simp add: score_slot_def s)
  next
    case False
    show ?thesis
    proof (cases "tr ! i")
      case None
      have w: "wins_slot afl q i" using False None tri by (simp add: wins_slot_def)
      have "take_slot q i s = Inr (s\<lparr>queue_buf := add_ref m q buf, top_rated := tr[i := Some q], score_changed := True\<rparr>)"
        using take_slot_eq [OF m(1), of i q] i lt ltr q lb by (simp add: s)
      then have "score_slot q ?p ?f i s = Inr (afl\<lparr>queue_buf := add_ref m q buf, top_rated := tr[i := Some q], score_changed := True\<rparr>)"
        using False None i trace lt ltr by (simp add: score_slot_def s)
      moreover have "top_inv ?M (?N div 8) (add_ref m q buf) (tr[i := Some q])"
        using top_inv_add [OF inv _ None _ m(2)] i lt ltr q lb small by simp
      ultimately show ?thesis
        using win [OF w, of "add_ref m q buf"] mx matrix_mini_refs(1) by auto
    next
      case (Some t)
      have t: "t < length buf" using top_invD(1) [OF inv, of t] Some i lt ltr by (metis nth_mem)
      have h: "holder_stays afl ?p ?f (buf ! t) = holder_stays afl ?p ?f (queue_buf afl ! t)"
        by (rule holder_stays_static [OF stat [OF t]])
      show ?thesis
      proof (cases "holder_stays afl ?p ?f (queue_buf afl ! t)")
        case True
        then have "\<not> wins_slot afl q i" using Some tri by (simp add: wins_slot_def)
        from skip [OF this] True False Some i trace lt ltr t h show ?thesis
          by (intro exI [of _ s]) (simp add: score_slot_def s)
      next
        case stays: False
        have w: "wins_slot afl q i" using False Some tri stays by (simp add: wins_slot_def)
        let ?d = "drop_ref ?M t buf"
        have "mini_of_trace (s\<lparr>queue_buf := ?d\<rparr>) = Inr m"
          using m(1) mini_of_trace_cong [of "s\<lparr>queue_buf := ?d\<rparr>" s] by simp
        from take_slot_eq [OF this, of i q]
        have "take_slot q i (s\<lparr>queue_buf := ?d\<rparr>) = Inr (afl\<lparr>queue_buf := add_ref m q ?d,
            top_rated := tr[i := Some q], score_changed := True\<rparr>)"
          using i lt ltr q lb by (simp add: s)
        moreover have "q_upd t (drop_winner s t) s = s\<lparr>queue_buf := ?d\<rparr>"
          unfolding drop_winner_eq by (simp add: s)
        ultimately have "score_slot q ?p ?f i s = Inr (afl\<lparr>queue_buf := add_ref m q ?d,
            top_rated := tr[i := Some q], score_changed := True\<rparr>)"
          using False Some stays i trace lt ltr t h by (simp add: score_slot_def s)
        moreover have "top_inv ?M (?N div 8) (add_ref m q ?d) (tr[i := Some q])"
          using top_inv_move [OF inv _ Some _ m(2)] i lt ltr q lb small by simp
        moreover have "?M = Some q \<or> matrix_ready afl \<longrightarrow> trace_mini (add_ref m q ?d ! the ?M) \<noteq> None"
          using mx matrix_mini_refs by (auto simp: matrix_ready_def split: option.splits)
        ultimately show ?thesis using win [OF w, of "add_ref m q ?d"] by auto
      qed
    qed
  qed
qed



lemma top_inv_matrix:
  assumes "top_inv (Some q) len buf tr" "length m = len"
  shows "top_inv (Some q) len (buf[q := (buf ! q)\<lparr>trace_mini := Some m\<rparr>]) tr"
proof -
  let ?b = "buf[q := (buf ! q)\<lparr>trace_mini := Some m\<rparr>]"
  have "tc_ref (?b ! t) = tc_ref (buf ! t)" "trace_mini (?b ! t) = (if t = q then Some m else trace_mini (buf ! t))"
    if "t < length buf" for t
    using that by (cases "t = q"; simp)+
  then show ?thesis using assms by (auto simp: top_inv_def)
qed

lemma upd_same [simp]:
  "afl\<lparr>queue_buf := queue_buf afl, top_rated := top_rated afl, score_changed := score_changed afl\<rparr> = afl"
  "afl\<lparr>queue_buf := buf, top_rated := top_rated afl, score_changed := score_changed afl\<rparr> = afl\<lparr>queue_buf := buf\<rparr>"
  by (cases afl; simp)+

lemma scored_0:
  assumes "queue_wf afl" "q < length (queue_buf afl)"
  shows "\<exists>s. (if testcase_matrix afl = Some q then ensure_mini q afl else Inr afl) = Inr s \<and> scored afl q 0 s"
proof -
  have inv: "top_inv (testcase_matrix afl) (unat (map_size (fsrv afl)) div 8) (queue_buf afl) (top_rated afl)"
    and mw: "map_wf (fsrv afl)" using assms(1) by (simp_all add: queue_wf_def)
  have same: "scored afl q 0 afl"
    if "testcase_matrix afl = Some q \<Longrightarrow> trace_mini (queue_buf afl ! q) \<noteq> None"
    unfolding scored_def using inv that
    by (intro exI [of _ "queue_buf afl"] exI [of _ "top_rated afl"])
      (auto simp: matrix_ready_def split: option.splits)
  show ?thesis
  proof (cases "testcase_matrix afl = Some q \<and> trace_mini (queue_buf afl ! q) = None")
    case True
    obtain m where m: "mini_of_trace afl = Inr m" "length m = unat (map_size (fsrv afl)) div 8"
      using mini_of_trace_ok [OF mw] by blast
    let ?b = "(queue_buf afl)[q := (queue_buf afl ! q)\<lparr>trace_mini := Some m\<rparr>]"
    have "ensure_mini q afl = Inr (afl\<lparr>queue_buf := ?b\<rparr>)"
      using True assms(2) m by (simp add: ensure_mini_def q_upd_def)
    moreover have "map static ?b = map static (queue_buf afl)"
      by (rule map_static_update) (simp add: static_def)
    moreover have "top_inv (Some q) (unat (map_size (fsrv afl)) div 8) ?b (top_rated afl)"
      using top_inv_matrix [of q _ "queue_buf afl" "top_rated afl" m] inv True m by simp
    ultimately show ?thesis
      unfolding scored_def using True assms(2)
      by (intro exI [of _ "afl\<lparr>queue_buf := ?b\<rparr>"] conjI exI [of _ ?b] exI [of _ "top_rated afl"]) simp_all
  next
    case False
    then show ?thesis using same assms(2)
      by (intro exI [of _ afl]) (auto simp: ensure_mini_def)
  qed
qed

lemma update_bitmap_score_scored:
  assumes "queue_wf afl" "q < length (queue_buf afl)"
  shows "\<exists>s. update_bitmap_score afl q = Inr s \<and> scored afl q (unat (map_size (fsrv afl))) s"
proof -
  obtain s0 where s0: "(if testcase_matrix afl = Some q then ensure_mini q afl else Inr afl) = Inr s0"
    "scored afl q 0 s0" using scored_0 [OF assms] by blast
  from foldm_upt_total [of "scored afl q" s0 "unat (map_size (fsrv afl))", OF s0(2) scored_step [OF assms]]
  show ?thesis using s0(1) assms(2) by (simp add: update_bitmap_score_def)
qed

lemma scored_wf:
  assumes "queue_wf afl" "scored afl q i s"
  shows "queue_wf s" "matrix_ready afl \<or> testcase_matrix afl = Some q \<and> q < length (queue_buf afl) \<Longrightarrow> matrix_ready s"
proof -
  obtain buf tr c where s: "s = afl\<lparr>queue_buf := buf, top_rated := tr, score_changed := c\<rparr>"
    and st: "map static buf = map static (queue_buf afl)" and l: "length tr = length (top_rated afl)"
    and inv: "top_inv (testcase_matrix afl) (unat (map_size (fsrv afl)) div 8) buf tr"
    and mx: "testcase_matrix afl = Some q \<or> matrix_ready afl \<longrightarrow> trace_mini (buf ! the (testcase_matrix afl)) \<noteq> None"
    using assms(2) unfolding scored_def by blast
  have lb: "length buf = length (queue_buf afl)" using st by (metis length_map)
  show "queue_wf s" using assms(1) lb l inv by (auto simp: queue_wf_def s)
  assume "matrix_ready afl \<or> testcase_matrix afl = Some q \<and> q < length (queue_buf afl)"
  then show "matrix_ready s" using mx lb by (auto simp: matrix_ready_def s split: option.splits)
qed

section \<open>Choosing favourites\<close>

lemma remove_bits_ok:
  assumes "n \<le> length trated" "n \<le> length matrix" "n \<le> length temp_v"
  shows "\<exists>v. remove_bits n trated matrix temp_v = Inr v \<and> length v = length temp_v \<and>
    (\<forall>k < length temp_v. v ! k = (if k < n then temp_v ! k AND NOT ((trated ! k XOR matrix ! k) AND matrix ! k)
       else temp_v ! k))"
  using assms
proof (induction n arbitrary: temp_v)
  case (Suc n)
  define g where "g = (trated ! n XOR matrix ! n) AND matrix ! n"
  define w where "w = (if g \<noteq> 0 then temp_v[n := temp_v ! n AND NOT g] else temp_v)"
  have w: "length w = length temp_v"
    "\<And>k. k < length temp_v \<Longrightarrow> w ! k = (if k = n then temp_v ! n AND NOT g else temp_v ! k)"
    by (auto simp: w_def)
  obtain v where v: "remove_bits n trated matrix w = Inr v" "length v = length w"
    "\<forall>k < length w. v ! k = (if k < n then w ! k AND NOT ((trated ! k XOR matrix ! k) AND matrix ! k) else w ! k)"
    using Suc.IH [of w] Suc.prems w(1) by auto
  have "remove_bits (Suc n) trated matrix temp_v = Inr v"
    using Suc.prems unfolding remove_bits.simps
    by (simp only: rd_ok Suc_le_lessD bnd_simps Let_def g_def [symmetric] w_def [symmetric] v(1))
  moreover have "\<forall>k < length temp_v. v ! k = (if k < Suc n then temp_v ! k AND NOT ((trated ! k XOR matrix ! k) AND matrix ! k)
       else temp_v ! k)"
    using v(3) w by (auto simp: less_Suc_eq g_def)
  ultimately show ?case using v(2) w(1) by auto
qed simp



lemma foldm_unfavor:
  "foldm unfavor [0 ..< length (queue_buf afl)] afl =
     Inr (afl\<lparr>queue_buf := map (\<lambda>e. e\<lparr>favored := False\<rparr>) (queue_buf afl)\<rparr>)"
proof -
  let ?f = "\<lambda>e :: queue_entry. e\<lparr>favored := False\<rparr>" and ?b = "queue_buf afl"
  have "\<exists>s. foldm unfavor [0 ..< length ?b] afl = Inr s \<and>
      s = afl\<lparr>queue_buf := map ?f (take (length ?b) ?b) @ drop (length ?b) ?b\<rparr>"
  proof (rule foldm_upt_total)
    show "afl = afl\<lparr>queue_buf := map ?f (take 0 ?b) @ drop 0 ?b\<rparr>" by (cases afl) simp
  next
    fix i s assume i: "i < length ?b" and s: "s = afl\<lparr>queue_buf := map ?f (take i ?b) @ drop i ?b\<rparr>"
    have "(map ?f (take i ?b) @ drop i ?b)[i := ?f (?b ! i)] = map ?f (take (Suc i) ?b) @ drop (Suc i) ?b"
      using i by (simp add: list_update_append take_Suc_conv_app_nth Cons_nth_drop_Suc [symmetric])
    then show "\<exists>s'. unfavor i s = Inr s' \<and> s' = afl\<lparr>queue_buf := map ?f (take (Suc i) ?b) @ drop (Suc i) ?b\<rparr>"
      using i by (simp add: unfavor_def s q_upd_def nth_append)
  qed
  then show ?thesis by simp
qed

text \<open>
  The specification of the choice. \<open>cull_choice n tr mini mx P\<close>: the slots in \<open>P\<close> are those
  that have a contender and that no earlier chosen slot took away; a chosen contender takes away
  the bytes the matrix hits and it does not.
\<close>

definition cull_choice :: "nat \<Rightarrow> nat option list \<Rightarrow> (nat \<Rightarrow> nat \<Rightarrow> bool) \<Rightarrow> (nat \<Rightarrow> bool) \<Rightarrow> nat set \<Rightarrow> bool" where
  "cull_choice n tr mini mx P \<longleftrightarrow> P \<subseteq> {..< n} \<and>
     (\<forall>i < n. i \<in> P \<longleftrightarrow> tr ! i \<noteq> None \<and> (mx i \<longrightarrow> (\<forall>j \<in> P. j < i \<longrightarrow> mini (the (tr ! j)) i)))"

definition chosen :: "nat option list \<Rightarrow> nat set \<Rightarrow> nat \<Rightarrow> bool" where
  "chosen tr P t \<longleftrightarrow> (\<exists>i \<in> P. tr ! i = Some t)"

definition entry_mini :: "queue_entry list \<Rightarrow> nat \<Rightarrow> nat \<Rightarrow> bool" where
  "entry_mini buf t k = (case trace_mini (buf ! t) of None \<Rightarrow> False | Some m \<Rightarrow> mini_bit m k)"

definition culled :: "('a) afl_queue_scheme \<Rightarrow> nat \<Rightarrow> nat \<Rightarrow> nat set \<Rightarrow> ('a) afl_queue_scheme \<times> bytes \<Rightarrow> bool" where
  "culled afl m i P s \<longleftrightarrow> (\<exists>buf qf pf v.
     s = (afl\<lparr>queue_buf := buf, queued_favored := qf, pending_favored := pf\<rparr>, v) \<and>
     cull_choice i (top_rated afl) (entry_mini (queue_buf afl)) (entry_mini (queue_buf afl) m) P \<and>
     length buf = length (queue_buf afl) \<and>
     (\<forall>t < length buf. buf ! t = (queue_buf afl ! t)\<lparr>favored := chosen (top_rated afl) P t\<rparr>) \<and>
     unat qf = card {t. t < length buf \<and> chosen (top_rated afl) P t} \<and>
     unat pf = card {t. t < length buf \<and> chosen (top_rated afl) P t \<and> \<not> was_fuzzed (queue_buf afl ! t)} \<and>
     unat (map_size (fsrv afl)) div 8 \<le> length v \<and>
     (\<forall>k < unat (map_size (fsrv afl)). mini_bit v k \<longleftrightarrow>
        (entry_mini (queue_buf afl) m k \<longrightarrow> (\<forall>j \<in> P. entry_mini (queue_buf afl) (the (top_rated afl ! j)) k))))"

lemma cull_choice_Suc:
  assumes "cull_choice i tr mini mx P"
  shows "cull_choice (Suc i) tr mini mx
    (if tr ! i \<noteq> None \<and> (mx i \<longrightarrow> (\<forall>j \<in> P. mini (the (tr ! j)) i)) then insert i P else P)"
proof -
  have P: "P \<subseteq> {..< i}" using assms by (simp add: cull_choice_def)
  let ?c = "tr ! i \<noteq> None \<and> (mx i \<longrightarrow> (\<forall>j \<in> P. mini (the (tr ! j)) i))"
  define Q where "Q = (if ?c then insert i P else P)"
  have lt: "j \<in> Q \<and> j < k \<longleftrightarrow> j \<in> P \<and> j < k" if "k \<le> i" for j k
    using that by (auto simp: Q_def)
  have "k \<in> Q \<longleftrightarrow> tr ! k \<noteq> None \<and> (mx k \<longrightarrow> (\<forall>j \<in> Q. j < k \<longrightarrow> mini (the (tr ! j)) k))" if "k < Suc i" for k
  proof (cases "k = i")
    case True
    have "k \<in> Q \<longleftrightarrow> ?c" using P True by (auto simp: Q_def)
    also have "\<dots> \<longleftrightarrow> tr ! k \<noteq> None \<and> (mx k \<longrightarrow> (\<forall>j \<in> Q. j < k \<longrightarrow> mini (the (tr ! j)) k))"
      using lt [of i] P True by blast
    finally show ?thesis .
  next
    case False
    then have k: "k < i" using that by simp
    then have "k \<in> Q \<longleftrightarrow> k \<in> P" by (auto simp: Q_def)
    also have "\<dots> \<longleftrightarrow> tr ! k \<noteq> None \<and> (mx k \<longrightarrow> (\<forall>j \<in> P. j < k \<longrightarrow> mini (the (tr ! j)) k))"
      using assms k by (simp add: cull_choice_def)
    finally show ?thesis using lt [of k] k by auto
  qed
  moreover have "Q \<subseteq> {..< Suc i}" using P by (auto simp: Q_def)
  ultimately show ?thesis unfolding Q_def [symmetric] by (simp add: cull_choice_def)
qed

lemma mini_bit_and_mask:
  "k div 8 < length v \<Longrightarrow> mini_bit v k \<longleftrightarrow> v ! (k div 8) AND push_bit (k mod 8) 1 \<noteq> 0"
  by (simp add: mini_bit_def bit_iff_and_push_bit_not_eq_0)



lemma insert_count:
  assumes "t < (n :: nat)" "n < 2 ^ 32" "unat (c :: u32) = card {u. u < n \<and> A u}"
  shows "unat (if A t then c else c + 1) = card {u. u < n \<and> (A u \<or> u = t)}"
proof (cases "A t")
  case True
  then have "{u. u < n \<and> (A u \<or> u = t)} = {u. u < n \<and> A u}" using assms(1) by auto
  with True assms(3) show ?thesis by simp
next
  case False
  have "{u. u < n \<and> (A u \<or> u = t)} = insert t {u. u < n \<and> A u}" using assms(1) by auto
  moreover have "finite {u. u < n \<and> A u}" by (rule finite_subset [of _ "{..< n}"]) auto
  ultimately have c: "card {u. u < n \<and> (A u \<or> u = t)} = Suc (card {u. u < n \<and> A u})"
    using False by simp
  have "card {u. u < n \<and> (A u \<or> u = t)} \<le> card {u. u < n}" by (intro card_mono) auto
  then have "unat c + 1 < 2 ^ LENGTH(32)" using assms c by simp
  then show ?thesis using False c assms(3) by (simp add: unat_word_ariths)
qed

lemma favored_same: "(e :: queue_entry)\<lparr>favored := x, favored := y\<rparr> = e\<lparr>favored := y\<rparr>"
  by simp

lemma culled_step:
  assumes wf: "queue_wf afl" and m: "testcase_matrix afl = Some m" "matrix_ready afl"
    and i: "i < unat (map_size (fsrv afl))" and P: "culled afl m i P s"
  shows "\<exists>s' Q. cull_slot i s = Inr s' \<and> culled afl m (Suc i) Q s'"
proof -
  let ?N = "unat (map_size (fsrv afl))" and ?tr = "top_rated afl" and ?b = "queue_buf afl"
  let ?mini = "entry_mini ?b" and ?mx = "entry_mini ?b m"
  from P obtain buf qf pf v where s: "s = (afl\<lparr>queue_buf := buf, queued_favored := qf, pending_favored := pf\<rparr>, v)"
    and ch: "cull_choice i ?tr ?mini ?mx P" and lb: "length buf = length ?b"
    and bufs: "\<forall>t < length buf. buf ! t = (?b ! t)\<lparr>favored := chosen ?tr P t\<rparr>"
    and qf: "unat qf = card {t. t < length buf \<and> chosen ?tr P t}"
    and pf: "unat pf = card {t. t < length buf \<and> chosen ?tr P t \<and> \<not> was_fuzzed (?b ! t)}"
    and lv: "?N div 8 \<le> length v"
    and bits: "\<forall>k < ?N. mini_bit v k \<longleftrightarrow> (?mx k \<longrightarrow> (\<forall>j \<in> P. ?mini (the (?tr ! j)) k))"
    unfolding culled_def by blast
  have ltr: "length ?tr = ?N" and inv: "top_inv (Some m) (?N div 8) ?b ?tr" and mw: "map_wf (fsrv afl)"
    and mlt: "m < length ?b" and sz: "length ?b < 2 ^ 32"
    using wf m unsigned_less [of "queued_items afl"] by (auto simp: queue_wf_def)
  have N8: "8 dvd ?N" using mw dvd_trans [of 8 64 ?N] by (auto simp: map_wf_def mod_eq_0_iff_dvd)
  have div: "k div 8 < ?N div 8" if "k < ?N" for k using that N8 by (auto elim!: dvdE)
  have Nne: "?N div 8 \<noteq> 0" using div [OF i] by simp
  have choice: "cull_choice (Suc i) ?tr ?mini ?mx
    (if ?tr ! i \<noteq> None \<and> (?mx i \<longrightarrow> (\<forall>j \<in> P. ?mini (the (?tr ! j)) i)) then insert i P else P)"
    by (rule cull_choice_Suc [OF ch])
  have keep: "culled afl m (Suc i) P s" if "cull_choice (Suc i) ?tr ?mini ?mx P"
    unfolding culled_def using that lb bufs qf pf lv bits s
    by (intro exI [of _ buf] exI [of _ qf] exI [of _ pf] exI [of _ v]) simp
  have biti: "mini_bit v i \<longleftrightarrow> v ! (i div 8) AND push_bit (i mod 8) 1 \<noteq> 0"
    using div [OF i] lv by (intro mini_bit_and_mask) simp
  show ?thesis
  proof (cases "?tr ! i")
    case None
    then have "cull_slot i s = Inr s" using i ltr by (simp add: cull_slot_def s)
    moreover have "culled afl m (Suc i) P s"
      using choice None by (intro keep) simp
    ultimately show ?thesis by blast
  next
    case (Some t)
    have tset: "Some t \<in> set ?tr" using Some i ltr by (metis nth_mem)
    then have t: "t < length ?b" and cnt: "0 < count_list ?tr (Some t)"
      using top_invD(1) [OF inv tset] count_list_pos [of "Some t" ?tr] tset by simp_all
    show ?thesis
    proof (cases "mini_bit v i")
      case False
      then have "cull_slot i s = Inr s"
        using i ltr lv div [OF i] biti Some by (simp add: cull_slot_def s)
      moreover have "culled afl m (Suc i) P s"
        using choice False bits i by (intro keep) (simp split: if_splits)
      ultimately show ?thesis by blast
    next
      case True
      let ?Q = "insert i P"
      obtain tm where tm: "trace_mini (?b ! t) = Some tm" "length tm = ?N div 8"
        using top_invD(3,5) [OF inv t] cnt by auto
      obtain mm where mm: "trace_mini (?b ! m) = Some mm" "length mm = ?N div 8"
        using m top_invD(5) [OF inv mlt] by (auto simp: matrix_ready_def)
      obtain v' where v': "remove_bits (?N div 8) tm mm v = Inr v'" "length v' = length v"
        "\<forall>k < length v. v' ! k = (if k < ?N div 8 then v ! k AND NOT ((tm ! k XOR mm ! k) AND mm ! k) else v ! k)"
        using remove_bits_ok [of "?N div 8" tm mm v] tm mm lv by auto
      have et: "buf ! t = (?b ! t)\<lparr>favored := chosen ?tr P t\<rparr>" and em: "buf ! m = (?b ! m)\<lparr>favored := chosen ?tr P m\<rparr>"
        using bufs t mlt lb by auto
      let ?old = "chosen ?tr P t"
      let ?buf' = "if ?old then buf else buf[t := (buf ! t)\<lparr>favored := True\<rparr>]"
      let ?qf' = "if ?old then qf else qf + 1"
      let ?pf' = "if ?old \<or> was_fuzzed (?b ! t) then pf else pf + 1"
      have run: "cull_slot i s = Inr (afl\<lparr>queue_buf := ?buf', queued_favored := ?qf', pending_favored := ?pf'\<rparr>, v')"
        using i ltr lv lb div [OF i] biti True Some t mlt et em tm mm v'(1) Nne m(1)
        by (simp add: cull_slot_def s mini_or_die_def unat_drop_bit make_favored_def q_upd_def Let_def)
      have newP: "chosen ?tr ?Q u \<longleftrightarrow> chosen ?tr P u \<or> u = t" for u using Some by (auto simp: chosen_def)
      have c1: "cull_choice (Suc i) ?tr ?mini ?mx ?Q"
        using choice True bits i Some by simp
      have c2: "\<forall>u < length ?buf'. ?buf' ! u = (?b ! u)\<lparr>favored := chosen ?tr ?Q u\<rparr>"
      proof (intro allI impI)
        fix u assume "u < length ?buf'"
        then show "?buf' ! u = (?b ! u)\<lparr>favored := chosen ?tr ?Q u\<rparr>"
          using bufs et t lb by (cases "u = t"; cases "?old") (simp_all add: newP)
      qed
      have c3: "unat ?qf' = card {u. u < length ?buf' \<and> chosen ?tr ?Q u}"
        using insert_count [of t "length ?b" qf "chosen ?tr P"] t sz qf lb by (simp add: newP)
      have c4: "unat ?pf' = card {u. u < length ?buf' \<and> chosen ?tr ?Q u \<and> \<not> was_fuzzed (?b ! u)}"
      proof (cases "was_fuzzed (?b ! t)")
        case True
        then have "{u. u < length ?buf' \<and> chosen ?tr ?Q u \<and> \<not> was_fuzzed (?b ! u)} =
            {u. u < length buf \<and> chosen ?tr P u \<and> \<not> was_fuzzed (?b ! u)}"
          by (auto simp: newP)
        with True pf show ?thesis by simp
      next
        case False
        have e: "{u. u < length ?buf' \<and> chosen ?tr ?Q u \<and> \<not> was_fuzzed (?b ! u)} =
            {u. u < length ?b \<and> ((chosen ?tr P u \<and> \<not> was_fuzzed (?b ! u)) \<or> u = t)}"
          using False lb by (auto simp: newP)
        show ?thesis
          unfolding e using insert_count [of t "length ?b" pf "\<lambda>u. chosen ?tr P u \<and> \<not> was_fuzzed (?b ! u)"] t sz pf lb False
          by simp
      qed
      have c5: "\<forall>k < ?N. mini_bit v' k \<longleftrightarrow> (?mx k \<longrightarrow> (\<forall>j \<in> ?Q. ?mini (the (?tr ! j)) k))"
      proof (intro allI impI)
        fix k assume k: "k < ?N"
        have kd: "k div 8 < length v" "k div 8 < ?N div 8" using div [OF k] lv by auto
        have "mini_bit v' k \<longleftrightarrow> mini_bit v k \<and> (mini_bit mm k \<longrightarrow> mini_bit tm k)"
          using kd v'(2,3) tm(2) mm(2) by (auto simp: mini_bit_def bit_simps)
        also have "\<dots> \<longleftrightarrow> (?mx k \<longrightarrow> (\<forall>j \<in> ?Q. ?mini (the (?tr ! j)) k))"
          using bits k tm(1) mm(1) Some by (auto simp: entry_mini_def)
        finally show "mini_bit v' k \<longleftrightarrow> (?mx k \<longrightarrow> (\<forall>j \<in> ?Q. ?mini (the (?tr ! j)) k))" .
      qed
      have "culled afl m (Suc i) ?Q (afl\<lparr>queue_buf := ?buf', queued_favored := ?qf', pending_favored := ?pf'\<rparr>, v')"
        unfolding culled_def using c1 c2 c3 c4 c5 lb lv v'(2)
        by (intro exI [of _ ?buf'] exI [of _ ?qf'] exI [of _ ?pf'] exI [of _ v']) simp
      with run show ?thesis by blast
    qed
  qed
qed



lemma length_after_slash: "after_slash s = Inr b \<Longrightarrow> length b \<le> length s"
  by (auto simp: after_slash_def split: if_splits)
    (metis length_rev length_takeWhile_le)

text \<open>File names as the fuzzer builds them: they contain a slash and fit the path buffers.\<close>

definition names_ok :: "('a) afl_queue_scheme \<Rightarrow> bool" where
  "names_ok afl \<longleftrightarrow> (\<forall>e \<in> set (queue_buf afl).
     CHR ''/'' \<in> set (fname e) \<and> length (out_dir afl) + length (fname e) < PATH_MAX - 100)"

lemma mark_as_redundant_cases:
  assumes "q < length (queue_buf afl)"
    and "CHR ''/'' \<in> set (fname (queue_buf afl ! q))"
    and "length (out_dir afl) + length (fname (queue_buf afl ! q)) < PATH_MAX - 100"
  shows "(\<exists>w'. mark_as_redundant afl w q st = Inr (q_upd q (\<lambda>e. e\<lparr>fs_redundant := st\<rparr>) afl, w')) \<or>
    (\<exists>e \<in> range PFatal. mark_as_redundant afl w q st = Inl e)"
proof (cases "st = fs_redundant (queue_buf afl ! q)")
  case True
  have "(queue_buf afl ! q)\<lparr>fs_redundant := st\<rparr> = queue_buf afl ! q"
    using True by (cases "queue_buf afl ! q") simp
  then have "q_upd q (\<lambda>e. e\<lparr>fs_redundant := st\<rparr>) afl = afl" by (cases afl) (simp add: q_upd_def)
  with True assms(1) show ?thesis by (simp add: mark_as_redundant_def)
next
  case False
  obtain b where b: "after_slash (fname (queue_buf afl ! q)) = Inr b"
    using assms(2) by (simp add: after_slash_def)
  have "length b \<le> length (fname (queue_buf afl ! q))" by (rule length_after_slash [OF b])
  then have "\<exists>fn. sprintf_path (out_dir afl @ ''/queue/.state/redundant_edges/'' @ b) = Inr fn"
    using assms(3) by (simp add: sprintf_path_def PATH_MAX_def)
  then obtain fn where fn: "sprintf_path (out_dir afl @ ''/queue/.state/redundant_edges/'' @ b) = Inr fn" ..
  show ?thesis
    using False assms(1) b fn
    by (auto simp: mark_as_redundant_def create_or_die_def split: prod.splits bool.splits)
qed

definition marked :: "('a) afl_queue_scheme \<Rightarrow> nat \<Rightarrow> ('a) afl_queue_scheme \<times> world \<Rightarrow> bool" where
  "marked afl i = (\<lambda>(s, w). \<exists>buf. s = afl\<lparr>queue_buf := buf\<rparr> \<and> length buf = length (queue_buf afl) \<and>
     (\<forall>t < length buf. buf ! t = (queue_buf afl ! t)\<lparr>fs_redundant :=
        (if t < i \<and> \<not> disabled (queue_buf afl ! t) then \<not> favored (queue_buf afl ! t)
         else fs_redundant (queue_buf afl ! t))\<rparr>))"

lemma fs_redundant_same: "(e :: queue_entry)\<lparr>fs_redundant := fs_redundant e\<rparr> = e"
  by simp

lemma marked_step:
  assumes names: "names_ok afl" and i: "i < length (queue_buf afl)" and P: "marked afl i s"
  shows "(\<exists>s'. redundant_slot i s = Inr s' \<and> marked afl (Suc i) s') \<or>
    (\<exists>e \<in> (if \<forall>x \<in> set (queue_buf afl). disabled x then {} else range PFatal). redundant_slot i s = Inl e)"
proof -
  let ?b = "queue_buf afl"
  obtain a w where aw: "s = (a, w)" by fastforce
  with P obtain buf where a: "a = afl\<lparr>queue_buf := buf\<rparr>" and lb: "length buf = length ?b"
    and bufs: "\<forall>t < length buf. buf ! t = (?b ! t)\<lparr>fs_redundant :=
        (if t < i \<and> \<not> disabled (?b ! t) then \<not> favored (?b ! t) else fs_redundant (?b ! t))\<rparr>"
    by (auto simp: marked_def)
  have bi: "buf ! i = ?b ! i" using bufs i lb by simp
  show ?thesis
  proof (cases "disabled (?b ! i)")
    case True
    have "marked afl (Suc i) s"
      unfolding marked_def aw prod.case using a lb bufs True
      by (intro exI [of _ buf]) (auto simp: less_Suc_eq)
    with True show ?thesis using i lb bi aw a by (simp add: redundant_slot_def)
  next
    case False
    let ?r = "\<not> favored (?b ! i)"
    have new: "marked afl (Suc i) (q_upd i (\<lambda>e. e\<lparr>fs_redundant := ?r\<rparr>) a, w')" for w'
      unfolding marked_def prod.case
    proof (intro exI [of _ "buf[i := (buf ! i)\<lparr>fs_redundant := ?r\<rparr>]"] conjI allI impI)
      show "q_upd i (\<lambda>e. e\<lparr>fs_redundant := ?r\<rparr>) a = afl\<lparr>queue_buf := buf[i := (buf ! i)\<lparr>fs_redundant := ?r\<rparr>]\<rparr>"
        by (simp add: q_upd_def a)
    next
      fix t assume "t < length (buf[i := (buf ! i)\<lparr>fs_redundant := ?r\<rparr>])"
      then show "buf[i := (buf ! i)\<lparr>fs_redundant := ?r\<rparr>] ! t = (?b ! t)\<lparr>fs_redundant :=
          (if t < Suc i \<and> \<not> disabled (?b ! t) then \<not> favored (?b ! t) else fs_redundant (?b ! t))\<rparr>"
        using bufs bi False by (cases "t = i") (auto simp: less_Suc_eq)
    qed (simp add: lb)
    have n: "CHR ''/'' \<in> set (fname (?b ! i))" "length (out_dir afl) + length (fname (?b ! i)) < PATH_MAX - 100"
      using names i by (auto simp: names_ok_def)
    have "redundant_slot i s = mark_as_redundant a w i ?r"
      using False i lb bi by (simp add: redundant_slot_def aw a)
    moreover have "\<not> (\<forall>x \<in> set ?b. disabled x)" using False i by auto
    ultimately show ?thesis
      using mark_as_redundant_cases [of i a w ?r] n i lb bi new by (auto simp: a)
  qed
qed

lemma cull_choice_cong:
  assumes "cull_choice n tr mini mx P" "length tr = n"
    and "\<And>t. Some t \<in> set tr \<Longrightarrow> mini t = mini' t" "mx = mx'"
  shows "cull_choice n tr mini' mx' P"
proof -
  have P: "P \<subseteq> {..< n}" and some: "\<And>j. j \<in> P \<Longrightarrow> tr ! j \<noteq> None"
    using assms(1) by (auto simp: cull_choice_def)
  have "mini (the (tr ! j)) = mini' (the (tr ! j))" if "j \<in> P" for j
  proof (rule assms(3))
    have "j < length tr" using P that assms(2) by auto
    then have "tr ! j \<in> set tr" by simp
    with some [OF that] show "Some (the (tr ! j)) \<in> set tr" by auto
  qed
  then show ?thesis using assms(1,4) by (simp add: cull_choice_def)
qed



lemma cull_queue_result:
  assumes wf: "queue_wf afl" and m: "testcase_matrix afl = Some m" "matrix_ready afl"
    and go: "score_changed afl" "\<not> non_instrumented_mode afl" and names: "names_ok afl"
  shows "((\<exists>msg. cull_queue afl w = Inl (PFatal msg)) \<and> \<not> (\<forall>x \<in> set (queue_buf afl). disabled x)) \<or>
    (\<exists>afl' w' P. cull_queue afl w = Inr (afl', w') \<and>
       cull_choice (unat (map_size (fsrv afl))) (top_rated afl) (entry_mini (queue_buf afl)) (entry_mini (queue_buf afl) m) P \<and>
       length (queue_buf afl') = length (queue_buf afl) \<and>
       (\<forall>t < length (queue_buf afl). queue_buf afl' ! t = (queue_buf afl ! t)
          \<lparr>favored := chosen (top_rated afl) P t,
           fs_redundant := (if disabled (queue_buf afl ! t) then fs_redundant (queue_buf afl ! t)
             else \<not> chosen (top_rated afl) P t)\<rparr>) \<and>
       unat (queued_favored afl') = card {t. t < length (queue_buf afl) \<and> favored (queue_buf afl' ! t)} \<and>
       unat (pending_favored afl') = card {t. t < length (queue_buf afl) \<and> favored (queue_buf afl' ! t) \<and>
          \<not> was_fuzzed (queue_buf afl ! t)} \<and>
       \<not> score_changed afl' \<and> top_rated afl' = top_rated afl \<and> fsrv afl' = fsrv afl \<and>
       testcase_matrix afl' = testcase_matrix afl \<and> queued_items afl' = queued_items afl \<and>
       unat (map_size (fsrv afl)) div 8 \<le> length (map_tmp_buf afl'))"
proof -
  let ?N = "unat (map_size (fsrv afl))" and ?b = "queue_buf afl" and ?tr = "top_rated afl"
  let ?n = "unat (queued_items afl)"
  have n: "?n = length ?b" and ltr: "length ?tr = ?N" and tmp: "?N div 8 \<le> length (map_tmp_buf afl)"
    and inv: "top_inv (Some m) (?N div 8) ?b ?tr" and mlt: "m < length ?b" and mw: "map_wf (fsrv afl)"
    using wf m(1) by (auto simp: queue_wf_def)
  define a0 where "a0 = afl\<lparr>score_changed := False, queued_favored := 0, pending_favored := 0\<rparr>"
  define b1 where "b1 = map (\<lambda>e. e\<lparr>favored := False\<rparr>) ?b"
  define a1 where "a1 = a0\<lparr>queue_buf := b1\<rparr>"
  have unf: "foldm unfavor [0 ..< ?n] a0 = Inr a1"
    using foldm_unfavor [of a0] by (simp add: n a1_def a0_def b1_def)
  have b1: "length b1 = length ?b" "\<And>t. t < length ?b \<Longrightarrow> b1 ! t = (?b ! t)\<lparr>favored := False\<rparr>"
    by (simp_all add: b1_def)
  have mini: "entry_mini b1 t = entry_mini ?b t" if "t < length ?b" for t
    by (intro ext) (simp add: entry_mini_def b1(2) [OF that])
  have wf1: "queue_wf a1"
    using wf b1 by (auto simp: queue_wf_def a1_def a0_def top_inv_def)
  have ready1: "matrix_ready a1"
    using m mlt b1 by (simp add: matrix_ready_def a1_def a0_def)
  have fields: "testcase_matrix a1 = Some m" "top_rated a1 = ?tr" "fsrv a1 = fsrv afl" "queue_buf a1 = b1"
    using m(1) by (simp_all add: a1_def a0_def)
  let ?v0 = "replicate (?N div 8) 255 @ drop (?N div 8) (map_tmp_buf afl)"
  have "mini_bit ?v0 k" if "k < ?N" for k
  proof -
    have "8 dvd ?N" using mw dvd_trans [of 8 64 ?N] by (auto simp: map_wf_def mod_eq_0_iff_dvd)
    then have "k div 8 < ?N div 8" using that by (auto elim!: dvdE)
    moreover have "bit (255 :: u8) j" if "j < 8" for j
      using that unfolding minus_one_u8 [symmetric] by simp
    ultimately show ?thesis by (simp add: mini_bit_def nth_append)
  qed
  moreover have "b1 ! t = (b1 ! t)\<lparr>favored := False\<rparr>" if "t < length b1" for t
    using that b1 by simp
  ultimately have start: "culled a1 m 0 {} (a1, ?v0)"
    unfolding culled_def fields
    by (intro exI [of _ b1] exI [of _ 0] exI [of _ 0] exI [of _ ?v0])
      (auto simp: cull_choice_def chosen_def a1_def a0_def)
  then have start': "\<exists>P. culled a1 m 0 P (a1, ?v0)" by blast
  have step: "\<exists>s'. cull_slot i s = Inr s' \<and> (\<exists>Q. culled a1 m (Suc i) Q s')"
    if "i < ?N" "\<exists>P. culled a1 m i P s" for i s
  proof -
    from that(2) obtain P where "culled a1 m i P s" ..
    from culled_step [OF wf1 fields(1) ready1 _ this] that(1) fields(3) show ?thesis by auto
  qed
  from foldm_upt_total [of "\<lambda>i s. \<exists>P. culled a1 m i P s" "(a1, ?v0)" ?N cull_slot, OF start' step]
  obtain s2 P where s2: "foldm cull_slot [0 ..< ?N] (a1, ?v0) = Inr s2" "culled a1 m ?N P s2" by blast
  from s2(2) obtain b2 qf pf v where s2': "s2 = (a1\<lparr>queue_buf := b2, queued_favored := qf, pending_favored := pf\<rparr>, v)"
    and ch: "cull_choice ?N ?tr (entry_mini b1) (entry_mini b1 m) P" and lb2: "length b2 = length b1"
    and b2: "\<forall>t < length b2. b2 ! t = (b1 ! t)\<lparr>favored := chosen ?tr P t\<rparr>"
    and qf: "unat qf = card {t. t < length b2 \<and> chosen ?tr P t}"
    and pf: "unat pf = card {t. t < length b2 \<and> chosen ?tr P t \<and> \<not> was_fuzzed (b1 ! t)}"
    and lv: "?N div 8 \<le> length v"
    unfolding culled_def fields by blast
  define a2 where "a2 = a1\<lparr>queue_buf := b2, queued_favored := qf, pending_favored := pf, map_tmp_buf := v\<rparr>"
  have cull: "cull_queue afl w = foldm redundant_slot [0 ..< length b2] (a2, w)"
    unfolding cull_queue_def Let_def if_not_P [OF not_None_eq [THEN iffD2, OF exI [of "\<lambda>y. testcase_matrix afl = Some y", OF m(1)]]]
    using go tmp unf s2(1) by (simp add: a0_def [symmetric] unat_drop_bit s2' a2_def n lb2 b1(1))
  have names2: "names_ok a2"
    unfolding names_ok_def
  proof
    fix e assume "e \<in> set (queue_buf a2)"
    then obtain t where t: "t < length b2" "e = b2 ! t" by (auto simp: a2_def in_set_conv_nth)
    then have "fname e = fname (?b ! t)" "?b ! t \<in> set ?b" using b2 lb2 b1 by auto
    then show "CHR ''/'' \<in> set (fname e) \<and> length (out_dir a2) + length (fname e) < PATH_MAX - 100"
      using names by (auto simp: names_ok_def a2_def a1_def a0_def)
  qed
  have start2: "marked a2 0 (a2, w)"
    unfolding marked_def prod.case by (intro exI [of _ b2]) (simp add: a2_def)
  have len2: "queue_buf a2 = b2" by (simp add: a2_def)
  have dis: "(\<forall>x \<in> set b2. disabled x) \<longleftrightarrow> (\<forall>x \<in> set ?b. disabled x)"
    using b2 lb2 b1 by (simp add: all_set_conv_all_nth)
  from foldm_upt_total_or [of "marked a2" "(a2, w)" "length b2" redundant_slot, OF start2 marked_step [OF names2]] len2
  consider s3 where "cull_queue afl w = Inr s3" "marked a2 (length b2) s3"
    | msg where "cull_queue afl w = Inl (PFatal msg)" "\<not> (\<forall>x \<in> set ?b. disabled x)"
    unfolding cull by (auto simp: dis split: if_splits)
  then show ?thesis
  proof cases
    case 1
    then obtain b3 w' where b3: "s3 = (a2\<lparr>queue_buf := b3\<rparr>, w')" "length b3 = length b2"
      "\<forall>t < length b3. b3 ! t = (b2 ! t)\<lparr>fs_redundant := (if \<not> disabled (b2 ! t) then \<not> favored (b2 ! t)
         else fs_redundant (b2 ! t))\<rparr>"
      by (cases s3) (auto simp: marked_def len2)
    have e3: "b3 ! t = (?b ! t)\<lparr>favored := chosen ?tr P t, fs_redundant := (if disabled (?b ! t)
        then fs_redundant (?b ! t) else \<not> chosen ?tr P t)\<rparr>" if "t < length ?b" for t
      using that b3 b2 b1 lb2 by auto
    have sets: "{t. t < length ?b \<and> favored (b3 ! t)} = {t. t < length b2 \<and> chosen ?tr P t}"
      "{t. t < length ?b \<and> favored (b3 ! t) \<and> \<not> was_fuzzed (?b ! t)} =
       {t. t < length b2 \<and> chosen ?tr P t \<and> \<not> was_fuzzed (b1 ! t)}"
      using e3 b1 lb2 by auto
    have ch': "cull_choice ?N ?tr (entry_mini ?b) (entry_mini ?b m) P"
      using cull_choice_cong [OF ch ltr] mini top_invD(1) [OF inv] mlt by blast
    show ?thesis
      using 1(1) ch' e3 sets qf pf b3(1,2) lb2 b1(1) lv
      by (intro disjI2 exI [of _ "a2\<lparr>queue_buf := b3\<rparr>"] exI [of _ w'] exI [of _ P])
        (simp add: a2_def a1_def a0_def m(1))
  next
    case 2
    then show ?thesis by blast
  qed
qed

text \<open>Every slot with a contender is covered: its contender is chosen, or a chosen contender
  misses a byte there that the matrix hits.\<close>

lemma cull_choice_covers:
  assumes "cull_choice n tr mini mx P" "i < n" "tr ! i = Some t"
  shows "chosen tr P t \<or> (mx i \<and> (\<exists>u. chosen tr P u \<and> \<not> mini u i))"
proof (cases "i \<in> P")
  case True
  with assms(3) show ?thesis by (auto simp: chosen_def)
next
  case False
  then obtain j where j: "mx i" "j \<in> P" "\<not> mini (the (tr ! j)) i"
    using assms by (auto simp: cull_choice_def)
  then have "tr ! j \<noteq> None" using assms(1) by (auto simp: cull_choice_def)
  with j(2) have "chosen tr P (the (tr ! j))" by (auto simp: chosen_def)
  with j show ?thesis by blast
qed



section \<open>Adding an entry\<close>

lemma top_inv_append:
  assumes "top_inv matrix len buf tr" "tc_ref e = 0" "trace_mini e = None"
  shows "top_inv matrix len (buf @ [e]) tr"
proof -
  have "count_list tr (Some (length buf)) = 0"
    using assms(1) count_list_pos [of "Some (length buf)" tr] by (auto simp: top_inv_def)
  then show ?thesis using assms by (auto simp: top_inv_def nth_append less_Suc_eq)
qed

lemma run_hooks_entry:
  assumes "run_afl_custom_queue_new_entry hooks afl w q fn mother_fname = Inr (q', w')"
  shows "\<exists>l. q' = q\<lparr>q_len := l\<rparr> \<and> (custom_mutators_count afl = 0 \<longrightarrow> l = q_len q)"
proof -
  have "q' = q\<lparr>q_len := q_len q\<rparr> \<or> (custom_mutators_count afl \<noteq> 0 \<and> (\<exists>l. q' = q\<lparr>q_len := l\<rparr>))"
    using assms by (auto simp: run_afl_custom_queue_new_entry_def Let_def split: if_splits prod.splits option.splits)
  moreover have "q = q\<lparr>q_len := q_len q\<rparr>" by (cases q) simp
  ultimately show ?thesis by metis
qed

lemma link_entry_simps [simp]:
  "queue_buf (link_entry afl q i) = queue_buf afl"
  "queued_items (link_entry afl q i) = queued_items afl + 1"
  "active_items (link_entry afl q i) = active_items afl + 1"
  "pending_not_fuzzed (link_entry afl q i) = pending_not_fuzzed afl + 1"
  "cycles_wo_finds (link_entry afl q i) = 0" "top_rated (link_entry afl q i) = top_rated afl"
  "testcase_matrix (link_entry afl q i) = testcase_matrix afl"
  "fsrv (link_entry afl q i) = fsrv afl" "map_tmp_buf (link_entry afl q i) = map_tmp_buf afl"
  "queue_top (link_entry afl q i) = Some i"
  "queue (link_entry afl q i) = (if queue_top afl = None then Some i else queue afl)"
  "custom_mutators_count (link_entry afl q i) = custom_mutators_count afl"
  by (cases "queue_top afl"; simp add: link_entry_def Let_def)+

lemma find_times_simps [simp]:
  "queue_buf (find_times afl now) = queue_buf afl" "queued_items (find_times afl now) = queued_items afl"
  "active_items (find_times afl now) = active_items afl"
  "pending_not_fuzzed (find_times afl now) = pending_not_fuzzed afl"
  "cycles_wo_finds (find_times afl now) = cycles_wo_finds afl" "top_rated (find_times afl now) = top_rated afl"
  "testcase_matrix (find_times afl now) = testcase_matrix afl" "fsrv (find_times afl now) = fsrv afl"
  "map_tmp_buf (find_times afl now) = map_tmp_buf afl" "queue_top (find_times afl now) = queue_top afl"
  "queue (find_times afl now) = queue afl" "last_find_time (find_times afl now) = now"
  "custom_mutators_count (find_times afl now) = custom_mutators_count afl"
  by (simp_all add: find_times_def Let_def)

text \<open>Without custom mutators nothing can go wrong.\<close>

lemma add_to_queue_total:
  assumes "queue_wf afl" "custom_mutators_count afl = 0"
  shows "\<exists>afl' w'. add_to_queue hooks now afl w fn len det = Inr (afl', w')"
proof -
  have "length (queue_buf afl) = unat (queued_items afl)" using assms(1) by (simp add: queue_wf_def)
  moreover obtain t where "check_if_text w ((new_entry afl fn len det)\<lparr>q_id := queued_items afl\<rparr>) = Inr t"
    using check_if_text_result by blast
  ultimately show ?thesis using assms(2) by (simp add: add_to_queue_def Let_def q_put_def)
qed

lemma add_to_queue_result:
  assumes wf: "queue_wf afl" and room: "unat (queued_items afl) + 1 < 2 ^ 32"
    and run: "add_to_queue hooks now afl w fn len det = Inr (afl', w')"
  shows "queue_wf afl' \<and> (\<exists>e. queue_buf afl' = queue_buf afl @ [e] \<and>
      q_id e = queued_items afl \<and> fname e = fn \<and> mother e = queue_cur afl \<and>
      depth e = ucast (cur_depth afl + 1) \<and> passed_det e = det \<and>
      (custom_mutators_count afl = 0 \<longrightarrow> q_len e = len)) \<and>
    queue_top afl' = Some (length (queue_buf afl)) \<and>
    queue afl' = (if queue_top afl = None then Some (length (queue_buf afl)) else queue afl) \<and>
    active_items afl' = active_items afl + 1 \<and> pending_not_fuzzed afl' = pending_not_fuzzed afl + 1 \<and>
    cycles_wo_finds afl' = 0 \<and> last_find_time afl' = now \<and>
    top_rated afl' = top_rated afl \<and> testcase_matrix afl' = testcase_matrix afl"
proof -
  let ?i = "unat (queued_items afl)" and ?q = "new_entry afl fn len det"
  have li: "length (queue_buf afl) = ?i" using wf by (simp add: queue_wf_def)
  have inc: "unat (queued_items afl + 1) = ?i + 1" using room by (simp add: unat_word_ariths)
  define a4 where "a4 = link_entry afl ?q ?i"
  define q1 where "q1 = ?q\<lparr>q_id := queued_items a4 - 1\<rparr>"
  note a4 = link_entry_simps [of afl ?q ?i, folded a4_def]
  define a5 where "a5 = find_times (a4\<lparr>queue_buf := queue_buf afl @ [q1]\<rparr>) now"
  note a5 = find_times_simps [of "a4\<lparr>queue_buf := queue_buf afl @ [q1]\<rparr>" now, folded a5_def]
  have put: "q_put (queue_buf a4) ?i q1 = Inr (queue_buf afl @ [q1])"
    using li by (simp add: q_put_def a4)
  have idx: "unat (queued_items afl + 1 - 1) = ?i" by simp
  obtain q2 w2 q3 where
    q2: "(if custom_mutators_count a5 \<noteq> 0 then
                (case (queue_cur a5, syncing_party a5) of
                   (Some c, None) \<Rightarrow> bnd (q_get a5 c) (\<lambda>m.
                      run_afl_custom_queue_new_entry hooks a5 w q1 fn (fname m))
                 | _ \<Rightarrow> Inr (q1, w))
              else Inr (q1, w)) = Inr (q2, w2)"
    and q3: "(if cmplog_mode a5 \<and> \<not> is_ascii q2 then
                bnd (check_if_text w2 q2) (\<lambda>t. Inr (q2\<lparr>is_ascii := (t \<noteq> 0)\<rparr>))
              else Inr q2) = Inr q3"
    and fin: "afl' = q_upd ?i (\<lambda>_. q3) a5"
    using run
    unfolding add_to_queue_def Let_def idx
      a4_def [symmetric] q1_def [symmetric] put bnd_simps a5_def [symmetric]
    by (force simp: bnd_eq_Inr_iff split: prod.splits)
  have q2': "\<exists>l. q2 = q1\<lparr>q_len := l\<rparr> \<and> (custom_mutators_count afl = 0 \<longrightarrow> l = len)"
  proof (cases "q2 = q1 \<and> True")
    case True
    then show ?thesis by (intro exI [of _ len]) (simp add: q1_def new_entry_def)
  next
    case False
    then obtain mf where "custom_mutators_count a5 \<noteq> 0"
      "run_afl_custom_queue_new_entry hooks a5 w q1 fn mf = Inr (q2, w2)"
      using q2 by (auto simp: bnd_eq_Inr_iff split: if_splits option.splits)
    with run_hooks_entry [of hooks a5 w q1 fn mf q2 w2] a5(13) a4(12) show ?thesis by auto
  qed
  then obtain l where l: "q2 = q1\<lparr>q_len := l\<rparr>" "custom_mutators_count afl = 0 \<longrightarrow> l = len" by blast
  obtain t where q3': "q3 = q2\<lparr>is_ascii := t\<rparr>"
    using q3 by (auto simp: bnd_eq_Inr_iff split: if_splits intro: that [of "is_ascii q2"])
  have e: "tc_ref q3 = 0" "trace_mini q3 = None" "q_id q3 = queued_items afl" "fname q3 = fn"
    "mother q3 = queue_cur afl" "depth q3 = ucast (cur_depth afl + 1)" "passed_det q3 = det"
    "custom_mutators_count afl = 0 \<longrightarrow> q_len q3 = len"
    using l(2) by (simp_all add: q3' l(1) q1_def a4 new_entry_def zero_entry_def)
  have buf: "queue_buf afl' = queue_buf afl @ [q3]" using li by (simp add: fin a5 list_update_append)
  have upd: "queue_top afl' = queue_top a5" "queue afl' = queue a5" "active_items afl' = active_items a5"
    "pending_not_fuzzed afl' = pending_not_fuzzed a5" "cycles_wo_finds afl' = cycles_wo_finds a5"
    "last_find_time afl' = last_find_time a5" "map_tmp_buf afl' = map_tmp_buf a5" "fsrv afl' = fsrv afl"
    "top_rated afl' = top_rated afl" "testcase_matrix afl' = testcase_matrix afl"
    "queued_items afl' = queued_items afl + 1"
    by (simp_all add: fin q_upd_def a5 a4)
  have "queue_wf afl'"
    using wf top_inv_append [OF _ e(1,2)] buf upd a5 a4 inc li
    by (auto simp: queue_wf_def)
  then show ?thesis using buf e upd a5 a4 li by simp
qed



section \<open>A concrete queue\<close>

text \<open>Two entries over a map of 64 bytes: entry 0, the matrix, holds every slot.\<close>

definition small_queue :: afl_cache where
  "small_queue = zero_afl\<lparr>fsrv := example_fsrv (replicate 64 1), top_rated := replicate 64 (Some 0),
     queue_buf := [zero_entry\<lparr>fname := ''/a'', q_len := 8, exec_us := 10, tc_ref := 64,
                     trace_mini := Some (replicate 8 255)\<rparr>,
                   zero_entry\<lparr>fname := ''/b'', q_len := 4, exec_us := 10, q_id := 1\<rparr>],
     queued_items := 2, queue := Some 0, queue_top := Some 1, testcase_matrix := Some 0,
     map_tmp_buf := replicate 8 0, score_changed := True\<rparr>"

lemma count_list_replicate_eq: "count_list (replicate n x) y = (if x = y then n else 0)"
  by (induction n) auto

lemma small_queue_simps [simp]:
  "length (queue_buf small_queue) = 2" "testcase_matrix small_queue = Some 0"
  "unat (map_size (fsrv small_queue)) = 64" "top_rated small_queue = replicate 64 (Some 0)"
  "trace_bits (fsrv small_queue) = replicate 64 1" "queued_items small_queue = 2"
  "queue_buf small_queue ! 0 = zero_entry\<lparr>fname := ''/a'', q_len := 8, exec_us := 10, tc_ref := 64,
                     trace_mini := Some (replicate 8 255)\<rparr>"
  "queue_buf small_queue ! Suc 0 = zero_entry\<lparr>fname := ''/b'', q_len := 4, exec_us := 10, q_id := 1\<rparr>"
  "score_changed small_queue" "\<not> non_instrumented_mode small_queue" "custom_mutators_count small_queue = 0"
  by (simp_all add: small_queue_def zero_afl_def)

lemma small_queue_wf: "queue_wf small_queue"
proof -
  have "map_wf (fsrv small_queue)" by (simp add: small_queue_def map_wf_example)
  moreover have "length (map_tmp_buf small_queue) = 8" by (simp add: small_queue_def)
  ultimately show ?thesis
    by (auto simp: queue_wf_def top_inv_def count_list_replicate_eq zero_entry_def less_2_cases_iff)
qed

lemma small_queue_ready: "matrix_ready small_queue" "names_ok small_queue"
  by (simp add: matrix_ready_def) (simp add: names_ok_def small_queue_def zero_entry_def zero_afl_def PATH_MAX_def)

text \<open>The same queue with all entries disabled: no marker file is ever touched.\<close>

definition small_queue_off :: afl_cache where
  "small_queue_off = small_queue\<lparr>queue_buf := map (\<lambda>e. e\<lparr>disabled := True\<rparr>) (queue_buf small_queue)\<rparr>"

lemma small_queue_off_wf:
  "queue_wf small_queue_off" "matrix_ready small_queue_off" "names_ok small_queue_off"
  "testcase_matrix small_queue_off = Some 0" "score_changed small_queue_off"
  "\<not> non_instrumented_mode small_queue_off"
  using small_queue_wf small_queue_ready
  by (auto simp: small_queue_off_def queue_wf_def top_inv_def matrix_ready_def names_ok_def)

section \<open>Properties\<close>

text \<open>C4. \<open>update_bitmap_score\<close> is total on a well-formed queue, keeps it well-formed (every
  entry's \<open>tc_ref\<close> is the number of slots it holds, an entry has a compacted trace while it holds
  one), and computes the table slot by slot: the entry takes a slot exactly when its trace hits
  the byte and the holder, if any, is not better by the schedule's comparison. \<open>score_changed\<close> is
  raised exactly when a slot is taken, and scoring the matrix makes its compacted trace
  available.\<close>

theorem update_bitmap_score_correct:
  assumes "queue_wf afl" and "q < length (queue_buf afl)"
  shows "\<exists>afl'. update_bitmap_score afl q = Inr afl' \<and> queue_wf afl' \<and>
    (\<forall>k < unat (map_size (fsrv afl)). top_rated afl' ! k = (if wins_slot afl q k then Some q else top_rated afl ! k)) \<and>
    (score_changed afl' \<longleftrightarrow> score_changed afl \<or> (\<exists>k < unat (map_size (fsrv afl)). wins_slot afl q k)) \<and>
    map static (queue_buf afl') = map static (queue_buf afl) \<and>
    (matrix_ready afl \<or> testcase_matrix afl = Some q \<longrightarrow> matrix_ready afl')"
proof -
  let ?N = "unat (map_size (fsrv afl))"
  obtain s where s: "update_bitmap_score afl q = Inr s" "scored afl q ?N s"
    using update_bitmap_score_scored [OF assms] by blast
  have l: "length (top_rated afl) = ?N" using assms(1) by (simp add: queue_wf_def)
  from s(2) obtain buf tr where e: "s = afl\<lparr>queue_buf := buf, top_rated := tr,
      score_changed := (score_changed afl \<or> (\<exists>k < ?N. wins_slot afl q k))\<rparr>"
    "map static buf = map static (queue_buf afl)" "length tr = length (top_rated afl)"
    "\<forall>k < length tr. tr ! k = (if k < ?N \<and> wins_slot afl q k then Some q else top_rated afl ! k)"
    unfolding scored_def by blast
  show ?thesis
    using s(1) scored_wf [OF assms(1) s(2)] e l assms(2) by (intro exI [of _ s]) auto
qed

theorem update_bitmap_score_correct_witness:
  "\<exists>afl'. update_bitmap_score small_queue 1 = Inr afl' \<and> queue_wf afl' \<and> top_rated afl' ! 7 = Some 1"
proof -
  have "1 < length (queue_buf small_queue)" by simp
  from update_bitmap_score_correct [OF small_queue_wf this] obtain afl'
    where a: "update_bitmap_score small_queue 1 = Inr afl'" "queue_wf afl'"
      "\<forall>k < 64. top_rated afl' ! k = (if wins_slot small_queue 1 k then Some 1 else Some 0)"
    by auto
  have "wins_slot small_queue 1 7"
    by (simp add: wins_slot_def holder_stays_def fuzz_p2_of_def top_rated_fuzz_p2_of_def fav_factor_of_def
        zero_entry_def small_queue_def zero_afl_def word_less_nat_alt)
  with a show ?thesis by auto
qed

text \<open>C5. \<open>cull_queue\<close> on a well-formed queue whose matrix has its compacted trace either ends the
  process because a marker file cannot be created or removed, or returns with: the favourites
  exactly the contenders of the slots chosen greedily from the left, where a chosen contender
  takes away the bytes the matrix hits and it does not; \<open>queued_favored\<close> and \<open>pending_favored\<close> the
  numbers of favourites and of unfuzzed favourites; every enabled entry marked redundant exactly
  when it is not a favourite; nothing else changed. It never dereferences a missing trace.\<close>

theorem cull_queue_correct:
  assumes "queue_wf afl" and "testcase_matrix afl = Some m" and "matrix_ready afl"
    and "score_changed afl" and "\<not> non_instrumented_mode afl" and "names_ok afl"
  shows "(\<exists>msg. cull_queue afl w = Inl (PFatal msg)) \<or>
    (\<exists>afl' w' P. cull_queue afl w = Inr (afl', w') \<and>
       cull_choice (unat (map_size (fsrv afl))) (top_rated afl) (entry_mini (queue_buf afl)) (entry_mini (queue_buf afl) m) P \<and>
       length (queue_buf afl') = length (queue_buf afl) \<and>
       (\<forall>t < length (queue_buf afl). queue_buf afl' ! t = (queue_buf afl ! t)
          \<lparr>favored := chosen (top_rated afl) P t,
           fs_redundant := (if disabled (queue_buf afl ! t) then fs_redundant (queue_buf afl ! t)
             else \<not> chosen (top_rated afl) P t)\<rparr>) \<and>
       unat (queued_favored afl') = card {t. t < length (queue_buf afl) \<and> favored (queue_buf afl' ! t)} \<and>
       unat (pending_favored afl') = card {t. t < length (queue_buf afl) \<and> favored (queue_buf afl' ! t) \<and>
          \<not> was_fuzzed (queue_buf afl ! t)} \<and> \<not> score_changed afl')"
  using cull_queue_result [OF assms, of w] by blast

theorem cull_queue_correct_witness:
  "(\<exists>msg. cull_queue small_queue empty_world = Inl (PFatal msg)) \<or>
   (\<exists>afl' w' P. cull_queue small_queue empty_world = Inr (afl', w') \<and>
      cull_choice 64 (replicate 64 (Some 0)) (entry_mini (queue_buf small_queue)) (entry_mini (queue_buf small_queue) 0) P)"
  using cull_queue_correct [OF small_queue_wf small_queue_simps(2) small_queue_ready(1) small_queue_simps(9,10)
    small_queue_ready(2), of empty_world] by auto

text \<open>The favourites cover the coverage the search wants to lose: after \<open>cull_queue\<close>, for every
  slot with a contender, the contender is a favourite or some favourite does not hit that byte
  although the matrix does.\<close>

theorem cull_queue_covers:
  assumes "queue_wf afl" and "testcase_matrix afl = Some m" and "matrix_ready afl"
    and "score_changed afl" and "\<not> non_instrumented_mode afl" and "names_ok afl"
    and "cull_queue afl w = Inr (afl', w')"
    and "i < unat (map_size (fsrv afl))" and "top_rated afl ! i = Some t"
  shows "favored (queue_buf afl' ! t) \<or>
    (entry_mini (queue_buf afl) m i \<and>
     (\<exists>u < length (queue_buf afl). favored (queue_buf afl' ! u) \<and> \<not> entry_mini (queue_buf afl) u i))"
proof -
  obtain P where P: "cull_choice (unat (map_size (fsrv afl))) (top_rated afl) (entry_mini (queue_buf afl)) (entry_mini (queue_buf afl) m) P"
    and fav: "\<forall>u < length (queue_buf afl). favored (queue_buf afl' ! u) \<longleftrightarrow> chosen (top_rated afl) P u"
    using cull_queue_result [OF assms(1-6), of w] assms(7) by auto
  have len: "length (top_rated afl) = unat (map_size (fsrv afl))" using assms(1) by (simp add: queue_wf_def)
  have inv: "top_inv (testcase_matrix afl) (unat (map_size (fsrv afl)) div 8) (queue_buf afl) (top_rated afl)"
    using assms(1) by (simp add: queue_wf_def)
  have valid: "u < length (queue_buf afl)" if "j < length (top_rated afl)" "top_rated afl ! j = Some u" for j u
    using top_invD(1) [OF inv] that by (metis nth_mem)
  have "chosen (top_rated afl) P u \<Longrightarrow> u < length (queue_buf afl)" for u
    using P valid len by (auto simp: chosen_def cull_choice_def)
  then show ?thesis
    using cull_choice_covers [OF P assms(8,9)] fav valid [OF _ assms(9)] assms(8) len by auto
qed

theorem cull_queue_covers_witness:
  "\<exists>afl' w'. cull_queue small_queue_off empty_world = Inr (afl', w') \<and>
     (favored (queue_buf afl' ! 0) \<or>
      (entry_mini (queue_buf small_queue_off) 0 5 \<and>
       (\<exists>u < 2. favored (queue_buf afl' ! u) \<and> \<not> entry_mini (queue_buf small_queue_off) u 5)))"
proof -
  note wf = small_queue_off_wf(1,4,2,5,6,3)
  have all: "\<forall>x \<in> set (queue_buf small_queue_off). disabled x" by (simp add: small_queue_off_def)
  from cull_queue_result [OF wf, of empty_world] obtain afl' w'
    where r: "cull_queue small_queue_off empty_world = Inr (afl', w')" using all by blast
  have "5 < unat (map_size (fsrv small_queue_off))" "top_rated small_queue_off ! 5 = Some 0"
    "length (queue_buf small_queue_off) = 2"
    by (simp_all add: small_queue_off_def)
  with cull_queue_covers [OF wf r, of 5 0] r show ?thesis by auto
qed

text \<open>C16. \<open>add_to_queue\<close> keeps the queue well-formed, appends exactly one entry, whose \<open>id\<close> is its
  index and whose mother is the entry being fuzzed, makes it the top of the queue, and counts it
  as active and not yet fuzzed.\<close>

theorem add_to_queue_correct:
  assumes "queue_wf afl" and "unat (queued_items afl) + 1 < 2 ^ 32"
    and "add_to_queue hooks now afl w fn len det = Inr (afl', w')"
  shows "queue_wf afl' \<and> (\<exists>e. queue_buf afl' = queue_buf afl @ [e] \<and>
      q_id e = queued_items afl \<and> fname e = fn \<and> mother e = queue_cur afl \<and>
      depth e = ucast (cur_depth afl + 1) \<and> passed_det e = det \<and>
      (custom_mutators_count afl = 0 \<longrightarrow> q_len e = len)) \<and>
    queue_top afl' = Some (length (queue_buf afl)) \<and>
    queue afl' = (if queue_top afl = None then Some (length (queue_buf afl)) else queue afl) \<and>
    active_items afl' = active_items afl + 1 \<and> pending_not_fuzzed afl' = pending_not_fuzzed afl + 1"
  using add_to_queue_result [OF assms] by blast

theorem add_to_queue_correct_witness:
  "\<exists>afl' w'. add_to_queue [] 5 small_queue empty_world ''/c'' 9 False = Inr (afl', w') \<and>
     queue_wf afl' \<and> length (queue_buf afl') = 3"
proof -
  obtain afl' w' where r: "add_to_queue [] 5 small_queue empty_world ''/c'' 9 False = Inr (afl', w')"
    using add_to_queue_total [OF small_queue_wf] by fastforce
  from add_to_queue_correct [OF small_queue_wf _ r] have "queue_wf afl' \<and> length (queue_buf afl') = 3"
    by auto
  with r show ?thesis by blast
qed


end
