(* ===== verification/Score.thy ===== *)
theory Score
  imports Queue
begin

text \<open>
  \<open>calculate_score\<close> of src/afl-fuzz-queue.c: the energy of a queue entry. A \<open>double\<close> is a real
  number; where C would get an infinity, a NaN or an out-of-range conversion the model stops with
  \<open>NotFinite\<close>. Integer steps keep their width, and the division of \<open>LIN\<close> and \<open>QUAD\<close> is
  the integer division of the code.
\<close>

section \<open>Scaling\<close>

text \<open>\<open>perf_score *= x\<close> for a \<open>double\<close> \<open>x\<close>: the product is truncated back to \<open>u32\<close>.\<close>

definition scale :: "u32 \<Rightarrow> real \<Rightarrow> u32 res" where
  "scale p x =
     (let r = real (unat p) * x in
      if r \<le> - 1 \<or> r \<ge> 2 ^ 32 then Inl NotFinite else Inr (of_nat (nat \<lfloor>r\<rfloor>)))"

text \<open>\<open>log2\<close> of an integer, and its truncation.\<close>

definition log2 :: "u32 \<Rightarrow> real res" where
  "log2 n = (if n = 0 then Inl NotFinite else Inr (log 2 (real (unat n))))"

definition log2_u32 :: "u32 \<Rightarrow> nat res" where
  "log2_u32 n = bnd (log2 n) (\<lambda>l. Inr (nat \<lfloor>l\<rfloor>))"

section \<open>The factors\<close>

definition avg_exec_us_of :: "('a) afl_sched_scheme \<Rightarrow> u32" where
  "avg_exec_us_of afl =
     (let cal_cycles = (ucast (total_cal_cycles afl) :: u32);
          cal_cycles = (if cal_cycles = 0 then 1 else cal_cycles)
      in ucast (total_cal_us afl div ucast cal_cycles))"

definition avg_bitmap_size_of :: "('a) afl_sched_scheme \<Rightarrow> u32" where
  "avg_bitmap_size_of afl =
     (let bitmap_entries = (ucast (total_bitmap_entries afl) :: u32);
          bitmap_entries = (if bitmap_entries = 0 then 1 else bitmap_entries)
      in ucast (total_bitmap_size afl div ucast bitmap_entries))"

definition score_speed :: "('a) afl_sched_scheme \<Rightarrow> queue_entry \<Rightarrow> u32" where
  "score_speed afl q =
     (let avg = avg_exec_us_of afl; us = real (unat (exec_us q)); a = real (unat avg) in
      if schedule afl < RARE \<and> \<not> fixed_seed afl then
        if us * 0.1 > a then 10
        else if us * 0.25 > a then 25
        else if us * 0.5 > a then 50
        else if us * 0.75 > a then 75
        else if exec_us q * 4 < ucast avg then 300
        else if exec_us q * 3 < ucast avg then 200
        else if exec_us q * 2 < ucast avg then 150
        else 100
      else 100)"

definition score_bitmap :: "u32 \<Rightarrow> u32 \<Rightarrow> u32 \<Rightarrow> u32 res" where
  "score_bitmap avg bits perf =
     (let b = real (unat bits); a = real (unat avg) in
      if b * 0.3 > a then scale perf 0.25
      else if b * 0.5 > a then scale perf 0.5
      else if b * 0.75 > a then scale perf 0.75
      else if bits * 3 < avg then Inr (perf * 3)
      else if bits * 2 < avg then Inr (perf * 2)
      else if b * 1.5 < a then scale perf 1.5
      else Inr perf)"

definition score_handicap :: "queue_entry \<Rightarrow> u32 \<Rightarrow> u32 \<times> queue_entry" where
  "score_handicap q perf =
     (if handicap q \<ge> 4 then (perf * 4, q\<lparr>handicap := handicap q - 4\<rparr>)
      else if handicap q \<noteq> 0 then (perf * 2, q\<lparr>handicap := handicap q - 1\<rparr>)
      else (perf, q))"

definition score_depth :: "queue_entry \<Rightarrow> u32 \<Rightarrow> u32" where
  "score_depth q perf =
     (if depth q \<le> 3 then perf
      else if depth q \<le> 7 then perf * 2
      else if depth q \<le> 13 then perf * 3
      else if depth q \<le> 25 then perf * 4
      else perf * 5)"

abbreviation hits_of :: "('a) afl_sched_scheme \<Rightarrow> queue_entry \<Rightarrow> u32" where
  "hits_of afl q \<equiv> n_fuzz afl (unat (n_fuzz_entry q))"

text \<open>\<open>COE\<close>: the mean of \<open>log2 n_fuzz\<close> over the enabled entries.\<close>

definition coe_sum :: "('a) afl_sched_scheme \<Rightarrow> nat \<Rightarrow> real \<times> u32 \<Rightarrow> (real \<times> u32) res" where
  "coe_sum afl i = (\<lambda>(fuzz_mu, n_items).
     bnd (q_get afl i) (\<lambda>e.
     if disabled e then Inr (fuzz_mu, n_items)
     else bnd (log2 (hits_of afl e)) (\<lambda>l. Inr (fuzz_mu + l, n_items + 1))))"

definition fast_factor :: "('a) afl_sched_scheme \<Rightarrow> queue_entry \<Rightarrow> real res" where
  "fast_factor afl q =
     (if fuzz_level q = 0 then Inr 1
      else bnd (log2_u32 (hits_of afl q)) (\<lambda>l.
        let factor = (if l \<le> 1 then 4 else if l \<le> 3 then 3 else if l = 4 then 2 else if l = 5 then 1
              else if favored q then 1 else if l = 6 then 0.8 else if l = 7 then 0.6 else 0.4)
        in Inr (if favored q then factor * 1.15 else factor)))"

definition coe_factor :: "('a) afl_sched_scheme \<Rightarrow> queue_entry \<Rightarrow> real res" where
  "coe_factor afl q =
     (if fuzz_level q = 0 then Inr 1
      else bnd (foldm (coe_sum afl) [0 ..< unat (queued_items afl)] (0, 0)) (\<lambda>(fuzz_mu, n_items).
        if n_items = 0 then Inl (Fatal ''Queue state corrupt'')
        else bnd (log2 (hits_of afl q)) (\<lambda>l.
          if l > fuzz_mu / real (unat n_items) then Inr (if favored q then 1 else 0)
          else fast_factor afl q)))"

definition MAX_FACTOR :: real where "MAX_FACTOR = 32"
definition POWER_BETA :: real where "POWER_BETA = 1"

text \<open>The \<open>switch\<close> on the schedule: the factor, and the changes made to \<open>perf_score\<close> itself.\<close>

definition score_schedule :: "('a) afl_sched_scheme \<Rightarrow> queue_entry \<Rightarrow> u32 \<Rightarrow> (u32 \<times> real) res" where
  "score_schedule afl q perf =
     (let s = schedule afl; hits = hits_of afl q in
      if s = EXPLORE \<or> s = SEEK then Inr (perf, 1)
      else if s = EXPLOIT then Inr (perf, MAX_FACTOR)
      else if s = COE then bnd (coe_factor afl q) (\<lambda>f. Inr (perf, f))
      else if s = FAST then bnd (fast_factor afl q) (\<lambda>f. Inr (perf, f))
      else if s = LIN then
        (if fuzz_level q = 0 then Inr (perf, 1)
         else if hits + 1 = 0 then Inl DivZero
         else Inr (perf, real (unat (fuzz_level q div (hits + 1)))))
      else if s = QUAD then
        (if fuzz_level q = 0 then Inr (perf, 1)
         else if hits + 1 = 0 then Inl DivZero
         else Inr (perf, real (unat (fuzz_level q * fuzz_level q div (hits + 1)))))
      else if s = MMOPT then
        Inr (if ucast (max_depth afl) - depth q < 5 then perf * 2 else perf, 1)
      else if s = RARE then
        (if total_execs (fsrv afl) = 0 then Inl NotFinite
         else bnd (scale (perf + tc_ref q * 10)
                     (1 - real (unat hits) / real (unat (total_execs (fsrv afl)))))
                (\<lambda>p. Inr (p, 1)))
      else Inl (PFatal ''Unknown Power Schedule''))"

definition score_limits :: "('a) afl_sched_scheme \<Rightarrow> queue_entry \<Rightarrow> u32 \<times> real \<Rightarrow> u32 res" where
  "score_limits afl q = (\<lambda>(perf, factor).
     bnd (if schedule afl \<ge> EXPLOIT \<and> schedule afl \<le> QUAD
          then scale perf ((if factor > MAX_FACTOR then MAX_FACTOR else factor) / POWER_BETA)
          else Inr perf) (\<lambda>p.
     let p1 = (if limit_time_sig afl \<noteq> 0 \<and> ucast (max_depth afl) - depth q < 3 then p * 2
               else if schedule afl \<noteq> COE \<and> p < 1 then 1 else p);
         top = ucast (havoc_max_mult afl) * 100
     in Inr (if p1 > top then top else p1)))"

definition calculate_score ::
  "('a) afl_sched_scheme \<Rightarrow> nat \<Rightarrow> (u32 \<times> ('a) afl_sched_scheme) res" where
  "calculate_score afl q =
     bnd (q_get afl q) (\<lambda>e.
     bnd (score_bitmap (avg_bitmap_size_of afl) (bitmap_size e) (score_speed afl e)) (\<lambda>p.
     let (p1, e1) = score_handicap e p; afl1 = q_upd q (\<lambda>_. e1) afl in
     bnd (score_schedule afl1 e1 (score_depth e1 p1)) (\<lambda>pf.
     bnd (score_limits afl1 e1 pf) (\<lambda>p2. Inr (p2, afl1)))))"

section \<open>Properties\<close>

declare of_nat_unat [simp del]

lemma scale_ok:
  assumes "0 \<le> x" "real (unat p) * x < 2 ^ 32"
  shows "\<exists>r. scale p x = Inr r \<and> real (unat r) \<le> real (unat p) * x \<and> real (unat p) * x < real (unat r) + 1"
proof -
  let ?y = "real (unat p) * x"
  have "0 \<le> ?y" using assms(1) by simp
  moreover from this assms(2) have "nat \<lfloor>?y\<rfloor> < 2 ^ 32" by (simp add: nat_less_iff floor_less_iff)
  then have "unat (of_nat (nat \<lfloor>?y\<rfloor>) :: u32) = nat \<lfloor>?y\<rfloor>" by (intro unat_of_nat_small) simp
  ultimately show ?thesis
    using assms(2) unfolding scale_def Let_def by (auto simp: not_le)
qed

lemma scale_le:
  assumes "scale p x = Inr r" "real (unat p) * x \<le> real k"
  shows "unat r \<le> k"
proof (cases "0 \<le> x")
  case True
  have "real (unat p) * x < 2 ^ 32" using assms(1) by (auto simp: scale_def Let_def split: if_splits)
  from scale_ok [OF True this] assms show ?thesis by force
next
  case False
  then have "real (unat p) * x \<le> 0" by (simp add: mult_nonneg_nonpos)
  then have "nat \<lfloor>real (unat p) * x\<rfloor> = 0" by simp
  then show ?thesis using assms(1) by (auto simp: scale_def Let_def split: if_splits)
qed

lemma score_speed_le: "unat (score_speed afl q) \<le> 300"
  by (simp add: score_speed_def Let_def)

text \<open>The three scaling steps keep a score far from the 32-bit limit.\<close>

lemma score_bitmap_total:
  assumes "unat p \<le> 300"
  shows "\<exists>r. score_bitmap avg bits p = Inr r \<and> unat r \<le> 900"
proof -
  have sc: "\<exists>r. scale p x = Inr r \<and> unat r \<le> 900" if x: "0 \<le> x" "x \<le> 3" for x
  proof -
    have "real (unat p) * x \<le> 300 * 3" using assms x by (intro mult_mono) auto
    then show ?thesis using scale_ok [OF x(1), of p] scale_le [of p x _ 900] by auto
  qed
  have "unat (p * 3) \<le> 900" "unat (p * 2) \<le> 900"
    using unat_mult_le [of p 3] unat_mult_le [of p 2] assms by auto
  then show ?thesis
    using sc [of "0.25"] sc [of "0.5"] sc [of "0.75"] sc [of "1.5"] assms
    by (auto simp: score_bitmap_def Let_def)
qed

lemma score_handicap_le:
  assumes "unat p \<le> 900"
  shows "unat (fst (score_handicap e p)) \<le> 3600"
  using unat_mult_le [of p 4] unat_mult_le [of p 2] assms by (auto simp: score_handicap_def)

lemma score_depth_le:
  assumes "unat p \<le> 3600"
  shows "unat (score_depth e p) \<le> 18000"
  using unat_mult_le [of p 5] unat_mult_le [of p 4] unat_mult_le [of p 3] unat_mult_le [of p 2] assms
  by (auto simp: score_depth_def)

text \<open>
  What the schedules rely on: an entry of the queue, hit counts that are positive, do not wrap
  when one is added and stay within the number of executions, and an enabled entry.
\<close>

definition energy_ready :: "('a) afl_sched_scheme \<Rightarrow> nat \<Rightarrow> bool" where
  "energy_ready afl q \<longleftrightarrow>
     q < length (queue_buf afl) \<and> unat (queued_items afl) \<le> length (queue_buf afl) \<and> schedule afl \<le> SEEK \<and>
     (\<forall>i < length (queue_buf afl). let hits = hits_of afl (queue_buf afl ! i) in
        hits \<noteq> 0 \<and> hits + 1 \<noteq> 0 \<and> unat hits \<le> unat (total_execs (fsrv afl))) \<and>
     (\<exists>i < unat (queued_items afl). \<not> disabled (queue_buf afl ! i))"

lemma fast_factor_total:
  "hits_of afl q \<noteq> 0 \<Longrightarrow> \<exists>f. fast_factor afl q = Inr f \<and> 0 \<le> f"
  by (simp add: fast_factor_def log2_u32_def log2_def Let_def)

lemma coe_sum_total:
  assumes "energy_ready afl q" "n \<le> unat (queued_items afl)"
  shows "\<exists>mu c. foldm (coe_sum afl) [0..<n] (0, 0) = Inr (mu, c) \<and>
    unat c = card {i. i < n \<and> \<not> disabled (queue_buf afl ! i)}"
proof -
  let ?A = "\<lambda>n. {i. i < n \<and> \<not> disabled (queue_buf afl ! i)}"
  have "\<exists>s. foldm (coe_sum afl) [0..<n] (0, 0) = Inr s \<and> unat (snd s) = card (?A n)"
  proof (rule foldm_upt_total)
    fix i and s :: "real \<times> u32"
    assume i: "i < n" and c: "unat (snd s) = card (?A i)"
    have len: "i < length (queue_buf afl)" using i assms by (simp add: energy_ready_def)
    then have h: "hits_of afl (queue_buf afl ! i) \<noteq> 0" using assms(1) by (simp add: energy_ready_def Let_def)
    have A: "?A (Suc i) = (if disabled (queue_buf afl ! i) then ?A i else insert i (?A i))"
      by (auto simp: less_Suc_eq)
    have "card (?A i) \<le> i" using card_mono [of "{..<i}" "?A i"] by auto
    moreover have "i < unat (queued_items afl)" using i assms(2) by simp
    ultimately have "unat (snd s) + 1 < 2 ^ 32" using unat_lt [of "queued_items afl"] c by simp
    then have "unat (snd s + 1) = unat (snd s) + 1" by (simp add: unat_word_ariths)
    then show "\<exists>s'. coe_sum afl i s = Inr s' \<and> unat (snd s') = card (?A (Suc i))"
      using len h c A by (cases s) (auto simp: coe_sum_def q_get_def log2_def)
  qed simp
  then show ?thesis by auto
qed

lemma coe_factor_total:
  assumes "energy_ready afl k" "hits_of afl q \<noteq> 0"
  shows "\<exists>f. coe_factor afl q = Inr f \<and> 0 \<le> f"
proof -
  obtain mu c where f: "foldm (coe_sum afl) [0..<unat (queued_items afl)] (0, 0) = Inr (mu, c)"
    and c: "unat c = card {i. i < unat (queued_items afl) \<and> \<not> disabled (queue_buf afl ! i)}"
    using coe_sum_total [OF assms(1) order_refl] by blast
  have "{i. i < unat (queued_items afl) \<and> \<not> disabled (queue_buf afl ! i)} \<noteq> {}"
    using assms(1) by (auto simp: energy_ready_def)
  then have "c \<noteq> 0" using c by (auto simp: card_eq_0_iff)
  then show ?thesis
    using fast_factor_total [OF assms(2)] assms(2) by (auto simp: coe_factor_def f log2_def)
qed

text \<open>After the schedule: a factor that is not negative, and a score still far from the limit
  in the schedules that use the factor.\<close>

lemma score_schedule_total:
  assumes "energy_ready afl k" "i < length (queue_buf afl)" "e = queue_buf afl ! i" "unat p \<le> 18000"
  shows "\<exists>p' f. score_schedule afl e p = Inr (p', f) \<and> 0 \<le> f \<and>
    (EXPLOIT \<le> schedule afl \<and> schedule afl \<le> QUAD \<longrightarrow> p' = p)"
proof -
  let ?h = "hits_of afl e" and ?t = "total_execs (fsrv afl)"
  have h: "?h \<noteq> 0" "?h + 1 \<noteq> 0" "unat ?h \<le> unat ?t" using assms by (auto simp: energy_ready_def Let_def)
  have t: "?t \<noteq> 0"
  proof
    assume "?t = 0"
    then have "unat ?h = 0" using h(3) by simp
    then show False using h(1) by (simp only: unat_eq_0)
  qed
  then have t0: "0 < real (unat ?t)" by (simp add: unat_gt_0)
  let ?x = "1 - real (unat ?h) / real (unat ?t)"
  have x: "0 \<le> ?x" "?x \<le> 1" using h(3) t0 by (simp_all add: divide_le_eq)
  have "\<exists>r. scale (p + tc_ref e * 10) ?x = Inr r"
  proof -
    have "real (unat (p + tc_ref e * 10)) * ?x \<le> real (unat (p + tc_ref e * 10)) * 1"
      using x by (intro mult_left_mono) auto
    also have "\<dots> < 2 ^ 32" using unat_lt [of "p + tc_ref e * 10"] by simp
    finally show ?thesis using scale_ok [OF x(1), of "p + tc_ref e * 10"] by blast
  qed
  moreover have "schedule afl = 0 \<or> schedule afl = 1 \<or> schedule afl = 2 \<or> schedule afl = 3 \<or>
    schedule afl = 4 \<or> schedule afl = 5 \<or> schedule afl = 6 \<or> schedule afl = 7 \<or> schedule afl = 8"
    if "schedule afl \<le> 8"
    using that by (simp add: word_le_nat_alt word_unat_eq_iff) linarith
  moreover have "schedule afl \<le> 8" using assms(1) by (simp add: energy_ready_def)
  ultimately show ?thesis
    using fast_factor_total [OF h(1)] coe_factor_total [OF assms(1) h(1)] h(2) t
    by (auto simp: score_schedule_def Let_def word_le_nat_alt MAX_FACTOR_def)
qed

lemma score_limits_total:
  assumes "0 \<le> f" "EXPLOIT \<le> schedule afl \<and> schedule afl \<le> QUAD \<longrightarrow> unat p \<le> 18000"
  shows "\<exists>r. score_limits afl e (p, f) = Inr r \<and> r \<le> ucast (havoc_max_mult afl) * 100 \<and>
    (limit_time_sig afl = 0 \<and> schedule afl \<noteq> COE \<and> havoc_max_mult afl \<noteq> 0 \<longrightarrow> 1 \<le> r)"
proof -
  let ?f = "(if f > MAX_FACTOR then MAX_FACTOR else f) / POWER_BETA"
  have top: "unat (ucast (havoc_max_mult afl) * 100 :: u32) = unat (havoc_max_mult afl) * 100"
    using unat_mult_le [of "ucast (havoc_max_mult afl) :: u32" 100] unat_lt [of "havoc_max_mult afl"]
    by (simp add: unat_ucast_up)
  have pos: "havoc_max_mult afl \<noteq> 0 \<Longrightarrow> (1 :: u32) \<le> ucast (havoc_max_mult afl) * 100"
    using unat_gt_0 [of "havoc_max_mult afl"] by (simp add: word_le_nat_alt top)
  have "\<exists>p'. (if schedule afl \<ge> EXPLOIT \<and> schedule afl \<le> QUAD then scale p ?f else Inr p) = Inr p'"
  proof (cases "schedule afl \<ge> EXPLOIT \<and> schedule afl \<le> QUAD")
    case True
    then have "real (unat p) \<le> 18000" using assms(2) by simp
    then have "real (unat p) * ?f \<le> 18000 * 32"
      using assms(1) by (intro mult_mono) (auto simp: MAX_FACTOR_def POWER_BETA_def)
    then have "real (unat p) * ?f < 2 ^ 32" by simp
    moreover have "0 \<le> ?f" using assms(1) by (simp add: MAX_FACTOR_def POWER_BETA_def)
    ultimately show ?thesis using scale_ok [of ?f p] True by auto
  next
    case False
    show ?thesis unfolding if_not_P [OF False] by blast
  qed
  moreover have pos0: "ucast (havoc_max_mult afl) * 100 = (0 :: u32) \<Longrightarrow> havoc_max_mult afl = 0"
    using pos by force
  ultimately obtain p' where p': "(if schedule afl \<ge> EXPLOIT \<and> schedule afl \<le> QUAD then scale p ?f else Inr p) = Inr p'"
    by blast
  have one: "1 \<le> p''" if "\<not> p'' < 1" for p'' :: u32
    using that by (simp add: word_less_nat_alt word_le_nat_alt)
  show ?thesis
    unfolding score_limits_def prod.case p' bnd_simps Let_def
    using pos pos0 by (simp add: one linorder_not_less)
qed

text \<open>The entry after its handicap has been charged.\<close>

definition later :: "queue_entry \<Rightarrow> queue_entry" where
  "later e = e\<lparr>handicap := (if handicap e \<ge> 4 then handicap e - 4
                          else if handicap e \<noteq> 0 then handicap e - 1 else 0)\<rparr>"

lemma score_handicap_later: "snd (score_handicap e p) = later e"
  by (simp add: score_handicap_def later_def)

lemma later_simps [simp]:
  "n_fuzz_entry (later e) = n_fuzz_entry e" "disabled (later e) = disabled e"
  by (simp_all add: later_def)

lemma energy_ready_later:
  assumes "energy_ready afl q"
  shows "energy_ready (q_upd q later afl) k \<longleftrightarrow> k < length (queue_buf afl)"
  using assms by (simp add: energy_ready_def q_upd_def nth_list_update Let_def cong: conj_cong)

text \<open>C34. The energy of an entry: with positive hit counts that stay within the number of executions and
  an enabled entry in the queue, \<open>calculate_score\<close> returns a score of at most
  \<open>havoc_max_mult * 100\<close>, and of at least 1 except under \<open>COE\<close>, in MOpt mode or with a zero
  multiplier; all it changes is the entry's handicap, which it charges by four, or by one when less
  than four is left.\<close>

theorem calculate_score_total:
  assumes "energy_ready afl q"
  shows "\<exists>p. calculate_score afl q = Inr (p, q_upd q later afl) \<and>
    p \<le> ucast (havoc_max_mult afl) * 100 \<and>
    (limit_time_sig afl = 0 \<and> schedule afl \<noteq> COE \<and> havoc_max_mult afl \<noteq> 0 \<longrightarrow> 1 \<le> p)"
proof -
  let ?e = "queue_buf afl ! q" and ?afl = "q_upd q later afl"
  have q: "q < length (queue_buf afl)" using assms by (simp add: energy_ready_def)
  obtain p where p: "score_bitmap (avg_bitmap_size_of afl) (bitmap_size ?e) (score_speed afl ?e) = Inr p"
    "unat p \<le> 900"
    using score_bitmap_total [OF score_speed_le] by blast
  obtain p1 where h: "score_handicap ?e p = (p1, later ?e)"
    using score_handicap_later by (metis prod.collapse)
  have upd: "q_upd q (\<lambda>_. later ?e) afl = ?afl" by (simp add: q_upd_def)
  have ready: "energy_ready ?afl q" using energy_ready_later [OF assms] q by simp
  have mem: "q < length (queue_buf ?afl)" "later ?e = queue_buf ?afl ! q" using q by (simp_all add: q_upd_def)
  have d: "unat (score_depth (later ?e) p1) \<le> 18000"
    using score_handicap_le [OF p(2), of ?e] h by (intro score_depth_le) simp
  obtain p2 f where s: "score_schedule ?afl (later ?e) (score_depth (later ?e) p1) = Inr (p2, f)" "0 \<le> f"
    "EXPLOIT \<le> schedule ?afl \<and> schedule ?afl \<le> QUAD \<longrightarrow> unat p2 \<le> 18000"
    using score_schedule_total [OF ready mem d] d by auto
  show ?thesis
    using score_limits_total [OF s(2,3), of "later ?e"] q
    by (auto simp: calculate_score_def q_get_def p h upd s(1)) (auto simp: q_upd_def)
qed

definition score_example :: afl_cache where
  "score_example = zero_afl\<lparr>fsrv := (example_fsrv [])\<lparr>total_execs := 3\<rparr>, n_fuzz := (\<lambda>_. 1),
     queue_buf := [zero_entry\<lparr>handicap := 5\<rparr>], queued_items := 1, havoc_max_mult := 16\<rparr>"

lemma score_example_ready: "energy_ready score_example 0"
  by (simp add: energy_ready_def score_example_def zero_afl_def zero_entry_def)

theorem calculate_score_total_witness:
  "\<exists>p. calculate_score score_example 0 = Inr (p, q_upd 0 later score_example) \<and> 1 \<le> p \<and> p \<le> 1600"
proof -
  have "limit_time_sig score_example = 0" "schedule score_example = 0" "havoc_max_mult score_example = 16"
    by (simp_all add: score_example_def zero_afl_def)
  then show ?thesis using calculate_score_total [OF score_example_ready] by auto
qed

lemma scale_mono:
  assumes "0 \<le> x" "x \<le> y" "scale p x = Inr r" "scale p y = Inr s"
  shows "r \<le> s"
proof -
  have "real (unat p) * x \<le> real (unat p) * y" using assms(1,2) by (intro mult_left_mono) auto
  moreover have lt: "real (unat p) * x < 2 ^ 32" "real (unat p) * y < 2 ^ 32"
    using assms(3,4) by (auto simp: scale_def Let_def split: if_splits)
  ultimately have "real (unat r) < real (unat s) + 1"
    using scale_ok [OF assms(1) lt(1)] scale_ok [OF _ lt(2)] assms by force
  then show ?thesis by (simp add: word_le_nat_alt)
qed

lemma scale_numeral:
  assumes "unat p * k < 2 ^ 32"
  shows "scale p (real k) = Inr (p * of_nat k)"
proof -
  have r: "real (unat p) * real k = real (unat p * k)" by simp
  have "real (unat p * k) < real (2 ^ 32)" using assms by (simp only: of_nat_less_iff)
  moreover have "(0 :: real) \<le> real (unat p * k)" by (rule of_nat_0_le_iff)
  moreover have "(of_nat (unat p * k) :: u32) = p * of_nat k" by (simp add: of_nat_unat)
  ultimately show ?thesis unfolding scale_def Let_def r floor_of_nat nat_int
    by (simp del: of_nat_mult)
qed

text \<open>The multiplier of the bitmap step as one function of the two sizes.\<close>

definition bitmap_mult :: "u32 \<Rightarrow> u32 \<Rightarrow> real" where
  "bitmap_mult avg bits =
     (let b = real (unat bits); a = real (unat avg) in
      if b * 0.3 > a then 0.25 else if b * 0.5 > a then 0.5 else if b * 0.75 > a then 0.75
      else if b * 3 < a then 3 else if b * 2 < a then 2 else if b * 1.5 < a then 1.5 else 1)"

lemma bitmap_mult_antimono:
  "bits1 \<le> bits2 \<Longrightarrow> bitmap_mult avg bits2 \<le> bitmap_mult avg bits1"
  by (simp add: bitmap_mult_def Let_def word_le_nat_alt)

lemma score_bitmap_scale:
  assumes "unat bits * 3 < 2 ^ 32" "unat p \<le> 300"
  shows "score_bitmap avg bits p = scale p (bitmap_mult avg bits)"
proof -
  have lt: "bits * of_nat k < avg \<longleftrightarrow> real (unat bits) * real k < real (unat avg)" if "k \<le> 3" for k
  proof -
    have le: "unat bits * k \<le> unat bits * 3" using that by (intro mult_le_mono2)
    have "unat (bits * of_nat k) = unat bits * k"
      using le_less_trans [OF le] assms(1) by (intro unat_mult_le) simp
    then show ?thesis by (simp add: word_less_nat_alt flip: of_nat_mult)
  qed
  have sc: "scale p (real k) = Inr (p * of_nat k)" if "k \<le> 3" for k
  proof -
    have "unat p * k \<le> 300 * 3" using assms(2) that by (intro mult_le_mono)
    then show ?thesis by (intro scale_numeral) simp
  qed
  show ?thesis
    using lt [of 3] lt [of 2] sc [of 3] sc [of 2] sc [of 1]
    by (simp add: score_bitmap_def bitmap_mult_def Let_def)
qed

text \<open>Coverage is inverted: among entries judged at the same speed, the one with the larger bitmap
  never gets the larger score, so the search prefers inputs that cover less.\<close>

theorem score_bitmap_antitone:
  assumes "bits1 \<le> bits2" "unat bits2 * 3 < 2 ^ 32" "unat p \<le> 300"
  shows "\<exists>s1 s2. score_bitmap avg bits1 p = Inr s1 \<and> score_bitmap avg bits2 p = Inr s2 \<and> s2 \<le> s1"
proof -
  have "unat bits1 * 3 < 2 ^ 32" using assms(1,2) by (simp add: word_le_nat_alt)
  then have eq: "score_bitmap avg bits1 p = scale p (bitmap_mult avg bits1)"
    "score_bitmap avg bits2 p = scale p (bitmap_mult avg bits2)"
    using score_bitmap_scale assms(2,3) by blast+
  obtain s1 s2 where s: "score_bitmap avg bits1 p = Inr s1" "score_bitmap avg bits2 p = Inr s2"
    using score_bitmap_total [OF assms(3)] by meson
  have "0 \<le> bitmap_mult avg bits2" by (simp add: bitmap_mult_def Let_def)
  then show ?thesis
    using s scale_mono [OF _ bitmap_mult_antimono [OF assms(1)], of avg p s2 s1] by (simp add: eq)
qed

theorem score_bitmap_antitone_witness:
  "\<exists>s1 s2. score_bitmap 100 20 100 = Inr s1 \<and> score_bitmap 100 400 100 = Inr s2 \<and> s2 \<le> s1"
  by (rule score_bitmap_antitone) simp_all

end
