(* ===== verification/Alias.thy ===== *)
theory Alias
  imports Score Rng
begin

text \<open>
  Picking the next queue entry, src/afl-fuzz-queue.c: \<open>compute_weight\<close>, \<open>create_alias_table\<close>
  (Vose's construction of an alias table) and \<open>select_next_queue_entry\<close>. The stacks \<open>S\<close> and \<open>L\<close>
  are lists with the top first. A \<open>double\<close> is a real; where C divides by zero or takes the
  logarithm of zero the model stops with \<open>NotFinite\<close>.
\<close>

declare of_nat_unat [simp del]

section \<open>Weights\<close>

definition fdiv :: "real \<Rightarrow> real \<Rightarrow> real res" where
  "fdiv x y = (if y = 0 then Inl NotFinite else Inr (x / y))"

definition flog :: "u32 \<Rightarrow> real res" where
  "flog n = (if n = 0 then Inl NotFinite else Inr (ln (real (unat n))))"

definition weight_hits :: "('a) afl_sched_scheme \<Rightarrow> queue_entry \<Rightarrow> real" where
  "weight_hits afl q =
     (let hits = hits_of afl q in
      if schedule afl \<ge> FAST \<and> schedule afl \<le> RARE \<and> hits \<noteq> 0
      then 1 / (log 10 (real (unat hits)) + 1) else 1)"

definition weight_clamp :: "queue_entry \<Rightarrow> real \<Rightarrow> real" where
  "weight_clamp q x =
     (let x1 = (if x < 0.1 then 0.1 else x);
          x2 = (if favored q then x1 * 5 else x1)
      in if \<not> was_fuzzed q then x2 * 2 else x2)"

definition compute_weight ::
  "('a) afl_sched_scheme \<Rightarrow> queue_entry \<Rightarrow> real \<Rightarrow> real \<Rightarrow> real \<Rightarrow> real res" where
  "compute_weight afl q avg_exec_us avg_bitmap_size avg_top_size =
     (let x = weight_hits afl q in
      bnd (if schedule afl < RARE then bnd (fdiv avg_exec_us (real (unat (exec_us q)))) (\<lambda>r. Inr (x * r))
           else Inr x) (\<lambda>x1.
      bnd (flog (bitmap_size q)) (\<lambda>l.
      bnd (fdiv l avg_bitmap_size) (\<lambda>b.
      bnd (fdiv (real (unat (tc_ref q))) avg_top_size) (\<lambda>t.
      Inr (weight_clamp q (x1 * b * (1 + t))))))))"

section \<open>The mass of each entry\<close>

text \<open>The sums of the first loop: execution times, logarithms of bitmap sizes, top counts, entries.\<close>

definition avg_step :: "('a) afl_sched_scheme \<Rightarrow> nat \<Rightarrow> real \<times> real \<times> real \<times> u32 \<Rightarrow> (real \<times> real \<times> real \<times> u32) res" where
  "avg_step afl i = (\<lambda>(t, b, c, active).
     bnd (q_get afl i) (\<lambda>q.
     if disabled q then Inr (t, b, c, active)
     else bnd (flog (bitmap_size q)) (\<lambda>l.
       Inr (t + real (unat (exec_us q)), b + l, c + real (unat (tc_ref q)), active + 1))))"

definition score_step :: "nat \<Rightarrow> ('a) afl_sched_scheme \<Rightarrow> ('a) afl_sched_scheme res" where
  "score_step i afl =
     bnd (calculate_score afl i) (\<lambda>(p, afl').
     Inr (q_upd i (\<lambda>q. q\<lparr>perf_score := real (unat p)\<rparr>) afl'))"

definition weight_step ::
  "real \<Rightarrow> real \<Rightarrow> real \<Rightarrow> nat \<Rightarrow> ('a) afl_sched_scheme \<times> real \<Rightarrow> (('a) afl_sched_scheme \<times> real) res" where
  "weight_step avg_exec_us avg_bitmap_size avg_top_size i = (\<lambda>(afl, wsum).
     bnd (q_get afl i) (\<lambda>q.
     if disabled q then Inr (afl, wsum)
     else bnd (compute_weight afl q avg_exec_us avg_bitmap_size avg_top_size) (\<lambda>x.
       bnd (score_step i (q_upd i (\<lambda>q. q\<lparr>weight := x\<rparr>) afl)) (\<lambda>afl'. Inr (afl', wsum + x)))))"

definition double_step :: "nat \<Rightarrow> ('a) afl_sched_scheme \<Rightarrow> ('a) afl_sched_scheme res" where
  "double_step i afl =
     bnd (q_get afl i) (\<lambda>q.
     if disabled q then Inr afl else Inr (q_upd i (\<lambda>q. q\<lparr>weight := weight q * 2\<rparr>) afl))"

definition rare_step :: "nat \<Rightarrow> ('a) afl_sched_scheme \<times> real \<Rightarrow> (('a) afl_sched_scheme \<times> real) res" where
  "rare_step i = (\<lambda>(afl, wsum).
     bnd (q_get afl i) (\<lambda>q.
     bnd (if disabled q then Inr afl else score_step i afl) (\<lambda>afl'.
     bnd (q_get afl' i) (\<lambda>q'. Inr (afl', wsum + perf_score q')))))"

definition mass_step :: "('a) afl_sched_scheme \<Rightarrow> (queue_entry \<Rightarrow> real) \<Rightarrow> real \<Rightarrow> nat \<Rightarrow> real list \<Rightarrow> real list res" where
  "mass_step afl f wsum i P =
     bnd (q_get afl i) (\<lambda>q.
     bnd (fdiv (f q * real (unat (queued_items afl))) wsum) (\<lambda>p. wr P i p))"

definition entry_masses :: "('a) afl_sched_scheme \<Rightarrow> (('a) afl_sched_scheme \<times> real list) res" where
  "entry_masses afl =
     (let n = unat (queued_items afl); P = replicate n 0 in
      if schedule afl < RARE then
        bnd (foldm (avg_step afl) [0..<n] (0, 0, 0, 0)) (\<lambda>(t, b, c, active).
        let k = real (unat active) in
        bnd (foldm (weight_step (t / k) (b / k) (c / k)) [0..<n] (afl, 0)) (\<lambda>(a1, wsum).
        bnd (if schedule a1 = MMOPT \<and> queued_discovered a1 \<noteq> 0 then
               let cnt = (if queued_discovered a1 \<ge> 5 then 5 else queued_discovered a1)
               in foldm double_step [unat (queued_items afl - cnt) ..< n] a1
             else Inr a1) (\<lambda>a2.
        bnd (foldm (mass_step a2 weight wsum) [0..<n] P) (\<lambda>P. Inr (a2, P)))))
      else
        bnd (foldm rare_step [0..<n] (afl, 0)) (\<lambda>(a1, wsum).
        bnd (foldm (mass_step a1 perf_score wsum) [0..<n] P) (\<lambda>P. Inr (a1, P))))"

section \<open>Vose's table\<close>

definition split_small :: "real list \<Rightarrow> nat \<Rightarrow> nat list \<times> nat list" where
  "split_small P n =
     foldl (\<lambda>(S, L) s. if P ! s < 1 then (s # S, L) else (S, s # L)) ([], []) (rev [0..<n])"

function alias_pairs ::
  "real list \<Rightarrow> real list \<Rightarrow> u32 list \<Rightarrow> nat list \<Rightarrow> nat list \<Rightarrow> real list \<times> real list \<times> u32 list \<times> nat list \<times> nat list" where
  "alias_pairs P prob tab (a # S) (g # L) =
     (let prob1 = prob[a := P ! a]; tab1 = tab[a := of_nat g]; P1 = P[g := P ! g + P ! a - 1] in
      if P1 ! g < 1 then alias_pairs P1 prob1 tab1 (g # S) L
      else alias_pairs P1 prob1 tab1 S (g # L))"
| "alias_pairs P prob tab [] L = (P, prob, tab, [], L)"
| "alias_pairs P prob tab S [] = (P, prob, tab, S, [])"
  by pat_completeness auto
termination by (relation "measure (\<lambda>(P, prob, tab, S, L). length S + length L)") auto

definition vose :: "real list \<Rightarrow> nat \<Rightarrow> nat \<Rightarrow> real list \<times> u32 list" where
  "vose P n m =
     (let (S, L) = split_small P m;
          (P1, prob, tab, S1, L1) = alias_pairs P (replicate n 0) (replicate n 0) S L;
          prob1 = foldl (\<lambda>p i. p[i := 1]) prob L1
      in (foldl (\<lambda>p i. p[i := 1]) prob1 S1, tab))"

definition create_alias_table :: "bool \<Rightarrow> ('a) afl_sched_scheme \<Rightarrow> ('a) afl_sched_scheme res" where
  "create_alias_table mem_ok afl =
     (if \<not> mem_ok then Inl (Fatal ''could not acquire memory for alias table'')
      else bnd (entry_masses afl) (\<lambda>(a1, P).
        let (prob, tab) = vose P (unat (queued_items afl)) (nat (sint (queued_items afl)))
        in Inr (a1\<lparr>alias_probability := prob, alias_table := tab, reinit_table := False\<rparr>)))"

definition select_next_queue_entry :: "('a) afl_sched_scheme \<Rightarrow> (u32 \<times> ('a) afl_sched_scheme) res" where
  "select_next_queue_entry afl =
     bnd (rand_below afl (queued_items afl)) (\<lambda>(s, a1).
     let (p, a2) = rand_next_percent a1 in
     bnd (rd (alias_probability a2) (unat s)) (\<lambda>pr.
     if p < pr then Inr (s, a2) else bnd (rd (alias_table a2) (unat s)) (\<lambda>g. Inr (g, a2))))"

section \<open>The table holds the masses\<close>

text \<open>The mass that the entries in \<open>D\<close> pass on to \<open>i\<close>, and the mass of \<open>i\<close> in a finished table.\<close>

definition load :: "real list \<Rightarrow> u32 list \<Rightarrow> nat set \<Rightarrow> nat \<Rightarrow> real" where
  "load prob tab D i = (\<Sum>j \<in> D. if unat (tab ! j) = i then 1 - prob ! j else 0)"

definition table_mass :: "real list \<Rightarrow> u32 list \<Rightarrow> nat \<Rightarrow> real" where
  "table_mass prob tab i = prob ! i + load prob tab {..<length tab} i"

definition vose_inv ::
  "real list \<Rightarrow> nat \<Rightarrow> real list \<Rightarrow> real list \<Rightarrow> u32 list \<Rightarrow> nat list \<Rightarrow> nat list \<Rightarrow> bool" where
  "vose_inv P0 n P prob tab S L \<longleftrightarrow>
     length P = n \<and> length prob = n \<and> length tab = n \<and> distinct (S @ L) \<and> set (S @ L) \<subseteq> {..<n} \<and>
     (\<forall>i \<in> set S. 0 \<le> P ! i \<and> P ! i < 1) \<and> (\<forall>i \<in> set L. 1 \<le> P ! i) \<and>
     (\<Sum>i \<in> set (S @ L). P ! i) = real (length (S @ L)) \<and>
     (\<forall>i < n. (if i \<in> set (S @ L) then P ! i else prob ! i) + load prob tab ({..<n} - set (S @ L)) i = P0 ! i) \<and>
     (\<forall>i \<in> {..<n} - set (S @ L). 0 \<le> prob ! i \<and> prob ! i \<le> 1) \<and> (\<forall>g \<in> set tab. unat g < n)"

lemma load_insert:
  assumes "finite D" "a \<notin> D" "a < length prob" "a < length tab" "g < 2 ^ 32"
  shows "load (prob[a := p]) (tab[a := of_nat g]) (insert a D) i = load prob tab D i + (if i = g then 1 - p else 0)"
proof -
  have "load (prob[a := p]) (tab[a := of_nat g]) D i = load prob tab D i"
  proof -
    have "prob[a := p] ! x = prob ! x \<and> tab[a := of_nat g] ! x = tab ! x" if "x \<in> D" for x
      using that assms(2) by (metis nth_list_update_neq)
    then show ?thesis unfolding load_def by (intro sum.cong) auto
  qed
  then show ?thesis
    using assms unat_of_nat_small [where 'a = 32, of g] by (simp add: load_def)
qed

lemma vose_inv_step:
  assumes inv: "vose_inv P0 n P prob tab (a # S) (g # L)" and n: "n \<le> 2 ^ 32"
    and P1: "P1 = P[g := P ! g + P ! a - 1]"
    and SL: "if P1 ! g < 1 then S' = g # S \<and> L' = L else S' = S \<and> L' = g # L"
  shows "vose_inv P0 n P1 (prob[a := P ! a]) (tab[a := of_nat g]) S' L'"
proof -
  note i = inv [unfolded vose_inv_def]
  have len: "length P = n" "length prob = n" "length tab = n" and ag: "a < n" "g < n" "a \<noteq> g"
    and fresh: "a \<notin> set S" "a \<notin> set L" "g \<notin> set S" "g \<notin> set L"
    using i by auto
  have set: "set (S' @ L') = insert g (set S \<union> set L)" and dist: "distinct (S' @ L')"
    using SL i by (auto split: if_splits)
  have length: "length (S' @ L') = Suc (length S + length L)" using SL by (auto split: if_splits)
  have D: "{..<n} - set (S' @ L') = insert a ({..<n} - set ((a # S) @ g # L))"
    using ag fresh unfolding set by auto
  have Pg: "P1 ! g = P ! g + P ! a - 1" using ag len by (simp add: P1)
  have Po: "P1 ! j = P ! j" if "j \<noteq> g" for j using that by (simp add: P1)
  have "(\<Sum>i \<in> set S \<union> set L. P1 ! i) = (\<Sum>i \<in> set S \<union> set L. P ! i)"
    using fresh by (intro sum.cong refl Po) auto
  moreover have "(\<Sum>i \<in> insert a (insert g (set S \<union> set L)). P ! i) = real (length S + length L + 2)"
    using i by (simp add: insert_commute)
  ultimately have sum: "(\<Sum>i \<in> set (S' @ L'). P1 ! i) = real (length (S' @ L'))"
    using ag fresh unfolding set length by (simp add: Pg)
  have small: "g < 2 ^ 32" using ag n by simp
  have load: "load (prob[a := P ! a]) (tab[a := of_nat g]) ({..<n} - set (S' @ L')) j
      = load prob tab ({..<n} - set ((a # S) @ g # L)) j + (if j = g then 1 - P ! a else 0)" for j
    unfolding D using ag len small by (intro load_insert) auto
  have mass: "(if j \<in> set (S' @ L') then P1 ! j else prob[a := P ! a] ! j)
      + load (prob[a := P ! a]) (tab[a := of_nat g]) ({..<n} - set (S' @ L')) j = P0 ! j" if "j < n" for j
  proof -
    have "(if j \<in> set ((a # S) @ g # L) then P ! j else prob ! j) + load prob tab ({..<n} - set ((a # S) @ g # L)) j = P0 ! j"
      using i that by blast
    then show ?thesis
      unfolding load unfolding set using Pg Po ag fresh len by (cases "j = g"; cases "j = a") auto
  qed
  have "\<forall>h \<in> set (tab[a := of_nat g]). unat h < n"
    using i ag small unat_of_nat_small [where 'a = 32, of g] set_update_subset_insert [of tab a "of_nat g"] by auto
  moreover have "\<forall>j \<in> set S'. 0 \<le> P1 ! j \<and> P1 ! j < 1" "\<forall>j \<in> set L'. 1 \<le> P1 ! j"
  proof -
    have "0 \<le> P ! a" "1 \<le> P ! g" "\<forall>i \<in> set S. 0 \<le> P ! i \<and> P ! i < 1" "\<forall>i \<in> set L. 1 \<le> P ! i"
      using i by simp_all
    moreover have "P1 ! j = P ! j" if "j \<in> set S \<union> set L" for j using fresh that by (intro Po) auto
    ultimately show "\<forall>j \<in> set S'. 0 \<le> P1 ! j \<and> P1 ! j < 1" "\<forall>j \<in> set L'. 1 \<le> P1 ! j"
      using SL Pg by (auto split: if_splits)
  qed
  moreover have "\<forall>j \<in> {..<n} - set (S' @ L'). 0 \<le> prob[a := P ! a] ! j \<and> prob[a := P ! a] ! j \<le> 1"
    unfolding D using i ag len by (auto simp: nth_list_update less_imp_le)
  ultimately show ?thesis
    using dist sum mass len ag i unfolding vose_inv_def set by (simp add: P1)
qed

lemma vose_inv_pairs:
  assumes "vose_inv P0 n P prob tab S L" "n \<le> 2 ^ 32"
  shows "case alias_pairs P prob tab S L of (P', prob', tab', S', L') \<Rightarrow>
    vose_inv P0 n P' prob' tab' S' L' \<and> (S' = [] \<or> L' = [])"
  using assms
proof (induction P prob tab S L rule: alias_pairs.induct)
  case (1 P prob tab a S g L)
  show ?case
  proof (cases "P[g := P ! g + P ! a - 1] ! g < 1")
    case True
    then show ?thesis
      using 1(1) [OF refl refl refl True vose_inv_step [OF 1(3,4) refl, of "g # S" L]] 1(4) by (simp add: Let_def)
  next
    case False
    then show ?thesis
      using 1(2) [OF refl refl refl False vose_inv_step [OF 1(3,4) refl, of S "g # L"]] 1(4) by (simp add: Let_def)
  qed
qed auto

text \<open>When one stack is empty every mass left is one: the other stack's entries keep themselves.\<close>

lemma sum_lt_ones:
  fixes f :: "'b \<Rightarrow> real"
  assumes "finite A" "A \<noteq> {}" "\<And>i. i \<in> A \<Longrightarrow> f i < 1"
  shows "sum f A < real (card A)"
  using sum_strict_mono [of A f "\<lambda>_. 1"] assms by simp

lemma sum_ge_ones:
  fixes f :: "'b \<Rightarrow> real"
  assumes "finite A" "\<And>i. i \<in> A \<Longrightarrow> 1 \<le> f i" "sum f A = real (card A)" "i \<in> A"
  shows "f i = 1"
proof -
  have "sum (\<lambda>i. f i - 1) A = 0" using assms(1,3) by (simp add: sum_subtractf)
  then have "f i - 1 = 0" using sum_nonneg_eq_0_iff [OF assms(1), of "\<lambda>i. f i - 1"] assms(2,4) by auto
  then show ?thesis by simp
qed

lemma foldl_set_one:
  "length (foldl (\<lambda>p i. p[i := 1]) p xs) = length p"
  "i < length p \<Longrightarrow> foldl (\<lambda>p i. p[i := 1 :: real]) p xs ! i = (if i \<in> set xs then 1 else p ! i)"
  by (induction xs arbitrary: p) (auto simp: nth_list_update)

lemma vose_inv_finish:
  assumes "vose_inv P0 n P prob tab S L" "S = [] \<or> L = []"
  shows "S = [] \<and> (\<forall>i < n. table_mass (foldl (\<lambda>p i. p[i := 1]) prob L) tab i = P0 ! i) \<and>
    (\<forall>i < n. 0 \<le> foldl (\<lambda>p i. p[i := 1]) prob L ! i \<and> foldl (\<lambda>p i. p[i := 1]) prob L ! i \<le> 1)"
proof -
  note i = assms(1) [unfolded vose_inv_def]
  have S: "S = []"
  proof (rule ccontr)
    assume ne: "S \<noteq> []"
    then have "L = []" using assms(2) by simp
    with i have "(\<Sum>i \<in> set S. P ! i) = real (card (set S))" by (simp add: distinct_card)
    with sum_lt_ones [of "set S" "\<lambda>i. P ! i"] ne i show False by auto
  qed
  have one: "P ! j = 1" if "j \<in> set L" for j
    using sum_ge_ones [of "set L" "\<lambda>i. P ! i"] that i S by (auto simp: distinct_card)
  let ?p = "foldl (\<lambda>p i. p[i := 1]) prob L"
  have p: "?p ! j = (if j \<in> set L then 1 else prob ! j)" if "j < n" for j
    using that i by (simp add: foldl_set_one)
  have "load ?p tab {..<n} j = load prob tab ({..<n} - set L) j" for j
  proof -
    have "load ?p tab {..<n} j = load ?p tab ({..<n} - set L) j"
      unfolding load_def using p by (intro sum.mono_neutral_right) auto
    also have "\<dots> = load prob tab ({..<n} - set L) j"
      unfolding load_def using p by (intro sum.cong) auto
    finally show ?thesis .
  qed
  then have "table_mass ?p tab j = P0 ! j" if "j < n" for j
    using i that p [OF that] one [of j] S by (auto simp: table_mass_def split: if_splits)
  then show ?thesis using S i p by auto
qed

lemma split_small_eq:
  "split_small P n = (filter (\<lambda>i. P ! i < 1) [0..<n], filter (\<lambda>i. \<not> P ! i < 1) [0..<n])"
proof -
  have "foldl (\<lambda>(S, L) s. if P ! s < 1 then (s # S, L) else (S, s # L)) ([], []) (rev xs)
      = (filter (\<lambda>i. P ! i < 1) xs, filter (\<lambda>i. \<not> P ! i < 1) xs)" for xs
    by (induction xs) auto
  then show ?thesis by (simp add: split_small_def)
qed

lemma vose_inv_init:
  assumes "length P = n" "\<And>i. i < n \<Longrightarrow> 0 \<le> P ! i" "sum_list P = real n" "split_small P n = (S, L)"
  shows "vose_inv P n P (replicate n 0) (replicate n 0) S L"
proof -
  have SL: "S = filter (\<lambda>i. P ! i < 1) [0..<n]" "L = filter (\<lambda>i. \<not> P ! i < 1) [0..<n]"
    using assms(4) by (simp_all add: split_small_eq)
  have set: "set (S @ L) = {..<n}" by (auto simp: SL)
  have "distinct (S @ L)" by (auto simp: SL)
  moreover from distinct_card [OF this] have "length (S @ L) = n" unfolding set by simp
  moreover have "(\<Sum>i \<in> set (S @ L). P ! i) = real n"
    using assms(1,3) unfolding set by (simp add: sum_list_sum_nth atLeast0LessThan)
  moreover have "\<forall>g \<in> set (replicate n (0 :: u32)). unat g < n" by (cases n) auto
  ultimately show ?thesis
    using assms(1,2) unfolding vose_inv_def set by (auto simp: SL load_def not_less)
qed

text \<open>What the alias table promises: every index stays below the number of entries, every
  probability is one, and the mass of each entry is the one it was built from.\<close>

definition is_alias_table :: "real list \<Rightarrow> real list \<Rightarrow> u32 list \<Rightarrow> bool" where
  "is_alias_table P prob tab \<longleftrightarrow>
     length prob = length P \<and> length tab = length P \<and> (\<forall>g \<in> set tab. unat g < length P) \<and>
     (\<forall>i < length P. 0 \<le> prob ! i \<and> prob ! i \<le> 1 \<and> table_mass prob tab i = P ! i)"

lemma vose_alias_table:
  assumes "length P = n" "\<And>i. i < n \<Longrightarrow> 0 \<le> P ! i" "sum_list P = real n" "n \<le> 2 ^ 32"
  shows "case vose P n n of (prob, tab) \<Rightarrow> is_alias_table P prob tab"
proof -
  obtain S L where SL: "split_small P n = (S, L)" by fastforce
  obtain P' prob tab S' L' where
    pairs: "alias_pairs P (replicate n 0) (replicate n 0) S L = (P', prob, tab, S', L')" by (metis prod_cases5)
  from vose_inv_pairs [OF vose_inv_init [OF assms(1-3) SL] assms(4)] pairs
  have inv: "vose_inv P n P' prob tab S' L'" and fin: "S' = [] \<or> L' = []" by simp_all
  note r = vose_inv_finish [OF inv fin]
  then have "vose P n n = (foldl (\<lambda>p i. p[i := 1]) prob L', tab)"
    by (simp add: vose_def SL pairs)
  moreover have "length prob = n" "length tab = n" "\<forall>g \<in> set tab. unat g < n" using inv by (auto simp: vose_inv_def)
  ultimately show ?thesis using r assms(1) by (simp add: is_alias_table_def foldl_set_one)
qed

lemma nat_sint: "unat (w :: u32) < 2 ^ 31 \<Longrightarrow> nat (sint w) = unat w"
proof -
  assume *: "unat w < 2 ^ 31"
  then have "int (unat w) < int (2 ^ 31)" by (simp only: of_nat_less_iff)
  then have "uint w < 2 ^ 31" by (simp add: of_nat_unat)
  moreover have "- (2 ^ 31) \<le> uint w" by (rule order_trans [of _ 0]) simp_all
  ultimately have "sint w = uint w" by (simp add: sint_uint signed_take_bit_int_eq_self_iff)
  then show ?thesis by simp
qed

section \<open>Filling the masses\<close>

text \<open>The table building changes an entry's weight, score and handicap only.\<close>

definition plain :: "queue_entry \<Rightarrow> queue_entry" where
  "plain e = e\<lparr>weight := 0, perf_score := 0, handicap := 0\<rparr>"

lemma plain_simps [simp]:
  "plain (e\<lparr>weight := x\<rparr>) = plain e" "plain (e\<lparr>perf_score := y\<rparr>) = plain e" "plain (later e) = plain e"
    "plain (e\<lparr>handicap := z\<rparr>) = plain e" "weight (later e) = weight e"
  by (simp_all add: plain_def later_def)

lemma plain_eqD:
  assumes "plain e' = plain e"
  shows "disabled e' = disabled e" "n_fuzz_entry e' = n_fuzz_entry e" "exec_us e' = exec_us e"
    "bitmap_size e' = bitmap_size e" "tc_ref e' = tc_ref e"
  using arg_cong [OF assms, of disabled] arg_cong [OF assms, of n_fuzz_entry] arg_cong [OF assms, of exec_us]
    arg_cong [OF assms, of bitmap_size] arg_cong [OF assms, of tc_ref]
  by (simp_all add: plain_def)

text \<open>A state in which only the entries' weights, scores and handicaps may differ.\<close>

definition reweighed :: "('a) afl_sched_scheme \<Rightarrow> ('a) afl_sched_scheme \<Rightarrow> bool" where
  "reweighed afl afl' \<longleftrightarrow>
     (\<exists>xs. afl' = afl\<lparr>queue_buf := xs\<rparr> \<and> map plain xs = map plain (queue_buf afl))"

lemma reweighed_refl [simp]: "reweighed afl afl"
  unfolding reweighed_def by (intro exI [of _ "queue_buf afl"]) simp

lemma reweighed_map: "reweighed afl afl' \<Longrightarrow> map plain (queue_buf afl') = map plain (queue_buf afl)"
  by (auto simp: reweighed_def)

lemma reweighed_length: "reweighed afl afl' \<Longrightarrow> length (queue_buf afl') = length (queue_buf afl)"
  unfolding reweighed_def by (auto dest: map_eq_imp_length_eq)

lemma reweighed_nth:
  "reweighed afl afl' \<Longrightarrow> i < length (queue_buf afl) \<Longrightarrow> plain (queue_buf afl' ! i) = plain (queue_buf afl ! i)"
  using reweighed_length [of afl afl'] reweighed_map [of afl afl'] by (metis nth_map)

lemma reweighed_fields:
  assumes "reweighed afl afl'"
  shows "queued_items afl' = queued_items afl" "schedule afl' = schedule afl" "n_fuzz afl' = n_fuzz afl"
    "fsrv afl' = fsrv afl" "havoc_max_mult afl' = havoc_max_mult afl" "limit_time_sig afl' = limit_time_sig afl"
    "queued_discovered afl' = queued_discovered afl"
  using assms by (auto simp: reweighed_def)

lemma reweighed_upd:
  assumes "reweighed afl afl'" "plain (f (queue_buf afl' ! i)) = plain (queue_buf afl' ! i)"
  shows "reweighed afl (q_upd i f afl')"
proof -
  obtain xs where xs: "afl' = afl\<lparr>queue_buf := xs\<rparr>" "map plain xs = map plain (queue_buf afl)"
    using assms(1) by (auto simp: reweighed_def)
  have "map plain (xs[i := f (xs ! i)]) = (map plain xs)[i := plain (xs ! i)]"
    using assms(2) xs(1) by (simp add: map_update)
  also have "\<dots> = map plain xs" by (cases "i < length xs") (simp_all add: list_update_same_conv list_update_beyond)
  finally have "map plain (xs[i := f (xs ! i)]) = map plain xs" .
  then show ?thesis using xs by (auto simp: reweighed_def q_upd_def)
qed

lemma energy_ready_any: "energy_ready afl k \<Longrightarrow> i < length (queue_buf afl) \<Longrightarrow> energy_ready afl i"
  by (auto simp: energy_ready_def)

lemma reweighed_ready:
  assumes "reweighed afl afl'" "energy_ready afl q"
  shows "energy_ready afl' q"
proof -
  have "disabled (queue_buf afl' ! i) = disabled (queue_buf afl ! i)"
    "hits_of afl' (queue_buf afl' ! i) = hits_of afl (queue_buf afl ! i)" if "i < length (queue_buf afl)" for i
    using plain_eqD [OF reweighed_nth [OF assms(1) that]] reweighed_fields [OF assms(1)] by simp_all
  then show ?thesis
    using assms(2) reweighed_fields [OF assms(1)] reweighed_length [OF assms(1)]
    by (auto simp: energy_ready_def)
qed

text \<open>Scoring an entry: the score it stores is not negative, and not zero outside \<open>COE\<close>, MOpt mode
  and a zero multiplier.\<close>

lemma score_step_total:
  assumes "energy_ready afl q"
  shows "\<exists>afl' e. score_step q afl = Inr afl' \<and> afl' = q_upd q (\<lambda>_. e) afl \<and>
    plain e = plain (queue_buf afl ! q) \<and> weight e = weight (queue_buf afl ! q) \<and> 0 \<le> perf_score e \<and>
    (limit_time_sig afl = 0 \<and> schedule afl \<noteq> COE \<and> havoc_max_mult afl \<noteq> 0 \<longrightarrow> 1 \<le> perf_score e)"
proof -
  obtain p where p: "calculate_score afl q = Inr (p, q_upd q later afl)"
    "limit_time_sig afl = 0 \<and> schedule afl \<noteq> COE \<and> havoc_max_mult afl \<noteq> 0 \<longrightarrow> 1 \<le> p"
    using calculate_score_total [OF assms] by blast
  let ?e = "(later (queue_buf afl ! q))\<lparr>perf_score := real (unat p)\<rparr>"
  have q: "q < length (queue_buf afl)" using assms by (simp add: energy_ready_def)
  then have "score_step q afl = Inr (q_upd q (\<lambda>_. ?e) afl)" by (simp add: score_step_def p(1) q_upd_def)
  moreover have "1 \<le> real (unat p)" if "1 \<le> p" using that by (simp add: word_le_nat_alt)
  ultimately show ?thesis
    using p(2) by (intro exI [of _ "q_upd q (\<lambda>_. ?e) afl"] exI [of _ ?e]) simp
qed

text \<open>
  What the table needs: entries the schedule can score, disabled entries without weight and score,
  and, for the schedules with weights, enabled entries that were calibrated, one of which is a top
  entry.
\<close>

definition alias_ready :: "('a) afl_sched_scheme \<Rightarrow> bool" where
  "alias_ready afl \<longleftrightarrow>
     unat (queued_items afl) = length (queue_buf afl) \<and> length (queue_buf afl) < 2 ^ 31 \<and> energy_ready afl 0 \<and>
     (\<forall>e \<in> set (queue_buf afl). disabled e \<longrightarrow> weight e = 0 \<and> perf_score e = 0) \<and>
     (schedule afl < RARE \<longrightarrow>
        (\<forall>e \<in> set (queue_buf afl). \<not> disabled e \<longrightarrow> exec_us e \<noteq> 0 \<and> bitmap_size e > 1) \<and>
        (\<exists>e \<in> set (queue_buf afl). \<not> disabled e \<and> tc_ref e \<noteq> 0)) \<and>
     (schedule afl \<ge> RARE \<longrightarrow> limit_time_sig afl = 0 \<and> havoc_max_mult afl \<noteq> 0)"

lemma avg_steps:
  assumes "alias_ready afl" "n \<le> length (queue_buf afl)" "schedule afl < RARE"
  shows "\<exists>t b c k. foldm (avg_step afl) [0..<n] (0, 0, 0, 0) = Inr (t, b, c, k) \<and> 0 \<le> t \<and> 0 \<le> b \<and> 0 \<le> c \<and>
     unat k \<le> n \<and> ((\<exists>i < n. \<not> disabled (queue_buf afl ! i)) \<longrightarrow> 0 < b \<and> 0 < t \<and> 0 < k) \<and>
     ((\<exists>i < n. \<not> disabled (queue_buf afl ! i) \<and> tc_ref (queue_buf afl ! i) \<noteq> 0) \<longrightarrow> 0 < c)"
proof -
  let ?e = "\<lambda>i. queue_buf afl ! i"
  define P where "P n s = (case s of (t, b, c, k :: u32) \<Rightarrow> (0 :: real) \<le> t \<and> (0 :: real) \<le> b \<and> (0 :: real) \<le> c \<and> unat k \<le> n \<and>
     ((\<exists>i < n. \<not> disabled (?e i)) \<longrightarrow> 0 < b \<and> 0 < t \<and> 0 < k) \<and>
     ((\<exists>i < n. \<not> disabled (?e i) \<and> tc_ref (?e i) \<noteq> 0) \<longrightarrow> 0 < c))" for n s
  have "\<exists>s. foldm (avg_step afl) [0..<n] (0, 0, 0, 0) = Inr s \<and> P n s"
  proof (rule foldm_upt_total)
    fix i s assume i: "i < n" and s: "P i s"
    obtain t b c k where S: "s = (t, b, c, k)" by (metis prod_cases4)
    have len: "i < length (queue_buf afl)" using i assms(2) by simp
    then have mem: "?e i \<in> set (queue_buf afl)" by simp
    have "unat k + 1 < 2 ^ 32" using s S len assms(1) by (simp add: P_def alias_ready_def)
    then have k: "unat (k + 1) = unat k + 1" "0 < k + 1" by (simp_all add: unat_word_ariths word_less_nat_alt)
    have en: "0 < ln (real (unat (bitmap_size (?e i))))" "0 < real (unat (exec_us (?e i)))" "bitmap_size (?e i) \<noteq> 0"
      if "\<not> disabled (?e i)"
    proof -
      have e: "exec_us (?e i) \<noteq> 0" "bitmap_size (?e i) > 1" using assms that mem by (auto simp: alias_ready_def)
      then have "1 < unat (bitmap_size (?e i))" by (simp add: word_less_nat_alt)
      then show "0 < ln (real (unat (bitmap_size (?e i))))" by (intro ln_gt_zero) simp
      show "0 < real (unat (exec_us (?e i)))" "bitmap_size (?e i) \<noteq> 0" using e by (auto simp: unat_gt_0)
    qed
    have tc: "0 < real (unat (tc_ref (?e i)))" if "tc_ref (?e i) \<noteq> 0" using that by (simp add: unat_gt_0)
    show "\<exists>s'. avg_step afl i s = Inr s' \<and> P (Suc i) s'"
    proof (cases "disabled (?e i)")
      case True
      then show ?thesis using s len by (auto simp: S P_def avg_step_def q_get_def less_Suc_eq)
    next
      case False
      then show ?thesis
        using s len en tc k unfolding S P_def
        by (auto simp: avg_step_def q_get_def flog_def less_Suc_eq intro: add_nonneg_pos add_nonneg_nonneg)
    qed
  qed (simp add: P_def)
  then show ?thesis unfolding P_def by (auto split: prod.splits)
qed

lemma compute_weight_pos:
  assumes "schedule afl < RARE \<longrightarrow> exec_us q \<noteq> 0" "bitmap_size q \<noteq> 0" "b \<noteq> 0" "c \<noteq> 0"
  shows "\<exists>x. compute_weight afl q a b c = Inr x \<and> 0 < x"
proof -
  have "0 < weight_clamp q y" for y by (simp add: weight_clamp_def Let_def)
  then show ?thesis using assms by (auto simp: compute_weight_def Let_def fdiv_def flog_def unat_eq_0)
qed

text \<open>One pass over the queue: \<open>W\<close> is the mass read off an entry, the disabled entries keep zero.\<close>

definition filled :: "(queue_entry \<Rightarrow> real) \<Rightarrow> ('a) afl_sched_scheme \<Rightarrow> nat \<Rightarrow> ('a) afl_sched_scheme \<times> real \<Rightarrow> bool" where
  "filled f afl i = (\<lambda>(a, s).
     reweighed afl a \<and> s = (\<Sum>j < i. f (queue_buf a ! j)) \<and>
     (\<forall>j < length (queue_buf a). disabled (queue_buf a ! j) \<longrightarrow> f (queue_buf a ! j) = 0) \<and>
     (\<forall>j < i. \<not> disabled (queue_buf a ! j) \<longrightarrow> 0 < f (queue_buf a ! j)))"

lemma filled_upd:
  assumes "filled f afl i (a, s)" "i < length (queue_buf a)" "plain e = plain (queue_buf a ! i)"
    "disabled e \<longrightarrow> f e = 0" "\<not> disabled e \<longrightarrow> 0 < f e"
  shows "filled f afl (Suc i) (q_upd i (\<lambda>_. e) a, s + f e)"
proof -
  have "(\<Sum>j < i. f (queue_buf (q_upd i (\<lambda>_. e) a) ! j)) = (\<Sum>j < i. f (queue_buf a ! j))"
    by (intro sum.cong) (simp_all add: q_upd_def)
  moreover have "queue_buf (q_upd i (\<lambda>_. e) a) ! i = e" using assms(2) by (simp add: q_upd_def)
  ultimately show ?thesis
    using assms reweighed_upd [of afl a "\<lambda>_. e" i]
    by (auto simp: filled_def nth_list_update q_upd_def less_Suc_eq split: if_splits)
qed

lemma weight_step_filled:
  assumes r: "alias_ready afl" and i: "i < length (queue_buf afl)" and s: "schedule afl < RARE"
    and bc: "b \<noteq> 0" "c \<noteq> 0" and inv: "filled weight afl i (a, sm)"
  shows "\<exists>s'. weight_step t b c i (a, sm) = Inr s' \<and> filled weight afl (Suc i) s'"
proof -
  let ?e = "queue_buf a ! i"
  have rw: "reweighed afl a" using inv by (simp add: filled_def)
  note f = reweighed_fields [OF rw] plain_eqD [OF reweighed_nth [OF rw i]]
  have len: "i < length (queue_buf a)" using i reweighed_length [OF rw] by simp
  have mem: "queue_buf afl ! i \<in> set (queue_buf afl)" using i by simp
  show ?thesis
  proof (cases "disabled ?e")
    case True
    then have "weight ?e = 0" using inv len by (simp add: filled_def)
    moreover have "q_upd i (\<lambda>_. ?e) a = a" by (simp add: q_upd_def)
    ultimately show ?thesis
      using True len filled_upd [OF inv len refl] by (simp add: weight_step_def q_get_def)
  next
    case False
    then have "exec_us ?e \<noteq> 0" "bitmap_size ?e \<noteq> 0" using r s mem f by (auto simp: alias_ready_def)
    then obtain x where x: "compute_weight a ?e t b c = Inr x" "0 < x"
      using compute_weight_pos [of a ?e b c t] bc by auto
    let ?a = "q_upd i (\<lambda>q. q\<lparr>weight := x\<rparr>) a"
    have "energy_ready afl i" using r i energy_ready_any by (auto simp: alias_ready_def)
    then have ready: "energy_ready ?a i" by (intro reweighed_ready [OF reweighed_upd [OF rw]]) simp_all
    obtain e where e: "score_step i ?a = Inr (q_upd i (\<lambda>_. e) ?a)" "plain e = plain (queue_buf ?a ! i)"
      "weight e = weight (queue_buf ?a ! i)"
      using score_step_total [OF ready] by blast
    have "q_upd i (\<lambda>_. e) ?a = q_upd i (\<lambda>_. e) a" by (simp add: q_upd_def)
    moreover have "plain e = plain ?e" "weight e = x" using e len by (simp_all add: q_upd_def)
    moreover from this have "disabled e \<longleftrightarrow> disabled ?e" using plain_eqD by blast
    ultimately show ?thesis
      using False x len e(1) filled_upd [OF inv len, of e] by (auto simp: weight_step_def q_get_def)
  qed
qed

lemma rare_step_filled:
  assumes r: "alias_ready afl" and i: "i < length (queue_buf afl)" and s: "\<not> schedule afl < RARE"
    and inv: "filled perf_score afl i (a, sm)"
  shows "\<exists>s'. rare_step i (a, sm) = Inr s' \<and> filled perf_score afl (Suc i) s'"
proof -
  let ?e = "queue_buf a ! i"
  have rw: "reweighed afl a" using inv by (simp add: filled_def)
  have len: "i < length (queue_buf a)" using i reweighed_length [OF rw] by simp
  show ?thesis
  proof (cases "disabled ?e")
    case True
    then have "perf_score ?e = 0" using inv len by (simp add: filled_def)
    moreover have "q_upd i (\<lambda>_. ?e) a = a" by (simp add: q_upd_def)
    ultimately show ?thesis
      using True len filled_upd [OF inv len refl] by (simp add: rare_step_def q_get_def)
  next
    case False
    have "energy_ready afl i" using r i energy_ready_any by (auto simp: alias_ready_def)
    then have ready: "energy_ready a i" by (intro reweighed_ready [OF rw])
    have "limit_time_sig a = 0" "schedule a \<noteq> COE" "havoc_max_mult a \<noteq> 0"
      using r s reweighed_fields [OF rw] by (auto simp: alias_ready_def not_less)
    then obtain e where e: "score_step i a = Inr (q_upd i (\<lambda>_. e) a)" "plain e = plain ?e" "1 \<le> perf_score e"
      using score_step_total [OF ready] by blast
    then have "disabled e \<longleftrightarrow> disabled ?e" using plain_eqD by blast
    then show ?thesis
      using False len e filled_upd [OF inv len e(2)] by (auto simp: rare_step_def q_get_def q_upd_def)
  qed
qed

lemma foldm_mass:
  assumes "n \<le> length (queue_buf afl)" "n \<le> length P" "sm \<noteq> 0"
  shows "foldm (mass_step afl f sm) [0..<n] P
    = Inr (map (\<lambda>i. f (queue_buf afl ! i) * real (unat (queued_items afl)) / sm) [0..<n] @ drop n P)"
  using assms
proof (induction n)
  case (Suc n)
  then show ?case
    by (simp add: foldm_upt_Suc mass_step_def q_get_def fdiv_def list_update_append Cons_nth_drop_Suc [symmetric] del: upt_Suc)
      (simp)
qed simp

text \<open>The masses are the weights of the entries, scaled to add up to the number of entries.\<close>

definition chosen_by :: "('a) afl_sched_scheme \<Rightarrow> queue_entry \<Rightarrow> real" where
  "chosen_by afl e = (if schedule afl < RARE then weight e else perf_score e)"

lemma filled_masses:
  assumes "filled f afl (unat (queued_items afl)) (a, sm)" "alias_ready afl"
  shows "\<exists>P. foldm (mass_step a f sm) [0..<unat (queued_items afl)] (replicate (unat (queued_items afl)) 0) = Inr P \<and>
    length P = unat (queued_items afl) \<and> sum_list P = real (unat (queued_items afl)) \<and>
    (\<forall>i < unat (queued_items afl). 0 \<le> P ! i) \<and> (\<forall>i < unat (queued_items afl).
       P ! i = f (queue_buf a ! i) * real (unat (queued_items afl)) / (\<Sum>j < unat (queued_items afl). f (queue_buf a ! j)))"
proof -
  let ?n = "unat (queued_items afl)" and ?f = "\<lambda>i. f (queue_buf a ! i)"
  have rw: "reweighed afl a" and sm: "sm = (\<Sum>j < ?n. ?f j)"
    and pos: "\<And>j. j < length (queue_buf a) \<Longrightarrow> disabled (queue_buf a ! j) \<Longrightarrow> ?f j = 0"
      "\<And>j. j < ?n \<Longrightarrow> \<not> disabled (queue_buf a ! j) \<Longrightarrow> 0 < ?f j"
    using assms(1) by (auto simp: filled_def)
  have n: "?n = length (queue_buf a)" using assms(2) reweighed_length [OF rw] by (simp add: alias_ready_def)
  obtain k where k: "k < ?n" "\<not> disabled (queue_buf afl ! k)" using assms(2) by (auto simp: alias_ready_def energy_ready_def)
  have "\<not> disabled (queue_buf a ! k)"
    using k n plain_eqD(1) [OF reweighed_nth [OF rw, of k]] reweighed_length [OF rw] by simp
  then have kpos: "0 < ?f k" using k pos by simp
  have nonneg: "0 \<le> ?f j" if "j < ?n" for j using pos that n by (metis less_eq_real_def order_refl)
  have "0 < sm"
    unfolding sm using kpos k nonneg by (intro sum_pos2 [of _ k]) auto
  moreover have "queued_items a = queued_items afl" using reweighed_fields [OF rw] by simp
  moreover have "(\<Sum>i < ?n. ?f i * real ?n / sm) = real ?n"
  proof -
    have "(\<Sum>i < ?n. ?f i * real ?n / sm) = (\<Sum>i < ?n. ?f i) * real ?n / sm"
      by (simp add: sum_divide_distrib sum_distrib_right)
    then show ?thesis using \<open>0 < sm\<close> sm by simp
  qed
  ultimately show ?thesis
    using foldm_mass [of ?n a "replicate ?n 0" sm f] nonneg n sm
    by (simp add: sum_list_sum_nth atLeast0LessThan)
qed

lemma entry_masses_total:
  assumes r: "alias_ready afl" and mm: "schedule afl = MMOPT \<longrightarrow> queued_discovered afl = 0"
  shows "\<exists>a P. entry_masses afl = Inr (a, P) \<and> reweighed afl a \<and>
    length P = unat (queued_items afl) \<and> sum_list P = real (unat (queued_items afl)) \<and>
    (\<forall>i < unat (queued_items afl). 0 \<le> P ! i) \<and> (\<forall>i < unat (queued_items afl). P ! i = chosen_by a (queue_buf a ! i) * real (unat (queued_items a)) /
       (\<Sum>j < unat (queued_items afl). chosen_by a (queue_buf a ! j)))"
proof -
  let ?n = "unat (queued_items afl)"
  have n: "?n = length (queue_buf afl)" using r by (simp add: alias_ready_def)
  show ?thesis
  proof (cases "schedule afl < RARE")
    case True
    obtain t b c k where avg: "foldm (avg_step afl) [0..<?n] (0, 0, 0, 0) = Inr (t, b, c, k)"
      and pos: "b \<noteq> 0" "c \<noteq> 0" "k \<noteq> 0"
    proof -
      have "\<exists>i < ?n. \<not> disabled (queue_buf afl ! i) \<and> tc_ref (queue_buf afl ! i) \<noteq> 0"
        using r True n by (auto simp: alias_ready_def in_set_conv_nth)
      then show thesis using avg_steps [OF r _ True, of ?n] n that by (fastforce simp: word_gt_0)
    qed
    have bc: "b / real (unat k) \<noteq> 0" "c / real (unat k) \<noteq> 0" using pos by (simp_all add: unat_eq_0)
    have "\<exists>s. foldm (weight_step (t / real (unat k)) (b / real (unat k)) (c / real (unat k))) [0..<?n] (afl, 0) = Inr s
        \<and> filled weight afl ?n s"
    proof (rule foldm_upt_total)
      show "filled weight afl 0 (afl, 0)" using r by (simp add: filled_def alias_ready_def)
      fix i s assume "i < ?n" "filled weight afl i s"
      then show "\<exists>s'. weight_step (t / real (unat k)) (b / real (unat k)) (c / real (unat k)) i s = Inr s' \<and> filled weight afl (Suc i) s'"
        using weight_step_filled [OF r _ True bc] n by (cases s) simp
    qed
    then obtain a sm where fold: "foldm (weight_step (t / real (unat k)) (b / real (unat k)) (c / real (unat k))) [0..<?n] (afl, 0) = Inr (a, sm)"
      "filled weight afl ?n (a, sm)" by fastforce
    have rw: "reweighed afl a" using fold(2) by (simp add: filled_def)
    note f = reweighed_fields [OF rw]
    have "chosen_by a = weight" using True f by (auto simp: chosen_by_def)
    then show ?thesis
      using filled_masses [OF fold(2) r] True avg fold mm f rw
      by (auto simp: entry_masses_def Let_def)
  next
    case False
    have "\<exists>s. foldm rare_step [0..<?n] (afl, 0) = Inr s \<and> filled perf_score afl ?n s"
    proof (rule foldm_upt_total)
      show "filled perf_score afl 0 (afl, 0)" using r by (simp add: filled_def alias_ready_def)
      fix i s assume "i < ?n" "filled perf_score afl i s"
      then show "\<exists>s'. rare_step i s = Inr s' \<and> filled perf_score afl (Suc i) s'"
        using rare_step_filled [OF r _ False] n by (cases s) simp
    qed
    then obtain a sm where fold: "foldm rare_step [0..<?n] (afl, 0) = Inr (a, sm)" "filled perf_score afl ?n (a, sm)"
      by fastforce
    have rw: "reweighed afl a" using fold(2) by (simp add: filled_def)
    have "chosen_by a = perf_score" using False reweighed_fields [OF rw] by (auto simp: chosen_by_def)
    then show ?thesis
      using filled_masses [OF fold(2) r] False fold reweighed_fields [OF rw] rw
      by (auto simp: entry_masses_def Let_def)
  qed
qed

section \<open>The properties\<close>

text \<open>C21. The alias table is exact: from a queue that is ready for it, \<open>create_alias_table\<close>
  returns a state in which only weights, scores, handicaps and the table differ, and the mass of
  each entry in the table (its own probability plus what other slots hand to it) is its weight, or
  its score from \<open>RARE\<close> on, times the number of entries over the sum. A uniform slot and a uniform
  percentage therefore select an entry with probability proportional to its weight. The
  hypothesis on \<open>MMOPT\<close> is needed: the weights it doubles are not added to the sum.\<close>

theorem create_alias_table_mass:
  assumes "alias_ready afl" "schedule afl = MMOPT \<longrightarrow> queued_discovered afl = 0"
  shows "\<exists>a afl'. create_alias_table True afl = Inr afl' \<and> reweighed afl a \<and>
    afl' = a\<lparr>alias_probability := alias_probability afl', alias_table := alias_table afl', reinit_table := False\<rparr> \<and>
    length (alias_probability afl') = unat (queued_items afl) \<and> length (alias_table afl') = unat (queued_items afl) \<and>
    (\<forall>g \<in> set (alias_table afl'). unat g < unat (queued_items afl)) \<and>
    (\<forall>i < unat (queued_items afl). 0 \<le> alias_probability afl' ! i \<and> alias_probability afl' ! i \<le> 1 \<and>
       table_mass (alias_probability afl') (alias_table afl') i =
         chosen_by a (queue_buf a ! i) * real (unat (queued_items afl)) /
         (\<Sum>j < unat (queued_items afl). chosen_by a (queue_buf a ! j)))"
proof -
  let ?n = "unat (queued_items afl)"
  obtain a P where P: "entry_masses afl = Inr (a, P)" "reweighed afl a" "length P = ?n" "sum_list P = real ?n"
    "\<forall>i < ?n. 0 \<le> P ! i" "\<forall>i < ?n. P ! i = chosen_by a (queue_buf a ! i) * real (unat (queued_items a)) /
       (\<Sum>j < ?n. chosen_by a (queue_buf a ! j))"
    using entry_masses_total [OF assms] by blast
  have n: "?n < 2 ^ 31" using assms(1) by (simp add: alias_ready_def)
  obtain prob tab where v: "vose P ?n ?n = (prob, tab)" by fastforce
  have "is_alias_table P prob tab" using vose_alias_table [OF P(3) _ P(4)] P(5) n v by simp
  moreover have "create_alias_table True afl =
      Inr (a\<lparr>alias_probability := prob, alias_table := tab, reinit_table := False\<rparr>)"
    using P(1) v n by (simp add: create_alias_table_def nat_sint)
  ultimately show ?thesis
    using P reweighed_fields [OF P(2)] unfolding is_alias_table_def
    by (intro exI [of _ a] exI [of _ "a\<lparr>alias_probability := prob, alias_table := tab, reinit_table := False\<rparr>"]) auto
qed

text \<open>With a table of the queue's size, \<open>select_next_queue_entry\<close> never reads outside it: it
  returns the number of an entry of the queue, or ends with what stopped the generator.\<close>

theorem select_next_queue_entry_in_range:
  assumes "length (alias_probability afl) = unat (queued_items afl)" "length (alias_table afl) = unat (queued_items afl)"
    and "\<forall>g \<in> set (alias_table afl). g < queued_items afl" and "queued_items afl \<noteq> 0"
  shows "case select_next_queue_entry afl of
      Inr (s, _) \<Rightarrow> s < queued_items afl
    | Inl e \<Rightarrow> rand_below afl (queued_items afl) = Inl e"
proof (cases "rand_below afl (queued_items afl)")
  case (Inr sa)
  obtain s a where sa: "rand_below afl (queued_items afl) = Inr (s, a)" using Inr by (cases sa) auto
  have s: "s < queued_items afl" using rand_below_lt [OF sa] assms(4) by (auto simp: word_gt_0)
  then have u: "unat s < unat (queued_items afl)" by (simp add: word_less_nat_alt)
  obtain p b where b: "rand_next_percent a = (p, b)" by fastforce
  have "quiet b = quiet afl"
    using quiet_next [of a] quiet_rand_below [OF sa] b by (auto simp: rand_next_percent_def split: prod.splits)
  from arg_cong [OF this, of alias_probability] arg_cong [OF this, of alias_table]
  have "alias_probability b = alias_probability afl" "alias_table b = alias_table afl" by (simp_all add: quiet_def)
  moreover have "alias_table afl ! unat s < queued_items afl" using assms(2,3) u by simp
  ultimately show ?thesis
    using sa b s u assms(1,2) by (simp add: select_next_queue_entry_def)
qed (simp add: select_next_queue_entry_def)

definition pick_example :: afl_cache where
  "pick_example = zero_afl\<lparr>fixed_seed := True, alias_probability := [1, 0.5], alias_table := [0, 0],
     queued_items := 2\<rparr>"

theorem select_next_queue_entry_in_range_witness:
  "case select_next_queue_entry pick_example of
      Inr (s, _) \<Rightarrow> s < queued_items pick_example
    | Inl e \<Rightarrow> rand_below pick_example (queued_items pick_example) = Inl e"
  by (rule select_next_queue_entry_in_range) (simp_all add: pick_example_def)

theorem create_alias_table_mass_witness:
  "\<exists>afl'. create_alias_table True (score_example\<lparr>queue_buf := [zero_entry\<lparr>exec_us := 10, bitmap_size := 3, tc_ref := 2\<rparr>]\<rparr>) = Inr afl' \<and>
    length (alias_table afl') = 1"
proof -
  let ?s = "score_example\<lparr>queue_buf := [zero_entry\<lparr>exec_us := 10, bitmap_size := 3, tc_ref := 2\<rparr>]\<rparr>"
  have "energy_ready ?s 0"
    by (simp add: energy_ready_def score_example_def zero_afl_def zero_entry_def)
  then have "alias_ready ?s"
    by (simp add: alias_ready_def score_example_def zero_afl_def zero_entry_def)
  moreover have "schedule ?s = 0" "queued_items ?s = 1" by (simp_all add: score_example_def zero_afl_def)
  ultimately show ?thesis using create_alias_table_mass [of ?s] by auto
qed

end
