(* ===== verification/Cache.thy ===== *)
theory Cache
  imports Queue Rng
begin

text \<open>
  The test case cache of src/afl-fuzz-queue.c: \<open>queue_testcase_get\<close>, \<open>queue_testcase_store_mem\<close>,
  \<open>queue_testcase_retake\<close>, \<open>queue_testcase_retake_mem\<close>. A slot of \<open>q_testcase_cache\<close> holds the
  index of a queue entry. The loops that wait for a random slot may run forever: they are
  option-valued recursions and not returning is the error \<open>Hang\<close>. \<open>mem_ok\<close> says whether
  allocations succeed. Slots that \<open>ck_realloc\<close> adds are uninitialised: the list does not grow.
\<close>

section \<open>The operations\<close>

text \<open>\<open>open\<close> and \<open>ck_read\<close> of \<open>len\<close> bytes of an entry's file.\<close>

definition read_case :: "world \<Rightarrow> queue_entry \<Rightarrow> u32 \<Rightarrow> bytes res" where
  "read_case w q len =
     (case open_read (fname q) w of
        None \<Rightarrow> Inl (PFatal ''Unable to open'')
      | Some c \<Rightarrow> if length c < unat len then Inl (PFatal ''Short read'') else Inr (take (unat len) c))"

definition cache_full :: "('a) afl_cache_scheme \<Rightarrow> u32 \<Rightarrow> bool" where
  "cache_full afl len \<longleftrightarrow>
     q_testcase_cache_size afl + ucast len \<ge> q_testcase_max_cache_size afl \<or>
     q_testcase_cache_count afl \<ge> q_testcase_max_cache_entries afl - 1"

text \<open>The cache learns its number of entries when it first fills up by size.\<close>

definition cache_learn :: "u32 \<Rightarrow> ('a) afl_cache_scheme \<Rightarrow> ('a) afl_cache_scheme" where
  "cache_learn len afl =
     (if q_testcase_cache_size afl + ucast len \<ge> q_testcase_max_cache_size afl \<and>
         q_testcase_cache_count afl < q_testcase_max_cache_entries afl \<and>
         q_testcase_max_cache_count afl < q_testcase_max_cache_entries afl \<and> \<not> q_testcase_do_once afl
      then let entries = (if q_testcase_max_cache_count afl > q_testcase_cache_count afl
                          then q_testcase_max_cache_count afl + 1 else q_testcase_cache_count afl + 1)
           in afl\<lparr>q_testcase_max_cache_entries := entries, q_testcase_do_once := True,
                  q_testcase_cache := take (unat (entries + 1)) (q_testcase_cache afl)\<rparr>
      else afl)"

partial_function (option) pick_victim ::
  "('a) afl_cache_scheme \<Rightarrow> (u32 \<times> ('a) afl_cache_scheme) res option" where
  "pick_victim afl =
     (case rand_below afl (q_testcase_max_cache_count afl) of
        Inl e \<Rightarrow> Some (Inl e)
      | Inr r \<Rightarrow>
          (case rd (q_testcase_cache (snd r)) (unat (fst r)) of
             Inl e \<Rightarrow> Some (Inl e)
           | Inr c \<Rightarrow> if c = None \<or> c = queue_cur (snd r) then pick_victim (snd r) else Some (Inr r)))"

definition evict :: "u32 \<Rightarrow> ('a) afl_cache_scheme \<Rightarrow> ('a) afl_cache_scheme res" where
  "evict tid afl =
     bnd (rd (q_testcase_cache afl) (unat tid)) (\<lambda>c.
     case c of
       None \<Rightarrow> Inl NullPtr
     | Some k \<Rightarrow>
         bnd (q_get afl k) (\<lambda>old_cached.
         Inr ((q_upd k (\<lambda>q. q\<lparr>testcase_buf := None\<rparr>) afl)
           \<lparr>q_testcase_cache_size := q_testcase_cache_size afl - ucast (q_len old_cached),
            q_testcase_cache := (q_testcase_cache afl)[unat tid := None],
            q_testcase_cache_count := q_testcase_cache_count afl - 1,
            q_testcase_evictions := q_testcase_evictions afl + 1,
            q_testcase_smallest_free := (if tid < q_testcase_smallest_free afl then tid else q_testcase_smallest_free afl)\<rparr>)))"

partial_function (option) make_room ::
  "u32 \<Rightarrow> u32 \<Rightarrow> ('a) afl_cache_scheme \<Rightarrow> (u32 \<times> ('a) afl_cache_scheme) res option" where
  "make_room len tid afl =
     (if \<not> cache_full afl len then Some (Inr (tid, afl))
      else Option.bind (pick_victim (cache_learn len afl)) (\<lambda>r.
        case r of
          Inl e \<Rightarrow> Some (Inl e)
        | Inr v \<Rightarrow>
            (case evict (fst v) (snd v) of
               Inl e \<Rightarrow> Some (Inl e)
             | Inr afl' \<Rightarrow> make_room len (fst v) afl')))"

text \<open>\<open>while (afl->q_testcase_cache[tid] != NULL) ++tid;\<close>\<close>

function free_slot :: "nat option list \<Rightarrow> nat \<Rightarrow> nat res" where
  "free_slot c i = (if i < length c then if c ! i = None then Inr i else free_slot c (Suc i) else Inl Oob)"
  by pat_completeness auto
termination by (relation "measure (\<lambda>(c, i). length c - i)") auto

declare free_slot.simps [simp del]

text \<open>Loading the buffer and registering it in a slot.\<close>

definition register :: "nat \<Rightarrow> nat \<Rightarrow> bytes \<Rightarrow> ('a) afl_cache_scheme \<Rightarrow> ('a) afl_cache_scheme" where
  "register i q b afl =
     (let tid = (of_nat i :: u32); len = q_len (queue_buf afl ! q);
          afl1 = (q_upd q (\<lambda>e. e\<lparr>testcase_buf := Some b\<rparr>) afl)
            \<lparr>q_testcase_cache := (q_testcase_cache afl)[i := Some q],
             q_testcase_cache_size := q_testcase_cache_size afl + ucast len,
             q_testcase_cache_count := q_testcase_cache_count afl + 1\<rparr>
      in if tid \<ge> q_testcase_max_cache_count afl1 then afl1\<lparr>q_testcase_max_cache_count := tid + 1\<rparr>
         else if tid = q_testcase_smallest_free afl1 then afl1\<lparr>q_testcase_smallest_free := tid + 1\<rparr>
         else afl1)"

definition queue_testcase_get ::
  "bool \<Rightarrow> ('a) afl_cache_scheme \<Rightarrow> world \<Rightarrow> nat \<Rightarrow> (bytes \<times> ('a) afl_cache_scheme) res" where
  "queue_testcase_get mem_ok afl w q =
     bnd (q_get afl q) (\<lambda>e.
     let len = q_len e in
     if q_testcase_max_cache_size afl = 0 then
       (if \<not> mem_ok then Inl (PFatal ''Unable to malloc'')
        else bnd (read_case w e len) (\<lambda>b. Inr (b, afl)))
     else case testcase_buf e of
       Some b \<Rightarrow> Inr (b, afl)
     | None \<Rightarrow>
         (case make_room len (q_testcase_max_cache_count afl) afl of
            None \<Rightarrow> Inl Hang
          | Some r \<Rightarrow>
              bnd r (\<lambda>(tid, a1).
              let tid1 = (if tid \<ge> q_testcase_max_cache_entries a1 then q_testcase_smallest_free a1 else tid) in
              bnd (free_slot (q_testcase_cache a1) (unat tid1)) (\<lambda>i.
              bnd (if open_read (fname e) w = None then Inl (PFatal ''Unable to open'')
                   else if \<not> mem_ok then Inl (PFatal ''Unable to malloc'')
                   else read_case w e len) (\<lambda>b.
              Inr (b, register i q b a1))))))"

definition queue_testcase_store_mem ::
  "bool \<Rightarrow> ('a) afl_cache_scheme \<Rightarrow> nat \<Rightarrow> bytes \<Rightarrow> ('a) afl_cache_scheme res" where
  "queue_testcase_store_mem mem_ok afl q mem =
     bnd (q_get afl q) (\<lambda>e.
     let len = q_len e in
     if cache_full afl len then Inr afl
     else
       let tid = (if q_testcase_max_cache_count afl \<ge> q_testcase_max_cache_entries afl
                  then q_testcase_smallest_free afl else q_testcase_max_cache_count afl) in
       bnd (free_slot (q_testcase_cache afl) (unat tid)) (\<lambda>i.
       if \<not> mem_ok then Inl (PFatal ''Unable to malloc'')
       else if length mem < unat len then Inl Oob
       else Inr (register i q (take (unat len) mem) afl)))"

definition queue_testcase_retake ::
  "bool \<Rightarrow> ('a) afl_cache_scheme \<Rightarrow> world \<Rightarrow> nat \<Rightarrow> u32 \<Rightarrow> ('a) afl_cache_scheme res" where
  "queue_testcase_retake mem_ok afl w q old_len =
     bnd (q_get afl q) (\<lambda>e.
     if testcase_buf e = None then Inr afl
     else
       let len = q_len e;
           afl1 = (if len \<noteq> old_len
                   then afl\<lparr>q_testcase_cache_size := q_testcase_cache_size afl + ucast len - ucast old_len\<rparr>
                   else afl)
       in if len \<noteq> old_len \<and> \<not> mem_ok then Inl (PFatal ''Unable to malloc'')
          else bnd (read_case w e len) (\<lambda>b. Inr (q_upd q (\<lambda>e. e\<lparr>testcase_buf := Some b\<rparr>) afl1)))"

text \<open>
  \<open>is_same\<close> is the pointer comparison \<open>in == q->testcase_buf\<close>; \<open>junk\<close> are the bytes \<open>realloc\<close>
  adds when it grows the block.
\<close>

definition queue_testcase_retake_mem ::
  "bool \<Rightarrow> (nat \<Rightarrow> u8) \<Rightarrow> bool \<Rightarrow> ('a) afl_cache_scheme \<Rightarrow> nat \<Rightarrow> bytes \<Rightarrow> u32 \<Rightarrow> u32 \<Rightarrow> ('a) afl_cache_scheme res" where
  "queue_testcase_retake_mem mem_ok junk is_same afl q mem len old_len =
     bnd (q_get afl q) (\<lambda>e.
     case testcase_buf e of
       None \<Rightarrow> Inr afl
     | Some b \<Rightarrow>
         let grow = len \<noteq> old_len \<and> mem_ok;
             b1 = (if grow then take (unat len) b @ map junk [length b ..< unat len] else b);
             afl1 = (if grow then afl\<lparr>q_testcase_cache_size := q_testcase_cache_size afl + ucast len - ucast old_len\<rparr>
                     else afl)
         in if is_same then Inr (q_upd q (\<lambda>e. e\<lparr>testcase_buf := Some b1\<rparr>) afl1)
            else if length mem < unat len \<or> length b1 < unat len then Inl Oob
            else Inr (q_upd q (\<lambda>e. e\<lparr>testcase_buf := Some (take (unat len) mem @ drop (unat len) b1)\<rparr>) afl1))"

section \<open>The invariant\<close>

text \<open>
  A slot holds an entry of the queue, and an entry with a buffer sits in exactly one slot
  (\<open>slots_ok\<close>); the array has the slots the limits speak of, those from \<open>q_testcase_max_cache_count\<close>
  on are empty and those below \<open>q_testcase_smallest_free\<close> are taken (\<open>limits_ok\<close>); the two
  counters are the number of buffers and the sum of their lengths.
\<close>

definition held :: "queue_entry \<Rightarrow> u64" where
  "held e = (if testcase_buf e = None then 0 else ucast (q_len e))"

definition taken :: "nat option list \<Rightarrow> nat" where
  "taken c = length (filter (\<lambda>x. x \<noteq> None) c)"

definition slots_ok :: "nat option list \<Rightarrow> queue_entry list \<Rightarrow> bool" where
  "slots_ok c buf \<longleftrightarrow>
     (\<forall>q. Some q \<in> set c \<longrightarrow> q < length buf) \<and>
     (\<forall>q < length buf. count_list c (Some q) = (if testcase_buf (buf ! q) = None then 0 else 1))"

definition limits_ok :: "nat option list \<Rightarrow> u32 \<Rightarrow> u32 \<Rightarrow> u32 \<Rightarrow> bool" where
  "limits_ok c entries count free \<longleftrightarrow>
     length c < 2 ^ 31 \<and> 0 < unat entries \<and> unat entries \<le> length c \<and> unat count \<le> length c \<and>
     (\<forall>i < length c. unat count \<le> i \<longrightarrow> c ! i = None) \<and>
     unat free \<le> length c \<and> (\<forall>i < unat free. c ! i \<noteq> None)"

definition cache_wf :: "('a) afl_cache_scheme \<Rightarrow> bool" where
  "cache_wf afl \<longleftrightarrow>
     slots_ok (q_testcase_cache afl) (queue_buf afl) \<and>
     limits_ok (q_testcase_cache afl) (q_testcase_max_cache_entries afl) (q_testcase_max_cache_count afl)
       (q_testcase_smallest_free afl) \<and>
     unat (q_testcase_cache_count afl) = taken (q_testcase_cache afl) \<and>
     q_testcase_cache_size afl = (\<Sum>q < length (queue_buf afl). held (queue_buf afl ! q))"

text \<open>Every cached buffer is the beginning of the entry's file.\<close>

definition cache_true :: "('a) afl_cache_scheme \<Rightarrow> world \<Rightarrow> bool" where
  "cache_true afl w \<longleftrightarrow>
     (\<forall>q < length (queue_buf afl). \<forall>b. testcase_buf (queue_buf afl ! q) = Some b \<longrightarrow>
        read_case w (queue_buf afl ! q) (q_len (queue_buf afl ! q)) = Inr b)"

lemma taken_upd:
  "i < length c \<Longrightarrow> taken (c[i := y]) + of_bool (c ! i \<noteq> None) = taken c + of_bool (y \<noteq> None)"
proof (induction c arbitrary: i)
  case (Cons x c)
  then show ?case by (cases i) (auto simp: taken_def)
qed simp

lemma taken_le: "taken c \<le> length c"
  by (simp add: taken_def)

lemma taken_lt_free:
  assumes "taken c < length c"
  shows "\<exists>i < length c. c ! i = None"
proof (rule ccontr)
  assume "\<not> (\<exists>i < length c. c ! i = None)"
  then have "\<forall>x \<in> set c. x \<noteq> None" by (metis in_set_conv_nth)
  then have "taken c = length c" by (simp add: taken_def)
  then show False using assms by simp
qed

lemma sum_nth_upd:
  fixes f :: "'b \<Rightarrow> 'c::ab_group_add"
  assumes "k < n" "n \<le> length xs"
  shows "(\<Sum>q < n. f (xs[k := e] ! q)) = (\<Sum>q < n. f (xs ! q)) - f (xs ! k) + f e"
proof -
  have "(\<Sum>q \<in> {..<n} - {k}. f (xs[k := e] ! q)) = (\<Sum>q \<in> {..<n} - {k}. f (xs ! q))"
    by (intro sum.cong) auto
  then show ?thesis
    using assms sum.remove [of "{..<n}" k "\<lambda>q. f (xs[k := e] ! q)"] sum.remove [of "{..<n}" k "\<lambda>q. f (xs ! q)"]
    by (simp add: algebra_simps)
qed

text \<open>A state in which entries may have lost their buffers and only the generator and the cache differ.\<close>

definition shed :: "('a) afl_cache_scheme \<Rightarrow> ('a) afl_cache_scheme \<Rightarrow> bool" where
  "shed afl afl' \<longleftrightarrow> length (queue_buf afl') = length (queue_buf afl) \<and>
     (\<forall>q < length (queue_buf afl). queue_buf afl' ! q = queue_buf afl ! q \<or>
        queue_buf afl' ! q = (queue_buf afl ! q)\<lparr>testcase_buf := None\<rparr>)"

lemma shed_refl [simp]: "shed afl afl"
  by (simp add: shed_def)

lemma shed_trans: "shed a b \<Longrightarrow> shed b c \<Longrightarrow> shed a c"
  unfolding shed_def by fastforce

lemma shed_buf_eq: "queue_buf a = queue_buf b \<Longrightarrow> shed a b"
  by (simp add: shed_def)

lemma cache_true_shed:
  assumes true: "cache_true afl w" and shed: "shed afl afl'"
  shows "cache_true afl' w"
  unfolding cache_true_def
proof (intro allI impI)
  fix q b assume q: "q < length (queue_buf afl')" and b: "testcase_buf (queue_buf afl' ! q) = Some b"
  then have "q < length (queue_buf afl)" "queue_buf afl' ! q = queue_buf afl ! q"
    using shed by (auto simp: shed_def)
  then show "read_case w (queue_buf afl' ! q) (q_len (queue_buf afl' ! q)) = Inr b"
    using true b by (simp add: cache_true_def)
qed

lemma quiet_cache:
  assumes "quiet a = quiet afl"
  shows "queue_buf a = queue_buf afl" "q_testcase_cache a = q_testcase_cache afl"
    "q_testcase_cache_count a = q_testcase_cache_count afl" "q_testcase_cache_size a = q_testcase_cache_size afl"
    "queue_cur a = queue_cur afl"
  using arg_cong [OF assms, of queue_buf] arg_cong [OF assms, of q_testcase_cache] arg_cong [OF assms, of queue_cur]
    arg_cong [OF assms, of q_testcase_cache_count] arg_cong [OF assms, of q_testcase_cache_size]
  by (simp_all add: quiet_def)

lemma slots_okD:
  assumes "slots_ok c buf" "i < length c" "c ! i = Some k"
  shows "k < length buf" "testcase_buf (buf ! k) \<noteq> None"
proof -
  have mem: "Some k \<in> set c" using assms(2,3) by (metis nth_mem)
  then show "k < length buf" using assms(1) by (simp add: slots_ok_def)
  then show "testcase_buf (buf ! k) \<noteq> None"
    using assms(1) mem by (auto simp: slots_ok_def count_list_0_iff split: if_splits)
qed

lemma slots_ok_drop:
  assumes "slots_ok c buf" "i < length c" "c ! i = Some k"
  shows "slots_ok (c[i := None]) (buf[k := (buf ! k)\<lparr>testcase_buf := None\<rparr>])"
  unfolding slots_ok_def
proof (intro conjI allI impI)
  fix q assume "Some q \<in> set (c[i := None])"
  then show "q < length (buf[k := (buf ! k)\<lparr>testcase_buf := None\<rparr>])"
    using assms(1) set_update_subset_insert [of c i None] by (auto simp: slots_ok_def)
next
  fix q assume q: "q < length (buf[k := (buf ! k)\<lparr>testcase_buf := None\<rparr>])"
  then have "count_list c (Some q) = (if testcase_buf (buf ! q) = None then 0 else 1)"
    using assms(1) by (simp add: slots_ok_def)
  then show "count_list (c[i := None]) (Some q)
      = (if testcase_buf (buf[k := (buf ! k)\<lparr>testcase_buf := None\<rparr>] ! q) = None then 0 else 1)"
    using count_list_update [OF assms(2), of None "Some q"] assms(3) q slots_okD [OF assms]
    by (cases "q = k") (auto split: if_splits)
qed

lemma slots_ok_fill:
  assumes "slots_ok c buf" "i < length c" "c ! i = None" "q < length buf" "testcase_buf (buf ! q) = None"
  shows "slots_ok (c[i := Some q]) (buf[q := (buf ! q)\<lparr>testcase_buf := Some b\<rparr>])"
  unfolding slots_ok_def
proof (intro conjI allI impI)
  fix p assume "Some p \<in> set (c[i := Some q])"
  then show "p < length (buf[q := (buf ! q)\<lparr>testcase_buf := Some b\<rparr>])"
    using assms(1,4) set_update_subset_insert [of c i "Some q"] by (auto simp: slots_ok_def)
next
  fix p assume p: "p < length (buf[q := (buf ! q)\<lparr>testcase_buf := Some b\<rparr>])"
  then have "count_list c (Some p) = (if testcase_buf (buf ! p) = None then 0 else 1)"
    using assms(1) by (simp add: slots_ok_def)
  then show "count_list (c[i := Some q]) (Some p)
      = (if testcase_buf (buf[q := (buf ! q)\<lparr>testcase_buf := Some b\<rparr>] ! p) = None then 0 else 1)"
    using count_list_update [OF assms(2), of "Some q" "Some p"] assms(3,5) p
    by (cases "p = q") (auto split: if_splits)
qed

lemma limits_ok_drop:
  assumes "limits_ok c m n f" "unat tid < length c"
  shows "limits_ok (c[unat tid := None]) m n (if tid < f then tid else f)"
proof -
  have "c[unat tid := None] ! i = None" if "i < length c" "c ! i = None" for i
    using that by (cases "i = unat tid") simp_all
  moreover have "c[unat tid := None] ! i \<noteq> None" if "i < unat (if tid < f then tid else f)" for i
  proof -
    have "i < unat tid" "i < unat f" using that by (auto simp: word_less_nat_alt split: if_splits)
    then show ?thesis using assms(1) by (simp add: limits_ok_def)
  qed
  ultimately show ?thesis using assms unfolding limits_ok_def by simp
qed

lemma evict_wf:
  assumes wf: "cache_wf afl" and c: "unat tid < length (q_testcase_cache afl)" "q_testcase_cache afl ! unat tid \<noteq> None"
  shows "\<exists>afl'. evict tid afl = Inr afl' \<and> cache_wf afl' \<and> shed afl afl' \<and> unat tid < length (q_testcase_cache afl') \<and>
    q_testcase_cache afl' ! unat tid = None"
proof -
  let ?c = "q_testcase_cache afl" and ?b = "queue_buf afl"
  obtain k where k: "?c ! unat tid = Some k" using c(2) by auto
  have slots: "slots_ok ?c ?b" using wf by (simp add: cache_wf_def)
  note kd = slots_okD [OF slots c(1) k]
  define e where "e = (?b ! k)\<lparr>testcase_buf := None\<rparr>"
  define afl' where "afl' = (q_upd k (\<lambda>q. q\<lparr>testcase_buf := None\<rparr>) afl)
           \<lparr>q_testcase_cache_size := q_testcase_cache_size afl - ucast (q_len (?b ! k)),
            q_testcase_cache := ?c[unat tid := None],
            q_testcase_cache_count := q_testcase_cache_count afl - 1,
            q_testcase_evictions := q_testcase_evictions afl + 1,
            q_testcase_smallest_free := (if tid < q_testcase_smallest_free afl then tid else q_testcase_smallest_free afl)\<rparr>"
  have ev: "evict tid afl = Inr afl'" using c(1) k kd(1) by (simp add: evict_def q_get_def afl'_def)
  have b': "queue_buf afl' = ?b[k := e]" and c': "q_testcase_cache afl' = ?c[unat tid := None]"
    and n': "q_testcase_cache_count afl' = q_testcase_cache_count afl - 1"
    and z': "q_testcase_cache_size afl' = q_testcase_cache_size afl - ucast (q_len (?b ! k))"
    and l': "q_testcase_max_cache_entries afl' = q_testcase_max_cache_entries afl"
      "q_testcase_max_cache_count afl' = q_testcase_max_cache_count afl"
      "q_testcase_smallest_free afl' = (if tid < q_testcase_smallest_free afl then tid else q_testcase_smallest_free afl)"
    by (simp_all add: afl'_def q_upd_def e_def)
  have t: "taken ?c = Suc (taken (?c[unat tid := None]))"
    using taken_upd [OF c(1), of None] k by simp
  have cnt: "unat (q_testcase_cache_count afl) = taken ?c"
    and siz: "q_testcase_cache_size afl = (\<Sum>q < length ?b. held (?b ! q))"
    and lim: "limits_ok ?c (q_testcase_max_cache_entries afl) (q_testcase_max_cache_count afl) (q_testcase_smallest_free afl)"
    using wf by (simp_all add: cache_wf_def)
  have "unat (q_testcase_cache_count afl - 1) = taken (?c[unat tid := None])"
    using cnt t by (subst unat_minus_one) auto
  moreover have "q_testcase_cache_size afl - ucast (q_len (?b ! k)) = (\<Sum>q < length ?b. held (?b[k := e] ! q))"
  proof -
    have "held (?b ! k) = ucast (q_len (?b ! k))" "held e = 0" using kd by (auto simp: held_def e_def)
    then show ?thesis using siz sum_nth_upd [OF kd(1) order_refl, of held e] by simp
  qed
  moreover have "limits_ok (?c[unat tid := None]) (q_testcase_max_cache_entries afl) (q_testcase_max_cache_count afl)
      (if tid < q_testcase_smallest_free afl then tid else q_testcase_smallest_free afl)"
    using limits_ok_drop [OF lim c(1)] .
  moreover have "slots_ok (?c[unat tid := None]) (?b[k := e])"
    using slots_ok_drop [OF slots c(1) k] by (simp add: e_def)
  ultimately have "cache_wf afl'" unfolding cache_wf_def b' c' n' z' l' by simp
  moreover have "?b[k := e] ! q = ?b ! q \<or> ?b[k := e] ! q = (?b ! q)\<lparr>testcase_buf := None\<rparr>" for q
    using kd(1) by (cases "q = k") (simp_all add: e_def)
  then have "shed afl afl'" by (simp add: shed_def b')
  ultimately show ?thesis using ev c(1) by (simp add: c')
qed

text \<open>The random choice: it changes the generator only and yields a taken slot.\<close>

definition picked :: "('a) afl_cache_scheme \<Rightarrow> (u32 \<times> ('a) afl_cache_scheme) res \<Rightarrow> bool" where
  "picked afl y \<longleftrightarrow> (case y of
      Inr (tid, a) \<Rightarrow> quiet a = quiet afl \<and> unat tid < length (q_testcase_cache a) \<and>
        q_testcase_cache a ! unat tid \<noteq> None
    | Inl e \<Rightarrow> e = Hang \<or> (\<exists>m. e = PFatal m))"

lemma rand_below_errors: "rand_below afl limit = Inl e \<Longrightarrow> e = Hang \<or> (\<exists>m. e = PFatal m)"
  by (auto simp: rand_below_def reseed_def Let_def split: if_splits list.splits option.splits)

lemma limits_ok_quiet:
  assumes "quiet a = quiet b"
  shows "cache_wf a = cache_wf b"
proof -
  have "cache_wf (quiet c) = cache_wf c" for c :: "'a afl_cache_scheme"
    by (simp add: cache_wf_def quiet_def)
  then show ?thesis using assms by metis
qed

lemma pick_victim_wf:
  assumes "pick_victim afl = Some y" "cache_wf afl"
  shows "picked afl y"
proof -
  have "cache_wf afl \<longrightarrow> picked afl y"
  proof (rule pick_victim.raw_induct [OF _ assms(1)])
    fix pick and a :: "'a afl_cache_scheme" and y
    assume IH: "\<And>a y. pick a = Some y \<Longrightarrow> cache_wf a \<longrightarrow> picked a y"
      and step: "(case rand_below a (q_testcase_max_cache_count a) of Inl e \<Rightarrow> Some (Inl e)
        | Inr r \<Rightarrow> (case rd (q_testcase_cache (snd r)) (unat (fst r)) of Inl e \<Rightarrow> Some (Inl e)
           | Inr c \<Rightarrow> if c = None \<or> c = queue_cur (snd r) then pick (snd r) else Some (Inr r))) = Some y"
    show "cache_wf a \<longrightarrow> picked a y"
    proof
      assume wf: "cache_wf a"
      show "picked a y"
      proof (cases "rand_below a (q_testcase_max_cache_count a)")
        case (Inl e)
        then show ?thesis using step rand_below_errors [OF Inl] unfolding Inl by (auto simp: picked_def)
      next
        case (Inr r)
        obtain tid b where r: "r = (tid, b)" by fastforce
        note q = quiet_rand_below [OF Inr [unfolded r]]
        have len: "unat tid < length (q_testcase_cache b)"
          using rand_below_lt [OF Inr [unfolded r]] wf quiet_cache(2) [OF q]
          by (auto simp: cache_wf_def limits_ok_def word_less_nat_alt)
        show ?thesis
        proof (cases "q_testcase_cache b ! unat tid = None \<or> q_testcase_cache b ! unat tid = queue_cur b")
          case True
          then have "pick b = Some y" using step Inr len by (simp add: r)
          then have "picked b y" using IH limits_ok_quiet [OF q] wf by blast
          then show ?thesis using q by (simp add: picked_def split: sum.splits prod.splits)
        next
          case False
          then show ?thesis using step Inr len q by (auto simp: r picked_def)
        qed
      qed
    qed
  qed
  then show ?thesis using assms(2) by blast
qed

lemma count_list_None_drop:
  assumes "\<And>x. x \<in> set (drop n c) \<Longrightarrow> x = None"
  shows "count_list (take n c) (Some q) = count_list c (Some q)" "taken (take n c) = taken c"
proof -
  have "count_list (drop n c) (Some q) = 0" using assms by (auto simp: count_list_0_iff)
  then show "count_list (take n c) (Some q) = count_list c (Some q)"
    by (metis append_take_drop_id count_list_append add.right_neutral)
  have "filter (\<lambda>x. x \<noteq> None) (drop n c) = []" using assms by (auto simp: filter_empty_conv)
  then show "taken (take n c) = taken c"
    unfolding taken_def by (metis append_take_drop_id filter_append append_Nil2)
qed

lemma cache_learn_wf:
  assumes "cache_wf afl"
  shows "cache_wf (cache_learn len afl) \<and> shed afl (cache_learn len afl)"
proof -
  let ?c = "q_testcase_cache afl" and ?m = "q_testcase_max_cache_entries afl" and ?x = "q_testcase_max_cache_count afl"
    and ?k = "q_testcase_cache_count afl" and ?f = "q_testcase_smallest_free afl"
  define entries where "entries = (if ?x > ?k then ?x + 1 else ?k + 1)"
  have lim: "limits_ok ?c ?m ?x ?f" and slots: "slots_ok ?c (queue_buf afl)" and cnt: "unat ?k = taken ?c"
    and siz: "q_testcase_cache_size afl = (\<Sum>q < length (queue_buf afl). held (queue_buf afl ! q))"
    using assms by (simp_all add: cache_wf_def)
  show ?thesis
  proof (cases "q_testcase_cache_size afl + ucast len \<ge> q_testcase_max_cache_size afl \<and> ?k < ?m \<and> ?x < ?m \<and> \<not> q_testcase_do_once afl")
    case False
    then show ?thesis using assms by (simp only: cache_learn_def if_False shed_refl)
  next
    case True
    then have lt: "unat ?k < unat ?m" "unat ?x < unat ?m" by (simp_all add: word_less_nat_alt)
    have m: "unat ?m \<le> length ?c" "length ?c < 2 ^ 31" using lim by (simp_all add: limits_ok_def)
    have e: "unat entries = Suc (max (unat ?x) (unat ?k))"
      using lt m by (auto simp: entries_def word_less_nat_alt unat_word_ariths)
    have e1: "unat (entries + 1) = Suc (unat entries)" using e lt m by (simp add: unat_word_ariths)
    let ?t = "take (unat (entries + 1)) ?c"
    have none: "x = None" if "x \<in> set (drop (unat (entries + 1)) ?c)" for x
      using that lim e e1 by (auto simp: limits_ok_def in_set_conv_nth)
    have "slots_ok ?t (queue_buf afl)"
      using slots count_list_None_drop(1) [OF none] by (auto simp: slots_ok_def dest: in_set_takeD)
    moreover have "limits_ok ?t entries ?x ?f"
    proof -
      have "i < unat (entries + 1)" if "i < unat ?f" for i
      proof -
        have "?c ! i \<noteq> None" "i < length ?c" using that lim by (auto simp: limits_ok_def)
        then have "i < unat ?x" using lim by (auto simp: limits_ok_def not_less [symmetric])
        then show ?thesis using e e1 by simp
      qed
      then have "unat ?f \<le> unat (entries + 1)" by (meson leI less_irrefl)
      then show ?thesis using lim e e1 lt m by (auto simp: limits_ok_def)
    qed
    ultimately show ?thesis
      using True siz cnt count_list_None_drop(2) [OF none]
      by (simp add: cache_learn_def Let_def cache_wf_def shed_def flip: entries_def)
  qed
qed

lemma free_slot_ok:
  assumes "i \<le> j" "j < length c" "c ! j = None"
  shows "\<exists>k. free_slot c i = Inr k \<and> k < length c \<and> c ! k = None"
  using assms
proof (induction c i rule: free_slot.induct)
  case (1 c i)
  show ?case
  proof (cases "c ! i = None")
    case False
    then have "Suc i \<le> j" using 1(2,4) by (metis Suc_leI le_neq_implies_less)
    then show ?thesis using 1 False by (subst free_slot.simps) auto
  qed (use 1 in \<open>subst free_slot.simps, auto\<close>)
qed

lemma not_full_free:
  assumes "cache_wf afl" "\<not> cache_full afl len"
    and "tid = q_testcase_max_cache_count afl \<or> unat tid < length (q_testcase_cache afl) \<and> q_testcase_cache afl ! unat tid = None"
  shows "\<exists>k. free_slot (q_testcase_cache afl) (unat (if tid \<ge> q_testcase_max_cache_entries afl
      then q_testcase_smallest_free afl else tid)) = Inr k \<and> k < length (q_testcase_cache afl) \<and> q_testcase_cache afl ! k = None"
proof -
  let ?c = "q_testcase_cache afl" and ?m = "q_testcase_max_cache_entries afl" and ?f = "q_testcase_smallest_free afl"
  have lim: "limits_ok ?c ?m (q_testcase_max_cache_count afl) ?f" and cnt: "unat (q_testcase_cache_count afl) = taken ?c"
    using assms(1) by (simp_all add: cache_wf_def)
  have "q_testcase_cache_count afl < ?m - 1" using assms(2) by (simp add: cache_full_def not_le)
  moreover have "unat (?m - 1) = unat ?m - 1" using lim by (subst unat_minus_one) (auto simp: limits_ok_def)
  moreover have "unat ?m \<le> length ?c" using lim by (simp add: limits_ok_def)
  ultimately have "taken ?c < length ?c" using cnt by (simp add: word_less_nat_alt)
  then obtain j where j: "j < length ?c" "?c ! j = None" using taken_lt_free by blast
  have "unat ?f \<le> j" using lim j by (auto simp: limits_ok_def not_less [symmetric])
  moreover have "unat tid < length ?c \<and> ?c ! unat tid = None" if "\<not> tid \<ge> ?m"
    using assms(3) lim that by (auto simp: limits_ok_def word_less_nat_alt not_le)
  ultimately show ?thesis using free_slot_ok [of "unat ?f" j ?c] free_slot_ok [of "unat tid" "unat tid" ?c] j by auto
qed

lemma limits_ok_fill:
  assumes "limits_ok c m n f" "i < length c" "c ! i = None"
  shows "limits_ok (c[i := Some q]) m
     (if of_nat i \<ge> n then of_nat i + 1 else n)
     (if of_nat i \<ge> n then f else if of_nat i = f then of_nat i + 1 else f)"
proof -
  have i: "unat (of_nat i :: u32) = i" "unat (of_nat i + 1 :: u32) = Suc i"
  proof -
    have lt: "Suc i < 2 ^ 32" using assms(1,2) by (simp add: limits_ok_def)
    then show "unat (of_nat i :: u32) = i" by (intro unat_of_nat_small) simp
    then show "unat (of_nat i + 1 :: u32) = Suc i" using lt by (simp add: unat_word_ariths)
  qed
  have "c[i := Some q] ! j = None" if "unat (if of_nat i \<ge> n then of_nat i + 1 else n) \<le> j" "j < length c" for j
    using that assms(1) i by (cases "i = j") (auto simp: limits_ok_def word_le_nat_alt split: if_splits)
  moreover have "c[i := Some q] ! j \<noteq> None" if "j < unat (if of_nat i \<ge> n then f else if of_nat i = f then of_nat i + 1 else f)" for j
    using that assms i by (cases "i = j") (auto simp: limits_ok_def word_le_nat_alt split: if_splits)
  moreover have "unat (if of_nat i \<ge> n then of_nat i + 1 else n) \<le> length c"
    "unat (if of_nat i \<ge> n then f else if of_nat i = f then of_nat i + 1 else f) \<le> length c"
    using assms i by (auto simp: limits_ok_def)
  ultimately show ?thesis using assms unfolding limits_ok_def by simp
qed

lemma register_fields:
  assumes "r = register i q b a"
  shows "queue_buf r = (queue_buf a)[q := (queue_buf a ! q)\<lparr>testcase_buf := Some b\<rparr>]"
    "q_testcase_cache r = (q_testcase_cache a)[i := Some q]"
    "q_testcase_cache_size r = q_testcase_cache_size a + ucast (q_len (queue_buf a ! q))"
    "q_testcase_cache_count r = q_testcase_cache_count a + 1"
    "q_testcase_max_cache_entries r = q_testcase_max_cache_entries a"
    "q_testcase_max_cache_count r = (if of_nat i \<ge> q_testcase_max_cache_count a then of_nat i + 1 else q_testcase_max_cache_count a)"
    "q_testcase_smallest_free r = (if of_nat i \<ge> q_testcase_max_cache_count a then q_testcase_smallest_free a
       else if of_nat i = q_testcase_smallest_free a then of_nat i + 1 else q_testcase_smallest_free a)"
  unfolding assms by (simp_all add: register_def Let_def q_upd_def)

lemma register_wf:
  assumes wf: "cache_wf a" and i: "i < length (q_testcase_cache a)" "q_testcase_cache a ! i = None"
    and q: "q < length (queue_buf a)" "testcase_buf (queue_buf a ! q) = None"
  shows "cache_wf (register i q b a)"
proof -
  define r where "r = register i q b a"
  let ?e = "(queue_buf a ! q)\<lparr>testcase_buf := Some b\<rparr>" and ?n = "length (queue_buf a)"
  note f = register_fields [OF r_def]
  have slots: "slots_ok (q_testcase_cache a) (queue_buf a)" and cnt: "unat (q_testcase_cache_count a) = taken (q_testcase_cache a)"
    and lim: "limits_ok (q_testcase_cache a) (q_testcase_max_cache_entries a) (q_testcase_max_cache_count a) (q_testcase_smallest_free a)"
    and siz: "q_testcase_cache_size a = (\<Sum>q < ?n. held (queue_buf a ! q))"
    using wf by (simp_all add: cache_wf_def)
  have t: "taken ((q_testcase_cache a)[i := Some q]) = Suc (taken (q_testcase_cache a))"
    using taken_upd [OF i(1), of "Some q"] i(2) by simp
  have "taken (q_testcase_cache a) < 2 ^ 31"
    using taken_le [of "q_testcase_cache a"] lim by (simp add: limits_ok_def)
  then have "unat (q_testcase_cache_count a + 1) = Suc (taken (q_testcase_cache a))"
    using cnt by (simp add: unat_word_ariths)
  moreover have "q_testcase_cache_size a + ucast (q_len (queue_buf a ! q)) = (\<Sum>p < ?n. held ((queue_buf a)[q := ?e] ! p))"
    using siz q sum_nth_upd [OF q(1) order_refl, of held ?e] by (simp add: held_def)
  ultimately have "cache_wf r"
    using slots_ok_fill [OF slots i q, of b] limits_ok_fill [OF lim i, of q]
    unfolding cache_wf_def f t by simp
  then show ?thesis by (simp add: r_def)
qed

lemma register_true:
  assumes "cache_true a w" "q < length (queue_buf a)" "read_case w (queue_buf a ! q) (q_len (queue_buf a ! q)) = Inr b"
  shows "cache_true (register i q b a) w"
  unfolding cache_true_def register_fields [OF refl]
proof (intro allI impI)
  fix p c assume p: "p < length ((queue_buf a)[q := (queue_buf a ! q)\<lparr>testcase_buf := Some b\<rparr>])"
    and c: "testcase_buf ((queue_buf a)[q := (queue_buf a ! q)\<lparr>testcase_buf := Some b\<rparr>] ! p) = Some c"
  show "read_case w ((queue_buf a)[q := (queue_buf a ! q)\<lparr>testcase_buf := Some b\<rparr>] ! p)
      (q_len ((queue_buf a)[q := (queue_buf a ! q)\<lparr>testcase_buf := Some b\<rparr>] ! p)) = Inr c"
    using assms p c by (cases "p = q") (auto simp: cache_true_def read_case_def)
qed

definition roomy :: "u32 \<Rightarrow> u32 \<Rightarrow> ('a) afl_cache_scheme \<Rightarrow> (u32 \<times> ('a) afl_cache_scheme) res \<Rightarrow> bool" where
  "roomy len tid afl y \<longleftrightarrow> (case y of
      Inl e \<Rightarrow> e = Hang \<or> (\<exists>m. e = PFatal m)
    | Inr (t, a) \<Rightarrow> cache_wf a \<and> shed afl a \<and> \<not> cache_full a len \<and>
        (t = tid \<and> a = afl \<or> unat t < length (q_testcase_cache a) \<and> q_testcase_cache a ! unat t = None))"

lemma make_room_wf:
  assumes "make_room len tid afl = Some y" "cache_wf afl"
  shows "roomy len tid afl y"
proof -
  have "cache_wf afl \<longrightarrow> roomy len tid afl y"
  proof (rule make_room.raw_induct [OF _ assms(1)])
    fix room and len tid and a :: "'a afl_cache_scheme" and y
    assume IH: "\<And>len tid a y. room len tid a = Some y \<Longrightarrow> cache_wf a \<longrightarrow> roomy len tid a y"
      and step: "(if \<not> cache_full a len then Some (Inr (tid, a))
        else Option.bind (pick_victim (cache_learn len a)) (\<lambda>r. case r of Inl e \<Rightarrow> Some (Inl e)
          | Inr v \<Rightarrow> (case evict (fst v) (snd v) of Inl e \<Rightarrow> Some (Inl e) | Inr afl' \<Rightarrow> room len (fst v) afl'))) = Some y"
    show "cache_wf a \<longrightarrow> roomy len tid a y"
    proof
      assume wf: "cache_wf a"
      note learn = cache_learn_wf [OF wf, of len]
      show "roomy len tid a y"
      proof (cases "cache_full a len")
        case False
        then show ?thesis using step wf by (auto simp: roomy_def)
      next
        case True
        then obtain r where r: "pick_victim (cache_learn len a) = Some r" using step by (auto split: Option.bind_splits)
        note p = pick_victim_wf [OF r conjunct1 [OF learn]]
        show ?thesis
        proof (cases r)
          case (Inl e)
          then show ?thesis using step True r p by (auto simp: roomy_def picked_def)
        next
          case (Inr v)
          obtain t b where v: "v = (t, b)" by fastforce
          have b: "quiet b = quiet (cache_learn len a)" "unat t < length (q_testcase_cache b)" "q_testcase_cache b ! unat t \<noteq> None"
            using p by (auto simp: picked_def Inr v)
          have "cache_wf b" using learn limits_ok_quiet [OF b(1)] by blast
          from evict_wf [OF this b(2,3)] obtain c where c: "evict t b = Inr c" "cache_wf c" "shed b c"
            "unat t < length (q_testcase_cache c)" "q_testcase_cache c ! unat t = None" by blast
          have "room len t c = Some y" using step True r Inr v c(1) by simp
          then have y: "roomy len t c y" using IH c(2) by blast
          have "shed a c"
            using learn c(3) shed_buf_eq [OF quiet_cache(1) [OF b(1), symmetric]] shed_trans by blast
          then show ?thesis
            using y c by (auto simp: roomy_def intro: shed_trans split: sum.splits prod.splits)
        qed
      qed
    qed
  qed
  then show ?thesis using assms(2) by blast
qed

definition unbuffered :: "('a) afl_cache_scheme \<Rightarrow> queue_entry list" where
  "unbuffered afl = map (\<lambda>e. e\<lparr>testcase_buf := None\<rparr>) (queue_buf afl)"

lemma unbuffered_shed: "shed a b \<Longrightarrow> unbuffered b = unbuffered a"
  unfolding unbuffered_def shed_def by (intro nth_equalityI) force+

lemma unbuffered_register:
  "q < length (queue_buf a) \<Longrightarrow> unbuffered (register i q b a) = unbuffered a"
  by (simp add: unbuffered_def register_fields [OF refl] map_update list_update_same_conv)

lemma read_case_errors: "read_case w e len = Inl x \<Longrightarrow> \<exists>m. x = PFatal m"
  by (auto simp: read_case_def split: option.splits if_splits)

lemma load_case:
  assumes wf: "cache_wf afl" "cache_true afl w" "q < length (queue_buf afl)" "testcase_buf (queue_buf afl ! q) = None"
    and room: "make_room (q_len (queue_buf afl ! q)) (q_testcase_max_cache_count afl) afl = Some (Inr (tid, a))"
  shows "\<exists>i. free_slot (q_testcase_cache a) (unat (if tid \<ge> q_testcase_max_cache_entries a
      then q_testcase_smallest_free a else tid)) = Inr i \<and>
    (\<forall>b. read_case w (queue_buf afl ! q) (q_len (queue_buf afl ! q)) = Inr b \<longrightarrow>
      cache_wf (register i q b a) \<and> cache_true (register i q b a) w \<and> unbuffered (register i q b a) = unbuffered afl)"
proof -
  have r: "cache_wf a" "shed afl a" "\<not> cache_full a (q_len (queue_buf afl ! q))"
    "tid = q_testcase_max_cache_count a \<or> unat tid < length (q_testcase_cache a) \<and> q_testcase_cache a ! unat tid = None"
    using make_room_wf [OF room wf(1)] by (auto simp: roomy_def)
  obtain i where i: "free_slot (q_testcase_cache a) (unat (if tid \<ge> q_testcase_max_cache_entries a
      then q_testcase_smallest_free a else tid)) = Inr i" "i < length (q_testcase_cache a)" "q_testcase_cache a ! i = None"
    using not_full_free [OF r(1,3,4)] by blast
  have e: "q < length (queue_buf a)" "queue_buf a ! q = queue_buf afl ! q"
    using r(2) wf(3,4) by (auto simp: shed_def)
  show ?thesis
    using i(1) register_wf [OF r(1) i(2,3) e(1)] register_true [OF cache_true_shed [OF wf(2) r(2)] e(1)]
      wf(4) e unbuffered_register [OF e(1)] unbuffered_shed [OF r(2)]
    by (intro exI [of _ i]) simp
qed

lemma get_transparent:
  assumes "cache_wf afl" "cache_true afl w" "q < length (queue_buf afl)"
  shows "case queue_testcase_get mem_ok afl w q of
      Inr (b, afl') \<Rightarrow> read_case w (queue_buf afl ! q) (q_len (queue_buf afl ! q)) = Inr b \<and>
        cache_wf afl' \<and> cache_true afl' w \<and> unbuffered afl' = unbuffered afl
    | Inl e \<Rightarrow> e = Hang \<or> (\<exists>m. e = PFatal m)"
proof -
  let ?e = "queue_buf afl ! q"
  have get: "q_get afl q = Inr ?e" using assms(3) by (simp add: q_get_def)
  show ?thesis
  proof (cases "q_testcase_max_cache_size afl = 0")
    case True
    then show ?thesis
      using assms read_case_errors [of w ?e "q_len ?e"]
      by (cases "read_case w ?e (q_len ?e)") (auto simp: queue_testcase_get_def get)
  next
    case size: False
    show ?thesis
    proof (cases "testcase_buf ?e")
      case (Some b)
      then show ?thesis using assms size by (auto simp: queue_testcase_get_def get cache_true_def)
    next
      case None
      consider (hang) "make_room (q_len ?e) (q_testcase_max_cache_count afl) afl = None"
        | (error) e where "make_room (q_len ?e) (q_testcase_max_cache_count afl) afl = Some (Inl e)"
        | (room) tid a where "make_room (q_len ?e) (q_testcase_max_cache_count afl) afl = Some (Inr (tid, a))"
        by (metis option.exhaust sum.exhaust prod.exhaust)
      then show ?thesis
      proof cases
        case hang
        then show ?thesis using size None by (simp add: queue_testcase_get_def get)
      next
        case error
        with make_room_wf [OF error assms(1)] size None show ?thesis
          by (simp add: queue_testcase_get_def get roomy_def)
      next
        case room
        note i = load_case [OF assms None room]
        show ?thesis
        proof (cases "read_case w ?e (q_len ?e)")
          case (Inl x)
          then show ?thesis
            using i size None room read_case_errors [OF Inl] by (auto simp: queue_testcase_get_def get Let_def)
        next
          case (Inr b)
          then have "open_read (fname ?e) w \<noteq> None" by (auto simp: read_case_def split: option.splits)
          then show ?thesis
            using i size None room Inr by (auto simp: queue_testcase_get_def get Let_def)
        qed
      qed
    qed
  qed
qed

section \<open>Storing and reloading\<close>

text \<open>Exchanging an entry, with the size counter following its length.\<close>

lemma resize_wf:
  assumes "cache_wf afl" "q < length (queue_buf afl)" "testcase_buf e = None \<longleftrightarrow> testcase_buf (queue_buf afl ! q) = None"
    and "queue_buf afl' = (queue_buf afl)[q := e]"
    and "q_testcase_cache_size afl' = q_testcase_cache_size afl + held e - held (queue_buf afl ! q)"
    and "q_testcase_cache afl' = q_testcase_cache afl" "q_testcase_max_cache_entries afl' = q_testcase_max_cache_entries afl"
      "q_testcase_max_cache_count afl' = q_testcase_max_cache_count afl" "q_testcase_smallest_free afl' = q_testcase_smallest_free afl"
      "q_testcase_cache_count afl' = q_testcase_cache_count afl"
  shows "cache_wf afl'"
proof -
  have "slots_ok (q_testcase_cache afl) (queue_buf afl)" using assms(1) by (simp add: cache_wf_def)
  moreover have "testcase_buf ((queue_buf afl)[q := e] ! p) = None \<longleftrightarrow> testcase_buf (queue_buf afl ! p) = None" for p
    using assms(2,3) by (cases "p = q") simp_all
  ultimately have "slots_ok (q_testcase_cache afl) ((queue_buf afl)[q := e])"
    by (simp add: slots_ok_def)
  moreover have "(\<Sum>p < length (queue_buf afl). held ((queue_buf afl)[q := e] ! p)) = q_testcase_cache_size afl'"
    using assms(1,5) sum_nth_upd [OF assms(2) order_refl, of held e] by (simp add: cache_wf_def)
  ultimately show ?thesis using assms(1) unfolding cache_wf_def assms(4,6-10) by simp
qed

lemma queue_testcase_store_mem_wf:
  assumes wf: "cache_wf afl" "cache_true afl w" "q < length (queue_buf afl)" "testcase_buf (queue_buf afl ! q) = None"
    and mem: "unat (q_len (queue_buf afl ! q)) \<le> length mem"
      "read_case w (queue_buf afl ! q) (q_len (queue_buf afl ! q)) = Inr (take (unat (q_len (queue_buf afl ! q))) mem)"
  shows "\<exists>afl'. queue_testcase_store_mem True afl q mem = Inr afl' \<and> cache_wf afl' \<and> cache_true afl' w \<and>
    unbuffered afl' = unbuffered afl"
proof (cases "cache_full afl (q_len (queue_buf afl ! q))")
  case True
  then show ?thesis using wf by (simp add: queue_testcase_store_mem_def q_get_def)
next
  case False
  obtain i where i: "free_slot (q_testcase_cache afl) (unat (if q_testcase_max_cache_count afl \<ge> q_testcase_max_cache_entries afl
      then q_testcase_smallest_free afl else q_testcase_max_cache_count afl)) = Inr i"
    "i < length (q_testcase_cache afl)" "q_testcase_cache afl ! i = None"
    using not_full_free [OF wf(1) False, of "q_testcase_max_cache_count afl"] by blast
  show ?thesis
    using False mem(1) i(1) register_wf [OF wf(1) i(2,3) wf(3,4)] register_true [OF wf(2,3) mem(2)] unbuffered_register [OF wf(3)] wf(3)
    by (simp add: queue_testcase_store_mem_def q_get_def Let_def)
qed

lemma cache_true_upd:
  assumes "cache_true afl w" "\<And>p. p < length (queue_buf afl) \<Longrightarrow> p \<noteq> q \<Longrightarrow>
      read_case w' (queue_buf afl ! p) (q_len (queue_buf afl ! p)) = read_case w (queue_buf afl ! p) (q_len (queue_buf afl ! p))"
    and "queue_buf afl' = (queue_buf afl)[q := e]" "\<And>b. testcase_buf e = Some b \<Longrightarrow> read_case w' e (q_len e) = Inr b"
  shows "cache_true afl' w'"
  unfolding cache_true_def assms(3)
proof (intro allI impI)
  fix p b assume "p < length ((queue_buf afl)[q := e])" "testcase_buf ((queue_buf afl)[q := e] ! p) = Some b"
  then show "read_case w' ((queue_buf afl)[q := e] ! p) (q_len ((queue_buf afl)[q := e] ! p)) = Inr b"
    using assms(1,2,4) by (cases "p = q") (auto simp: cache_true_def)
qed

text \<open>
  Trimming rewrites an entry's file and sets its length; then the cached copy is brought up to
  date, from the file (\<open>queue_testcase_retake\<close>) or from memory (\<open>queue_testcase_retake_mem\<close>).
  The trimmer works in the cached buffer itself, so by then its bytes may have changed.
\<close>

lemma queue_testcase_retake_wf:
  assumes "cache_wf afl" "cache_true afl w" "q < length (queue_buf afl)"
    and "\<And>p. p < length (queue_buf afl) \<Longrightarrow> p \<noteq> q \<Longrightarrow>
      read_case w' (queue_buf afl ! p) (q_len (queue_buf afl ! p)) = read_case w (queue_buf afl ! p) (q_len (queue_buf afl ! p))"
    and "queue_testcase_retake True (q_upd q (\<lambda>e. e\<lparr>q_len := len\<rparr>) afl) w' q (q_len (queue_buf afl ! q)) = Inr afl'"
  shows "cache_wf afl' \<and> cache_true afl' w'"
proof (cases "testcase_buf (queue_buf afl ! q)")
  case None
  let ?e = "(queue_buf afl ! q)\<lparr>q_len := len\<rparr>"
  have afl': "afl' = q_upd q (\<lambda>e. e\<lparr>q_len := len\<rparr>) afl"
    using assms(3,5) None by (simp add: queue_testcase_retake_def q_get_def q_upd_def)
  then have b: "queue_buf afl' = (queue_buf afl)[q := ?e]" by (simp add: q_upd_def)
  have "cache_wf afl'"
    by (rule resize_wf [OF assms(1,3) _ b]) (simp_all add: None afl' q_upd_def held_def)
  moreover have "cache_true afl' w'" by (rule cache_true_upd [OF assms(2,4) b]) (auto simp: None)
  ultimately show ?thesis by blast
next
  case (Some c)
  obtain b where b: "read_case w' ((queue_buf afl ! q)\<lparr>q_len := len\<rparr>) len = Inr b"
    using assms(3,5) Some by (auto simp: queue_testcase_retake_def q_get_def q_upd_def Let_def split: if_splits)
  let ?e = "(queue_buf afl ! q)\<lparr>q_len := len, testcase_buf := Some b\<rparr>"
  have afl': "queue_buf afl' = (queue_buf afl)[q := ?e]"
    "q_testcase_cache_size afl' = q_testcase_cache_size afl + held ?e - held (queue_buf afl ! q)"
    "q_testcase_cache afl' = q_testcase_cache afl" "q_testcase_max_cache_entries afl' = q_testcase_max_cache_entries afl"
      "q_testcase_max_cache_count afl' = q_testcase_max_cache_count afl" "q_testcase_smallest_free afl' = q_testcase_smallest_free afl"
      "q_testcase_cache_count afl' = q_testcase_cache_count afl"
    using assms(3,5) Some b
    by (auto simp: queue_testcase_retake_def q_get_def q_upd_def Let_def held_def split: if_splits)
  have "cache_wf afl'" by (rule resize_wf [OF assms(1,3) _ afl']) (simp add: Some)
  moreover have "cache_true afl' w'"
  proof (rule cache_true_upd [OF assms(2,4) afl'(1)])
    fix x assume "testcase_buf ?e = Some x"
    then show "read_case w' ?e (q_len ?e) = Inr x" using b by (simp add: read_case_def)
  qed
  ultimately show ?thesis by blast
qed

lemma queue_testcase_retake_mem_wf:
  assumes "cache_wf afl" "cache_true afl w" "q < length (queue_buf afl)"
    and "\<And>p. p < length (queue_buf afl) \<Longrightarrow> p \<noteq> q \<Longrightarrow>
      read_case w' (queue_buf afl ! p) (q_len (queue_buf afl ! p)) = read_case w (queue_buf afl ! p) (q_len (queue_buf afl ! p))"
    and c: "testcase_buf (queue_buf afl ! q) = Some c"
    and len: "len \<le> q_len (queue_buf afl ! q)" "unat len \<le> length d" "same \<longrightarrow> d = mem" "unat len \<le> length mem"
    and new: "read_case w' (queue_buf afl ! q) len = Inr (take (unat len) mem)"
    and run: "queue_testcase_retake_mem True junk same (q_upd q (\<lambda>e. e\<lparr>q_len := len, testcase_buf := Some d\<rparr>) afl) q mem len
      (q_len (queue_buf afl ! q)) = Inr afl'" and full: "len = q_len (queue_buf afl ! q) \<longrightarrow> length d = unat len"
  shows "cache_wf afl' \<and> cache_true afl' w'"
proof -
  let ?e = "(queue_buf afl ! q)\<lparr>q_len := len, testcase_buf := Some (take (unat len) mem)\<rparr>"
  have afl': "queue_buf afl' = (queue_buf afl)[q := ?e]"
    "q_testcase_cache_size afl' = q_testcase_cache_size afl + held ?e - held (queue_buf afl ! q)"
    "q_testcase_cache afl' = q_testcase_cache afl" "q_testcase_max_cache_entries afl' = q_testcase_max_cache_entries afl"
      "q_testcase_max_cache_count afl' = q_testcase_max_cache_count afl" "q_testcase_smallest_free afl' = q_testcase_smallest_free afl"
      "q_testcase_cache_count afl' = q_testcase_cache_count afl"
    using assms(3) run c len full
    by (auto simp: queue_testcase_retake_mem_def q_get_def q_upd_def Let_def held_def split: if_splits)
  have "cache_wf afl'" by (rule resize_wf [OF assms(1,3) _ afl']) (simp add: c)
  moreover have "cache_true afl' w'"
  proof (rule cache_true_upd [OF assms(2,4) afl'(1)])
    fix x assume "testcase_buf ?e = Some x"
    then show "read_case w' ?e (q_len ?e) = Inr x" using new by (simp add: read_case_def)
  qed
  ultimately show ?thesis by blast
qed

text \<open>
  What happens to the cache while the fuzzer runs: entries are fetched and stored, and trimmed
  files are reloaded. A rule may assume of the files only what the caller has just written.
\<close>

definition other_files_same :: "('a) afl_cache_scheme \<Rightarrow> nat \<Rightarrow> world \<Rightarrow> world \<Rightarrow> bool" where
  "other_files_same afl q w w' \<longleftrightarrow>
     (\<forall>p < length (queue_buf afl). p \<noteq> q \<longrightarrow> open_read (fname (queue_buf afl ! p)) w' = open_read (fname (queue_buf afl ! p)) w)"

inductive cache_step :: "('a) afl_cache_scheme \<times> world \<Rightarrow> ('a) afl_cache_scheme \<times> world \<Rightarrow> bool" where
  get: "queue_testcase_get m afl w q = Inr (b, afl') \<Longrightarrow> q < length (queue_buf afl) \<Longrightarrow> cache_step (afl, w) (afl', w)"
| store: "queue_testcase_store_mem True afl q mem = Inr afl' \<Longrightarrow> q < length (queue_buf afl) \<Longrightarrow>
    testcase_buf (queue_buf afl ! q) = None \<Longrightarrow> unat (q_len (queue_buf afl ! q)) \<le> length mem \<Longrightarrow>
    read_case w (queue_buf afl ! q) (q_len (queue_buf afl ! q)) = Inr (take (unat (q_len (queue_buf afl ! q))) mem) \<Longrightarrow>
    cache_step (afl, w) (afl', w)"
| retake: "queue_testcase_retake True (q_upd q (\<lambda>e. e\<lparr>q_len := len\<rparr>) afl) w' q (q_len (queue_buf afl ! q)) = Inr afl' \<Longrightarrow>
    q < length (queue_buf afl) \<Longrightarrow> other_files_same afl q w w' \<Longrightarrow> cache_step (afl, w) (afl', w')"
| retake_mem: "queue_testcase_retake_mem True junk same (q_upd q (\<lambda>e. e\<lparr>q_len := len, testcase_buf := Some d\<rparr>) afl) q mem len
      (q_len (queue_buf afl ! q)) = Inr afl' \<Longrightarrow>
    q < length (queue_buf afl) \<Longrightarrow> testcase_buf (queue_buf afl ! q) \<noteq> None \<Longrightarrow> other_files_same afl q w w' \<Longrightarrow>
    len < q_len (queue_buf afl ! q) \<Longrightarrow> unat len \<le> length d \<Longrightarrow> (same \<Longrightarrow> d = mem) \<Longrightarrow> unat len \<le> length mem \<Longrightarrow>
    read_case w' (queue_buf afl ! q) len = Inr (take (unat len) mem) \<Longrightarrow> cache_step (afl, w) (afl', w')"

inductive_cases cache_stepE: "cache_step s t"

lemma other_files_read:
  "other_files_same afl q w w' \<Longrightarrow> p < length (queue_buf afl) \<Longrightarrow> p \<noteq> q \<Longrightarrow>
     read_case w' (queue_buf afl ! p) n = read_case w (queue_buf afl ! p) n"
  by (simp add: other_files_same_def read_case_def)

lemma cache_step_inv:
  assumes "cache_step s t" "cache_wf (fst s)" "cache_true (fst s) (snd s)"
  shows "cache_wf (fst t) \<and> cache_true (fst t) (snd t)"
  using assms
proof cases
  case (get m afl w q b afl')
  then show ?thesis using get_transparent [of afl w q m] assms(2,3) by simp
next
  case (store afl q mem afl' w)
  then show ?thesis using queue_testcase_store_mem_wf [of afl w q mem] assms(2,3) by auto
next
  case (retake q len afl w' afl' w)
  then show ?thesis
    using queue_testcase_retake_wf [of afl w q w' len afl'] other_files_read [of afl q w w'] assms(2,3) by simp
next
  case (retake_mem junk same q d len afl mem afl' w w')
  then obtain c where c: "testcase_buf (queue_buf afl ! q) = Some c" by blast
  have len: "len \<le> q_len (queue_buf afl ! q)" "len = q_len (queue_buf afl ! q) \<longrightarrow> length d = unat len"
    using retake_mem(7) by auto
  have "same \<longrightarrow> d = mem" using retake_mem(9) by blast
  then have "cache_wf afl' \<and> cache_true afl' w'"
    using queue_testcase_retake_mem_wf [OF _ _ retake_mem(4) _ c len(1) retake_mem(8) _ retake_mem(10,11,3) len(2), of w]
      other_files_read [OF retake_mem(6)] assms(2,3) retake_mem(1) by simp
  then show ?thesis by (simp add: retake_mem(2))
qed

text \<open>C20. The cache is transparent and safe. From a well-formed cache whose buffers agree with the
  files, \<open>queue_testcase_get\<close> returns exactly what reading the entry's file would have returned,
  keeps the cache well formed and truthful, and changes no entry but for its buffer; otherwise
  it ends with a failed system call or does not return: it never reads outside the slot array
  or through an empty slot.\<close>

theorem queue_testcase_get_transparent:
  assumes "cache_wf afl" "cache_true afl w" "q < length (queue_buf afl)"
  shows "case queue_testcase_get mem_ok afl w q of
      Inr (b, afl') \<Rightarrow> read_case w (queue_buf afl ! q) (q_len (queue_buf afl ! q)) = Inr b \<and>
        cache_wf afl' \<and> cache_true afl' w \<and> unbuffered afl' = unbuffered afl
    | Inl e \<Rightarrow> e = Hang \<or> (\<exists>m. e = PFatal m)"
  by (rule get_transparent [OF assms])

text \<open>A cache of one free slot.\<close>

definition cache_example :: afl_cache where
  "cache_example = zero_afl\<lparr>queue_buf := [zero_entry\<lparr>fname := ''/a'', q_len := 2\<rparr>], q_testcase_cache := [None, None],
     q_testcase_max_cache_entries := 2, q_testcase_max_cache_size := 100\<rparr>"

definition cache_world :: world where
  "cache_world = empty_world\<lparr>files := (files empty_world)(''/a'' := Some [7, 8, 9])\<rparr>"

lemma cache_example_wf: "cache_wf cache_example" "cache_true cache_example cache_world"
  by (simp_all add: cache_wf_def slots_ok_def limits_ok_def taken_def cache_true_def held_def cache_example_def
      zero_afl_def zero_entry_def less_Suc_eq)

lemma cache_example_get:
  "queue_testcase_get True cache_example cache_world 0 = Inr ([7, 8], register 0 0 [7, 8] cache_example)"
proof -
  have "\<not> cache_full cache_example 2" by (simp add: cache_full_def cache_example_def zero_afl_def)
  then have "make_room 2 0 cache_example = Some (Inr (0, cache_example))" by (subst make_room.simps) simp
  then show ?thesis
    by (simp add: queue_testcase_get_def q_get_def read_case_def open_read_def free_slot.simps
        cache_example_def zero_afl_def zero_entry_def cache_world_def empty_world_def)
qed

theorem queue_testcase_get_transparent_witness:
  "\<exists>afl'. queue_testcase_get True cache_example cache_world 0 = Inr ([7, 8], afl') \<and> cache_wf afl'"
  using queue_testcase_get_transparent [OF cache_example_wf, of 0 True] cache_example_get
  by (auto simp: cache_example_def)

text \<open>A cache limited to one entry (\<open>AFL_TESTCACHE_ENTRIES=1\<close>) hangs the fuzzer: the very first
  \<open>queue_testcase_get\<close> takes the empty cache for a full one and waits forever for a slot to evict.\<close>

theorem queue_testcase_get_one_entry_hangs:
  assumes "q_testcase_max_cache_entries afl = 1" "q_testcase_max_cache_size afl \<noteq> 0"
    and "q_testcase_cache afl = [None]" "q_testcase_max_cache_count afl = 0" "q_testcase_cache_count afl = 0"
    and "ucast (q_len (queue_buf afl ! q)) < q_testcase_max_cache_size afl" "q_testcase_cache_size afl = 0"
    and "q < length (queue_buf afl)" "testcase_buf (queue_buf afl ! q) = None"
  shows "queue_testcase_get mem_ok afl w q = Inl Hang"
proof -
  have rb: "rand_below afl 0 = Inr (0, afl)" by (simp add: rand_below_def)
  have "pick_victim afl = None"
  proof (rule ccontr)
    assume "pick_victim afl \<noteq> None"
    then obtain y where y: "pick_victim afl = Some y" by blast
    have "a = afl \<longrightarrow> False" if "pick_victim a = Some y" for a
    proof (rule pick_victim.raw_induct [OF _ that])
      fix pick a y
      assume IH: "\<And>a y. pick a = Some y \<Longrightarrow> a = afl \<longrightarrow> False"
        and step: "(case rand_below a (q_testcase_max_cache_count a) of Inl e \<Rightarrow> Some (Inl e)
        | Inr r \<Rightarrow> (case rd (q_testcase_cache (snd r)) (unat (fst r)) of Inl e \<Rightarrow> Some (Inl e)
           | Inr c \<Rightarrow> if c = None \<or> c = queue_cur (snd r) then pick (snd r) else Some (Inr r))) = Some y"
      show "a = afl \<longrightarrow> False"
      proof
        assume "a = afl"
        then have "pick afl = Some y" using step assms(3,4) rb by simp
        then show False using IH by blast
      qed
    qed
    then show False using y by blast
  qed
  moreover have "cache_learn (q_len (queue_buf afl ! q)) afl = afl" 
  proof -
    have "\<not> q_testcase_cache_size afl + ucast (q_len (queue_buf afl ! q)) \<ge> q_testcase_max_cache_size afl"
      using assms(6,7) by simp
    then show ?thesis by (simp only: cache_learn_def simp_thms if_False)
  qed
  moreover have "cache_full afl (q_len (queue_buf afl ! q))" using assms(1,5) by (simp add: cache_full_def)
  ultimately have "make_room (q_len (queue_buf afl ! q)) (q_testcase_max_cache_count afl) afl = None"
    by (subst make_room.simps) simp
  then show ?thesis using assms by (simp add: queue_testcase_get_def q_get_def)
qed

theorem queue_testcase_get_one_entry_hangs_witness:
  "queue_testcase_get True (cache_example\<lparr>q_testcase_max_cache_entries := 1, q_testcase_cache := [None]\<rparr>) cache_world 0 = Inl Hang"
  by (rule queue_testcase_get_one_entry_hangs) (simp_all add: cache_example_def zero_afl_def zero_entry_def)

text \<open>C33. Whatever sequence of fetches, stores and reloads the fuzzer runs, the cache stays well
  formed and every cached buffer stays the beginning of its entry's file.\<close>

theorem cache_steps_invariant:
  assumes "cache_step\<^sup>*\<^sup>* (afl, w) (afl', w')" "cache_wf afl" "cache_true afl w"
  shows "cache_wf afl' \<and> cache_true afl' w'"
proof -
  have "cache_step\<^sup>*\<^sup>* s t \<Longrightarrow> cache_wf (fst s) \<and> cache_true (fst s) (snd s) \<Longrightarrow>
      cache_wf (fst t) \<and> cache_true (fst t) (snd t)" for s t :: "'a afl_cache_scheme \<times> world"
    by (induction rule: rtranclp_induct) (use cache_step_inv in blast)+
  from this [OF assms(1)] show ?thesis using assms(2,3) by simp
qed

theorem cache_steps_invariant_witness:
  "\<exists>afl'. queue_testcase_get True cache_example cache_world 0 = Inr ([7, 8], afl') \<and>
    cache_wf afl' \<and> cache_true afl' cache_world"
proof -
  obtain afl' where g: "queue_testcase_get True cache_example cache_world 0 = Inr ([7, 8], afl')"
    using cache_example_get by blast
  then have "cache_step (cache_example, cache_world) (afl', cache_world)"
    by (rule cache_step.get) (simp add: cache_example_def)
  then show ?thesis using cache_steps_invariant [OF r_into_rtranclp cache_example_wf] g by blast
qed

section \<open>The cache as an interface\<close>

text \<open>
  What the stages of the fuzzer rely on: in every state that satisfies the invariant, fetching an
  entry yields its content and leaves a state that satisfies it, with the same contents.
\<close>

locale case_store =
  fixes inv :: "'s \<Rightarrow> bool"
    and content :: "'s \<Rightarrow> 'k \<Rightarrow> 'v"
    and fetch :: "'s \<Rightarrow> 'k \<Rightarrow> ('v \<times> 's) option"
  assumes fetch_content: "inv s \<Longrightarrow> fetch s k = Some (v, s') \<Longrightarrow> v = content s k"
    and fetch_inv: "inv s \<Longrightarrow> fetch s k = Some (v, s') \<Longrightarrow> inv s'"
    and fetch_same: "inv s \<Longrightarrow> fetch s k = Some (v, s') \<Longrightarrow> content s' k' = content s k'"
begin

lemma fetch_again:
  assumes "inv s" "fetch s k = Some (v, s')" "fetch s' k = Some (v', s'')"
  shows "v' = v"
  using fetch_content [OF assms(1,2)] fetch_content [OF fetch_inv [OF assms(1,2)] assms(3)]
    fetch_same [OF assms(1,2)] by simp

lemma fetch_commute:
  assumes "inv s" "fetch s j = Some (a, s1)" "fetch s1 k = Some (b, s2)"
    and "fetch s k = Some (b', t1)" "fetch t1 j = Some (a', t2)"
  shows "a' = a \<and> b' = b"
  using fetch_content [OF assms(1,2)] fetch_content [OF fetch_inv [OF assms(1,2)] assms(3)]
    fetch_content [OF assms(1,4)] fetch_content [OF fetch_inv [OF assms(1,4)] assms(5)]
    fetch_same [OF assms(1,2)] fetch_same [OF assms(1,4)] by simp

end

definition fetch_case :: "world \<Rightarrow> ('a) afl_cache_scheme \<Rightarrow> nat \<Rightarrow> (bytes res \<times> ('a) afl_cache_scheme) option" where
  "fetch_case w afl q =
     (if q < length (queue_buf afl)
      then case queue_testcase_get True afl w q of Inl _ \<Rightarrow> None | Inr (b, afl') \<Rightarrow> Some (Inr b, afl')
      else None)"

definition case_content :: "world \<Rightarrow> ('a) afl_cache_scheme \<Rightarrow> nat \<Rightarrow> bytes res" where
  "case_content w afl q =
     (if q < length (queue_buf afl) then read_case w (queue_buf afl ! q) (q_len (queue_buf afl ! q)) else Inl Oob)"

lemma case_content_unbuffered: "unbuffered afl' = unbuffered afl \<Longrightarrow> case_content w afl' q = case_content w afl q"
proof -
  assume eq: "unbuffered afl' = unbuffered afl"
  then have len: "length (queue_buf afl') = length (queue_buf afl)" unfolding unbuffered_def by (metis length_map)
  have "read_case w (queue_buf afl' ! q) (q_len (queue_buf afl' ! q)) = read_case w (queue_buf afl ! q) (q_len (queue_buf afl ! q))"
    if q: "q < length (queue_buf afl)"
  proof -
    have "(queue_buf afl' ! q)\<lparr>testcase_buf := None\<rparr> = (queue_buf afl ! q)\<lparr>testcase_buf := None\<rparr>"
      using arg_cong [OF eq, of "\<lambda>b. b ! q"] q len by (simp add: unbuffered_def)
    from arg_cong [OF this, of fname] arg_cong [OF this, of q_len] show ?thesis by (simp add: read_case_def)
  qed
  then show ?thesis using len by (simp add: case_content_def)
qed

lemma fetch_case_Some:
  assumes "cache_wf afl \<and> cache_true afl w" "fetch_case w afl q = Some (v, afl')"
  shows "v = case_content w afl q \<and> cache_wf afl' \<and> cache_true afl' w \<and> unbuffered afl' = unbuffered afl"
  using assms get_transparent [of afl w q True]
  by (auto simp: fetch_case_def case_content_def split: if_splits sum.splits prod.splits)

interpretation testcases: case_store "\<lambda>afl. cache_wf afl \<and> cache_true afl w" "case_content w" "fetch_case w"
proof unfold_locales
  fix s s' :: "'a afl_cache_scheme" and k k' v
  assume inv: "cache_wf s \<and> cache_true s w" and f: "fetch_case w s k = Some (v, s')"
  note r = fetch_case_Some [OF inv f]
  show "v = case_content w s k" "cache_wf s' \<and> cache_true s' w" using r by blast+
  show "case_content w s' k' = case_content w s k'" using r case_content_unbuffered by blast
qed

text \<open>Splicing never depends on the order in which test cases are fetched: two entries fetched in
  either order give the same bytes, whatever is evicted in between.\<close>

theorem queue_testcase_get_commute:
  assumes "cache_wf afl" "cache_true afl w"
    and "fetch_case w afl j = Some (a, s1)" "fetch_case w s1 k = Some (b, s2)"
    and "fetch_case w afl k = Some (b', t1)" "fetch_case w t1 j = Some (a', t2)"
  shows "a' = a \<and> b' = b"
  using testcases.fetch_commute [OF _ assms(3-6)] assms(1,2) by blast

theorem queue_testcase_get_commute_witness:
  "\<exists>s1 s2. fetch_case cache_world cache_example 0 = Some (Inr [7, 8], s1) \<and>
    fetch_case cache_world s1 0 = Some (Inr [7, 8], s2)"
proof -
  let ?r = "register 0 0 [7, 8] cache_example"
  have a: "fetch_case cache_world cache_example 0 = Some (Inr [7, 8], ?r)"
    using cache_example_get by (simp add: fetch_case_def) (simp add: cache_example_def)
  have "queue_testcase_get True ?r cache_world 0 = Inr ([7, 8], ?r)"
    by (simp add: queue_testcase_get_def q_get_def register_def q_upd_def cache_example_def zero_afl_def)
  then have b: "fetch_case cache_world ?r 0 = Some (Inr [7, 8], ?r)"
    by (simp add: fetch_case_def) (simp add: register_def q_upd_def cache_example_def Let_def)
  from queue_testcase_get_commute [OF cache_example_wf a b a b] a b show ?thesis by blast
qed

end
