(* ===== verification/Det_Helpers.thy ===== *)
theory Det_Helpers
  imports Rng
begin

text \<open>
  The helper functions at the head of src/afl-fuzz-one.c: the choice of a mutation operator
  (\<open>select_algorithm\<close>), of a block length (\<open>choose_block_len\<close>), the three filters that spare the
  deterministic stages repeated work (\<open>could_be_bitflip\<close>, \<open>could_be_arith\<close>,
  \<open>could_be_interest\<close>) and \<open>locate_diffs\<close>. A \<open>u8\<close> that is used as a truth value is a \<open>bool\<close>.
\<close>

declare of_nat_unat [simp del]

section \<open>Random choices\<close>

text \<open>The part of \<open>afl_state_t\<close> the MOpt scheduler and the block lengths read.\<close>

record afl_mopt = afl_cache +
  swarm_now :: nat
  probability_now :: "real list list"
  queue_cycle :: u64
  run_over10m :: bool

definition STAGE_VAL_NONE :: u8 where "STAGE_VAL_NONE = 0"
definition STAGE_VAL_LE :: u8 where "STAGE_VAL_LE = 1"
definition STAGE_VAL_BE :: u8 where "STAGE_VAL_BE = 2"

definition operator_num :: nat where "operator_num = 19"

text \<open>The first operator whose cumulative probability exceeds the draw, \<open>operator_num\<close> if none does.\<close>

function first_above :: "real list \<Rightarrow> real \<Rightarrow> nat \<Rightarrow> nat res" where
  "first_above ps sele i =
     (if i < operator_num
      then bnd (rd ps i) (\<lambda>p. if sele < p then Inr i else first_above ps sele (Suc i))
      else Inr i)"
  by pat_completeness auto
termination by (relation "measure (\<lambda>(ps, sele, i). operator_num - i)") auto

declare first_above.simps [simp del]

definition select_algorithm :: "('a) afl_mopt_scheme \<Rightarrow> nat \<Rightarrow> (nat \<times> ('a) afl_mopt_scheme) res" where
  "select_algorithm afl max_algorithm =
     bnd (rd (probability_now afl) (swarm_now afl)) (\<lambda>ps.
     bnd (rd ps (max_algorithm - 1)) (\<lambda>range_sele.
     bnd (rand_below afl 10000) (\<lambda>(r, afl').
     let sele = real (unat r) * 0.0001 * range_sele in
     bnd (first_above ps sele 0) (\<lambda>i.
     bnd (if 0 < i \<and> i < operator_num then bnd (rd ps (i - 1)) (\<lambda>p. Inr (sele < p)) else Inr False) (\<lambda>low.
     bnd (if i + 1 < operator_num then bnd (rd ps (i + 1)) (\<lambda>p. Inr (sele > p)) else Inr False) (\<lambda>high.
     if low \<or> high then Inl (Fatal ''error select_algorithm'') else Inr (i, afl')))))))"

definition HAVOC_BLK_SMALL :: u32 where "HAVOC_BLK_SMALL = 32"
definition HAVOC_BLK_MEDIUM :: u32 where "HAVOC_BLK_MEDIUM = 128"
definition HAVOC_BLK_LARGE :: u32 where "HAVOC_BLK_LARGE = 1500"
definition HAVOC_BLK_XL :: u32 where "HAVOC_BLK_XL = 32768"

definition block_range :: "('a) afl_mopt_scheme \<Rightarrow> (u32 \<times> u32 \<times> ('a) afl_mopt_scheme) res" where
  "block_range afl =
     (let rlim = (if run_over10m afl then ucast (min (queue_cycle afl) 3) else 1) in
      bnd (rand_below afl rlim) (\<lambda>(c, a1).
      if c = 0 then Inr (1, HAVOC_BLK_SMALL, a1)
      else if c = 1 then Inr (HAVOC_BLK_SMALL, HAVOC_BLK_MEDIUM, a1)
      else bnd (rand_below a1 10) (\<lambda>(d, a2).
        if d \<noteq> 0 then Inr (HAVOC_BLK_MEDIUM, HAVOC_BLK_LARGE, a2)
        else Inr (HAVOC_BLK_LARGE, HAVOC_BLK_XL, a2))))"

definition choose_block_len :: "('a) afl_mopt_scheme \<Rightarrow> u32 \<Rightarrow> (u32 \<times> ('a) afl_mopt_scheme) res" where
  "choose_block_len afl limit =
     bnd (block_range afl) (\<lambda>(min_value, max_value, a2).
     let min1 = (if min_value \<ge> limit then 1 else min_value) in
     bnd (rand_below a2 (min max_value limit - min1 + 1)) (\<lambda>(r, a3). Inr (min1 + r, a3)))"

section \<open>Filters\<close>

text \<open>\<open>while (!(xor_val & 1)) { ++sh; xor_val >>= 1; }\<close>, for a value that is not zero.\<close>

function shift_out :: "u32 \<Rightarrow> u32 \<Rightarrow> u32 \<times> u32" where
  "shift_out xor_val sh =
     (if xor_val = 0 \<or> xor_val AND 1 \<noteq> 0 then (xor_val, sh) else shift_out (drop_bit 1 xor_val) (sh + 1))"
  by pat_completeness auto
termination
  by (relation "measure (\<lambda>(x, sh). unat x)") (auto simp: unat_drop_bit unat_gt_0 intro!: div_less_dividend)

declare shift_out.simps [simp del]

definition could_be_bitflip :: "u32 \<Rightarrow> bool" where
  "could_be_bitflip xor_val =
     (if xor_val = 0 then True
      else let (x, sh) = shift_out xor_val 0 in
        if x = 1 \<or> x = 3 \<or> x = 15 then True
        else if sh AND 7 \<noteq> 0 then False
        else x = 0xff \<or> x = 0xffff \<or> x = 0xffffffff)"

definition ARITH_MAX :: nat where "ARITH_MAX = 35"

text \<open>The loops that compare the parts of two values, of width \<open>'c\<close>: the number of differences and
  the last differing pair.\<close>

definition part_diffs :: "'c::len itself \<Rightarrow> nat \<Rightarrow> u32 \<Rightarrow> u32 \<Rightarrow> nat \<times> u32 \<times> u32" where
  "part_diffs _ n old_val new_val =
     foldl (\<lambda>(diffs, ov, nv) i.
        let a = (part_of old_val i :: 'c word); b = part_of new_val i in
        if a \<noteq> b then (diffs + 1, ucast a, ucast b) else (diffs, ov, nv)) (0, 0, 0) [0..<n]"

definition near :: "'c::len itself \<Rightarrow> u32 \<Rightarrow> u32 \<Rightarrow> bool" where
  "near _ ov nv \<longleftrightarrow> unat (ucast (ov - nv) :: 'c word) \<le> ARITH_MAX \<or> unat (ucast (nv - ov) :: 'c word) \<le> ARITH_MAX"

definition SWAP16 :: "u16 \<Rightarrow> u16" where
  "SWAP16 x = push_bit 8 x OR drop_bit 8 x"

definition SWAP32 :: "u32 \<Rightarrow> u32" where
  "SWAP32 x = push_bit 24 x OR drop_bit 24 x OR (push_bit 8 x AND 0x00FF0000) OR (drop_bit 8 x AND 0x0000FF00)"

definition could_be_arith :: "u32 \<Rightarrow> u32 \<Rightarrow> nat \<Rightarrow> bool" where
  "could_be_arith old_val new_val blen =
     (if old_val = new_val then True
      else let (diffs, ov, nv) = part_diffs TYPE(8) blen old_val new_val in
      if diffs = 1 \<and> near TYPE(8) ov nv then True
      else if blen = 1 then False
      else let (diffs, ov, nv) = part_diffs TYPE(16) (blen div 2) old_val new_val in
      if diffs = 1 \<and> near TYPE(16) ov nv then True
      else if diffs = 1 \<and> near TYPE(16) (ucast (SWAP16 (ucast ov))) (ucast (SWAP16 (ucast nv))) then True
      else if blen = 4 then
        near TYPE(32) old_val new_val \<or> near TYPE(32) (SWAP32 old_val) (SWAP32 new_val)
      else False)"

definition interesting_8 :: "int list" where
  "interesting_8 = [-128, -1, 0, 1, 16, 32, 64, 100, 127]"

definition interesting_16 :: "int list" where
  "interesting_16 = interesting_8 @ [-32768, -129, 128, 255, 256, 512, 1000, 1024, 4096, 32767]"

definition interesting_32 :: "int list" where
  "interesting_32 = interesting_16 @ [-2147483648, -100663046, -32769, 32768, 65535, 65536, 100663045, 2147483647]"

text \<open>\<open>(old_val & ~(mask << (i * 8))) | (v << (i * 8))\<close>\<close>

definition insert_at :: "u32 \<Rightarrow> u32 \<Rightarrow> nat \<Rightarrow> u32 \<Rightarrow> u32" where
  "insert_at msk old_val i v = (old_val AND NOT (push_bit (i * 8) msk)) OR push_bit (i * 8) v"

definition could_be_interest :: "u32 \<Rightarrow> u32 \<Rightarrow> nat \<Rightarrow> bool \<Rightarrow> bool" where
  "could_be_interest old_val new_val blen check_le =
     (if old_val = new_val then True
      else if list_ex (\<lambda>i. list_ex (\<lambda>v.
             new_val = insert_at 0xff old_val i (ucast (word_of_int v :: u8))) interesting_8) [0..<blen] then True
      else if blen = 2 \<and> \<not> check_le then False
      else if list_ex (\<lambda>i. list_ex (\<lambda>v. let w = (word_of_int v :: u16) in
             new_val = insert_at 0xffff old_val i (ucast w) \<or>
             (blen > 2 \<and> new_val = insert_at 0xffff old_val i (ucast (SWAP16 w)))) interesting_16) [0..<blen - 1] then True
      else blen = 4 \<and> check_le \<and> list_ex (\<lambda>v. new_val = word_of_int v) interesting_32)"

section \<open>Differences of two buffers\<close>

definition locate_diffs :: "bytes \<Rightarrow> bytes \<Rightarrow> nat \<Rightarrow> (32 word \<times> 32 word) res" where
  "locate_diffs ptr1 ptr2 len =
     foldm (\<lambda>pos (f_loc, l_loc).
       bnd (rd ptr1 pos) (\<lambda>x.
       bnd (rd ptr2 pos) (\<lambda>y.
       Inr (if x \<noteq> y then (if f_loc = - 1 then of_nat pos else f_loc, of_nat pos) else (f_loc, l_loc)))))
     [0..<len] (- 1, - 1)"

section \<open>Properties\<close>

definition diff_span :: "bytes \<Rightarrow> bytes \<Rightarrow> nat \<Rightarrow> 32 word \<times> 32 word \<Rightarrow> bool" where
  "diff_span p q n = (\<lambda>(f, l).
     (\<forall>i < n. p ! i = q ! i) \<and> f = - 1 \<and> l = - 1 \<or>
     (\<exists>a b. a < n \<and> b < n \<and> f = of_nat a \<and> l = of_nat b \<and> p ! a \<noteq> q ! a \<and> p ! b \<noteq> q ! b \<and>
        (\<forall>i < a. p ! i = q ! i) \<and> (\<forall>i < n. b < i \<longrightarrow> p ! i = q ! i)))"

lemma diff_spanI:
  assumes "a < n" "b < n" "p ! a \<noteq> q ! a" "p ! b \<noteq> q ! b" "\<forall>i < a. p ! i = q ! i" "\<forall>i < n. b < i \<longrightarrow> p ! i = q ! i"
  shows "diff_span p q n (of_nat a, of_nat b)"
  unfolding diff_span_def prod.case using assms by blast

text \<open>The first and the last difference: \<open>locate_diffs\<close> stays inside the buffers and returns the
  positions of the first and of the last byte in which they differ, and two times -1 when they
  agree.\<close>

theorem locate_diffs_correct:
  assumes "len \<le> length p" "len \<le> length q" "len < 2 ^ 31"
  shows "\<exists>f l. locate_diffs p q len = Inr (f, l) \<and>
    ((\<forall>i < len. p ! i = q ! i) \<and> f = - 1 \<and> l = - 1 \<or>
     unat f < len \<and> unat l < len \<and> p ! unat f \<noteq> q ! unat f \<and> p ! unat l \<noteq> q ! unat l \<and>
       (\<forall>i < len. p ! i \<noteq> q ! i \<longrightarrow> unat f \<le> i \<and> i \<le> unat l))"
proof -
  have "\<exists>s. locate_diffs p q len = Inr s \<and> diff_span p q len s"
    unfolding locate_diffs_def
  proof (rule foldm_upt_total)
    fix i s assume i: "i < len" and s: "diff_span p q i s"
    obtain f l where fl: "s = (f, l)" by fastforce
    have neg: "(of_nat a :: 32 word) \<noteq> - 1" if "a < i" for a
    proof
      assume "(of_nat a :: 32 word) = - 1"
      then have "unat (of_nat a :: 32 word) = unat (- 1 :: 32 word)" by simp
      then show False using that i assms(3) unat_of_nat_small [where 'a = 32, of a]
        by (simp add: unsigned_minus_1_eq_mask mask_eq_exp_minus_1)
    qed
    show "\<exists>s'. (case s of (f_loc, l_loc) \<Rightarrow> bnd (rd p i) (\<lambda>x. bnd (rd q i) (\<lambda>y.
        Inr (if x \<noteq> y then (if f_loc = - 1 then of_nat i else f_loc, of_nat i) else (f_loc, l_loc))))) = Inr s' \<and>
        diff_span p q (Suc i) s'"
    proof (cases "p ! i = q ! i")
      case True
      then show ?thesis using s i assms(1,2) by (auto simp: fl diff_span_def less_Suc_eq)
    next
      case False
      have step: "(case s of (f_loc, l_loc) \<Rightarrow> bnd (rd p i) (\<lambda>x. bnd (rd q i) (\<lambda>y.
        Inr (if x \<noteq> y then (if f_loc = - 1 then of_nat i else f_loc, of_nat i) else (f_loc, l_loc)))))
        = Inr (if f = - 1 then of_nat i else f, of_nat i)"
        using False i assms(1,2) by (simp add: fl)
      from s fl consider (none) "\<forall>j < i. p ! j = q ! j" "f = - 1"
        | (some) a where "a < i" "f = of_nat a" "p ! a \<noteq> q ! a" "\<forall>j < a. p ! j = q ! j"
        by (auto simp: diff_span_def)
      then have "diff_span p q (Suc i) (if f = - 1 then of_nat i else f, of_nat i)"
      proof cases
        case none
        then have "diff_span p q (Suc i) (of_nat i, of_nat i)"
          using False by (intro diff_spanI) simp_all
        then show ?thesis using none(2) by simp
      next
        case some
        have "f \<noteq> - 1" unfolding some(2) by (rule neg [OF some(1)])
        have "diff_span p q (Suc i) (of_nat a, of_nat i)"
          using some False by (intro diff_spanI) simp_all
        then show ?thesis using \<open>f \<noteq> - 1\<close> some(2) by simp
      qed
      then show ?thesis using step by blast
    qed
  qed (simp add: diff_span_def)
  then obtain f l where fl: "locate_diffs p q len = Inr (f, l)" "diff_span p q len (f, l)" by fastforce
  then consider "(\<forall>i < len. p ! i = q ! i) \<and> f = - 1 \<and> l = - 1"
    | a b where "a < len" "b < len" "f = of_nat a" "l = of_nat b" "p ! a \<noteq> q ! a" "p ! b \<noteq> q ! b"
      "\<forall>i < a. p ! i = q ! i" "\<forall>i < len. b < i \<longrightarrow> p ! i = q ! i"
    by (auto simp: diff_span_def)
  then show ?thesis
  proof cases
    case (2 a b)
    then have "unat f = a" "unat l = b" using assms(3) by (auto intro: unat_of_nat_small)
    moreover have "a \<le> i \<and> i \<le> b" if "i < len" "p ! i \<noteq> q ! i" for i using 2 that by (meson leI)
    ultimately show ?thesis using fl(1) 2 by auto
  qed (use fl(1) in auto)
qed

theorem locate_diffs_correct_witness:
  "\<exists>f l. locate_diffs [1, 2, 3, 4] [1, 5, 3, 6] 4 = Inr (f, l) \<and> unat f \<le> 1 \<and> 1 \<le> unat l"
proof -
  let ?p = "[1, 2, 3, 4] :: bytes" and ?q = "[1, 5, 3, 6] :: bytes"
  have d: "?p ! 1 \<noteq> ?q ! 1" by simp
  obtain f l where r: "locate_diffs ?p ?q 4 = Inr (f, l)"
    and c: "(\<forall>i < 4. ?p ! i = ?q ! i) \<and> f = - 1 \<and> l = - 1 \<or>
     unat f < 4 \<and> unat l < 4 \<and> ?p ! unat f \<noteq> ?q ! unat f \<and> ?p ! unat l \<noteq> ?q ! unat l \<and>
       (\<forall>i < 4. ?p ! i \<noteq> ?q ! i \<longrightarrow> unat f \<le> i \<and> i \<le> unat l)"
    using locate_diffs_correct [of 4 ?p ?q] by auto
  from c have "unat f \<le> 1 \<and> 1 \<le> unat l"
  proof
    assume "(\<forall>i < 4. ?p ! i = ?q ! i) \<and> f = - 1 \<and> l = - 1"
    then show ?thesis using d by (metis one_less_numeral_iff semiring_norm(76))
  next
    assume "unat f < 4 \<and> unat l < 4 \<and> ?p ! unat f \<noteq> ?q ! unat f \<and> ?p ! unat l \<noteq> ?q ! unat l \<and>
       (\<forall>i < 4. ?p ! i \<noteq> ?q ! i \<longrightarrow> unat f \<le> i \<and> i \<le> unat l)"
    then show ?thesis using d by (metis one_less_numeral_iff semiring_norm(76))
  qed
  then show ?thesis using r by blast
qed

lemma block_range_cases:
  assumes "block_range afl = Inr (mn, mx, a)"
  shows "(mn, mx) \<in> {(1, 32), (32, 128), (128, 1500), (1500, 32768)}"
  using assms
  by (auto simp: block_range_def Let_def HAVOC_BLK_SMALL_def HAVOC_BLK_MEDIUM_def HAVOC_BLK_LARGE_def
      HAVOC_BLK_XL_def split: if_splits elim!: bnd_InrE)

text \<open>A block length is never zero and fits the buffer.\<close>

theorem choose_block_len_bounds:
  assumes "0 < limit" "choose_block_len afl limit = Inr (n, afl')"
  shows "1 \<le> n \<and> n \<le> limit \<and> n \<le> HAVOC_BLK_XL"
proof -
  obtain mn mx a2 r where range: "block_range afl = Inr (mn, mx, a2)"
    and r: "rand_below a2 (min mx limit - (if mn \<ge> limit then 1 else mn) + 1) = Inr (r, afl')"
    and n: "n = (if mn \<ge> limit then 1 else mn) + r"
    using assms(2) unfolding choose_block_len_def Let_def
    by (auto elim!: bnd_InrE simp del: diff_add_cancel)
  note c = block_range_cases [OF range]
  define m1 where "m1 = (if mn \<ge> limit then 1 else mn)"
  define top where "top = min mx limit"
  have b: "1 \<le> unat m1" "unat m1 \<le> unat top" "unat top \<le> unat limit" "unat top \<le> 32768"
    using c assms(1) by (auto simp: m1_def top_def min_def word_le_nat_alt word_less_nat_alt)
  have d: "unat (top - m1 + 1) = unat top - unat m1 + 1"
    using b by (simp add: unat_word_ariths unat_sub word_le_nat_alt)
  have "r = 0 \<or> r < top - m1 + 1" using rand_below_lt [OF r] by (simp add: m1_def top_def)
  then have "unat r \<le> unat top - unat m1" using d by (auto simp: word_less_nat_alt)
  then have "unat (m1 + r) = unat m1 + unat r" "unat m1 + unat r \<le> unat top"
    using b by (simp_all add: unat_word_ariths)
  moreover have "n = m1 + r" using n by (simp only: m1_def)
  ultimately show ?thesis using b by (simp add: word_le_nat_alt HAVOC_BLK_XL_def)
qed

definition mopt_ready :: "('a) afl_mopt_scheme \<Rightarrow> nat \<Rightarrow> bool" where
  "mopt_ready afl n \<longleftrightarrow> 0 < n \<and> n \<le> operator_num \<and> swarm_now afl < length (probability_now afl) \<and>
     (let ps = probability_now afl ! swarm_now afl in length ps = operator_num \<and> sorted ps \<and> 0 < ps ! (n - 1))"

lemma first_above_spec:
  assumes "sele < ps ! m" "i \<le> m" "m < operator_num" "length ps = operator_num"
  shows "\<exists>k. first_above ps sele i = Inr k \<and> i \<le> k \<and> k \<le> m \<and> sele < ps ! k \<and> (\<forall>j. i \<le> j \<longrightarrow> j < k \<longrightarrow> ps ! j \<le> sele)"
  using assms
proof (induction ps sele i rule: first_above.induct)
  case (1 ps sele i)
  show ?case
  proof (cases "sele < ps ! i")
    case True
    then show ?thesis using 1 by (subst first_above.simps) auto
  next
    case False
    then have "Suc i \<le> m" using 1(2,3) by (metis Suc_leI le_neq_implies_less)
    then obtain k where k: "first_above ps sele (Suc i) = Inr k" "Suc i \<le> k" "k \<le> m" "sele < ps ! k"
      "\<forall>j. Suc i \<le> j \<longrightarrow> j < k \<longrightarrow> ps ! j \<le> sele"
      using 1 False by auto
    have "ps ! j \<le> sele" if "i \<le> j" "j < k" for j using that k(5) False by (cases "j = i") auto
    then show ?thesis using k 1(3-5) False by (subst first_above.simps) auto
  qed
qed

definition mopt_example :: afl_mopt where
  "mopt_example = afl_cache.extend zero_afl \<lparr>swarm_now = 0, probability_now = [map (\<lambda>i. real (i + 1)) [0..<19]],
     queue_cycle = 0, run_over10m = False\<rparr>"

theorem choose_block_len_bounds_witness:
  "choose_block_len (mopt_example\<lparr>fixed_seed := True\<rparr>) 1 = Inr (1, mopt_example\<lparr>fixed_seed := True\<rparr>) \<and> (1 :: u32) \<le> HAVOC_BLK_XL"
proof -
  have "choose_block_len (mopt_example\<lparr>fixed_seed := True\<rparr>) 1 = Inr (1, mopt_example\<lparr>fixed_seed := True\<rparr>)"
    by (simp add: choose_block_len_def block_range_def rand_below_def mopt_example_def afl_cache.extend_def
        HAVOC_BLK_SMALL_def)
  then show ?thesis using choose_block_len_bounds [of 1 "mopt_example\<lparr>fixed_seed := True\<rparr>" 1] by auto
qed

text \<open>MOpt draws operators by inverse transform sampling: with cumulative probabilities that do
  not decrease and a positive total, \<open>select_algorithm\<close> never reports an error, and the
  operator it returns is one of the first \<open>max_algorithm\<close>, the one whose slice of the
  cumulative distribution holds the draw.\<close>

theorem select_algorithm_inverse:
  assumes "mopt_ready afl n" "rand_below afl 10000 = Inr (r, afl')"
  shows "\<exists>i. select_algorithm afl n = Inr (i, afl') \<and> i < n \<and>
    (let ps = probability_now afl ! swarm_now afl; sele = real (unat r) * 0.0001 * ps ! (n - 1)
     in sele < ps ! i \<and> (0 < i \<longrightarrow> ps ! (i - 1) \<le> sele))"
proof -
  let ?ps = "probability_now afl ! swarm_now afl"
  define sele where "sele = real (unat r) * 0.0001 * ?ps ! (n - 1)"
  have m: "0 < n" "n \<le> operator_num" "swarm_now afl < length (probability_now afl)"
    "length ?ps = operator_num" "sorted ?ps" "0 < ?ps ! (n - 1)"
    using assms(1) by (simp_all add: mopt_ready_def Let_def)
  have "r = 0 \<or> r < 10000" by (rule rand_below_lt [OF assms(2)])
  then have "unat r < 10000" by (auto simp: word_less_nat_alt)
  then have "real (unat r) * 0.0001 < 1" by simp
  from mult_strict_right_mono [OF this m(6)] have sele: "sele < ?ps ! (n - 1)"
    by (simp only: sele_def mult_1_left)
  have sele_eq: "real (unat r) * ?ps ! (n - 1) / 10000 = sele" by (simp add: sele_def)
  have n: "n - 1 < operator_num" "n - 1 < length ?ps" using m by linarith+
  obtain k where k: "first_above ?ps sele 0 = Inr k" "k \<le> n - 1" "sele < ?ps ! k" "\<forall>j < k. ?ps ! j \<le> sele"
    using first_above_spec [OF sele le0 n(1) m(4)] by blast
  have le: "k < operator_num" using k(2) n(1) by linarith
  have high: "\<not> sele > ?ps ! (k + 1)" if "k + 1 < operator_num"
    using sorted_nth_mono [OF m(5), of k "k + 1"] k(3) that m(4) by simp
  have low: "\<not> sele < ?ps ! (k - 1)" if "0 < k" using k(4) that by (simp add: not_less)
  have "select_algorithm afl n = Inr (k, afl')"
    using m(3) n(2) k(1) le high low assms(2) m(4)
    by (cases "k = 0") (simp_all add: select_algorithm_def Let_def sele_eq del: One_nat_def)
  moreover have "sele < ?ps ! k \<and> (0 < k \<longrightarrow> ?ps ! (k - 1) \<le> sele)" using k(3) low by (auto simp: not_less)
  moreover have "k < n" using k(2) m(1) by linarith
  ultimately show ?thesis unfolding Let_def sele_def by blast
qed

lemma mopt_example_ready: "mopt_ready (mopt_example\<lparr>fixed_seed := True, rand_seed0 := 5\<rparr>) 19"
  by (simp add: mopt_ready_def mopt_example_def afl_cache.extend_def operator_num_def sorted_iff_nth_mono del: upt_Suc)

lemma mopt_example_draw: "\<exists>a. rand_below (mopt_example\<lparr>fixed_seed := True, rand_seed0 := 5\<rparr>) 10000 = Inr (5, a)"
  by (subst rand_below_def)
    (simp add: reseed_def rand_draw.simps rand_next_def draw_bound_def mopt_example_def afl_cache.extend_def zero_afl_def Let_def
      word_le_nat_alt)

theorem select_algorithm_inverse_witness:
  "\<exists>i a. select_algorithm (mopt_example\<lparr>fixed_seed := True, rand_seed0 := 5\<rparr>) 19 = Inr (i, a) \<and> i < 19"
  using select_algorithm_inverse [OF mopt_example_ready] mopt_example_draw by blast

section \<open>Bit flips\<close>

text \<open>The patterns the filter knows: \<open>k\<close> set bits in a row from position \<open>p\<close>.\<close>

definition bit_run :: "nat \<Rightarrow> nat \<Rightarrow> u32" where
  "bit_run k p = push_bit p (mask k)"

lemma shift_out_spec:
  assumes "x \<noteq> 0"
  shows "\<exists>k. shift_out x sh = (drop_bit k x, sh + of_nat k) \<and> bit x k \<and> (\<forall>j < k. \<not> bit x j)"
  using assms
proof (induction x sh rule: shift_out.induct)
  case (1 x sh)
  show ?case
  proof (cases "x AND 1 \<noteq> 0")
    case True
    then show ?thesis
      by (subst shift_out.simps) (auto simp: and_one_eq odd_iff_mod_2_eq_one bit_0 intro!: exI [of _ 0])
  next
    case False
    then have even: "\<not> bit x 0" by (simp add: and_one_eq bit_0 odd_iff_mod_2_eq_one)
    have "drop_bit 1 x \<noteq> 0"
    proof
      assume z: "drop_bit 1 x = 0"
      have "\<not> bit x j" for j
        using z even by (cases j) (auto simp: bit_drop_bit_eq dest: arg_cong [of _ _ "\<lambda>w. bit w (j - 1)"])
      then have "x = 0" by (intro bit_word_eqI) simp
      then show False using 1(2) by simp
    qed
    then obtain k where k: "shift_out (drop_bit 1 x) (sh + 1) = (drop_bit k (drop_bit 1 x), sh + 1 + of_nat k)"
      "bit (drop_bit 1 x) k" "\<forall>j < k. \<not> bit (drop_bit 1 x) j"
      using 1 False by auto
    have "\<not> bit x j" if "j < Suc k" for j using that even k(3) by (cases j) (auto simp: bit_drop_bit_eq)
    then show ?thesis
      using k 1(2) False by (subst shift_out.simps) (auto simp: bit_drop_bit_eq intro!: exI [of _ "Suc k"])
  qed
qed

lemma bit_bit_run: "bit (bit_run k p) j \<longleftrightarrow> j < 32 \<and> p \<le> j \<and> j < p + k"
  by (auto simp: bit_run_def bit_simps)

lemma drop_bit_run: "p + k \<le> 32 \<Longrightarrow> drop_bit p (bit_run k p) = mask k"
  by (intro bit_word_eqI) (auto simp: bit_drop_bit_eq bit_bit_run bit_mask_iff)

lemma run_of_drop_bit:
  assumes "drop_bit p x = mask k" "\<forall>j < p. \<not> bit x j" "0 < k" "k \<le> 32"
  shows "x = bit_run k p \<and> p + k \<le> 32"
proof
  show "x = bit_run k p"
  proof (rule bit_word_eqI)
    fix j assume j: "j < LENGTH(32)"
    show "bit x j = bit (bit_run k p) j"
    proof (cases "j < p")
      case False
      then have "bit x j = bit (drop_bit p x) (j - p)" by (simp add: bit_drop_bit_eq)
      then show ?thesis using False j by (auto simp: assms(1) bit_bit_run bit_mask_iff)
    qed (use assms(2) in \<open>simp add: bit_bit_run\<close>)
  qed
  have "bit (drop_bit p x) (k - 1)" using assms(3,4) by (simp add: assms(1) bit_mask_iff)
  then have "p + (k - 1) < 32" by (auto simp: bit_drop_bit_eq dest: bit_imp_le_length)
  then show "p + k \<le> 32" using assms(3) by simp
qed

lemma shift_out_run:
  assumes "x = bit_run k p" "p + k \<le> 32" "0 < k"
  shows "shift_out x 0 = (mask k, of_nat p)"
proof -
  have "bit x p" using assms by (simp add: bit_bit_run)
  then have "x \<noteq> 0" by auto
  from shift_out_spec [OF this, of 0] obtain m where
    m: "shift_out x 0 = (drop_bit m x, of_nat m)" "bit x m" "\<forall>j < m. \<not> bit x j" by auto
  have "m = p" using m(2,3) assms \<open>bit x p\<close> by (metis bit_bit_run linorder_neqE_nat leD)
  then show ?thesis using m(1) assms drop_bit_run by simp
qed

lemma and_7_eq_0: "p < 32 \<Longrightarrow> (of_nat p :: u32) AND 7 = 0 \<longleftrightarrow> 8 dvd p"
proof -
  have "list_all (\<lambda>p. ((of_nat p :: u32) AND 7 = 0) = (8 dvd p)) [0..<32]" by code_simp
  then show "p < 32 \<Longrightarrow> (of_nat p :: u32) AND 7 = 0 \<longleftrightarrow> 8 dvd p" by (auto simp: list_all_iff)
qed

definition flip_len :: "nat \<Rightarrow> nat \<Rightarrow> bool" where
  "flip_len k p \<longleftrightarrow> k \<in> {1, 2, 4} \<or> k \<in> {8, 16, 32} \<and> 8 dvd p"

lemma flip_len_iff:
  "flip_len k p \<longleftrightarrow> k = 1 \<or> k = 2 \<or> k = 4 \<or> 8 dvd p \<and> (k = 8 \<or> k = 16 \<or> k = 32)"
  by (auto simp: flip_len_def)

lemma flip_len_le: "flip_len k p \<Longrightarrow> 0 < k \<and> k \<le> 32"
  by (auto simp: flip_len_def)

text \<open>\<open>could_be_bitflip\<close> accepts exactly the runs of one, two or four set bits anywhere and of
  eight, sixteen or thirty-two set bits from a position divisible by eight, and zero.\<close>

theorem could_be_bitflip_exact:
  "could_be_bitflip x \<longleftrightarrow>
     x = 0 \<or> (\<exists>k p. x = bit_run k p \<and> p + k \<le> 32 \<and> flip_len k p)"
proof (cases "x = 0")
  case False
  from shift_out_spec [OF False, of 0] obtain m where
    m: "shift_out x 0 = (drop_bit m x, of_nat m)" "bit x m" "\<forall>j < m. \<not> bit x j" by auto
  have m32: "m < 32" using m(2) by (auto dest: bit_imp_le_length)
  have num: "mask 1 = (1 :: u32)" "mask 2 = (3 :: u32)" "mask 4 = (15 :: u32)" "mask 8 = (0xff :: u32)"
    "mask 16 = (0xffff :: u32)" "mask 32 = (0xffffffff :: u32)"
    by (simp_all add: mask_eq_exp_minus_1)
  have run: "drop_bit m x = mask k \<longleftrightarrow> x = bit_run k m \<and> m + k \<le> 32" if "0 < k" "k \<le> 32" for k
    using run_of_drop_bit [OF _ m(3) that] drop_bit_run by blast
  have first: "p = m" if "x = bit_run k p" "p + k \<le> 32" "0 < k" for k p
  proof -
    have "bit x p" using that by (simp add: bit_bit_run)
    then show ?thesis using m(2,3) that by (metis bit_bit_run linorder_neqE_nat leD)
  qed
  have "could_be_bitflip x \<longleftrightarrow> drop_bit m x = mask 1 \<or> drop_bit m x = mask 2 \<or> drop_bit m x = mask 4 \<or>
      8 dvd m \<and> (drop_bit m x = mask 8 \<or> drop_bit m x = mask 16 \<or> drop_bit m x = mask 32)"
  proof -
    have e: "could_be_bitflip x = (if drop_bit m x = 1 \<or> drop_bit m x = 3 \<or> drop_bit m x = 15 then True
        else if (of_nat m :: u32) AND 7 \<noteq> 0 then False
        else drop_bit m x = 0xff \<or> drop_bit m x = 0xffff \<or> drop_bit m x = 0xffffffff)"
      unfolding could_be_bitflip_def m(1) Let_def prod.case using False by (simp only: if_False)
    show ?thesis unfolding num e using and_7_eq_0 [OF m32] by metis
  qed
  also have "\<dots> \<longleftrightarrow> (\<exists>k. drop_bit m x = mask k \<and> flip_len k m)"
    unfolding flip_len_iff by metis
  also have "\<dots> \<longleftrightarrow> (\<exists>k. x = bit_run k m \<and> m + k \<le> 32 \<and> flip_len k m)"
  proof -
    have "drop_bit m x = mask k \<and> flip_len k m \<longleftrightarrow> x = bit_run k m \<and> m + k \<le> 32 \<and> flip_len k m" for k
      using run [of k] flip_len_le [of k m] by blast
    then show ?thesis by simp
  qed
  also have "\<dots> \<longleftrightarrow> (\<exists>k p. x = bit_run k p \<and> p + k \<le> 32 \<and> flip_len k p)"
    using first flip_len_le by blast
  finally show ?thesis using False by simp
qed (simp add: could_be_bitflip_def)

section \<open>Arithmetic\<close>

text \<open>Replacing one part of a value, of width \<open>'c\<close>; adding or subtracting at most \<open>ARITH_MAX\<close>; and the
  byte order reversed.\<close>

definition put_part :: "u32 \<Rightarrow> nat \<Rightarrow> 'c::len word \<Rightarrow> u32" where
  "put_part w i v = le_word ((le_parts (32 div LENGTH('c)) w)[i := v])"

definition arith_of :: "'c::len word \<Rightarrow> 'c word \<Rightarrow> bool" where
  "arith_of v v' \<longleftrightarrow> (\<exists>j \<le> ARITH_MAX. v' = v + of_nat j \<or> v' = v - of_nat j)"

definition reach8 :: "nat \<Rightarrow> u32 \<Rightarrow> u32 \<Rightarrow> bool" where
  "reach8 blen old new \<longleftrightarrow> (\<exists>i < blen. \<exists>v :: u8. arith_of (part_of old i) v \<and> new = put_part old i v)"

definition reach16 :: "nat \<Rightarrow> u32 \<Rightarrow> u32 \<Rightarrow> bool" where
  "reach16 blen old new \<longleftrightarrow> (\<exists>i < blen div 2. \<exists>v :: u16.
     (arith_of (part_of old i) v \<or> arith_of (SWAP16 (part_of old i)) (SWAP16 v)) \<and> new = put_part old i v)"

definition reach32 :: "u32 \<Rightarrow> u32 \<Rightarrow> bool" where
  "reach32 old new \<longleftrightarrow> arith_of old new \<or> arith_of (SWAP32 old) (SWAP32 new)"

lemma arith_of_near:
  "arith_of a b \<longleftrightarrow> unat (a - b) \<le> ARITH_MAX \<or> unat (b - a) \<le> ARITH_MAX" if "ARITH_MAX < 2 ^ LENGTH('c)"
  for a b :: "'c::len word"
proof
  assume "arith_of a b"
  then obtain j where j: "j \<le> ARITH_MAX" "b = a + of_nat j \<or> b = a - of_nat j" by (auto simp: arith_of_def)
  have "unat (of_nat j :: 'c word) = j" using j(1) that by (intro unat_of_nat_small) simp
  then show "unat (a - b) \<le> ARITH_MAX \<or> unat (b - a) \<le> ARITH_MAX" using j by auto
next
  assume "unat (a - b) \<le> ARITH_MAX \<or> unat (b - a) \<le> ARITH_MAX"
  then show "arith_of a b"
  proof
    assume "unat (a - b) \<le> ARITH_MAX"
    then show ?thesis unfolding arith_of_def by (intro exI [of _ "unat (a - b)"]) (simp add: of_nat_unat)
  next
    assume "unat (b - a) \<le> ARITH_MAX"
    then show ?thesis unfolding arith_of_def by (intro exI [of _ "unat (b - a)"]) (simp add: of_nat_unat)
  qed
qed

lemma part_of_put_part:
  assumes "LENGTH('c) * (32 div LENGTH('c)) = 32" "k < 32 div LENGTH('c)"
  shows "(part_of (put_part w i v) k :: 'c::len word) = (if k = i then v else part_of w k)"
proof -
  let ?l = "(le_parts (32 div LENGTH('c)) w)[i := v]"
  have "part_of (le_word ?l :: u32) k = (?l ! k :: 'c word)"
    using assms by (intro part_of_le_word) simp_all
  then show ?thesis using assms(2) by (auto simp: put_part_def nth_list_update)
qed

text \<open>The scan over the parts: with one difference it ends with that difference.\<close>

lemma part_diffs_eq:
  "fst (part_diffs TYPE('c::len) n old new) = card {i. i < n \<and> (part_of old i :: 'c word) \<noteq> part_of new i} \<and>
   (\<forall>i < n. {i. i < n \<and> (part_of old i :: 'c word) \<noteq> part_of new i} = {i} \<longrightarrow>
      snd (part_diffs TYPE('c) n old new) = (ucast (part_of old i :: 'c word), ucast (part_of new i :: 'c word)))"
proof (induction n)
  case (Suc n)
  let ?D = "\<lambda>n. {i. i < n \<and> (part_of old i :: 'c word) \<noteq> part_of new i}"
  let ?f = "\<lambda>n. part_diffs TYPE('c) n old new"
  have step: "?f (Suc n) = (if (part_of old n :: 'c word) \<noteq> part_of new n
      then (fst (?f n) + 1, ucast (part_of old n :: 'c word), ucast (part_of new n :: 'c word)) else ?f n)"
    by (simp add: part_diffs_def Let_def split: prod.splits)
  show ?case
  proof (cases "(part_of old n :: 'c word) = part_of new n")
    case True
    then have "?D (Suc n) = ?D n" by (auto simp: less_Suc_eq)
    then show ?thesis using Suc step True by (auto simp: less_Suc_eq)
  next
    case False
    have D: "?D (Suc n) = insert n (?D n)" using False by (auto simp: less_Suc_eq)
    have "card (?D (Suc n)) = card (?D n) + 1" unfolding D by (subst card_insert_disjoint) auto
    moreover have "i = n" if "?D (Suc n) = {i}" for i using that unfolding D by auto
    ultimately show ?thesis using Suc step False by auto
  qed
qed (simp add: part_diffs_def)

lemma take_bit_diff_down:
  fixes a b :: int
  assumes "n \<le> m"
  shows "take_bit n (take_bit m a - take_bit m b) = take_bit n (a - b)"
proof -
  have "take_bit n (take_bit m a - take_bit m b) = take_bit n (take_bit n (take_bit m a) - take_bit n (take_bit m b))"
    by (simp only: take_bit_diff)
  also have "\<dots> = take_bit n (take_bit n a - take_bit n b)" using assms by (simp only: take_bit_take_bit min_absorb1)
  finally show ?thesis by (simp only: take_bit_diff)
qed

lemma near_arith:
  assumes "ARITH_MAX < 2 ^ LENGTH('c)" "LENGTH('c) \<le> 32"
  shows "near TYPE('c::len) x y \<longleftrightarrow> arith_of (ucast x :: 'c word) (ucast y)"
proof -
  have "(ucast (a - b) :: 'c word) = ucast a - ucast b" for a b :: u32
    using assms(2)
    by transfer (simp add: take_bit_diff_down)
  then show ?thesis by (simp add: near_def arith_of_near [OF assms(1)])
qed

lemma one_part:
  fixes R :: "'c::len word \<Rightarrow> 'c word \<Rightarrow> bool"
  assumes L: "LENGTH('c) * (32 div LENGTH('c)) = 32" and n: "n \<le> 32 div LENGTH('c)"
    and above: "\<And>k. n \<le> k \<Longrightarrow> k < 32 div LENGTH('c) \<Longrightarrow> (part_of old k :: 'c word) = part_of new k"
  shows "(\<exists>i. {i. i < n \<and> (part_of old i :: 'c word) \<noteq> part_of new i} = {i} \<and> R (part_of old i) (part_of new i)) \<longleftrightarrow>
    new \<noteq> old \<and> (\<exists>i < n. \<exists>v. R (part_of old i) v \<and> new = put_part old i v)"
proof
  assume "\<exists>i. {i. i < n \<and> (part_of old i :: 'c word) \<noteq> part_of new i} = {i} \<and> R (part_of old i) (part_of new i)"
  then obtain i where D: "{i. i < n \<and> (part_of old i :: 'c word) \<noteq> part_of new i} = {i}"
    and R: "R (part_of old i) (part_of new i)" by blast
  have i: "i < n" "(part_of old i :: 'c word) \<noteq> part_of new i" using D by blast+
  have "new = put_part old i (part_of new i :: 'c word)"
  proof (rule word_parts_eqI [where 'c = 'c and n = "32 div LENGTH('c)"])
    fix k assume k: "k < 32 div LENGTH('c)"
    have "(part_of new k :: 'c word) = part_of old k" if "k \<noteq> i"
    proof (cases "k < n")
      case True
      have "k \<notin> {i. i < n \<and> (part_of old i :: 'c word) \<noteq> part_of new i}" unfolding D using that by blast
      then show ?thesis using True by simp
    next
      case False
      then show ?thesis using above [of k] k by simp
    qed
    then show "(part_of new k :: 'c word) = part_of (put_part old i (part_of new i :: 'c word)) k"
      using part_of_put_part [OF L k] by auto
  qed (use L in simp)
  then show "new \<noteq> old \<and> (\<exists>i < n. \<exists>v. R (part_of old i) v \<and> new = put_part old i v)" using i R by blast
next
  assume "new \<noteq> old \<and> (\<exists>i < n. \<exists>v. R (part_of old i) v \<and> new = put_part old i v)"
  then obtain i v where ne: "new \<noteq> old" and i: "i < n" and R: "R (part_of old i) v" and new: "new = put_part old i v" by blast
  have parts: "(part_of new k :: 'c word) = (if k = i then v else part_of old k)" if "k < 32 div LENGTH('c)" for k
    using part_of_put_part [OF L that] by (simp add: new)
  have "v \<noteq> part_of old i"
  proof
    assume "v = part_of old i"
    then have eq: "(part_of new k :: 'c word) = part_of old k" if "k < 32 div LENGTH('c)" for k
      using parts [OF that] by (cases "k = i") simp_all
    have "LENGTH(32) = LENGTH('c) * (32 div LENGTH('c))" using L by simp
    from word_parts_eqI [OF this eq] have "new = old" .
    then show False using ne by blast
  qed
  then have "k \<in> {k. k < n \<and> (part_of old k :: 'c word) \<noteq> part_of new k} \<longleftrightarrow> k \<in> {i}" for k
    using parts [of k] i n by (cases "k < n"; cases "k = i") simp_all
  then have D: "{k. k < n \<and> (part_of old k :: 'c word) \<noteq> part_of new k} = {i}" by blast
  have "part_of new i = v" using parts [of i] i n by simp
  then show "\<exists>i. {i. i < n \<and> (part_of old i :: 'c word) \<noteq> part_of new i} = {i} \<and> R (part_of old i) (part_of new i)"
    using R D by blast
qed

lemma part_diffs_one:
  fixes R :: "'c::len word \<Rightarrow> 'c word \<Rightarrow> bool"
  assumes L: "LENGTH('c) * (32 div LENGTH('c)) = 32" "n \<le> 32 div LENGTH('c)"
    "\<And>k. n \<le> k \<Longrightarrow> k < 32 div LENGTH('c) \<Longrightarrow> (part_of old k :: 'c word) = part_of new k"
    and pd: "part_diffs TYPE('c) n old new = (d, ov, nv)"
  shows "d = 1 \<and> R (ucast ov) (ucast nv) \<longleftrightarrow> new \<noteq> old \<and> (\<exists>i < n. \<exists>v. R (part_of old i) v \<and> new = put_part old i v)"
proof -
  let ?D = "{i. i < n \<and> (part_of old i :: 'c word) \<noteq> part_of new i}"
  have "LENGTH('c) \<le> 32" using L(1) by (metis dvd_imp_le dvd_triv_left zero_less_numeral)
  then have u: "ucast (ucast a :: u32) = a" for a :: "'c word"
    by transfer (simp add: min_def)
  have d: "d = card ?D" and last: "\<And>i. i < n \<Longrightarrow> ?D = {i} \<Longrightarrow> ov = ucast (part_of old i :: 'c word) \<and> nv = ucast (part_of new i :: 'c word)"
    using part_diffs_eq [where 'c = 'c, of n old new] pd by auto
  have "d = 1 \<and> R (ucast ov) (ucast nv) \<longleftrightarrow> (\<exists>i. ?D = {i} \<and> R (part_of old i) (part_of new i))"
  proof
    assume a: "d = 1 \<and> R (ucast ov) (ucast nv)"
    then obtain i where i: "?D = {i}" using d by (metis card_1_singletonE)
    then have "i < n" by blast
    from last [OF this i] show "\<exists>i. ?D = {i} \<and> R (part_of old i) (part_of new i)" using a i u by auto
  next
    assume "\<exists>i. ?D = {i} \<and> R (part_of old i) (part_of new i)"
    then obtain i where i: "?D = {i}" "R (part_of old i) (part_of new i)" by blast
    then have "i < n" by blast
    from last [OF this i(1)] show "d = 1 \<and> R (ucast ov) (ucast nv)" using d i u by auto
  qed
  then show ?thesis using one_part [OF L, of R] by blast
qed

text \<open>The arithmetic filter is exact: for values of \<open>blen\<close> bytes \<open>could_be_arith\<close> accepts
  precisely what changing one byte, one aligned 16-bit word or the 32-bit word, in either byte
  order, by at most \<open>ARITH_MAX\<close> can produce, wrap-around included.\<close>

theorem could_be_arith_exact:
  assumes "blen \<in> {1, 2, 4}" "unat old < 2 ^ (8 * blen)" "unat new < 2 ^ (8 * blen)"
  shows "could_be_arith old new blen \<longleftrightarrow>
    new = old \<or> reach8 blen old new \<or> 2 \<le> blen \<and> reach16 blen old new \<or> blen = 4 \<and> reach32 old new"
proof (cases "old = new")
  case False
  have zero: "\<not> bit w j" if "unat w < 2 ^ (8 * blen)" "8 * blen \<le> j" for w :: u32 and j
  proof -
    have "take_bit (8 * blen) (unat w) = unat w" using that(1) by (simp add: take_bit_nat_eq_self)
    then have "\<not> bit (unat w) j" using that(2) by (metis bit_take_bit_iff leD)
    then show ?thesis by (simp add: bit_unsigned_iff bit_imp_le_length)
  qed
  have p8: "(part_of old k :: u8) = part_of new k" if "blen \<le> k" for k
    using that zero assms(2,3) by (intro bit_word_eqI) (auto simp: bit_part_of)
  have p16: "(part_of old k :: u16) = part_of new k" if "blen div 2 \<le> k" "2 \<le> blen" for k
    using that zero assms by (intro bit_word_eqI) (auto simp: bit_part_of)
  obtain d ov nv where pd: "part_diffs TYPE(8) blen old new = (d, ov, nv)" by (metis prod_cases3)
  obtain e ow nw where pe: "part_diffs TYPE(16) (blen div 2) old new = (e, ow, nw)" by (metis prod_cases3)
  have n8: "near TYPE(8) x y \<longleftrightarrow> arith_of (ucast x :: u8) (ucast y)"
    and n16: "near TYPE(16) x y \<longleftrightarrow> arith_of (ucast x :: u16) (ucast y)"
    and n32: "near TYPE(32) x y \<longleftrightarrow> arith_of x y" for x y
    by (simp_all add: near_arith ARITH_MAX_def)
  have r8: "d = 1 \<and> near TYPE(8) ov nv \<longleftrightarrow> reach8 blen old new"
  proof -
    have "d = 1 \<and> arith_of (ucast ov :: u8) (ucast nv) \<longleftrightarrow> new \<noteq> old \<and>
        (\<exists>i < blen. \<exists>v :: u8. arith_of (part_of old i) v \<and> new = put_part old i v)"
      by (rule part_diffs_one [OF _ _ p8 pd, where R = arith_of]) (use assms(1) in auto)
    then show ?thesis using False by (simp add: n8 reach8_def)
  qed
  have r16: "e = 1 \<and> (near TYPE(16) ow nw \<or> near TYPE(16) (ucast (SWAP16 (ucast ow))) (ucast (SWAP16 (ucast nw))))
      \<longleftrightarrow> reach16 blen old new" if "2 \<le> blen"
  proof -
    have "e = 1 \<and> (arith_of (ucast ow :: u16) (ucast nw) \<or> arith_of (SWAP16 (ucast ow)) (SWAP16 (ucast nw)))
      \<longleftrightarrow> new \<noteq> old \<and> (\<exists>i < blen div 2. \<exists>v. (arith_of (part_of old i) v \<or> arith_of (SWAP16 (part_of old i)) (SWAP16 v))
        \<and> new = put_part old i v)"
      by (rule part_diffs_one [OF _ _ p16 [OF _ that] pe, where R = "\<lambda>x y. arith_of x y \<or> arith_of (SWAP16 x) (SWAP16 y)"])
        (use assms(1) in auto)
    moreover have "(ucast (ucast z :: u32) :: u16) = z" for z by transfer (simp add: min_def)
    ultimately show ?thesis using False by (simp add: n16 reach16_def)
  qed
  show ?thesis
    using False assms(1) r8 r16 by (auto simp: could_be_arith_def pd pe n32 reach32_def)
qed (simp add: could_be_arith_def)

theorem could_be_arith_exact_witness: "could_be_arith 0x0100 0x00ff 2 \<and> reach16 2 0x0100 0x00ff"
proof -
  have a: "could_be_arith 0x0100 0x00ff 2" by code_simp
  have "\<not> reach8 2 0x0100 0x00ff"
  proof
    assume "reach8 2 0x0100 0x00ff"
    then obtain i and v :: u8 where i: "i < 2" and v: "(0x00ff :: u32) = put_part 0x0100 i v" by (auto simp: reach8_def)
    have "(part_of (put_part 0x0100 i v) (1 - i) :: u8) = part_of (0x0100 :: u32) (1 - i)"
      using part_of_put_part [where 'c = 8, of "1 - i" "0x0100" i v] i by (cases i) auto
    then have "(part_of (0x00ff :: u32) (1 - i) :: u8) = part_of (0x0100 :: u32) (1 - i)" by (simp only: v [symmetric])
    moreover have "i = 0 \<or> i = 1" using i by auto
    ultimately show False by (auto simp: part_of_def)
  qed
  then show ?thesis using a could_be_arith_exact [of 2 "0x0100" "0x00ff"] by auto
qed

end
