(* ===== verification/Det_Stages.thy ===== *)
theory Det_Stages
  imports Det_Helpers
begin

text \<open>
  The deterministic stages of \<open>fuzz_one_original\<close> (src/afl-fuzz-one.c): walking bit flips with
  token collection, byte flips with the effector map, arithmetic and interesting values at three
  widths. A stage changes the buffer in place, executes the target and restores the buffer.
  The local variables and the \<open>stage_*\<close> fields are a record; what lies behind
  \<open>common_fuzz_stuff\<close> (target, queue, files) is a state of any type \<open>'s\<close> with the functions of
  \<open>fuzz_env\<close>. A stage ends early when \<open>common_fuzz_stuff\<close> asks to abandon the entry.
\<close>

section \<open>State\<close>

record det_state =
  out_buf :: bytes
  stage_cur :: u32
  stage_max :: u32
  stage_cur_byte :: u32
  stage_cur_val :: u32
  stage_val_type :: u8
  stage_finds :: "nat \<Rightarrow> u64"
  stage_cycles :: "nat \<Rightarrow> u64"
  new_hit_cnt :: u64
  orig_hit_cnt :: u64
  prev_cksum :: u64
  first_cksum :: u64
  a_collect :: bytes
  a_len :: u32
  eff_map :: bytes
  eff_cnt :: u32
  blocks_eff_total :: u64
  blocks_eff_select :: u64

text \<open>
  \<open>fuzz\<close> is \<open>common_fuzz_stuff\<close> on the current buffer (true: abandon the entry), \<open>hit_cnt\<close> is
  \<open>queued_items + saved_crashes\<close>, \<open>trace_cksum\<close> the hash of the trace of the last execution and
  \<open>add_auto\<close> is \<open>maybe_add_auto\<close>.
\<close>

record 's fuzz_env =
  fuzz :: "det_state \<Rightarrow> bytes \<Rightarrow> 's \<Rightarrow> bool \<times> 's"
  hit_cnt :: "'s \<Rightarrow> u64"
  trace_cksum :: "'s \<Rightarrow> u64"
  add_auto :: "bytes \<Rightarrow> 's \<Rightarrow> 's"
  non_instrumented :: bool

datatype 's stop = Abandon 's | Crash err

type_synonym 's det = "det_state \<times> 's"
type_synonym 's det_res = "'s stop + 's det"

definition lift :: "'a res \<Rightarrow> 's stop + 'a" where
  "lift r = (case r of Inl e \<Rightarrow> Inl (Crash e) | Inr x \<Rightarrow> Inr x)"

abbreviation buf_len :: "det_state \<Rightarrow> u32" where
  "buf_len d \<equiv> of_nat (length (out_buf d))"

definition run_case :: "'s fuzz_env \<Rightarrow> 's det \<Rightarrow> 's det_res" where
  "run_case env = (\<lambda>(d, s). let (stop, s') = fuzz env d (out_buf d) s in
     if stop then Inl (Abandon s') else Inr (d, s'))"

text \<open>The bookkeeping at the end of a stage.\<close>

definition end_stage :: "'s fuzz_env \<Rightarrow> nat \<Rightarrow> 's det \<Rightarrow> 's det_res" where
  "end_stage env k = (\<lambda>(d, s). let h = hit_cnt env s in
     Inr (d\<lparr>new_hit_cnt := h,
            stage_finds := (stage_finds d)(k := stage_finds d k + (h - orig_hit_cnt d)),
            stage_cycles := (stage_cycles d)(k := stage_cycles d k + ucast (stage_max d))\<rparr>, s))"

section \<open>Words in the buffer\<close>

text \<open>\<open>*(T *)(out_buf + i)\<close>, read and written, and the buffer with a word replaced.\<close>

definition peek :: "bytes \<Rightarrow> nat \<Rightarrow> 'c::len word res" where
  "peek b i = (if i + wbytes TYPE('c) \<le> length b then Inr (ldw (drop i b)) else Inl Oob)"

definition put_word :: "bytes \<Rightarrow> nat \<Rightarrow> 'c::len word \<Rightarrow> bytes" where
  "put_word b i v = take i b @ le_bytes (wbytes TYPE('c)) v @ drop (i + wbytes TYPE('c)) b"

definition poke :: "bytes \<Rightarrow> nat \<Rightarrow> 'c::len word \<Rightarrow> bytes res" where
  "poke b i v = (if i + wbytes TYPE('c) \<le> length b then Inr (put_word b i v) else Inl Oob)"

section \<open>Walking bits\<close>

definition FLIP_BIT :: "nat \<Rightarrow> bytes \<Rightarrow> bytes res" where
  "FLIP_BIT b ar =
     (let i = b div 8 in
      if i < length ar then Inr (ar[i := ar ! i XOR drop_bit (b mod 8) 128]) else Inl Oob)"

definition flip_bits :: "nat \<Rightarrow> nat \<Rightarrow> bytes \<Rightarrow> bytes res" where
  "flip_bits k b ar = foldm FLIP_BIT [b ..< b + k] ar"

text \<open>The token collection of the first stage, on the last bit of every byte.\<close>

definition MIN_AUTO_EXTRA :: u32 where "MIN_AUTO_EXTRA = 3"
definition MAX_AUTO_EXTRA :: u32 where "MAX_AUTO_EXTRA = 32"

definition collect_byte :: "det_state \<Rightarrow> det_state" where
  "collect_byte d =
     (let b = out_buf d ! unat (drop_bit 3 (stage_cur d)) in
      d\<lparr>a_collect := (if a_len d < MAX_AUTO_EXTRA then (a_collect d)[unat (a_len d) := b] else a_collect d),
        a_len := a_len d + 1\<rparr>)"

definition offer_token :: "'s fuzz_env \<Rightarrow> 's det \<Rightarrow> 's det" where
  "offer_token env = (\<lambda>(d, s).
     if a_len d \<ge> MIN_AUTO_EXTRA \<and> a_len d \<le> MAX_AUTO_EXTRA
     then (d, add_auto env (take (unat (a_len d)) (a_collect d)) s) else (d, s))"

definition collect_token :: "'s fuzz_env \<Rightarrow> 's det \<Rightarrow> 's det" where
  "collect_token env = (\<lambda>(d, s).
     let cksum = trace_cksum env s;
         (d1, s1) =
           (if stage_cur d = stage_max d - 1 \<and> cksum = prev_cksum d then offer_token env (collect_byte d, s)
            else if cksum \<noteq> prev_cksum d then
              (let (d', s') = offer_token env (d, s) in (d'\<lparr>a_len := 0, prev_cksum := cksum\<rparr>, s'))
            else (d, s))
     in if cksum \<noteq> first_cksum d1 then (collect_byte d1, s1) else (d1, s1))"

text \<open>One step of a walk: flip, execute, flip back; the first stage also collects tokens.\<close>

definition walk_bits :: "'s fuzz_env \<Rightarrow> nat \<Rightarrow> bool \<Rightarrow> nat \<Rightarrow> 's det \<Rightarrow> 's det_res" where
  "walk_bits env k tokens i = (\<lambda>(d, s).
     let d1 = d\<lparr>stage_cur := of_nat i, stage_cur_byte := of_nat i div 8\<rparr> in
     bnd (lift (flip_bits k i (out_buf d1))) (\<lambda>b.
     bnd (run_case env (d1\<lparr>out_buf := b\<rparr>, s)) (\<lambda>(d2, s2).
     bnd (lift (flip_bits k i (out_buf d2))) (\<lambda>b'.
     let d3 = d2\<lparr>out_buf := b'\<rparr> in
     Inr (if tokens \<and> \<not> non_instrumented env \<and> i mod 8 = 7 then collect_token env (d3, s2) else (d3, s2))))))"

definition flip1_stage :: "'s fuzz_env \<Rightarrow> 's det \<Rightarrow> 's det_res" where
  "flip1_stage env = (\<lambda>(d, s).
     let d1 = d\<lparr>stage_max := push_bit 3 (buf_len d), stage_val_type := 0, orig_hit_cnt := hit_cnt env s\<rparr> in
     bnd (run_case env (d1, s)) (\<lambda>(d2, s2).
     let c = trace_cksum env s2; d3 = d2\<lparr>prev_cksum := c, first_cksum := c\<rparr> in
     bnd (foldm (walk_bits env 1 True) [0 ..< unat (stage_max d3)] (d3, s2)) (\<lambda>(d4, s4).
     end_stage env 0 (d4\<lparr>stage_cur := stage_max d4\<rparr>, s4))))"

definition flipk_stage :: "'s fuzz_env \<Rightarrow> nat \<Rightarrow> nat \<Rightarrow> 's det \<Rightarrow> 's det_res" where
  "flipk_stage env k stage = (\<lambda>(d, s).
     let d1 = d\<lparr>stage_max := push_bit 3 (buf_len d) - (of_nat k - 1), orig_hit_cnt := new_hit_cnt d\<rparr> in
     bnd (foldm (walk_bits env k False) [0 ..< unat (stage_max d1)] (d1, s)) (\<lambda>(d4, s4).
     end_stage env stage (d4\<lparr>stage_cur := stage_max d4\<rparr>, s4)))"

definition flip2_stage :: "'s fuzz_env \<Rightarrow> 's det \<Rightarrow> 's det_res" where
  "flip2_stage env = flipk_stage env 2 1"

definition flip4_stage :: "'s fuzz_env \<Rightarrow> 's det \<Rightarrow> 's det_res" where
  "flip4_stage env = flipk_stage env 4 2"

section \<open>Walking bytes and the effector map\<close>

definition EFF_APOS :: "nat \<Rightarrow> nat" where "EFF_APOS p = p div 8"
definition EFF_ALEN :: "nat \<Rightarrow> nat" where "EFF_ALEN l = EFF_APOS l + (if l mod 8 \<noteq> 0 then 1 else 0)"
definition EFF_MIN_LEN :: nat where "EFF_MIN_LEN = 128"
definition EFF_MAX_PERC :: u32 where "EFF_MAX_PERC = 90"

text \<open>The map is not cleared: \<open>old\<close> is what the reused block holds.\<close>

definition init_eff_map :: "bytes \<Rightarrow> det_state \<Rightarrow> 's stop + det_state" where
  "init_eff_map old d =
     (let len = length (out_buf d) in
      if len = 0 \<or> length old < EFF_ALEN len then Inl (Crash Oob)
      else let m = (take (EFF_ALEN len) old)[0 := 1]; p = EFF_APOS (len - 1) in
        Inr (if p \<noteq> 0 then d\<lparr>eff_map := m[p := 1], eff_cnt := eff_cnt d + 1\<rparr> else d\<lparr>eff_map := m\<rparr>))"

definition mark_effector :: "'s fuzz_env \<Rightarrow> nat \<Rightarrow> 's det \<Rightarrow> det_state res" where
  "mark_effector env i = (\<lambda>(d, s).
     bnd (rd (eff_map d) (EFF_APOS i)) (\<lambda>c.
     if c = 0 then
       let cksum = (if \<not> non_instrumented env \<and> length (out_buf d) \<ge> EFF_MIN_LEN then trace_cksum env s
                    else NOT (prev_cksum d))
       in Inr (if cksum \<noteq> prev_cksum d
               then d\<lparr>eff_map := (eff_map d)[EFF_APOS i := 1], eff_cnt := eff_cnt d + 1\<rparr> else d)
     else Inr d))"

definition flip_byte :: "'s fuzz_env \<Rightarrow> nat \<Rightarrow> 's det \<Rightarrow> 's det_res" where
  "flip_byte env i = (\<lambda>(d, s).
     let d1 = d\<lparr>stage_cur := of_nat i, stage_cur_byte := of_nat i\<rparr> in
     bnd (lift (peek (out_buf d1) i)) (\<lambda>v :: u8.
     bnd (lift (poke (out_buf d1) i (v XOR 0xFF))) (\<lambda>b.
     bnd (run_case env (d1\<lparr>out_buf := b\<rparr>, s)) (\<lambda>(d2, s2).
     bnd (lift (mark_effector env i (d2, s2))) (\<lambda>d3.
     bnd (lift (peek (out_buf d3) i)) (\<lambda>v' :: u8.
     bnd (lift (poke (out_buf d3) i (v' XOR 0xFF))) (\<lambda>b'. Inr (d3\<lparr>out_buf := b'\<rparr>, s2))))))))"

definition finish_eff_map :: "det_state \<Rightarrow> 's stop + det_state" where
  "finish_eff_map d =
     (let n = EFF_ALEN (length (out_buf d)); alen = (of_nat n :: u32) in
      if eff_cnt d \<noteq> alen \<and> alen = 0 then Inl (Crash DivZero)
      else
        let d1 = (if eff_cnt d \<noteq> alen \<and> eff_cnt d * 100 div alen > EFF_MAX_PERC
                  then d\<lparr>eff_map := replicate n 1, blocks_eff_select := blocks_eff_select d + of_nat n\<rparr>
                  else d\<lparr>blocks_eff_select := blocks_eff_select d + ucast (eff_cnt d)\<rparr>)
        in Inr (d1\<lparr>blocks_eff_total := blocks_eff_total d1 + of_nat n\<rparr>))"

definition flip8_stage :: "'s fuzz_env \<Rightarrow> bytes \<Rightarrow> 's det \<Rightarrow> 's det_res" where
  "flip8_stage env old = (\<lambda>(d, s).
     bnd (init_eff_map old d) (\<lambda>d0.
     let d1 = d0\<lparr>stage_max := buf_len d0, orig_hit_cnt := new_hit_cnt d0, prev_cksum := first_cksum d0\<rparr> in
     bnd (foldm (flip_byte env) [0 ..< unat (stage_max d1)] (d1, s)) (\<lambda>(d2, s2).
     bnd (finish_eff_map (d2\<lparr>stage_cur := stage_max d2\<rparr>)) (\<lambda>d3.
     end_stage env 3 (d3, s2)))))"

text \<open>The wider stages consult the map: some byte of the word at \<open>i\<close> must have had an effect. The
  first cell that is not zero ends the search.\<close>

definition effective :: "det_state \<Rightarrow> nat \<Rightarrow> nat \<Rightarrow> bool res" where
  "effective d n i = foldm (\<lambda>k hit. if hit then Inr True
     else bnd (rd (eff_map d) (EFF_APOS (i + k))) (\<lambda>c. Inr (c \<noteq> 0))) [0..<n] False"

definition flip_word :: "'c::len itself \<Rightarrow> 's fuzz_env \<Rightarrow> nat \<Rightarrow> 's det \<Rightarrow> 's det_res" where
  "flip_word _ env i = (\<lambda>(d, s).
     bnd (lift (effective d (wbytes TYPE('c)) i)) (\<lambda>eff.
     if \<not> eff then Inr (d\<lparr>stage_max := stage_max d - 1\<rparr>, s)
     else
       let d1 = d\<lparr>stage_cur_byte := of_nat i\<rparr> in
       bnd (lift (peek (out_buf d1) i)) (\<lambda>v :: 'c word.
       bnd (lift (poke (out_buf d1) i (v XOR - 1))) (\<lambda>b.
       bnd (run_case env (d1\<lparr>out_buf := b\<rparr>, s)) (\<lambda>(d2, s2).
       let d3 = d2\<lparr>stage_cur := stage_cur d2 + 1\<rparr> in
       bnd (lift (peek (out_buf d3) i)) (\<lambda>v' :: 'c word.
       bnd (lift (poke (out_buf d3) i (v' XOR - 1))) (\<lambda>b'. Inr (d3\<lparr>out_buf := b'\<rparr>, s2))))))))"

definition flip16_stage :: "'s fuzz_env \<Rightarrow> 's det \<Rightarrow> 's det_res" where
  "flip16_stage env = (\<lambda>(d, s).
     let len = length (out_buf d); d1 = d\<lparr>stage_cur := 0, stage_max := buf_len d - 1, orig_hit_cnt := new_hit_cnt d\<rparr> in
     bnd (foldm (flip_word TYPE(16) env) [0 ..< len - 1] (d1, s)) (end_stage env 4))"

definition flip32_stage :: "'s fuzz_env \<Rightarrow> 's det \<Rightarrow> 's det_res" where
  "flip32_stage env = (\<lambda>(d, s).
     let len = length (out_buf d); d1 = d\<lparr>stage_cur := 0, stage_max := buf_len d - 3, orig_hit_cnt := new_hit_cnt d\<rparr> in
     bnd (foldm (flip_word TYPE(32) env) [0 ..< len - 3] (d1, s)) (end_stage env 5))"

section \<open>Arithmetic\<close>

text \<open>
  An attempt at a position: what is recorded in any case, whether the value is worth a run, what is
  recorded then, and the value. If it is not, \<open>stage_max\<close> drops by one.
\<close>

type_synonym 'c attempt = "(det_state \<Rightarrow> det_state) \<times> bool \<times> (det_state \<Rightarrow> det_state) \<times> 'c word"

definition try_value :: "'s fuzz_env \<Rightarrow> nat \<Rightarrow> 'c::len attempt \<Rightarrow> 's det \<Rightarrow> 's det_res" where
  "try_value env i = (\<lambda>(pre, worth, post, v) (d, s).
     let d1 = pre d in
     if worth then
       bnd (lift (poke (out_buf d1) i v)) (\<lambda>b.
       bnd (run_case env ((post d1)\<lparr>out_buf := b\<rparr>, s)) (\<lambda>(d2, s2).
       Inr (d2\<lparr>stage_cur := stage_cur d2 + 1\<rparr>, s2)))
     else Inr (d1\<lparr>stage_max := stage_max d1 - 1\<rparr>, s))"

definition set_val :: "u32 \<Rightarrow> det_state \<Rightarrow> det_state" where "set_val v d = d\<lparr>stage_cur_val := v\<rparr>"
definition set_type :: "u8 \<Rightarrow> det_state \<Rightarrow> det_state" where "set_type t d = d\<lparr>stage_val_type := t\<rparr>"

definition arith8_attempts :: "u8 \<Rightarrow> nat \<Rightarrow> 8 attempt list" where
  "arith8_attempts orig j =
     [(id, \<not> could_be_bitflip (ucast (orig XOR (orig + of_nat j))), set_val (of_nat j), orig + of_nat j),
      (id, \<not> could_be_bitflip (ucast (orig XOR (orig - of_nat j))), set_val (- of_nat j), orig - of_nat j)]"

definition arith16_attempts :: "u16 \<Rightarrow> nat \<Rightarrow> 16 attempt list" where
  "arith16_attempts orig j =
     (let le_add = orig + of_nat j; le_sub = orig - of_nat j;
          be_add = SWAP16 (SWAP16 orig + of_nat j); be_sub = SWAP16 (SWAP16 orig - of_nat j);
          flip = (\<lambda>v. could_be_bitflip (ucast (orig XOR v)))
      in [(set_type STAGE_VAL_LE, unat (orig AND 0xff) + j > 0xff \<and> \<not> flip le_add, set_val (of_nat j), le_add),
          (id, unat (orig AND 0xff) < j \<and> \<not> flip le_sub, set_val (- of_nat j), le_sub),
          (set_type STAGE_VAL_BE, unat (drop_bit 8 orig) + j > 0xff \<and> \<not> flip be_add, set_val (of_nat j), be_add),
          (id, unat (drop_bit 8 orig) < j \<and> \<not> flip be_sub, set_val (- of_nat j), be_sub)])"

definition arith32_attempts :: "u32 \<Rightarrow> nat \<Rightarrow> 32 attempt list" where
  "arith32_attempts orig j =
     (let le_add = orig + of_nat j; le_sub = orig - of_nat j;
          be_add = SWAP32 (SWAP32 orig + of_nat j); be_sub = SWAP32 (SWAP32 orig - of_nat j);
          flip = (\<lambda>v. could_be_bitflip (orig XOR v))
      in [(set_type STAGE_VAL_LE, unat (orig AND 0xffff) + j > 0xffff \<and> \<not> flip le_add, set_val (of_nat j), le_add),
          (id, unat (orig AND 0xffff) < j \<and> \<not> flip le_sub, set_val (- of_nat j), le_sub),
          (set_type STAGE_VAL_BE, unat (SWAP32 orig AND 0xffff) + j > 0xffff \<and> \<not> flip be_add, set_val (of_nat j), be_add),
          (id, unat (SWAP32 orig AND 0xffff) < j \<and> \<not> flip be_sub, set_val (- of_nat j), be_sub)])"

text \<open>One offset: the word is put back after every distance.\<close>

definition arith_at :: "nat \<Rightarrow> ('c::len word \<Rightarrow> nat \<Rightarrow> 'c attempt list) \<Rightarrow> 's fuzz_env \<Rightarrow> nat \<Rightarrow> 's det \<Rightarrow> 's det_res" where
  "arith_at per attempts env i = (\<lambda>(d, s).
     bnd (lift (peek (out_buf d) i)) (\<lambda>orig :: 'c word.
     bnd (lift (effective d (wbytes TYPE('c)) i)) (\<lambda>eff.
     if \<not> eff then Inr (d\<lparr>stage_max := stage_max d - of_nat (per * ARITH_MAX)\<rparr>, s)
     else
       foldm (\<lambda>j x.
         bnd (foldm (try_value env i) (attempts orig j) x) (\<lambda>(d2, s2).
         bnd (lift (poke (out_buf d2) i orig)) (\<lambda>b. Inr (d2\<lparr>out_buf := b\<rparr>, s2))))
       [1 ..< ARITH_MAX + 1] (d\<lparr>stage_cur_byte := of_nat i\<rparr>, s))))"

definition arith8_stage :: "'s fuzz_env \<Rightarrow> 's det \<Rightarrow> 's det_res" where
  "arith8_stage env = (\<lambda>(d, s).
     let len = length (out_buf d);
         d1 = d\<lparr>stage_cur := 0, stage_max := 2 * buf_len d * of_nat ARITH_MAX, stage_val_type := STAGE_VAL_LE,
                orig_hit_cnt := new_hit_cnt d\<rparr> in
     bnd (foldm (arith_at 2 arith8_attempts env) [0 ..< len] (d1, s)) (end_stage env 6))"

definition arith16_stage :: "'s fuzz_env \<Rightarrow> 's det \<Rightarrow> 's det_res" where
  "arith16_stage env = (\<lambda>(d, s).
     let len = length (out_buf d);
         d1 = d\<lparr>stage_cur := 0, stage_max := 4 * (buf_len d - 1) * of_nat ARITH_MAX, orig_hit_cnt := new_hit_cnt d\<rparr> in
     bnd (foldm (arith_at 4 arith16_attempts env) [0 ..< len - 1] (d1, s)) (end_stage env 7))"

definition arith32_stage :: "'s fuzz_env \<Rightarrow> 's det \<Rightarrow> 's det_res" where
  "arith32_stage env = (\<lambda>(d, s).
     let len = length (out_buf d);
         d1 = d\<lparr>stage_cur := 0, stage_max := 4 * (buf_len d - 3) * of_nat ARITH_MAX, orig_hit_cnt := new_hit_cnt d\<rparr> in
     bnd (foldm (arith_at 4 arith32_attempts env) [0 ..< len - 3] (d1, s)) (end_stage env 8))"

section \<open>Interesting values\<close>

definition try_interest8 :: "'s fuzz_env \<Rightarrow> nat \<Rightarrow> u8 \<Rightarrow> u8 \<Rightarrow> 's det \<Rightarrow> 's det_res" where
  "try_interest8 env i orig v = (\<lambda>(d, s).
     if could_be_bitflip (ucast (orig XOR v)) \<or> could_be_arith (ucast orig) (ucast v) 1
     then Inr (d\<lparr>stage_max := stage_max d - 1\<rparr>, s)
     else
       bnd (lift (poke (out_buf d) i v)) (\<lambda>b.
       bnd (run_case env ((set_val (scast v) d)\<lparr>out_buf := b\<rparr>, s)) (\<lambda>(d2, s2).
       bnd (lift (poke (out_buf d2) i orig)) (\<lambda>b'.
       Inr (d2\<lparr>out_buf := b', stage_cur := stage_cur d2 + 1\<rparr>, s2)))))"

definition interest8_at :: "'s fuzz_env \<Rightarrow> nat \<Rightarrow> 's det \<Rightarrow> 's det_res" where
  "interest8_at env i = (\<lambda>(d, s).
     bnd (lift (peek (out_buf d) i)) (\<lambda>orig :: u8.
     bnd (lift (effective d 1 i)) (\<lambda>eff.
     if \<not> eff then Inr (d\<lparr>stage_max := stage_max d - of_nat (length interesting_8)\<rparr>, s)
     else foldm (try_interest8 env i orig) (map word_of_int interesting_8) (d\<lparr>stage_cur_byte := of_nat i\<rparr>, s))))"

definition interest16_attempts :: "u16 \<Rightarrow> int \<Rightarrow> 16 attempt list" where
  "interest16_attempts orig x =
     (let v = word_of_int x; w = SWAP16 v;
          dup = (\<lambda>v le. could_be_bitflip (ucast (orig XOR v)) \<or> could_be_arith (ucast orig) (ucast v) 2 \<or>
                       could_be_interest (ucast orig) (ucast v) 2 le)
      in [(set_val (word_of_int x), \<not> dup v False, set_type STAGE_VAL_LE, v),
          (id, v \<noteq> w \<and> \<not> dup w True, set_type STAGE_VAL_BE, w)])"

definition interest32_attempts :: "u32 \<Rightarrow> int \<Rightarrow> 32 attempt list" where
  "interest32_attempts orig x =
     (let v = word_of_int x; w = SWAP32 v;
          dup = (\<lambda>v le. could_be_bitflip (orig XOR v) \<or> could_be_arith orig v 4 \<or> could_be_interest orig v 4 le)
      in [(set_val (word_of_int x), \<not> dup v False, set_type STAGE_VAL_LE, v),
          (id, v \<noteq> w \<and> \<not> dup w True, set_type STAGE_VAL_BE, w)])"

text \<open>Here the word is put back after the last value.\<close>

definition interest_at :: "int list \<Rightarrow> ('c::len word \<Rightarrow> int \<Rightarrow> 'c attempt list) \<Rightarrow> 's fuzz_env \<Rightarrow> nat \<Rightarrow> 's det \<Rightarrow> 's det_res" where
  "interest_at vals attempts env i = (\<lambda>(d, s).
     bnd (lift (peek (out_buf d) i)) (\<lambda>orig :: 'c word.
     bnd (lift (effective d (wbytes TYPE('c)) i)) (\<lambda>eff.
     if \<not> eff then Inr (d\<lparr>stage_max := stage_max d - of_nat (2 * length vals)\<rparr>, s)
     else
       bnd (foldm (\<lambda>x. foldm (try_value env i) (attempts orig x)) vals (d\<lparr>stage_cur_byte := of_nat i\<rparr>, s)) (\<lambda>(d2, s2).
       bnd (lift (poke (out_buf d2) i orig)) (\<lambda>b. Inr (d2\<lparr>out_buf := b\<rparr>, s2))))))"

definition interest8_stage :: "'s fuzz_env \<Rightarrow> 's det \<Rightarrow> 's det_res" where
  "interest8_stage env = (\<lambda>(d, s).
     let len = length (out_buf d);
         d1 = d\<lparr>stage_cur := 0, stage_max := buf_len d * of_nat (length interesting_8), stage_val_type := STAGE_VAL_LE,
                orig_hit_cnt := new_hit_cnt d\<rparr> in
     bnd (foldm (interest8_at env) [0 ..< len] (d1, s)) (end_stage env 9))"

definition interest16_stage :: "'s fuzz_env \<Rightarrow> 's det \<Rightarrow> 's det_res" where
  "interest16_stage env = (\<lambda>(d, s).
     let len = length (out_buf d);
         d1 = d\<lparr>stage_cur := 0, stage_max := 2 * (buf_len d - 1) * of_nat (length interesting_16),
                orig_hit_cnt := new_hit_cnt d\<rparr> in
     bnd (foldm (interest_at interesting_16 interest16_attempts env) [0 ..< len - 1] (d1, s)) (end_stage env 10))"

definition interest32_stage :: "'s fuzz_env \<Rightarrow> 's det \<Rightarrow> 's det_res" where
  "interest32_stage env = (\<lambda>(d, s).
     let len = length (out_buf d);
         d1 = d\<lparr>stage_cur := 0, stage_max := 2 * (buf_len d - 3) * of_nat (length interesting_32),
                orig_hit_cnt := new_hit_cnt d\<rparr> in
     bnd (foldm (interest_at interesting_32 interest32_attempts env) [0 ..< len - 3] (d1, s)) (end_stage env 11))"

text \<open>The stages in order, with the jumps for short inputs and for \<open>no_arith\<close>.\<close>

definition skip_unless :: "bool \<Rightarrow> ('s det \<Rightarrow> 's det_res) \<Rightarrow> 's det \<Rightarrow> 's det_res" where
  "skip_unless c f x = (if c then f x else Inr x)"

definition det_stages :: "'s fuzz_env \<Rightarrow> bool \<Rightarrow> bytes \<Rightarrow> 's det \<Rightarrow> 's det_res" where
  "det_stages env no_arith old = (\<lambda>x.
     let len = length (out_buf (fst x)) in
     bnd (flip1_stage env x) (\<lambda>x. bnd (flip2_stage env x) (\<lambda>x. bnd (flip4_stage env x) (\<lambda>x.
     bnd (flip8_stage env old x) (\<lambda>x.
     bnd (skip_unless (len \<ge> 2) (flip16_stage env) x) (\<lambda>x.
     bnd (skip_unless (len \<ge> 4) (flip32_stage env) x) (\<lambda>x.
     bnd (skip_unless (\<not> no_arith) (arith8_stage env) x) (\<lambda>x.
     bnd (skip_unless (\<not> no_arith \<and> len \<ge> 2) (arith16_stage env) x) (\<lambda>x.
     bnd (skip_unless (\<not> no_arith \<and> len \<ge> 4) (arith32_stage env) x) (\<lambda>x.
     bnd (interest8_stage env x) (\<lambda>x.
     bnd (skip_unless (\<not> no_arith \<and> len \<ge> 2) (interest16_stage env) x) (\<lambda>x.
     skip_unless (\<not> no_arith \<and> len \<ge> 4) (interest32_stage env) x)))))))))))) "

section \<open>What a stage promises\<close>

text \<open>
  The abstract view of a stage: a list of test cases, executed in order until one asks to abandon
  the entry. \<open>f\<close> is \<open>common_fuzz_stuff\<close> for a target that sees the bytes only.
\<close>

fun run_list :: "(bytes \<Rightarrow> 's \<Rightarrow> bool \<times> 's) \<Rightarrow> bytes list \<Rightarrow> 's \<Rightarrow> 's stop + 's" where
  "run_list f [] s = Inr s"
| "run_list f (b # bs) s = (let (stop, s') = f b s in if stop then Inl (Abandon s') else run_list f bs s')"

lemma run_list_append: "run_list f (xs @ ys) s = bnd (run_list f xs s) (run_list f ys)"
  by (induction xs arbitrary: s) (auto simp: Let_def split: prod.splits)

definition exec :: "(bytes \<Rightarrow> 's \<Rightarrow> bool \<times> 's) \<Rightarrow> bytes list \<Rightarrow> 's \<Rightarrow> det_state \<Rightarrow> 's det_res" where
  "exec f cs s d = bnd (run_list f cs s) (\<lambda>s'. Inr (d, s'))"

text \<open>The state but for the buffer and the progress fields.\<close>

definition bare :: "det_state \<Rightarrow> det_state" where
  "bare d = d\<lparr>out_buf := [], stage_cur := 0, stage_max := 0, stage_cur_byte := 0, stage_cur_val := 0, stage_val_type := 0\<rparr>"

text \<open>A step executes the cases \<open>cs\<close>, counts them in \<open>stage_cur\<close>, takes the other \<open>m - length cs\<close> of its
  \<open>m\<close> slots off \<open>stage_max\<close>, leaves a buffer that satisfies \<open>B\<close> and nothing else changed.\<close>

definition does :: "(bytes \<Rightarrow> 's \<Rightarrow> bool \<times> 's) \<Rightarrow> (bytes \<Rightarrow> bool) \<Rightarrow> nat \<Rightarrow> bytes list \<Rightarrow> ('s det \<Rightarrow> 's det_res) \<Rightarrow> det_state \<Rightarrow> bool" where
  "does f B m cs g d \<longleftrightarrow> (\<exists>d'. (\<forall>s. g (d, s) = exec f cs s d') \<and> B (out_buf d') \<and> bare d' = bare d \<and>
     stage_cur d' = stage_cur d + of_nat (length cs) \<and>
     stage_max d' = stage_max d - of_nat m + of_nat (length cs))"

lemma exec_Nil: "exec f [] s d = Inr (d, s)"
  by (simp add: exec_def)

lemma exec_bnd:
  assumes "\<And>s. h (d1, s) = exec f ds s d2"
  shows "bnd (exec f cs s d1) h = exec f (cs @ ds) s d2"
  by (cases "run_list f cs s") (simp_all add: exec_def run_list_append assms)

lemma does_bnd:
  assumes g: "does f B m cs g d"
    and h: "\<And>d1. B (out_buf d1) \<Longrightarrow> bare d1 = bare d \<Longrightarrow> does f C n ds h d1"
  shows "does f C (m + n) (cs @ ds) (\<lambda>x. bnd (g x) h) d"
proof -
  obtain d1 where d1: "\<And>s. g (d, s) = exec f cs s d1" "B (out_buf d1)" "bare d1 = bare d"
    "stage_cur d1 = stage_cur d + of_nat (length cs)" "stage_max d1 = stage_max d - of_nat m + of_nat (length cs)"
    using g unfolding does_def by blast
  obtain d2 where d2: "\<And>s. h (d1, s) = exec f ds s d2" "C (out_buf d2)" "bare d2 = bare d1"
    "stage_cur d2 = stage_cur d1 + of_nat (length ds)" "stage_max d2 = stage_max d1 - of_nat n + of_nat (length ds)"
    using h [OF d1(2,3)] unfolding does_def by blast
  have "bnd (g (d, s)) h = exec f (cs @ ds) s d2" for s
    unfolding d1(1) by (rule exec_bnd) (rule d2(1))
  moreover have "stage_max d2 = stage_max d - of_nat (m + n) + of_nat (length (cs @ ds))"
    unfolding d2(5) d1(5) by (simp add: algebra_simps)
  moreover have "stage_cur d2 = stage_cur d + of_nat (length (cs @ ds))"
    unfolding d2(4) d1(4) by simp
  ultimately show ?thesis
    unfolding does_def using d1(3) d2(2,3) by (intro exI [of _ d2]) simp
qed

lemma does_foldm:
  assumes "\<And>x d1. x \<in> set xs \<Longrightarrow> B (out_buf d1) \<Longrightarrow> bare d1 = bare d \<Longrightarrow> does f B m (cs x) (g x) d1"
    and "B (out_buf d)"
  shows "does f B (m * length xs) (concat (map cs xs)) (foldm g xs) d"
  using assms
proof (induction xs arbitrary: d)
  case Nil
  then show ?case unfolding does_def by (intro exI [of _ d]) (simp add: exec_Nil)
next
  case (Cons x xs)
  have "does f B (m + m * length xs) (cs x @ concat (map cs xs)) (\<lambda>s. bnd (g x s) (foldm g xs)) d"
  proof (rule does_bnd)
    show "does f B m (cs x) (g x) d" using Cons.prems by simp
    fix d1 assume d1: "B (out_buf d1)" "bare d1 = bare d"
    show "does f B (m * length xs) (concat (map cs xs)) (foldm g xs) d1"
      using d1 by (intro Cons.IH) (use Cons.prems(1) in auto)
  qed
  moreover have "(\<lambda>s. bnd (g x s) (foldm g xs)) = foldm g (x # xs)" by (rule ext) simp
  ultimately show ?case by simp
qed

text \<open>Steps that execute nothing.\<close>

lemma does_quiet:
  assumes "\<And>s. g (d, s) = Inr (d', s)" "B (out_buf d')" "bare d' = bare d" "stage_cur d' = stage_cur d"
    "stage_max d' = stage_max d - of_nat m"
  shows "does f B m [] g d"
  unfolding does_def using assms by (intro exI [of _ d']) (simp add: exec_Nil)

lemma does_weaken: "does f B m cs g d \<Longrightarrow> (\<And>b. B b \<Longrightarrow> C b) \<Longrightarrow> does f C m cs g d"
  unfolding does_def by blast

lemma does_cong: "(\<And>s. g (d, s) = h (d, s)) \<Longrightarrow> does f B m cs g d \<longleftrightarrow> does f B m cs h d"
  by (simp add: does_def)

section \<open>The effector map\<close>

text \<open>Some byte of the \<open>n\<close> at \<open>i\<close> lies in a flagged block; the map covers the buffer.\<close>

definition touched :: "det_state \<Rightarrow> nat \<Rightarrow> nat \<Rightarrow> bool" where
  "touched d n i \<longleftrightarrow> (\<exists>k < n. eff_map d ! ((i + k) div 8) \<noteq> 0)"

definition mapped :: "det_state \<Rightarrow> bool" where
  "mapped d \<longleftrightarrow> EFF_ALEN (length (out_buf d)) \<le> length (eff_map d)"

lemma EFF_APOS_lt: "i < n \<Longrightarrow> EFF_APOS i < EFF_ALEN n"
proof (cases "n mod 8 = 0")
  case True
  moreover assume "i < n"
  ultimately have "i < n div 8 * 8" using div_mult_mod_eq [of n 8] by simp
  then have "i div 8 < n div 8" by (rule less_mult_imp_div_less)
  then show ?thesis using True by (simp add: EFF_APOS_def EFF_ALEN_def)
next
  case False
  moreover assume "i < n"
  ultimately show ?thesis using div_le_mono [of i n 8] by (simp add: EFF_APOS_def EFF_ALEN_def)
qed

lemma effective_touched:
  assumes "mapped d" "i + n \<le> length (out_buf d)"
  shows "effective d n i = Inr (touched d n i)"
proof -
  let ?f = "\<lambda>k hit. if hit then Inr True else bnd (rd (eff_map d) (EFF_APOS (i + k))) (\<lambda>c. Inr (c \<noteq> 0))"
  have "EFF_APOS (i + k) < length (eff_map d)" if "k < n" for k
    using EFF_APOS_lt [of "i + k" "length (out_buf d)"] that assms by (simp add: mapped_def)
  then have "foldm ?f ks hit = Inr (hit \<or> (\<exists>k \<in> set ks. eff_map d ! EFF_APOS (i + k) \<noteq> 0))"
    if "\<forall>k \<in> set ks. k < n" for ks hit
    using that by (induction ks arbitrary: hit) auto
  from this [of "[0..<n]" False] show ?thesis
    by (auto simp: effective_def touched_def EFF_APOS_def)
qed

lemma touched_cong: "eff_map d1 = eff_map d \<Longrightarrow> touched d1 n i = touched d n i"
  by (simp add: touched_def)

section \<open>Words in the buffer\<close>

lemma wbytes_small [simp]: "wbytes TYPE(8) = 1" "wbytes TYPE(16) = 2" "wbytes TYPE(32) = 4"
  by (simp_all add: wbytes_def)

lemma length_put_word [simp]: "i + wbytes TYPE('c) \<le> length b \<Longrightarrow> length (put_word b i (v :: 'c::len word)) = length b"
  by (simp add: put_word_def)

lemma put_word_put_word:
  "i + wbytes TYPE('c) \<le> length b \<Longrightarrow> put_word (put_word b i (v :: 'c::len word)) i (w :: 'c word) = put_word b i w"
  by (simp add: put_word_def)

lemma put_word_same:
  assumes "i + wbytes TYPE('c) \<le> length b" "8 * wbytes TYPE('c) = LENGTH('c)"
  shows "put_word b i (ldw (drop i b) :: 'c::len word) = b"
proof -
  let ?t = "take (wbytes TYPE('c)) (drop i b)"
  have "le_bytes (length ?t) (le_word ?t :: 'c word) = ?t"
    using assms(2) by (intro le_parts_le_word) (simp add: min_def)
  then have "le_bytes (wbytes TYPE('c)) (ldw (drop i b) :: 'c word) = ?t"
  proof -
    have "length ?t = wbytes TYPE('c)" using assms(1) by simp
    then show ?thesis using \<open>le_bytes (length ?t) _ = ?t\<close> by (simp add: ldw_def)
  qed
  moreover have "?t @ drop (i + wbytes TYPE('c)) b = drop i b"
    using append_take_drop_id [of "wbytes TYPE('c)" "drop i b"] by (simp add: add.commute)
  ultimately show ?thesis by (simp only: put_word_def append_take_drop_id)
qed

lemma peek_put_word:
  assumes "i + wbytes TYPE('c) \<le> length b" "8 * wbytes TYPE('c) = LENGTH('c)"
  shows "peek (put_word b i v) i = Inr (v :: 'c::len word)"
proof -
  have "LENGTH('c) = LENGTH(8) * wbytes TYPE('c)" using assms(2) by simp
  from le_word_le_parts [OF this, of v] show ?thesis
    using assms(1) by (simp add: peek_def ldw_def put_word_def)
qed

lemma lift_simps [simp]: "lift (Inr x) = Inr x" "lift (Inl e) = Inl (Crash e)"
  by (simp_all add: lift_def)

lemma lift_eq_Inr: "lift r = Inr x \<longleftrightarrow> r = Inr x"
  by (cases r) simp_all

text \<open>Environments that show the target the bytes only.\<close>

lemma run_case_bytes:
  "fuzz env = (\<lambda>_. f) \<Longrightarrow> bnd (run_case env (d, s)) h = bnd (run_list f [out_buf d] s) (\<lambda>s'. h (d, s'))"
  by (simp add: run_case_def Let_def split: prod.splits)

section \<open>Attempts\<close>

definition harmless :: "(det_state \<Rightarrow> det_state) \<Rightarrow> bool" where
  "harmless u \<longleftrightarrow> (\<forall>d. bare (u d) = bare d \<and> out_buf (u d) = out_buf d \<and> stage_cur (u d) = stage_cur d \<and>
     stage_max (u d) = stage_max d)"

lemma harmless_simps [simp]: "harmless id" "harmless (set_val v)" "harmless (set_type t)"
  by (simp_all add: harmless_def bare_def set_val_def set_type_def)

text \<open>The buffers that attempts at \<open>i\<close> leave: the original one with some word at \<open>i\<close>.\<close>

definition variant :: "'c::len itself \<Rightarrow> bytes \<Rightarrow> nat \<Rightarrow> bytes \<Rightarrow> bool" where
  "variant _ b i b' \<longleftrightarrow> (\<exists>v :: 'c word. b' = put_word b i v)"

fun attempt_cases :: "bytes \<Rightarrow> nat \<Rightarrow> 'c::len attempt \<Rightarrow> bytes list" where
  "attempt_cases b i (pre, worth, post, v) = (if worth then [put_word b i v] else [])"

fun clean :: "'c attempt \<Rightarrow> bool" where
  "clean (pre, worth, post, v) \<longleftrightarrow> harmless pre \<and> harmless post"

lemma try_value_does:
  fixes a :: "'c::len attempt"
  assumes env: "fuzz env = (\<lambda>_. f)" and c: "clean a" and i: "i + wbytes TYPE('c) \<le> length b"
    and v: "variant TYPE('c) b i (out_buf d)"
  shows "does f (variant TYPE('c) b i) 1 (attempt_cases b i a) (try_value env i a) d"
proof -
  obtain pre worth post v where a: "a = (pre, worth, post, v)" by (metis prod_cases4)
  have h: "harmless pre" "harmless post" using c a by auto
  obtain w :: "'c word" where w: "out_buf d = put_word b i w" using v by (auto simp: variant_def)
  show ?thesis
  proof (cases worth)
    case True
    let ?d = "(post (pre d))\<lparr>out_buf := put_word b i v\<rparr>"
    let ?d' = "?d\<lparr>stage_cur := stage_cur ?d + 1\<rparr>"
    have "try_value env i a (d, s) = exec f [put_word b i v] s ?d'" for s
      using True h(1) w i by (simp add: a try_value_def Let_def harmless_def poke_def put_word_put_word
          run_case_bytes [OF env] exec_def)
    moreover have "bare ?d' = bare d" using h by (simp add: harmless_def bare_def)
    moreover have "variant TYPE('c) b i (out_buf ?d')" by (auto simp: variant_def)
    ultimately show ?thesis
      unfolding does_def using h True by (intro exI [of _ ?d']) (simp add: a harmless_def)
  next
    case False
    then show ?thesis
      unfolding a attempt_cases.simps if_not_P [OF False] using h v
      by (intro does_quiet [where d' = "(pre d)\<lparr>stage_max := stage_max (pre d) - 1\<rparr>"])
        (simp_all add: try_value_def Let_def harmless_def bare_def)
  qed
qed

text \<open>A list of attempts at one offset, and the restoring of the word.\<close>

lemma attempts_does:
  fixes atts :: "'c::len attempt list"
  assumes "fuzz env = (\<lambda>_. f)" "list_all clean atts" "i + wbytes TYPE('c) \<le> length b" "variant TYPE('c) b i (out_buf d)"
  shows "does f (variant TYPE('c) b i) (length atts) (concat (map (attempt_cases b i) atts)) (foldm (try_value env i) atts) d"
  using does_foldm [of atts "variant TYPE('c) b i" d f 1 "attempt_cases b i" "try_value env i"]
    try_value_does [OF assms(1) _ assms(3)] assms(2,4)
  by (auto simp: list_all_iff)

lemma restore_does:
  fixes w :: "'c::len word"
  assumes "i + wbytes TYPE('c) \<le> length b" "8 * wbytes TYPE('c) = LENGTH('c)" "variant TYPE('c) b i (out_buf d)"
    and "w = ldw (drop i b)"
  shows "does f ((=) b) 0 [] (\<lambda>(d, s). bnd (lift (poke (out_buf d) i w)) (\<lambda>b. Inr (d\<lparr>out_buf := b\<rparr>, s))) d"
proof -
  obtain v :: "'c word" where v: "out_buf d = put_word b i v" using assms(3) by (auto simp: variant_def)
  show ?thesis
    by (rule does_quiet [where d' = "d\<lparr>out_buf := b\<rparr>"])
      (use assms v in \<open>simp_all add: poke_def put_word_put_word put_word_same bare_def\<close>)
qed

lemma bare_eff: "bare d1 = bare d \<Longrightarrow> eff_map d1 = eff_map d"
proof -
  have eff: "eff_map (bare e) = eff_map e" for e by (simp add: bare_def)
  assume "bare d1 = bare d"
  then show ?thesis using eff [of d1] eff [of d] by simp
qed

section \<open>Offsets\<close>

text \<open>The executions of one offset, in terms of the attempts.\<close>

definition arith_tries :: "('c::len word \<Rightarrow> nat \<Rightarrow> 'c attempt list) \<Rightarrow> det_state \<Rightarrow> nat \<Rightarrow> bytes list" where
  "arith_tries attempts d i =
     (if touched d (wbytes TYPE('c)) i
      then concat (map (\<lambda>j. concat (map (attempt_cases (out_buf d) i) (attempts (ldw (drop i (out_buf d))) j)))
             [1 ..< ARITH_MAX + 1])
      else [])"

definition interest_tries :: "int list \<Rightarrow> ('c::len word \<Rightarrow> int \<Rightarrow> 'c attempt list) \<Rightarrow> det_state \<Rightarrow> nat \<Rightarrow> bytes list" where
  "interest_tries vals attempts d i =
     (if touched d (wbytes TYPE('c)) i
      then concat (map (\<lambda>x. concat (map (attempt_cases (out_buf d) i) (attempts (ldw (drop i (out_buf d))) x))) vals)
      else [])"

lemma skip_does:
  "does f ((=) (out_buf d)) m [] (\<lambda>(d, s). Inr (d\<lparr>stage_max := stage_max d - of_nat m\<rparr>, s)) d"
  by (rule does_quiet [where d' = "d\<lparr>stage_max := stage_max d - of_nat m\<rparr>"]) (simp_all add: bare_def)

lemma does_start:
  assumes "does f B m cs g (u d)" "harmless u" "\<And>s. h (d, s) = g (u d, s)"
  shows "does f B m cs h d"
  using assms unfolding does_def harmless_def by auto

lemma harmless_byte [simp]: "harmless (\<lambda>d. d\<lparr>stage_cur_byte := x\<rparr>)"
  by (simp add: harmless_def bare_def)

lemma variant_self:
  assumes "i + wbytes TYPE('c) \<le> length b" "8 * wbytes TYPE('c) = LENGTH('c::len)"
  shows "variant TYPE('c) b i b"
  unfolding variant_def using put_word_same [OF assms] by metis

lemma arith_at_does:
  fixes attempts :: "'c::len word \<Rightarrow> nat \<Rightarrow> 'c attempt list"
  assumes env: "fuzz env = (\<lambda>_. f)" and c: "\<And>v j. list_all clean (attempts v j) \<and> length (attempts v j) = per"
    and i: "i + wbytes TYPE('c) \<le> length (out_buf d)" and w: "8 * wbytes TYPE('c) = LENGTH('c)" and m: "mapped d"
  shows "does f ((=) (out_buf d)) (per * ARITH_MAX) (arith_tries attempts d i) (arith_at per attempts env i) d"
proof -
  define b where "b = out_buf d"
  define orig :: "'c word" where "orig = ldw (drop i b)"
  have peek: "peek b i = Inr orig" using i by (simp add: peek_def orig_def b_def)
  have eff: "effective d (wbytes TYPE('c)) i = Inr (touched d (wbytes TYPE('c)) i)" by (rule effective_touched [OF m i])
  show ?thesis
  proof (cases "touched d (wbytes TYPE('c)) i")
    case False
    have "does f ((=) (out_buf d)) (per * ARITH_MAX) [] (arith_at per attempts env i) d"
      using skip_does [of f d "per * ARITH_MAX"] False peek
      by (subst does_cong [where h = "\<lambda>(d, s). Inr (d\<lparr>stage_max := stage_max d - of_nat (per * ARITH_MAX)\<rparr>, s)"])
        (simp_all add: arith_at_def b_def eff)
    then show ?thesis using False by (simp add: arith_tries_def)
  next
    case True
    then have True_not: "\<not> \<not> touched d (wbytes TYPE('c)) i" by simp
    let ?one = "\<lambda>j x. bnd (foldm (try_value env i) (attempts orig j) x)
      (\<lambda>(d2, s2). bnd (lift (poke (out_buf d2) i orig)) (\<lambda>b. Inr (d2\<lparr>out_buf := b\<rparr>, s2)))"
    have one: "does f ((=) b) per (concat (map (attempt_cases b i) (attempts orig j))) (?one j) d1" if "b = out_buf d1" for j d1
    proof -
      have i': "i + wbytes TYPE('c) \<le> length b" using i by (simp add: b_def)
      have v: "variant TYPE('c) b i (out_buf d1)" using variant_self [OF i' w] that by simp
      have "does f ((=) b) (length (attempts orig j) + 0) (concat (map (attempt_cases b i) (attempts orig j)) @ []) (?one j) d1"
        by (rule does_bnd [OF attempts_does [OF env conjunct1 [OF c] i' v] restore_does [OF i' w _ orig_def]])
      then show ?thesis using c by simp
    qed
    have len: "length [1 ..< ARITH_MAX + 1] = ARITH_MAX" by simp
    have all: "does f ((=) b) (per * length [1 ..< ARITH_MAX + 1])
        (concat (map (\<lambda>j. concat (map (attempt_cases b i) (attempts orig j))) [1 ..< ARITH_MAX + 1]))
        (foldm ?one [1 ..< ARITH_MAX + 1]) (d\<lparr>stage_cur_byte := of_nat i\<rparr>)"
      by (rule does_foldm) (use one in \<open>simp_all add: b_def\<close>)
    have "does f ((=) b) (per * ARITH_MAX)
        (concat (map (\<lambda>j. concat (map (attempt_cases b i) (attempts orig j))) [1 ..< ARITH_MAX + 1]))
        (arith_at per attempts env i) d"
    proof (rule does_start [where u = "\<lambda>d. d\<lparr>stage_cur_byte := of_nat i\<rparr>", OF all [unfolded len]])
      show "arith_at per attempts env i (d, s) = foldm ?one [1 ..< ARITH_MAX + 1] (d\<lparr>stage_cur_byte := of_nat i\<rparr>, s)" for s
        unfolding arith_at_def by (simp only: prod.case peek [unfolded b_def] eff lift_simps bnd_simps if_not_P [OF True_not])
    qed simp
    then show ?thesis using True unfolding arith_tries_def b_def orig_def by (simp only: if_True)
  qed
qed

lemma interest_at_does:
  fixes attempts :: "'c::len word \<Rightarrow> int \<Rightarrow> 'c attempt list"
  assumes env: "fuzz env = (\<lambda>_. f)" and c: "\<And>v x. list_all clean (attempts v x) \<and> length (attempts v x) = 2"
    and i: "i + wbytes TYPE('c) \<le> length (out_buf d)" and w: "8 * wbytes TYPE('c) = LENGTH('c)" and m: "mapped d"
  shows "does f ((=) (out_buf d)) (2 * length vals) (interest_tries vals attempts d i) (interest_at vals attempts env i) d"
proof -
  define b where "b = out_buf d"
  define orig :: "'c word" where "orig = ldw (drop i b)"
  have peek: "peek b i = Inr orig" using i by (simp add: peek_def orig_def b_def)
  have eff: "effective d (wbytes TYPE('c)) i = Inr (touched d (wbytes TYPE('c)) i)" by (rule effective_touched [OF m i])
  show ?thesis
  proof (cases "touched d (wbytes TYPE('c)) i")
    case False
    have "does f ((=) (out_buf d)) (2 * length vals) [] (interest_at vals attempts env i) d"
      using skip_does [of f d "2 * length vals"] False peek
      by (subst does_cong [where h = "\<lambda>(d, s). Inr (d\<lparr>stage_max := stage_max d - of_nat (2 * length vals)\<rparr>, s)"])
        (simp_all add: interest_at_def b_def eff)
    then show ?thesis using False by (simp add: interest_tries_def)
  next
    case True
    then have not_not: "\<not> \<not> touched d (wbytes TYPE('c)) i" by simp
    let ?d = "d\<lparr>stage_cur_byte := of_nat i\<rparr>"
    let ?cs = "concat (map (\<lambda>x. concat (map (attempt_cases b i) (attempts orig x))) vals)"
    let ?restore = "\<lambda>(d2, s2). bnd (lift (poke (out_buf d2) i orig)) (\<lambda>b. Inr (d2\<lparr>out_buf := b\<rparr>, s2))"
    have i': "i + wbytes TYPE('c) \<le> length b" using i by (simp add: b_def)
    have one: "does f (variant TYPE('c) b i) 2 (concat (map (attempt_cases b i) (attempts orig x)))
        (foldm (try_value env i) (attempts orig x)) d1" if "variant TYPE('c) b i (out_buf d1)" for x d1
      using attempts_does [OF env conjunct1 [OF c [of orig x]] i' that] c by simp
    have vals: "does f (variant TYPE('c) b i) (2 * length vals) ?cs (foldm (\<lambda>x. foldm (try_value env i) (attempts orig x)) vals) ?d"
      by (rule does_foldm) (use one variant_self [OF i' w] in \<open>simp_all add: b_def\<close>)
    have "does f ((=) b) (2 * length vals + 0) (?cs @ [])
        (\<lambda>x. bnd (foldm (\<lambda>x. foldm (try_value env i) (attempts orig x)) vals x) ?restore) ?d"
      by (rule does_bnd [OF vals restore_does [OF i' w _ orig_def]])
    then have "does f ((=) b) (2 * length vals) ?cs
        (\<lambda>x. bnd (foldm (\<lambda>x. foldm (try_value env i) (attempts orig x)) vals x) ?restore) ?d"
      by simp
    then have "does f ((=) b) (2 * length vals) ?cs (interest_at vals attempts env i) d"
    proof (rule does_start [where u = "\<lambda>d. d\<lparr>stage_cur_byte := of_nat i\<rparr>"])
      show "interest_at vals attempts env i (d, s) =
          bnd (foldm (\<lambda>x. foldm (try_value env i) (attempts orig x)) vals (?d, s)) ?restore" for s
        unfolding interest_at_def by (simp only: prod.case peek [unfolded b_def] eff lift_simps bnd_simps if_not_P [OF not_not])
    qed simp
    then show ?thesis using True unfolding interest_tries_def b_def orig_def by (simp only: if_True)
  qed
qed

text \<open>Bytes have a loop of their own, and whole words are inverted.\<close>

definition interest8_tries :: "det_state \<Rightarrow> nat \<Rightarrow> bytes list" where
  "interest8_tries d i =
     (if touched d 1 i
      then map (\<lambda>v. (out_buf d)[i := v])
        (filter (\<lambda>v. \<not> could_be_bitflip (ucast (out_buf d ! i XOR v)) \<and> \<not> could_be_arith (ucast (out_buf d ! i)) (ucast v) 1)
          (map word_of_int interesting_8))
      else [])"

definition flip_cases :: "'c::len itself \<Rightarrow> det_state \<Rightarrow> nat \<Rightarrow> bytes list" where
  "flip_cases _ d i =
     (if touched d (wbytes TYPE('c)) i
      then [put_word (out_buf d) i (NOT (ldw (drop i (out_buf d)) :: 'c word))] else [])"

lemma put_byte: "i < length b \<Longrightarrow> put_word b i (v :: u8) = b[i := v]"
  by (simp add: put_word_def wbytes_def le_parts_def part_of_def upd_conv_take_nth_drop)

lemma peek_byte: "i < length b \<Longrightarrow> peek b i = Inr (b ! i :: u8)"
  by (simp add: peek_def wbytes_def ldw_def Cons_nth_drop_Suc [symmetric])

lemma try_interest8_does:
  assumes env: "fuzz env = (\<lambda>_. f)" and i: "i < length (out_buf d)" and o: "orig = out_buf d ! i"
  shows "does f ((=) (out_buf d)) 1
    (if could_be_bitflip (ucast (orig XOR v)) \<or> could_be_arith (ucast orig) (ucast v) 1 then [] else [(out_buf d)[i := v]])
    (try_interest8 env i orig v) d"
proof (cases "could_be_bitflip (ucast (orig XOR v)) \<or> could_be_arith (ucast orig) (ucast v) 1")
  case True
  then have "does f ((=) (out_buf d)) 1 [] (try_interest8 env i orig v) d"
    by (intro does_quiet [where d' = "d\<lparr>stage_max := stage_max d - 1\<rparr>"]) (simp_all add: try_interest8_def bare_def)
  then show ?thesis using True by simp
next
  case False
  let ?d = "(set_val (scast v) d)\<lparr>stage_cur := stage_cur d + 1\<rparr>"
  have "try_interest8 env i orig v (d, s) = exec f [(out_buf d)[i := v]] s ?d" for s
    using False i o by (simp add: try_interest8_def poke_def put_byte wbytes_def run_case_bytes [OF env] exec_def set_val_def)
  then have "does f ((=) (out_buf d)) 1 [(out_buf d)[i := v]] (try_interest8 env i orig v) d"
    unfolding does_def by (intro exI [of _ ?d]) (simp add: set_val_def bare_def)
  then show ?thesis using False by (simp only: if_False)
qed

lemma interest8_at_does:
  assumes env: "fuzz env = (\<lambda>_. f)" and i: "i < length (out_buf d)" and m: "mapped d"
  shows "does f ((=) (out_buf d)) (length interesting_8) (interest8_tries d i) (interest8_at env i) d"
proof (cases "touched d 1 i")
  case False
  have eff: "effective d 1 i = Inr False" using effective_touched [OF m, of i 1] i False by simp
  have "does f ((=) (out_buf d)) (length interesting_8) [] (interest8_at env i) d"
    using skip_does [of f d "length interesting_8"] False peek_byte [OF i]
    by (subst does_cong [where h = "\<lambda>(d, s). Inr (d\<lparr>stage_max := stage_max d - of_nat (length interesting_8)\<rparr>, s)"])
      (simp_all add: interest8_at_def eff [simplified])
  then show ?thesis using False by (simp add: interest8_tries_def)
next
  case True
  then have eff: "effective d 1 i = Inr True" using effective_touched [OF m, of i 1] i by simp
  let ?b = "out_buf d" and ?vals = "map word_of_int interesting_8 :: u8 list"
  let ?dup = "\<lambda>v. could_be_bitflip (ucast (?b ! i XOR v)) \<or> could_be_arith (ucast (?b ! i)) (ucast v) 1"
  let ?u = "\<lambda>d. d\<lparr>stage_cur_byte := of_nat i\<rparr>"
  have all: "does f ((=) ?b) (1 * length ?vals) (concat (map (\<lambda>v. if ?dup v then [] else [?b[i := v]]) ?vals))
      (foldm (try_interest8 env i (?b ! i)) ?vals) (?u d)"
  proof (rule does_foldm)
    fix v :: u8 and d1 :: det_state assume d1: "?b = out_buf d1"
    then show "does f ((=) ?b) 1 (if ?dup v then [] else [?b[i := v]]) (try_interest8 env i (?b ! i) v) d1"
      unfolding d1 by (intro try_interest8_does env refl) (use i d1 in simp)
  qed simp
  have "does f ((=) ?b) (1 * length ?vals) (concat (map (\<lambda>v. if ?dup v then [] else [?b[i := v]]) ?vals)) (interest8_at env i) d"
  proof (rule does_start [where u = ?u, OF all])
    show "interest8_at env i (d, s) = foldm (try_interest8 env i (?b ! i)) ?vals (?u d, s)" for s
      unfolding interest8_at_def by (simp only: prod.case peek_byte [OF i] eff lift_simps bnd_simps not_True_eq_False if_False)
  qed simp
  moreover have flat: "concat (map (\<lambda>v. if P v then [] else [g v]) vs) = map g (filter (\<lambda>v. \<not> P v) vs)" for P g and vs :: "u8 list"
    by (induction vs) auto
  ultimately show ?thesis
    unfolding interest8_tries_def if_P [OF True] by (simp only: flat length_map mult_1 de_Morgan_disj)
qed

lemma flip_word_does:
  assumes env: "fuzz env = (\<lambda>_. f)" and i: "i + wbytes TYPE('c::len) \<le> length (out_buf d)" and w: "8 * wbytes TYPE('c) = LENGTH('c)"
    and m: "mapped d"
  shows "does f ((=) (out_buf d)) 1 (flip_cases TYPE('c) d i) (flip_word TYPE('c) env i) d"
proof (cases "touched d (wbytes TYPE('c)) i")
  case False
  have eff: "effective d (wbytes TYPE('c)) i = Inr False" using effective_touched [OF m i] False by simp
  then have "does f ((=) (out_buf d)) 1 [] (flip_word TYPE('c) env i) d"
    by (intro does_quiet [where d' = "d\<lparr>stage_max := stage_max d - 1\<rparr>"]) (simp_all add: flip_word_def bare_def)
  then show ?thesis using False by (simp add: flip_cases_def)
next
  case True
  have eff: "effective d (wbytes TYPE('c)) i = Inr True" using effective_touched [OF m i] True by simp
  let ?v = "ldw (drop i (out_buf d)) :: 'c word"
  let ?d = "d\<lparr>stage_cur_byte := of_nat i, stage_cur := stage_cur d + 1\<rparr>"
  have "(peek (out_buf d) i :: 'c word res) = Inr ?v" using i by (simp add: peek_def)
  moreover have "poke (put_word (out_buf d) i (NOT ?v)) i ?v = Inr (out_buf d)"
    using i w by (simp add: poke_def put_word_put_word put_word_same)
  ultimately have "flip_word TYPE('c) env i (d, s) = exec f [put_word (out_buf d) i (NOT ?v)] s ?d" for s
    using eff i w by (simp add: flip_word_def poke_def peek_put_word run_case_bytes [OF env] exec_def Let_def)
  then have "does f ((=) (out_buf d)) 1 [put_word (out_buf d) i (NOT ?v)] (flip_word TYPE('c) env i) d"
    unfolding does_def by (intro exI [of _ ?d]) (simp add: bare_def)
  then show ?thesis using True by (simp only: flip_cases_def if_True)
qed

section \<open>Stages\<close>

lemma bare_fields:
  assumes "bare d1 = bare d"
  shows "eff_map d1 = eff_map d" "orig_hit_cnt d1 = orig_hit_cnt d" "stage_finds d1 = stage_finds d"
    "stage_cycles d1 = stage_cycles d"
proof -
  have "eff_map (bare e) = eff_map e" "orig_hit_cnt (bare e) = orig_hit_cnt e" "stage_finds (bare e) = stage_finds e"
    "stage_cycles (bare e) = stage_cycles e" for e
    by (simp_all add: bare_def)
  from this [of d1] this [of d] assms show "eff_map d1 = eff_map d" "orig_hit_cnt d1 = orig_hit_cnt d"
    "stage_finds d1 = stage_finds d" "stage_cycles d1 = stage_cycles d"
    by simp_all
qed

text \<open>
  A stage executes its cases in order, abandons the entry when one of them asks for it, and leaves
  the buffer and the effector map as it found them; \<open>stage_max\<close> is then the number of executions,
  and the finds and executions are added to the statistics of stage \<open>k\<close>.
\<close>

definition stage_spec :: "'s fuzz_env \<Rightarrow> (bytes \<Rightarrow> 's \<Rightarrow> bool \<times> 's) \<Rightarrow> nat \<Rightarrow> bytes list \<Rightarrow> u64 \<Rightarrow> det_state \<Rightarrow> 's \<Rightarrow> 's det_res \<Rightarrow> bool" where
  "stage_spec env f k cs hits d s r = (case run_list f cs s of
     Inl stop \<Rightarrow> r = Inl stop
   | Inr s' \<Rightarrow> (case r of Inl stop \<Rightarrow> False | Inr (d', s'') \<Rightarrow>
       s'' = s' \<and> out_buf d' = out_buf d \<and> eff_map d' = eff_map d \<and>
       stage_max d' = of_nat (length cs) \<and> stage_cur d' = stage_max d' \<and> new_hit_cnt d' = hit_cnt env s' \<and>
       stage_finds d' = (stage_finds d)(k := stage_finds d k + (hit_cnt env s' - hits)) \<and>
       stage_cycles d' = (stage_cycles d)(k := stage_cycles d k + ucast (of_nat (length cs) :: u32))))"

lemma stage_of_does:
  assumes loop: "does f ((=) (out_buf d)) m cs g d1"
    and start: "stage_cur d1 = 0" "stage_max d1 = of_nat m" "orig_hit_cnt d1 = hits" "stage_finds d1 = stage_finds d"
      "stage_cycles d1 = stage_cycles d" "eff_map d1 = eff_map d"
  shows "stage_spec env f k cs hits d s (bnd (g (d1, s)) (end_stage env k))"
proof -
  obtain d2 where d2: "\<And>s. g (d1, s) = exec f cs s d2" "out_buf d = out_buf d2" "bare d2 = bare d1"
    "stage_cur d2 = of_nat (length cs)" "stage_max d2 = of_nat (length cs)"
    using loop start(1,2) unfolding does_def by auto
  note same = bare_fields [OF d2(3)]
  show ?thesis
    using d2 same start
    by (cases "run_list f cs s") (simp_all add: stage_spec_def exec_def end_stage_def Let_def)
qed

text \<open>The loop over the offsets, for steps that restore the buffer.\<close>

lemma offsets_do:
  assumes step: "\<And>i d2 :: det_state. i \<in> set xs \<Longrightarrow> out_buf d2 = out_buf d \<Longrightarrow> eff_map d2 = eff_map d \<Longrightarrow>
      does f ((=) (out_buf d2)) m (cs d2 i) (g i) d2"
    and cong: "\<And>i d2 :: det_state. out_buf d2 = out_buf d \<Longrightarrow> eff_map d2 = eff_map d \<Longrightarrow> cs d2 i = cs d i"
    and d1: "out_buf d1 = out_buf d" "eff_map d1 = eff_map d"
  shows "does f ((=) (out_buf d)) (m * length xs) (concat (map (cs d) xs)) (foldm g xs) d1"
proof (rule does_foldm)
  fix i d2 assume d2: "i \<in> set xs" "out_buf d = out_buf d2" "bare d2 = bare d1"
  then have "out_buf d2 = out_buf d" "eff_map d2 = eff_map d" using bare_fields(1) [OF d2(3)] d1 by simp_all
  then show "does f ((=) (out_buf d)) m (cs d i) (g i) d2"
    using step [OF d2(1), of d2] cong [of d2 i] by simp
qed (use d1 in simp)

lemma cases_cong:
  assumes "out_buf d1 = out_buf d" "eff_map d1 = eff_map d"
  shows "arith_tries attempts d1 i = arith_tries attempts d i" "interest_tries vals attempts' d1 i = interest_tries vals attempts' d i"
    "interest8_tries d1 i = interest8_tries d i" "flip_cases t d1 i = flip_cases t d i"
  using assms touched_cong [OF assms(2)]
  by (simp_all add: arith_tries_def interest_tries_def interest8_tries_def flip_cases_def)

lemma mapped_cong: "out_buf d1 = out_buf d \<Longrightarrow> eff_map d1 = eff_map d \<Longrightarrow> mapped d \<Longrightarrow> mapped d1"
  by (simp add: mapped_def)

lemma attempts_clean:
  "list_all clean (arith8_attempts v j)" "list_all clean (arith16_attempts v' j)" "list_all clean (arith32_attempts v'' j)"
  "list_all clean (interest16_attempts v' x)" "list_all clean (interest32_attempts v'' x)"
  by (simp_all add: arith8_attempts_def arith16_attempts_def arith32_attempts_def interest16_attempts_def
      interest32_attempts_def Let_def)

lemma attempts_length:
  "length (arith8_attempts v j) = 2" "length (arith16_attempts v' j) = 4" "length (arith32_attempts v'' j) = 4"
  "length (interest16_attempts v' x) = 2" "length (interest32_attempts v'' x) = 2"
  by (simp_all add: arith8_attempts_def arith16_attempts_def arith32_attempts_def interest16_attempts_def
      interest32_attempts_def Let_def)

lemma arith_offsets:
  fixes attempts :: "'c::len word \<Rightarrow> nat \<Rightarrow> 'c attempt list"
  assumes "fuzz env = (\<lambda>_. f)" "\<And>v j. list_all clean (attempts v j) \<and> length (attempts v j) = per"
    and i: "\<And>i. i \<in> set xs \<Longrightarrow> i + wbytes TYPE('c) \<le> length (out_buf d)" and "8 * wbytes TYPE('c) = LENGTH('c)"
    and "out_buf d1 = out_buf d" "eff_map d1 = eff_map d" and m: "mapped d"
  shows "does f ((=) (out_buf d)) (per * ARITH_MAX * length xs) (concat (map (arith_tries attempts d) xs))
    (foldm (arith_at per attempts env) xs) d1"
  by (intro offsets_do arith_at_does cases_cong assms) (simp_all add: i mapped_cong m)

lemma interest_offsets:
  fixes attempts :: "'c::len word \<Rightarrow> int \<Rightarrow> 'c attempt list"
  assumes "fuzz env = (\<lambda>_. f)" "\<And>v x. list_all clean (attempts v x) \<and> length (attempts v x) = 2"
    and i: "\<And>i. i \<in> set xs \<Longrightarrow> i + wbytes TYPE('c) \<le> length (out_buf d)" and "8 * wbytes TYPE('c) = LENGTH('c)"
    and "out_buf d1 = out_buf d" "eff_map d1 = eff_map d" and m: "mapped d"
  shows "does f ((=) (out_buf d)) (2 * length vals * length xs) (concat (map (interest_tries vals attempts d) xs))
    (foldm (interest_at vals attempts env) xs) d1"
  by (intro offsets_do interest_at_does cases_cong assms) (simp_all add: i mapped_cong m)

lemma interest8_offsets:
  assumes "fuzz env = (\<lambda>_. f)" and i: "\<And>i. i \<in> set xs \<Longrightarrow> i < length (out_buf d)"
    and "out_buf d1 = out_buf d" "eff_map d1 = eff_map d" and m: "mapped d"
  shows "does f ((=) (out_buf d)) (length interesting_8 * length xs) (concat (map (interest8_tries d) xs))
    (foldm (interest8_at env) xs) d1"
  by (intro offsets_do interest8_at_does cases_cong assms) (simp_all add: i mapped_cong m)

lemma flip_offsets:
  assumes "fuzz env = (\<lambda>_. f)" and i: "\<And>i. i \<in> set xs \<Longrightarrow> i + wbytes TYPE('c::len) \<le> length (out_buf d)"
    and "8 * wbytes TYPE('c) = LENGTH('c)" "out_buf d1 = out_buf d" "eff_map d1 = eff_map d" and m: "mapped d"
  shows "does f ((=) (out_buf d)) (1 * length xs) (concat (map (flip_cases TYPE('c) d) xs))
    (foldm (flip_word TYPE('c) env) xs) d1"
  by (intro offsets_do flip_word_does cases_cong assms) (simp_all add: i mapped_cong m)

section \<open>Which values the arithmetic and interesting-value stages try\<close>

text \<open>
  The specification of these stages shares nothing with the attempts of the code. It speaks of what
  the earlier stages can make of a value: \<open>flip_reach\<close> a walking flip of 1, 2, 4, 8, 16 or 32 bits,
  \<open>arith_reach\<close> an addition or subtraction of at most 35 on one byte, one aligned half or the whole, in
  either byte order, and \<open>interest_reach\<close> an interesting value written over some bytes, \<open>n\<close> being the
  number of bytes and \<open>both\<close> whether the values of the full width count.
\<close>

definition rev_bytes :: "'c::len word \<Rightarrow> 'c word" where
  "rev_bytes w = le_word (rev (le_bytes (wbytes TYPE('c)) w))"

definition flip_reach :: "u32 \<Rightarrow> u32 \<Rightarrow> bool" where
  "flip_reach old new \<longleftrightarrow> new = old \<or> (\<exists>k p. old XOR new = bit_run k p \<and> p + k \<le> 32 \<and> flip_len k p)"

definition arith_reach :: "nat \<Rightarrow> u32 \<Rightarrow> u32 \<Rightarrow> bool" where
  "arith_reach n old new \<longleftrightarrow>
     new = old \<or> reach8 n old new \<or> 2 \<le> n \<and> reach16 n old new \<or> n = 4 \<and> reach32 old new"

definition interest_reach :: "nat \<Rightarrow> bool \<Rightarrow> u32 \<Rightarrow> u32 \<Rightarrow> bool" where
  "interest_reach n both old new \<longleftrightarrow>
     (let b = le_bytes n old; b' = le_bytes n new in
      b' = b \<or>
      (\<exists>i < n. \<exists>v \<in> set interesting_8. b' = b[i := word_of_int v]) \<or>
      (n = 4 \<or> both) \<and> (\<exists>i. i + 2 \<le> n \<and> (\<exists>v \<in> set interesting_16. b' = put_word b i (word_of_int v :: u16) \<or>
        n = 4 \<and> b' = put_word b i (rev_bytes (word_of_int v :: u16)))) \<or>
      n = 4 \<and> both \<and> (\<exists>v \<in> set interesting_32. new = word_of_int v))"

text \<open>
  The values of an arithmetic stage for one distance: in each byte order the sum, then the
  difference, if the carry or borrow changes the bits from \<open>h\<close> on (the half of the word; else a
  narrower stage has had it) and no flip makes the value.
\<close>

definition arith_values :: "('c::len word \<Rightarrow> 'c word) list \<Rightarrow> nat \<Rightarrow> 'c word \<Rightarrow> nat \<Rightarrow> 'c word list" where
  "arith_values orders h orig j = concat (map (\<lambda>ord.
     filter (\<lambda>v. drop_bit h (ord v) \<noteq> drop_bit h (ord orig) \<and> \<not> flip_reach (ucast orig) (ucast v))
       [ord (ord orig + of_nat j), ord (ord orig - of_nat j)]) orders)"

definition arith_cases :: "('c::len word \<Rightarrow> 'c word) list \<Rightarrow> nat \<Rightarrow> det_state \<Rightarrow> nat \<Rightarrow> bytes list" where
  "arith_cases orders h d i =
     (if touched d (wbytes TYPE('c)) i
      then concat (map (\<lambda>j. map (put_word (out_buf d) i) (arith_values orders h (ldw (drop i (out_buf d))) j)) [1 ..< 36])
      else [])"

text \<open>The values of an interesting-value stage: each in both byte orders, once if they agree, unless an
  earlier stage, or an earlier value of this one, makes it.\<close>

definition interest_values :: "'c::len word \<Rightarrow> int \<Rightarrow> 'c word list" where
  "interest_values orig x =
     (let v = word_of_int x;
          old = (\<lambda>both u. flip_reach (ucast orig) (ucast u) \<or> arith_reach (wbytes TYPE('c)) (ucast orig) (ucast u) \<or>
                  interest_reach (wbytes TYPE('c)) both (ucast orig) (ucast u))
      in filter (\<lambda>u. \<not> old False u) [v] @ filter (\<lambda>u. u \<noteq> v \<and> \<not> old True u) [rev_bytes v])"

definition interest_cases :: "'c::len itself \<Rightarrow> int list \<Rightarrow> det_state \<Rightarrow> nat \<Rightarrow> bytes list" where
  "interest_cases _ vals d i =
     (if touched d (wbytes TYPE('c)) i
      then concat (map (\<lambda>x. map (put_word (out_buf d) i) (interest_values (ldw (drop i (out_buf d)) :: 'c word) x)) vals)
      else [])"

definition interest8_cases :: "det_state \<Rightarrow> nat \<Rightarrow> bytes list" where
  "interest8_cases d i =
     (if touched d 1 i
      then map (\<lambda>v. (out_buf d)[i := v])
        (filter (\<lambda>v. \<not> flip_reach (ucast (out_buf d ! i)) (ucast v) \<and> \<not> arith_reach 1 (ucast (out_buf d ! i)) (ucast v))
          (map word_of_int interesting_8))
      else [])"

subsection \<open>Byte order and carries\<close>

lemma part_of_rev_bytes:
  assumes "8 * wbytes TYPE('c) = LENGTH('c)" "k < wbytes TYPE('c)"
  shows "(part_of (rev_bytes w) k :: u8) = part_of (w :: 'c::len word) (wbytes TYPE('c) - Suc k)"
  using assms by (simp add: rev_bytes_def part_of_le_word rev_nth)

lemma SWAP16_rev_bytes: "SWAP16 = rev_bytes"
proof (rule ext, rule word_parts_eqI [where 'c = 8 and n = 2])
  fix w :: u16 and k :: nat assume k: "k < 2"
  then have "(part_of (rev_bytes w) k :: u8) = part_of w (1 - k)" by (simp add: part_of_rev_bytes)
  also have "\<dots> = part_of (SWAP16 w) k"
    using k by (intro bit_word_eqI) (auto simp: less_2_cases_iff bit_part_of SWAP16_def bit_simps dest: bit_imp_le_length)
  finally show "(part_of (SWAP16 w) k :: u8) = part_of (rev_bytes w) k" ..
qed simp

lemma SWAP32_rev_bytes: "SWAP32 = rev_bytes"
proof (rule ext, rule word_parts_eqI [where 'c = 8 and n = 4])
  have m: "(0x00FF0000 :: u32) = push_bit 16 (mask 8)" "(0x0000FF00 :: u32) = push_bit 8 (mask 8)"
    by (simp_all add: mask_eq_exp_minus_1 push_bit_eq_mult)
  fix w :: u32 and k :: nat assume "k < 4"
  then have k: "k = 0 \<or> k = 1 \<or> k = 2 \<or> k = 3" by linarith
  then have "(part_of (rev_bytes w) k :: u8) = part_of w (3 - k)" by (auto simp add: part_of_rev_bytes)
  also have "\<dots> = part_of (SWAP32 w) k"
    using k by (intro bit_word_eqI) (auto simp: bit_part_of SWAP32_def m bit_simps dest: bit_imp_le_length)
  finally show "(part_of (SWAP32 w) k :: u8) = part_of (rev_bytes w) k" ..
qed simp

lemma rev_bytes_twice:
  assumes "8 * wbytes TYPE('c) = LENGTH('c)"
  shows "rev_bytes (rev_bytes w) = (w :: 'c::len word)"
proof -
  let ?n = "wbytes TYPE('c)"
  have n: "LENGTH('c) = LENGTH(8) * ?n" using assms by simp
  have "le_bytes (length (rev (le_bytes ?n w))) (le_word (rev (le_bytes ?n w)) :: 'c word) = rev (le_bytes ?n w)"
    using assms by (intro le_parts_le_word) simp
  then show ?thesis using le_word_le_parts [OF n, of w] by (simp add: rev_bytes_def)
qed

lemma carry_iff:
  fixes w :: "'c::len word"
  assumes L: "LENGTH('c) = 2 * h" and j: "j < 2 ^ h"
  shows "drop_bit h (w + of_nat j) \<noteq> drop_bit h w \<longleftrightarrow> 2 ^ h \<le> unat w mod 2 ^ h + j"
    "drop_bit h (w - of_nat j) \<noteq> drop_bit h w \<longleftrightarrow> unat w mod 2 ^ h < j"
proof -
  define H :: nat where "H = 2 ^ h"
  define q r where "q = unat w div H" and "r = unat w mod H"
  have "0 < h" using L len_gt_0 [where 'a = 'c] by linarith
  then have H: "1 < H" using \<open>0 < h\<close> one_less_power [of "2 :: nat" h] by (simp add: H_def)
  have HH: "2 ^ LENGTH('c) = H * H" unfolding L H_def by (simp add: power_add mult_2)
  have w: "unat w = q * H + r" "r < H" using H by (simp_all add: q_def r_def)
  have q: "q < H" using unsigned_less [of w, where 'a = nat] H unfolding HH w(1) by (metis add_lessD1 mult_less_cancel2)
  have jH: "j < H" using j by (simp add: H_def)
  have uj: "unat (of_nat j :: 'c word) = j"
  proof (rule unat_of_nat_small)
    have "j * 1 < H * H" using jH H by (intro mult_strict_mono) simp_all
    then show "j < 2 ^ LENGTH('c)" unfolding HH by simp
  qed
  have div: "unat (drop_bit h v) = unat v div H" for v :: "'c word" by (simp add: unat_drop_bit H_def)
  have divmod: "m mod (H * H) div H = m div H mod H" for m
    using H by (simp add: mod_mult2_eq)
  have divH: "(p * H + x) div H = p" if "x < H" for p x using that by simp
  have plus: "unat (w + of_nat j) div H = (unat w + j) div H mod H" unfolding unat_word_ariths uj HH by (rule divmod)
  have "drop_bit h (w + of_nat j) = drop_bit h w \<longleftrightarrow> (unat w + j) div H mod H = q"
    using word_unat_eq_iff [of "drop_bit h (w + of_nat j)" "drop_bit h w"] unfolding div plus q_def [symmetric] by blast
  also have "\<dots> \<longleftrightarrow> \<not> H \<le> r + j"
  proof (cases "H \<le> r + j")
    case True
    have "unat w + j = (q + 1) * H + (r + j - H)" using True w by (simp add: algebra_simps)
    moreover have "r + j - H < H" using w(2) jH by simp
    ultimately have e: "(unat w + j) div H = q + 1" by (intro div_nat_eqI) (simp_all add: algebra_simps)
    have "(q + 1) mod H \<noteq> q" using q H by (cases "q + 1 = H") auto
    then show ?thesis using True e by simp
  next
    case False
    then have "(unat w + j) div H = q" using w by (intro div_nat_eqI) (simp_all add: algebra_simps)
    then show ?thesis using False q by simp
  qed
  finally show "drop_bit h (w + of_nat j) \<noteq> drop_bit h w \<longleftrightarrow> 2 ^ h \<le> unat w mod 2 ^ h + j"
    by (simp add: r_def H_def)
  have "drop_bit h (w - of_nat j) = drop_bit h w \<longleftrightarrow> \<not> r < j"
  proof (cases "r < j")
    case True
    have small: "H + r - j < H" using True jH by arith
    have "unat (w - of_nat j) div H \<noteq> q"
    proof (cases "q = 0")
      case q0: True
      have "1 * H \<le> H * H" using H by (intro mult_le_mono) simp_all
      then have "unat (w - of_nat j) = (H - 1) * H + (H + r - j)"
        using q0 w True jH uj HH by (simp add: unat_sub_if' diff_mult_distrib)
      then have "unat (w - of_nat j) div H = H - 1" using divH [OF small] by (simp only:)
      then show ?thesis using q0 H by simp
    next
      case q1: False
      then obtain p where p: "q = Suc p" by (cases q) auto
      have le: "j \<le> unat w" using p w jH by simp
      then have "unat (w - of_nat j) = unat w - j" using uj by (subst unat_sub) (simp_all add: word_le_nat_alt)
      also have "\<dots> = p * H + (H + r - j)" using w p True jH by simp
      finally have "unat (w - of_nat j) div H = p" using small by simp
      then show ?thesis using p by simp
    qed
    then show ?thesis using True using word_unat_eq_iff [of "drop_bit h (w - of_nat j)" "drop_bit h w"] unfolding div q_def [symmetric] by blast
  next
    case False
    have "unat (w - of_nat j) = unat w - j" using False w uj by (subst unat_sub) (simp_all add: word_le_nat_alt)
    also have "\<dots> = q * H + (r - j)" using False w by simp
    finally have "unat (w - of_nat j) div H = q" using w(2) by simp
    then show ?thesis using False using word_unat_eq_iff [of "drop_bit h (w - of_nat j)" "drop_bit h w"] unfolding div q_def [symmetric] by blast
  qed
  then show "drop_bit h (w - of_nat j) \<noteq> drop_bit h w \<longleftrightarrow> unat w mod 2 ^ h < j" by (simp add: r_def H_def)
qed
text \<open>The conditions of the code, which test the low half for a carry or a borrow.\<close>

lemma low_half: "unat ((w :: 'c::len word) AND mask h) = unat w mod 2 ^ h"
proof -
  have "unat (take_bit h w) = take_bit h (unat w)" by (rule unsigned_take_bit_eq)
  then show ?thesis by (simp only: take_bit_eq_mask [of h w] take_bit_eq_mod [of h "unat w"])
qed

lemma low_masks: "(0xff :: u16) = mask 8" "(0xffff :: u32) = mask 16"
  by (simp_all add: mask_eq_exp_minus_1)

lemma high_half16: "unat (drop_bit 8 (w :: u16)) = unat (SWAP16 w) mod 2 ^ 8"
proof -
  have "drop_bit 8 w = SWAP16 w AND mask 8"
    by (intro bit_word_eqI) (auto simp: SWAP16_def bit_simps dest: bit_imp_le_length)
  then show ?thesis by (simp add: low_half)
qed

lemma carry16:
  fixes w :: u16
  assumes "j < 36"
  shows "0xff < unat (w AND 0xff) + j \<longleftrightarrow> drop_bit 8 (w + of_nat j) \<noteq> drop_bit 8 w"
    "unat (w AND 0xff) < j \<longleftrightarrow> drop_bit 8 (w - of_nat j) \<noteq> drop_bit 8 w"
    "0xff < unat (drop_bit 8 w) + j \<longleftrightarrow> drop_bit 8 (SWAP16 w + of_nat j) \<noteq> drop_bit 8 (SWAP16 w)"
    "unat (drop_bit 8 w) < j \<longleftrightarrow> drop_bit 8 (SWAP16 w - of_nat j) \<noteq> drop_bit 8 (SWAP16 w)"
  using carry_iff [of 8 j w] carry_iff [of 8 j "SWAP16 w"] assms
  unfolding low_masks low_half high_half16 by (simp_all add: less_eq_Suc_le)

lemma carry32:
  fixes w :: u32
  assumes "j < 36"
  shows "0xffff < unat (w AND 0xffff) + j \<longleftrightarrow> drop_bit 16 (w + of_nat j) \<noteq> drop_bit 16 w"
    "unat (w AND 0xffff) < j \<longleftrightarrow> drop_bit 16 (w - of_nat j) \<noteq> drop_bit 16 w"
  using carry_iff [of 16 j w] assms
  unfolding low_masks low_half by (simp_all add: less_eq_Suc_le)

lemma SWAP_twice [simp]: "SWAP16 (SWAP16 v) = v" "SWAP32 (SWAP32 w) = w"
  by (simp_all add: SWAP16_rev_bytes SWAP32_rev_bytes rev_bytes_twice)

subsection \<open>The filters\<close>

lemma flip_reach_filter:
  fixes a b :: "'c::len word"
  assumes "LENGTH('c) \<le> 32"
  shows "could_be_bitflip (ucast (a XOR b)) \<longleftrightarrow> flip_reach (ucast a) (ucast b)"
proof -
  have "(ucast (a XOR b) :: u32) = ucast a XOR ucast b" by (simp add: unsigned_xor_eq)
  moreover have "(ucast a XOR ucast b :: u32) = 0 \<longleftrightarrow> (ucast b :: u32) = ucast a"
    by (metis xor_self_eq bit.xor_left_self xor.right_neutral)
  ultimately show ?thesis by (auto simp: could_be_bitflip_exact flip_reach_def)
qed

lemma unat_ucast_bound: "LENGTH('c) \<le> 32 \<Longrightarrow> unat (ucast (a :: 'c::len word) :: u32) < 2 ^ LENGTH('c)"
  using le_less_trans [OF take_bit_nat_less_eq_self [of 32 "unat a"] unsigned_less [of a]]
  by (simp add: unsigned_ucast_eq)

lemma arith_reach_filter:
  fixes a b :: "'c::len word"
  assumes "n \<in> {1, 2, 4}" "LENGTH('c) = 8 * n"
  shows "could_be_arith (ucast a) (ucast b) n \<longleftrightarrow> arith_reach n (ucast a) (ucast b)"
proof -
  have "LENGTH('c) \<le> 32" using assms by auto
  from unat_ucast_bound [OF this] show ?thesis
    using could_be_arith_exact [of n "ucast a" "ucast b"] assms by (simp add: arith_reach_def)
qed

lemma le_bytes_eqI:
  fixes a b :: u32
  assumes "\<And>k. n \<le> k \<Longrightarrow> k < 4 \<Longrightarrow> (part_of a k :: u8) = part_of b k"
  shows "le_bytes n a = le_bytes n b \<longleftrightarrow> a = b"
proof
  assume eq: "le_bytes n a = le_bytes n b"
  have low: "(part_of a k :: u8) = part_of b k" if "k < n" for k
    using arg_cong [OF eq, of "\<lambda>l. l ! k"] that by simp
  show "a = b"
  proof (rule word_parts_eqI [where 'c = 8 and n = 4])
    fix k :: nat assume "k < 4"
    then show "(part_of a k :: u8) = part_of b k" using low assms by (cases "k < n") simp_all
  qed simp
qed simp

lemma part_of_insert8:
  "i < 4 \<Longrightarrow> (part_of (insert_at 0xff old i (ucast (v :: u8))) k :: u8) = (if k = i \<and> k < 4 then v else part_of old k)"
proof -
  have m: "(0xff :: u32) = mask 8" by (simp add: mask_eq_exp_minus_1)
  assume "i < 4"
  then show ?thesis
    unfolding insert_at_def m
    by (intro bit_word_eqI) (auto simp: bit_part_of bit_simps not_le dest: bit_imp_le_length)
qed

lemma part_of_insert16:
  assumes i: "i < 3" and k: "k < 4"
  shows "(part_of (insert_at 0xffff old i (ucast (v :: u16))) k :: u8) =
     (if k = i then part_of v 0 else if k = i + 1 then part_of v 1 else part_of old k)"
proof (rule bit_word_eqI)
  have m: "(0xffff :: u32) = mask 16" by (simp add: mask_eq_exp_minus_1)
  fix j assume "j < LENGTH(8)"
  then have j: "j < 8" by simp
  have b: "bit (insert_at 0xffff old i (ucast v)) (8 * k + j) =
      (if i \<le> k \<and> k < i + 2 then bit v (8 * (k - i) + j) else bit old (8 * k + j))"
  proof (cases "i \<le> k")
    case True
    then obtain e where e: "k = i + e" using le_Suc_ex by blast
    have out: "\<not> bit v (8 * e + j)" if "2 \<le> e" using that by (auto dest: bit_imp_le_length)
    show ?thesis
      using i k j out unfolding insert_at_def m e by (auto simp: bit_simps distrib_left not_less)
  next
    case False
    then have "8 * k + j < 8 * i" using j by linarith
    then show ?thesis using False k j unfolding insert_at_def m by (simp add: bit_simps)
  qed
  show "bit (part_of (insert_at 0xffff old i (ucast v)) k :: u8) j =
      bit (if k = i then part_of v 0 else if k = i + 1 then part_of v 1 else part_of old k :: u8) j"
    using j by (auto simp: bit_part_of b)
qed

lemma le_bytes_insert8:
  "i < n \<Longrightarrow> n \<le> 4 \<Longrightarrow> le_bytes n (insert_at 0xff old i (ucast (v :: u8))) = (le_bytes n old)[i := v]"
  by (intro nth_equalityI) (auto simp: part_of_insert8 nth_list_update)

lemma le_bytes_insert16:
  assumes "i + 2 \<le> n" "n \<le> 4"
  shows "le_bytes n (insert_at 0xffff old i (ucast (v :: u16))) = put_word (le_bytes n old) i v"
proof (rule nth_equalityI)
  fix k assume "k < length (le_bytes n (insert_at 0xffff old i (ucast v)))"
  then have k: "k < n" by simp
  have v: "le_bytes 2 v = [part_of v 0, part_of v 1]" by (simp add: le_parts_def upt_rec)
  consider "k < i" | "k = i" | "k = i + 1" | "i + 2 \<le> k" by linarith
  then show "le_bytes n (insert_at 0xffff old i (ucast v)) ! k = put_word (le_bytes n old) i v ! k"
  proof cases
    case 4
    then have "k = i + 2 + (k - (i + 2))" by simp
    then obtain m where "k = i + 2 + m" by blast
    then show ?thesis using assms k by (simp add: part_of_insert16 put_word_def nth_append v)
  qed (use assms k in \<open>simp_all add: part_of_insert16 put_word_def nth_append v\<close>)
qed (use assms in simp)

lemma upper_part_0: "unat (a :: u32) < 2 ^ (8 * n) \<Longrightarrow> n \<le> k \<Longrightarrow> (part_of a k :: u8) = 0"
proof (rule bit_word_eqI)
  fix j assume a: "unat a < 2 ^ (8 * n)" "n \<le> k"
  have "take_bit (8 * n) (unat a) = unat a" using a(1) by (simp add: take_bit_nat_eq_self)
  then have "\<not> bit (unat a) (8 * k + j)" using a(2) by (metis add_leD1 bit_take_bit_iff leD mult_le_mono2 trans_le_add1)
  then show "bit (part_of a k :: u8) j = bit (0 :: u8) j" by (simp add: bit_part_of bit_unsigned_iff bit_imp_le_length)
qed

lemma interest_reach_filter:
  fixes a b :: "'c::len word"
  assumes n: "n = 2 \<or> n = 4" and L: "LENGTH('c) = 8 * n"
  shows "could_be_interest (ucast a) (ucast b) n both \<longleftrightarrow> interest_reach n both (ucast a) (ucast b)"
proof -
  define old new :: u32 where "old = ucast a" and "new = ucast b"
  have "LENGTH('c) \<le> 32" using n L by auto
  then have up: "(part_of old k :: u8) = 0" "(part_of new k :: u8) = 0" if "n \<le> k" for k
    using that unat_ucast_bound [of a] unat_ucast_bound [of b] L upper_part_0 unfolding old_def new_def by auto
  have eq: "le_bytes n new = le_bytes n old \<longleftrightarrow> old = new"
    using le_bytes_eqI [of n new old] up by auto
  have i8: "le_bytes n new = (le_bytes n old)[i := v] \<longleftrightarrow> new = insert_at 0xff old i (ucast v)" if "i < n" for i v
  proof -
    have "n \<le> 4" using n by auto
    then show ?thesis
      unfolding le_bytes_insert8 [OF that \<open>n \<le> 4\<close>, symmetric]
      using that by (intro le_bytes_eqI) (simp add: part_of_insert8 up)
  qed
  have i16: "le_bytes n new = put_word (le_bytes n old) i v \<longleftrightarrow> new = insert_at 0xffff old i (ucast v)"
    if "i + 2 \<le> n" for i and v :: u16
  proof -
    have "n \<le> 4" using n by auto
    then show ?thesis
      unfolding le_bytes_insert16 [OF that \<open>n \<le> 4\<close>, symmetric]
      using that by (intro le_bytes_eqI) (simp add: part_of_insert16 up)
  qed
  have r8: "list_ex (\<lambda>i. list_ex (P i) vs) [0 ..< n] \<longleftrightarrow> (\<exists>i < n. \<exists>v \<in> set vs. P i v)" for P and vs :: "int list"
    by (auto simp: list_ex_iff)
  have r16: "list_ex (\<lambda>i. list_ex (P i) vs) [0 ..< n - 1] \<longleftrightarrow> (\<exists>i. i + 2 \<le> n \<and> (\<exists>v \<in> set vs. P i v))" for P and vs :: "int list"
    by (force simp: list_ex_iff)
  have r32: "list_ex (\<lambda>v. new = word_of_int v) interesting_32 \<longleftrightarrow> (\<exists>v \<in> set interesting_32. new = word_of_int v)"
    by (simp add: list_ex_iff)
  have sz: "n = 2 \<and> \<not> both \<longleftrightarrow> \<not> (n = 4 \<or> both)" "2 < n \<longleftrightarrow> n = 4" using n by auto
  have "could_be_interest old new n both \<longleftrightarrow> old = new \<or>
      (\<exists>i < n. \<exists>v \<in> set interesting_8. new = insert_at 0xff old i (ucast (word_of_int v :: u8))) \<or>
      (n = 4 \<or> both) \<and> (\<exists>i. i + 2 \<le> n \<and> (\<exists>v \<in> set interesting_16. new = insert_at 0xffff old i (ucast (word_of_int v :: u16)) \<or>
        n = 4 \<and> new = insert_at 0xffff old i (ucast (SWAP16 (word_of_int v))))) \<or>
      n = 4 \<and> both \<and> (\<exists>v \<in> set interesting_32. new = word_of_int v)"
    unfolding could_be_interest_def Let_def r8 r16 r32 sz by (simp add: if_bool_eq_disj) blast
  also have "\<dots> \<longleftrightarrow> interest_reach n both old new"
    unfolding interest_reach_def Let_def eq SWAP16_rev_bytes
    using i8 i16 by (intro arg_cong2 [where f = "(\<or>)"] arg_cong2 [where f = "(\<and>)"] refl ex_cong1 conj_cong bex_cong) auto
  finally show ?thesis by (simp add: old_def new_def)
qed

subsection \<open>The attempts, in these terms\<close>

definition attempt_values :: "'c::len attempt list \<Rightarrow> 'c word list" where
  "attempt_values atts = map (\<lambda>(_, _, _, v). v) (filter (\<lambda>(_, worth, _, _). worth) atts)"

lemma attempt_values_simps [simp]:
  "attempt_values [] = []"
  "attempt_values ((pre, worth, post, v) # atts) = (if worth then [v] else []) @ attempt_values atts"
  by (simp_all add: attempt_values_def)

lemma attempt_cases_values: "concat (map (attempt_cases b i) atts) = map (put_word b i) (attempt_values atts)"
  by (induction atts) auto

lemma arith8_values: "attempt_values (arith8_attempts orig j) = arith_values [id] 0 orig j"
  by (auto simp: arith8_attempts_def arith_values_def flip_reach_filter flip_reach_def)

lemma arith16_values: "j < 36 \<Longrightarrow> attempt_values (arith16_attempts orig j) = arith_values [id, rev_bytes] 8 orig j"
  unfolding SWAP16_rev_bytes [symmetric]
  by (simp add: arith16_attempts_def arith_values_def Let_def carry16 flip_reach_filter)

lemma arith32_values: "j < 36 \<Longrightarrow> attempt_values (arith32_attempts orig j) = arith_values [id, rev_bytes] 16 orig j"
  unfolding SWAP32_rev_bytes [symmetric]
  by (simp add: arith32_attempts_def arith_values_def Let_def carry32 flip_reach_filter [where 'c = 32, simplified])

lemma interest16_values: "attempt_values (interest16_attempts orig x) = interest_values orig x"
  by (auto simp: interest16_attempts_def interest_values_def Let_def flip_reach_filter arith_reach_filter interest_reach_filter
      SWAP16_rev_bytes)

lemma interest32_values: "attempt_values (interest32_attempts orig x) = interest_values orig x"
  by (auto simp: interest32_attempts_def interest_values_def Let_def flip_reach_filter [where 'c = 32, simplified]
      arith_reach_filter [where 'c = 32, simplified] interest_reach_filter [where 'c = 32, simplified]
      SWAP32_rev_bytes)

lemma tries_cases:
  "arith_tries arith8_attempts d = arith_cases ([id] :: (8 word \<Rightarrow> 8 word) list) 0 d"
  "arith_tries arith16_attempts d = arith_cases ([id, rev_bytes] :: (16 word \<Rightarrow> 16 word) list) 8 d"
  "arith_tries arith32_attempts d = arith_cases ([id, rev_bytes] :: (32 word \<Rightarrow> 32 word) list) 16 d"
  "interest_tries vals interest16_attempts d = interest_cases TYPE(16) vals d"
  "interest_tries vals interest32_attempts d = interest_cases TYPE(32) vals d"
  "interest8_tries d = interest8_cases d"
  unfolding fun_eq_iff arith_tries_def arith_cases_def interest_tries_def interest_cases_def interest8_tries_def interest8_cases_def
    attempt_cases_values arith8_values interest16_values interest32_values
    flip_reach_filter [where 'c = 8, simplified] arith_reach_filter [where 'c = 8 and n = 1, simplified]
  by (auto simp: ARITH_MAX_def arith16_values arith32_values arith_reach_filter
      intro!: arg_cong [where f = concat] map_cong)

section \<open>The stages refine it\<close>

text \<open>A two-byte entry and a target that counts its executions.\<close>

definition sample_env :: "nat fuzz_env" where
  "sample_env = \<lparr>fuzz = (\<lambda>_ b n. (False, Suc n)), hit_cnt = of_nat, trace_cksum = of_nat, add_auto = (\<lambda>_ n. n),
     non_instrumented = False\<rparr>"

definition sample_det :: "bytes \<Rightarrow> det_state" where
  "sample_det b = \<lparr>out_buf = b, stage_cur = 0, stage_max = 0, stage_cur_byte = 0, stage_cur_val = 0, stage_val_type = 0,
     stage_finds = (\<lambda>_. 0), stage_cycles = (\<lambda>_. 0), new_hit_cnt = 0, orig_hit_cnt = 0, prev_cksum = 0, first_cksum = 0,
     a_collect = [], a_len = 0, eff_map = [1], eff_cnt = 1, blocks_eff_total = 0, blocks_eff_select = 0\<rparr>"

lemma sample_simps [simp]:
  "fuzz sample_env = (\<lambda>_ b n. (False, Suc n))" "out_buf (sample_det b) = b" "eff_cnt (sample_det b) = 1"
  by (simp_all add: sample_env_def sample_det_def)

lemma sample_mapped: "mapped (sample_det [0, 9, 255, 1])"
  by (simp add: mapped_def sample_det_def EFF_ALEN_def EFF_APOS_def)

lemma sample_len: "2 \<le> length (out_buf (sample_det [0, 9, 255, 1]))" "4 \<le> length (out_buf (sample_det [0, 9, 255, 1]))"
  by simp_all





text \<open>The 16- and 32-bit flips refine theirs: one execution per offset whose word touches a flagged cell.\<close>

theorem flip_word_stages_refine:
  assumes env: "fuzz env = (\<lambda>_. f)" and m: "mapped d"
  shows "(length (out_buf d) \<ge> 2 \<longrightarrow>
      stage_spec env f 4 (concat (map (flip_cases TYPE(16) d) [0 ..< length (out_buf d) - 1])) (new_hit_cnt d) d s
        (flip16_stage env (d, s))) \<and>
    (length (out_buf d) \<ge> 4 \<longrightarrow>
      stage_spec env f 5 (concat (map (flip_cases TYPE(32) d) [0 ..< length (out_buf d) - 3])) (new_hit_cnt d) d s
        (flip32_stage env (d, s)))"
proof (intro conjI impI)
  show "stage_spec env f 4 (concat (map (flip_cases TYPE(16) d) [0 ..< length (out_buf d) - 1])) (new_hit_cnt d) d s
      (flip16_stage env (d, s))" if "length (out_buf d) \<ge> 2"
    unfolding flip16_stage_def Let_def prod.case
    by (rule stage_of_does [OF flip_offsets [OF env _ _ _ _ m]]) (use that in \<open>simp_all add: of_nat_diff\<close>)
  show "stage_spec env f 5 (concat (map (flip_cases TYPE(32) d) [0 ..< length (out_buf d) - 3])) (new_hit_cnt d) d s
      (flip32_stage env (d, s))" if "length (out_buf d) \<ge> 4"
    unfolding flip32_stage_def Let_def prod.case
    by (rule stage_of_does [OF flip_offsets [OF env _ _ _ _ m]]) (use that in \<open>simp_all add: of_nat_diff\<close>)
qed

theorem flip_word_stages_refine_witness:
  "stage_spec sample_env (\<lambda>b n. (False, Suc n)) 4 (concat (map (flip_cases TYPE(16) (sample_det [0, 9, 255, 1])) [0 ..< length (out_buf (sample_det [0, 9, 255, 1])) - 1])) (new_hit_cnt (sample_det [0, 9, 255, 1])) (sample_det [0, 9, 255, 1]) 0
        (flip16_stage sample_env (sample_det [0, 9, 255, 1], 0)) \<and>
    stage_spec sample_env (\<lambda>b n. (False, Suc n)) 5 (concat (map (flip_cases TYPE(32) (sample_det [0, 9, 255, 1])) [0 ..< length (out_buf (sample_det [0, 9, 255, 1])) - 3])) (new_hit_cnt (sample_det [0, 9, 255, 1])) (sample_det [0, 9, 255, 1]) 0
        (flip32_stage sample_env (sample_det [0, 9, 255, 1], 0))"
  using flip_word_stages_refine [OF sample_simps(1) sample_mapped, of 0] sample_len by blast

section \<open>Walking bits\<close>

text \<open>A flip, by bits: bit \<open>p\<close> of the buffer counts from the most significant bit of the first byte.\<close>

abbreviation buf_bit :: "bytes \<Rightarrow> nat \<Rightarrow> bool" where
  "buf_bit b p \<equiv> bit (b ! (p div 8)) (7 - p mod 8)"

lemma bit_128: "bit (128 :: u8) n \<longleftrightarrow> n = 7"
proof -
  have "(128 :: u8) = push_bit 7 1" by simp
  then show ?thesis by (auto simp only: bit_push_bit_iff bit_1_iff possible_bit_word) auto
qed

definition flip1 :: "nat \<Rightarrow> bytes \<Rightarrow> bytes" where
  "flip1 b ar = ar[b div 8 := ar ! (b div 8) XOR drop_bit (b mod 8) 128]"

definition flipped :: "nat \<Rightarrow> nat \<Rightarrow> bytes \<Rightarrow> bytes" where
  "flipped k b ar = fold flip1 [b ..< b + k] ar"

lemma length_flip1 [simp]: "length (flip1 b ar) = length ar"
  by (simp add: flip1_def)

lemma length_fold_flip1 [simp]: "length (fold flip1 xs ar) = length ar"
  by (induction xs arbitrary: ar) simp_all

lemma length_flipped [simp]: "length (flipped k b ar) = length ar"
  by (simp add: flipped_def)

lemma foldm_FLIP_BIT:
  "\<forall>b \<in> set xs. b < 8 * length ar \<Longrightarrow> foldm FLIP_BIT xs ar = Inr (fold flip1 xs ar)"
  by (induction xs arbitrary: ar) (auto simp: FLIP_BIT_def flip1_def Let_def)

lemma flip_bits_flipped: "b + k \<le> 8 * length ar \<Longrightarrow> flip_bits k b ar = Inr (flipped k b ar)"
  by (simp add: flip_bits_def flipped_def foldm_FLIP_BIT)

lemma buf_bit_flip1:
  assumes "p < 8 * length ar"
  shows "buf_bit (flip1 b ar) p \<longleftrightarrow> (buf_bit ar p \<noteq> (p = b))"
proof (cases "p div 8 = b div 8")
  case True
  have "bit (drop_bit (b mod 8) (128 :: u8)) (7 - p mod 8) \<longleftrightarrow> b mod 8 + (7 - p mod 8) = 7"
    by (simp only: bit_drop_bit_eq o_def bit_128)
  moreover have "b mod 8 + (7 - p mod 8) = 7 \<longleftrightarrow> p = b"
  proof -
    have "b mod 8 + (7 - p mod 8) = 7 \<longleftrightarrow> b mod 8 = p mod 8"
      using mod_less_divisor [of 8 p] by arith
    then show ?thesis using True by (metis div_mult_mod_eq)
  qed
  moreover have "b div 8 < length ar"
    unfolding True [symmetric] using assms by (simp add: less_mult_imp_div_less mult.commute)
  ultimately show ?thesis using True by (simp add: flip1_def bit_xor_iff)
next
  case False
  then show ?thesis by (auto simp: flip1_def)
qed

lemma buf_bit_fold_flip1:
  "p < 8 * length ar \<Longrightarrow> distinct xs \<Longrightarrow> buf_bit (fold flip1 xs ar) p \<longleftrightarrow> (buf_bit ar p \<noteq> (p \<in> set xs))"
  by (induction xs arbitrary: ar) (auto simp: buf_bit_flip1)

lemma buf_eqI:
  assumes "length a = length b" "\<And>p. p < 8 * length a \<Longrightarrow> buf_bit a p = buf_bit b p"
  shows "a = b"
proof (rule nth_equalityI [OF assms(1)])
  fix i assume i: "i < length a"
  show "a ! i = b ! i"
  proof (rule bit_word_eqI)
    fix n assume n: "n < LENGTH(8)"
    define q where "q = 7 - n"
    have q: "q < 8" "n = 7 - q" using n by (simp_all add: q_def)
    then have "8 * i + q < 8 * length a" "(8 * i + q) div 8 = i" "(8 * i + q) mod 8 = q"
      using i by simp_all
    then show "bit (a ! i) n = bit (b ! i) n" using assms(2) [of "8 * i + q"] q by simp
  qed
qed

lemma flipped_flipped: "flipped k b (flipped k b ar) = ar"
  by (rule buf_eqI) (auto simp: flipped_def buf_bit_fold_flip1)

text \<open>\<open>flip_bits\<close> inverts exactly the \<open>k\<close> bits from \<open>b\<close> on, keeps the length, and applied again
  gives the buffer back; it fails only if one of the bits is outside the buffer.\<close>

theorem flip_bits_exact:
  assumes "b + k \<le> 8 * length ar"
  shows "\<exists>ar'. flip_bits k b ar = Inr ar' \<and> length ar' = length ar \<and>
    (\<forall>p < 8 * length ar. buf_bit ar' p \<longleftrightarrow> (buf_bit ar p \<noteq> (b \<le> p \<and> p < b + k))) \<and> flip_bits k b ar' = Inr ar"
proof (intro exI conjI allI impI)
  show "buf_bit (flipped k b ar) p \<longleftrightarrow> (buf_bit ar p \<noteq> (b \<le> p \<and> p < b + k))" if "p < 8 * length ar" for p
    using that by (simp add: flipped_def buf_bit_fold_flip1)
qed (use assms in \<open>simp_all add: flip_bits_flipped flipped_flipped\<close>)

theorem flip_bits_exact_witness:
  "\<exists>ar'. flip_bits 4 6 [0, 0] = Inr ar' \<and> length ar' = length [0 :: u8, 0] \<and>
    (\<forall>p < 8 * length [0 :: u8, 0]. buf_bit ar' p \<longleftrightarrow> (buf_bit [0, 0] p \<noteq> (6 \<le> p \<and> p < 6 + 4))) \<and> flip_bits 4 6 ar' = Inr [0, 0]"
  by (rule flip_bits_exact) simp

text \<open>The walk of a stage without tokens.\<close>

lemma walk_does:
  assumes env: "fuzz env = (\<lambda>_. f)" and xs: "\<forall>i \<in> set xs. i + k \<le> 8 * length (out_buf d)"
  shows "\<exists>d'. (\<forall>s. foldm (walk_bits env k False) xs (d, s) = exec f (map (\<lambda>i. flipped k i (out_buf d)) xs) s d') \<and>
    out_buf d' = out_buf d \<and> bare d' = bare d \<and> stage_max d' = stage_max d"
  using xs
proof (induction xs arbitrary: d)
  case Nil
  then show ?case by (intro exI [of _ d]) (simp add: exec_Nil)
next
  case (Cons i xs)
  let ?b = "out_buf d"
  let ?d = "d\<lparr>stage_cur := of_nat i, stage_cur_byte := of_nat i div 8\<rparr>"
  obtain d' where d': "\<And>s. foldm (walk_bits env k False) xs (?d, s) = exec f (map (\<lambda>i. flipped k i ?b) xs) s d'"
    "out_buf d' = ?b" "bare d' = bare d" "stage_max d' = stage_max d"
    using Cons.IH [of ?d] Cons.prems by (auto simp: bare_def)
  have i: "i + k \<le> 8 * length ?b" using Cons.prems by simp
  have "walk_bits env k False i (d, s) = exec f [flipped k i ?b] s ?d" for s
    using i by (simp add: walk_bits_def Let_def flip_bits_flipped run_case_bytes [OF env] flipped_flipped exec_def)
  then have "foldm (walk_bits env k False) (i # xs) (d, s) = exec f (map (\<lambda>i. flipped k i ?b) (i # xs)) s d'" for s
    using exec_bnd [of "foldm (walk_bits env k False) xs", OF d'(1), of "[flipped k i ?b]" s] by simp
  then show ?case using d'(2-4) by blast
qed

text \<open>The walking-bit stages of width 2 and 4 execute the buffer with each group of adjacent bits
  inverted, in order, restore the buffer and count every execution.\<close>

theorem walk_stages_refine:
  assumes env: "fuzz env = (\<lambda>_. f)" and len: "0 < length (out_buf d)" "8 * length (out_buf d) < 2 ^ 32"
  shows "stage_spec env f 1 (map (\<lambda>i. flipped 2 i (out_buf d)) [0 ..< 8 * length (out_buf d) - 1]) (new_hit_cnt d) d s
      (flip2_stage env (d, s)) \<and>
    stage_spec env f 2 (map (\<lambda>i. flipped 4 i (out_buf d)) [0 ..< 8 * length (out_buf d) - 3]) (new_hit_cnt d) d s
      (flip4_stage env (d, s))"
proof -
  have "stage_spec env f st (map (\<lambda>i. flipped k i (out_buf d)) [0 ..< 8 * length (out_buf d) - (k - 1)]) (new_hit_cnt d) d s
      (flipk_stage env k st (d, s))" if k: "1 \<le> k" "k \<le> 8" for k st
  proof -
    let ?n = "8 * length (out_buf d) - (k - 1)"
    let ?d = "d\<lparr>stage_max := push_bit 3 (buf_len d) - (of_nat k - 1), orig_hit_cnt := new_hit_cnt d\<rparr>"
    have "k - 1 \<le> 8 * length (out_buf d)" using k(2) len(1) by (cases "out_buf d") auto
    then have "of_nat ?n = of_nat (8 * length (out_buf d)) - (of_nat (k - 1) :: u32)" by (rule of_nat_diff)
    then have max: "stage_max ?d = of_nat ?n"
      using k(1) by (simp add: push_bit_eq_mult of_nat_diff mult.commute)
    then have n: "unat (stage_max ?d) = ?n" unfolding max unat_of_nat using len(2) by simp
    obtain d' where d': "\<And>s. foldm (walk_bits env k False) [0 ..< ?n] (?d, s) = exec f (map (\<lambda>i. flipped k i (out_buf d)) [0 ..< ?n]) s d'"
      "out_buf d' = out_buf d" "bare d' = bare ?d" "stage_max d' = of_nat ?n"
    proof -
      have "\<forall>i \<in> set [0 ..< ?n]. i + k \<le> 8 * length (out_buf ?d)" using k(1) by auto
      from walk_does [OF env this] show thesis using that max by auto
    qed
    note same = bare_fields [OF d'(3)]
    show ?thesis
      unfolding flipk_stage_def prod.case Let_def n d'(1)
      using d'(2,4) same
      by (cases "run_list f (map (\<lambda>i. flipped k i (out_buf d)) [0 ..< ?n]) s")
        (simp_all add: stage_spec_def exec_def end_stage_def Let_def)
  qed
  from this [of 2 1] this [of 4 2] show ?thesis by (simp add: flip2_stage_def flip4_stage_def)
qed

theorem walk_stages_refine_witness:
  "stage_spec sample_env (\<lambda>b n. (False, Suc n)) 1 (map (\<lambda>i. flipped 2 i (out_buf (sample_det [0, 9]))) [0 ..< 8 * length (out_buf (sample_det [0, 9])) - 1]) (new_hit_cnt (sample_det [0, 9])) (sample_det [0, 9]) 0
      (flip2_stage sample_env (sample_det [0, 9], 0)) \<and>
    stage_spec sample_env (\<lambda>b n. (False, Suc n)) 2 (map (\<lambda>i. flipped 4 i (out_buf (sample_det [0, 9]))) [0 ..< 8 * length (out_buf (sample_det [0, 9])) - 3]) (new_hit_cnt (sample_det [0, 9])) (sample_det [0, 9]) 0
      (flip4_stage sample_env (sample_det [0, 9], 0))"
  by (rule walk_stages_refine) simp_all

section \<open>The accounting of the effector map\<close>

definition eff_ok :: "det_state \<Rightarrow> bool" where
  "eff_ok d \<longleftrightarrow> length (eff_map d) = EFF_ALEN (length (out_buf d)) \<and>
     eff_cnt d = of_nat (length (filter (\<lambda>c. c \<noteq> 0) (eff_map d)))"

definition blocks :: "det_state \<Rightarrow> u64 \<times> u64" where
  "blocks d = (blocks_eff_select d, blocks_eff_total d)"

lemma EFF_ALEN_le: "EFF_ALEN n \<le> n"
  unfolding EFF_APOS_def EFF_ALEN_def by (cases "n mod 8 = 0") (simp, presburger)

lemma length_filter_update:
  "i < length xs \<Longrightarrow> \<not> P (xs ! i) \<Longrightarrow> P y \<Longrightarrow> length (filter P (xs[i := y])) = Suc (length (filter P xs))"
  by (induction xs arbitrary: i) (auto split: nat.splits)

lemma eff_ok_mark:
  assumes "eff_ok d" "i < length (out_buf d)"
  shows "\<exists>d'. mark_effector env i (d, s) = Inr d' \<and> out_buf d' = out_buf d \<and> eff_ok d' \<and> blocks d' = blocks d"
  using assms EFF_APOS_lt [OF assms(2)]
  by (auto simp: mark_effector_def Let_def eff_ok_def length_filter_update blocks_def)

lemma eff_ok_flip_byte:
  assumes "eff_ok d" "i < length (out_buf d)" "flip_byte env i (d, s) = Inr (d', s')"
  shows "eff_ok d' \<and> length (out_buf d') = length (out_buf d) \<and> blocks d' = blocks d"
proof -
  let ?b = "put_word (out_buf d) i (out_buf d ! i XOR 0xFF)"
  let ?d = "d\<lparr>stage_cur := of_nat i, stage_cur_byte := of_nat i, out_buf := ?b\<rparr>"
  have ok: "eff_ok ?d" "i < length (out_buf ?d)" using assms(1,2) by (simp_all add: eff_ok_def)
  obtain s1 d1 b where d1: "mark_effector env i (?d, s1) = Inr d1" and d': "d' = d1\<lparr>out_buf := b\<rparr>" "length b = length (out_buf d1)"
    using assms(2,3)
    by (auto simp: lift_eq_Inr flip_byte_def peek_byte poke_def run_case_def Let_def elim!: bnd_InrE split: prod.splits if_splits)
  from eff_ok_mark [OF ok, of env s1] d1 have "out_buf d1 = ?b" "eff_ok d1" "blocks d1 = blocks d"
    by (auto simp: blocks_def)
  then show ?thesis
    using d' assms(2) by (simp add: eff_ok_def blocks_def)
qed

lemma eff_ok_flip_bytes:
  assumes "foldm (flip_byte env) xs (d, s) = Inr (d', s')" "eff_ok d" "\<forall>i \<in> set xs. i < length (out_buf d)"
  shows "eff_ok d' \<and> length (out_buf d') = length (out_buf d) \<and> blocks d' = blocks d"
  using assms
proof (induction xs arbitrary: d s)
  case (Cons i xs)
  obtain d1 s1 where 1: "flip_byte env i (d, s) = Inr (d1, s1)" "foldm (flip_byte env) xs (d1, s1) = Inr (d', s')"
    using Cons.prems(1) by auto
  from eff_ok_flip_byte [OF Cons.prems(2) _ 1(1)] Cons.prems(3) Cons.IH [OF 1(2)] show ?case by simp
qed simp

lemma eff_ok_init:
  assumes "init_eff_map (replicate n 0) d = Inr d'" "eff_cnt d = 1"
  shows "eff_ok d' \<and> out_buf d' = out_buf d \<and> blocks d' = blocks d"
proof -
  let ?m = "(replicate (EFF_ALEN (length (out_buf d))) 0)[0 := 1] :: bytes" and ?p = "EFF_APOS (length (out_buf d) - 1)"
  have b: "out_buf d \<noteq> []" and n: "EFF_ALEN (length (out_buf d)) \<le> n"
    using assms(1) by (auto simp: init_eff_map_def Let_def split: if_splits)
  have p: "?p < EFF_ALEN (length (out_buf d))" using b by (intro EFF_APOS_lt) simp
  have m: "length (filter (\<lambda>c. c \<noteq> 0) ?m) = 1"
    using length_filter_update [of 0 "replicate (EFF_ALEN (length (out_buf d))) 0" "\<lambda>c. c \<noteq> 0" "1 :: u8"] p by simp
  have d': "d' = (if ?p \<noteq> 0 then d\<lparr>eff_map := ?m[?p := 1], eff_cnt := eff_cnt d + 1\<rparr> else d\<lparr>eff_map := ?m\<rparr>)"
    using assms(1) b n by (simp add: init_eff_map_def Let_def min_def split: if_splits)
  show ?thesis
  proof (cases "?p = 0")
    case True
    then show ?thesis using d' m assms(2) by (simp add: eff_ok_def blocks_def)
  next
    case False
    then have "length (filter (\<lambda>c. c \<noteq> 0) (?m[?p := 1])) = Suc (length (filter (\<lambda>c. c \<noteq> 0) ?m))"
      using p by (intro length_filter_update) simp_all
    then show ?thesis using False d' m assms(2) by (simp add: eff_ok_def blocks_def)
  qed
qed

lemma finish_counts:
  assumes "finish_eff_map d = Inr d'" "eff_ok d" "length (out_buf d) < 2 ^ 32"
  shows "length (eff_map d') = EFF_ALEN (length (out_buf d)) \<and>
    blocks_eff_select d' = blocks_eff_select d + of_nat (length (filter (\<lambda>c. c \<noteq> 0) (eff_map d'))) \<and>
    blocks_eff_total d' = blocks_eff_total d + of_nat (length (eff_map d'))"
proof -
  let ?n = "EFF_ALEN (length (out_buf d))" and ?k = "length (filter (\<lambda>c. c \<noteq> 0) (eff_map d))"
  have ok: "length (eff_map d) = ?n" "eff_cnt d = of_nat ?k" using assms(2) by (simp_all add: eff_ok_def)
  have "?k < 2 ^ 32"
    using length_filter_le [of "\<lambda>c. c \<noteq> 0" "eff_map d"] EFF_ALEN_le [of "length (out_buf d)"] ok(1) assms(3) by linarith
  then have k: "ucast (eff_cnt d) = (of_nat ?k :: u64)" unfolding ok(2) by (simp add: unsigned_of_nat take_bit_nat_eq_self)
  show ?thesis
  proof (cases "eff_cnt d \<noteq> of_nat ?n \<and> eff_cnt d * 100 div of_nat ?n > EFF_MAX_PERC")
    case True
    then show ?thesis using assms(1) by (auto simp: finish_eff_map_def Let_def split: if_splits)
  next
    case False
    then show ?thesis using assms(1) ok(1) k by (auto simp: finish_eff_map_def Let_def split: if_splits)
  qed
qed

text \<open>C40. If the block of the effector map is clear when the byte walk starts, the stage accounts
  exactly: \<open>blocks_eff_select\<close> grows by the number of flagged cells of the final map, whether it was
  flagged as a whole or not, and \<open>blocks_eff_total\<close> by its number of cells.\<close>

theorem flip8_stage_accounts:
  fixes s :: 's
  assumes "flip8_stage env (replicate n 0) (d, s) = Inr (d', s')" "eff_cnt d = 1" "length (out_buf d) < 2 ^ 32"
  shows "length (eff_map d') = EFF_ALEN (length (out_buf d)) \<and>
    blocks_eff_select d' = blocks_eff_select d + of_nat (length (filter (\<lambda>c. c \<noteq> 0) (eff_map d'))) \<and>
    blocks_eff_total d' = blocks_eff_total d + of_nat (length (eff_map d'))"
proof -
  obtain d0 where d0: "(init_eff_map (replicate n 0) d :: 's stop + det_state) = Inr d0"
    using assms(1) by (auto simp: flip8_stage_def)
  let ?d1 = "d0\<lparr>stage_max := buf_len d0, orig_hit_cnt := new_hit_cnt d0, prev_cksum := first_cksum d0\<rparr>"
  note init = eff_ok_init [OF d0 assms(2)]
  have len: "unat (stage_max ?d1) = length (out_buf d)"
    using init assms(3) by (simp add: unat_of_nat take_bit_nat_eq_self)
  have run: "bnd (foldm (flip_byte env) [0 ..< length (out_buf d)] (?d1, s))
      (\<lambda>(d2, s2). bnd (finish_eff_map (d2\<lparr>stage_cur := stage_max d2\<rparr>)) (\<lambda>d3. end_stage env 3 (d3, s2))) = Inr (d', s')"
    using assms(1) unfolding flip8_stage_def prod.case Let_def d0 bnd_simps len .
  obtain d2 s2 d3 where d2: "foldm (flip_byte env) [0 ..< length (out_buf d)] (?d1, s) = Inr (d2, s2)"
    and fin: "(finish_eff_map (d2\<lparr>stage_cur := stage_max d2\<rparr>) :: 's stop + det_state) = Inr d3"
      "end_stage env 3 (d3, s2) = Inr (d', s')"
    by (rule bnd_InrE [OF run]) (auto elim: bnd_InrE)
  have ok: "eff_ok d2 \<and> length (out_buf d2) = length (out_buf d) \<and> blocks d2 = blocks d0"
    using eff_ok_flip_bytes [OF d2] init by (simp add: eff_ok_def blocks_def)
  have "eff_ok (d2\<lparr>stage_cur := stage_max d2\<rparr>)" using ok by (simp add: eff_ok_def)
  from finish_counts [OF fin(1) this] fin(2) ok init assms(3) show ?thesis
    by (auto simp: end_stage_def Let_def blocks_def)
qed

lemma flip8_sample: "\<exists>d'. flip8_stage sample_env (replicate 1 0) (sample_det [5], 0) = Inr (d', 1)"
  by (simp add: flip8_stage_def init_eff_map_def EFF_ALEN_def EFF_APOS_def flip_byte_def peek_byte poke_def put_byte
      run_case_def mark_effector_def finish_eff_map_def end_stage_def sample_env_def sample_det_def Let_def)

theorem flip8_stage_accounts_witness:
  "\<exists>d'. flip8_stage sample_env (replicate 1 0) (sample_det [5], 0) = Inr (d', 1) \<and>
    length (eff_map d') = EFF_ALEN (length (out_buf (sample_det [5]))) \<and>
    blocks_eff_select d' = blocks_eff_select (sample_det [5]) + of_nat (length (filter (\<lambda>c. c \<noteq> 0) (eff_map d'))) \<and>
    blocks_eff_total d' = blocks_eff_total (sample_det [5]) + of_nat (length (eff_map d'))"
proof -
  obtain d' where d': "flip8_stage sample_env (replicate 1 0) (sample_det [5], 0) = Inr (d', 1)"
    using flip8_sample by blast
  from flip8_stage_accounts [OF d'] show ?thesis using d' by (intro exI [of _ d']) simp
qed

text \<open>
  The code does not clear the block: with a non-zero cell left from an earlier entry, the cell counts
  as effective though nothing flagged it, and \<open>eff_cnt\<close> misses it.
\<close>

lemma stale_effector_map:
  "init_eff_map [0, 1, 0] (sample_det (replicate 24 0)) =
     Inr ((sample_det (replicate 24 0))\<lparr>eff_map := [1, 1, 1], eff_cnt := 2\<rparr>)"
  by (simp add: init_eff_map_def EFF_ALEN_def EFF_APOS_def sample_det_def)

text \<open>
  C. \<open>could_be_bitflip\<close> also claims the change \<open>0x0180\<close> of a little-endian word, but no walk of at most
  eight adjacent bits makes it: adjacent bits across a byte boundary differ by \<open>0x8001\<close>. The
  arithmetic and interesting-value stages skip such values although no earlier stage ran them.
\<close>

theorem could_be_bitflip_overclaims:
  assumes "k \<le> 8" "length b = 2"
  shows "could_be_bitflip 0x0180 \<and> flipped k i b \<noteq> [b ! 0 XOR 0x80, b ! 1 XOR 0x01]"
proof
  have d: "drop_bit 7 (0x180 :: u32) = 3" by simp
  show "could_be_bitflip 0x0180" by (simp add: could_be_bitflip_def shift_out.simps)
  have bit: "buf_bit (flipped k i b) p \<longleftrightarrow> (buf_bit b p \<noteq> (i \<le> p \<and> p < i + k))" if "p < 16" for p
    using that assms(2) by (simp add: flipped_def buf_bit_fold_flip1)
  show "flipped k i b \<noteq> [b ! 0 XOR 0x80, b ! 1 XOR 0x01]"
  proof
    assume eq: "flipped k i b = [b ! 0 XOR 0x80, b ! 1 XOR 0x01]"
    have "i \<le> 0 \<and> 0 < i + k" using bit [of 0] by (auto simp: eq bit_xor_iff bit_128)
    moreover have "i \<le> 15 \<and> 15 < i + k" using bit [of 15] by (auto simp: eq bit_xor_iff)
    ultimately show False using assms(1) by simp
  qed
qed

theorem could_be_bitflip_overclaims_witness:
  "could_be_bitflip 0x0180 \<and> flipped 2 7 [0, 0] \<noteq> [[0, 0] ! 0 XOR 0x80, [0, 0 :: u8] ! 1 XOR 0x01]"
  by (rule could_be_bitflip_overclaims) simp_all

end
