(* ===== verification/Dict.thy ===== *)
theory Dict
  imports Det_Helpers "HOL-Library.Multiset"
begin

text \<open>
  The dictionary of src/afl-fuzz-extras.c: user tokens (\<open>extras\<close>), read from dictionary files and
  directories, de-unicoded and freed from duplicates, and the tokens the fuzzer finds itself
  (\<open>a_extras\<close>), with their saving and loading. \<open>qsort\<close>, whose order among equal elements the C
  standard leaves open, is a parameter. A token's \<open>len\<close> is the length of its bytes; the fields
  \<open>hit_cnt\<close> of user tokens are never used.
\<close>

section \<open>State\<close>

record auto_extra =
  ax_data :: bytes
  ax_hit :: u32

record afl_extras = afl_mopt +
  extras :: "bytes list"
  max_det_extras :: u32
  a_extras :: "auto_extra list"
  auto_changed :: bool
  in_dir :: "string option"

definition MAX_DICT_FILE :: nat where "MAX_DICT_FILE = 128"
definition MAX_LINE :: nat where "MAX_LINE = 8192"
definition MIN_AUTO_LEN :: nat where "MIN_AUTO_LEN = 3"
definition MAX_AUTO_LEN :: nat where "MAX_AUTO_LEN = 32"
definition USE_AUTO_EXTRAS :: nat where "USE_AUTO_EXTRAS = 4096"
definition MAX_AUTO_EXTRAS :: nat where "MAX_AUTO_EXTRAS = USE_AUTO_EXTRAS * 8"

text \<open>What the C standard says of \<open>qsort\<close>, for a comparator that is a difference of numbers.\<close>

type_synonym 'a sorter = "('a \<Rightarrow> 'a \<Rightarrow> int) \<Rightarrow> 'a list \<Rightarrow> 'a list"

definition qsort_ok :: "'a sorter \<Rightarrow> bool" where
  "qsort_ok qsort \<longleftrightarrow>
     (\<forall>cmp xs. mset (qsort cmp xs) = mset xs) \<and>
     (\<forall>cmp xs k. (\<forall>a \<in> set xs. \<forall>b \<in> set xs. cmp a b = int (k a) - int (k b)) \<longrightarrow> sorted (map k (qsort cmp xs)))"

definition compare_extras_len :: "bytes \<Rightarrow> bytes \<Rightarrow> int" where
  "compare_extras_len e1 e2 = sint (of_nat (length e1) - of_nat (length e2) :: u32)"

definition compare_auto_extras_len :: "auto_extra \<Rightarrow> auto_extra \<Rightarrow> int" where
  "compare_auto_extras_len a b = sint (of_nat (length (ax_data a)) - of_nat (length (ax_data b)) :: u32)"

definition compare_auto_extras_use_d :: "auto_extra \<Rightarrow> auto_extra \<Rightarrow> int" where
  "compare_auto_extras_use_d a b = sint (ax_hit b - ax_hit a)"

section \<open>Characters\<close>

text \<open>The functions of \<open>ctype.h\<close> in the C locale, and \<open>atoi\<close> (\<open>strtol\<close> saturates).\<close>

definition isspace :: "u8 \<Rightarrow> bool" where "isspace c \<longleftrightarrow> 9 \<le> c \<and> c \<le> 13 \<or> c = 32"
definition isdigit :: "u8 \<Rightarrow> bool" where "isdigit c \<longleftrightarrow> 0x30 \<le> c \<and> c \<le> 0x39"
definition isalnum :: "u8 \<Rightarrow> bool" where
  "isalnum c \<longleftrightarrow> isdigit c \<or> 0x41 \<le> c \<and> c \<le> 0x5A \<or> 0x61 \<le> c \<and> c \<le> 0x7A"
definition isxdigit :: "u8 \<Rightarrow> bool" where
  "isxdigit c \<longleftrightarrow> isdigit c \<or> 0x41 \<le> c \<and> c \<le> 0x46 \<or> 0x61 \<le> c \<and> c \<le> 0x66"
definition tolower :: "u8 \<Rightarrow> u8" where "tolower c = (if 0x41 \<le> c \<and> c \<le> 0x5A then c + 32 else c)"

fun digits_val :: "int \<Rightarrow> bytes \<Rightarrow> int" where
  "digits_val n [] = n"
| "digits_val n (c # s) = (if isdigit c then digits_val (10 * n + int (unat (c - 0x30))) s else n)"

definition atoi :: "bytes \<Rightarrow> int" where
  "atoi s =
     (let t = dropWhile isspace s;
          v = (case t of [] \<Rightarrow> 0
               | c # u \<Rightarrow> if c = 0x2D then - digits_val 0 u else if c = 0x2B then digits_val 0 u else digits_val 0 t)
      in sint (word_of_int (max (- (2 ^ 63)) (min (2 ^ 63 - 1) v)) :: u32))"

text \<open>The byte at a pointer into a string, which ends with a zero byte.\<close>

definition hd0 :: "bytes \<Rightarrow> u8" where "hd0 s = (case s of [] \<Rightarrow> 0 | c # _ \<Rightarrow> c)"

section \<open>Dictionary files\<close>

text \<open>\<open>fgets\<close>: up to \<open>n\<close> bytes, up to and with a newline. The code then treats the line as a string.\<close>

fun fgets :: "nat \<Rightarrow> bytes \<Rightarrow> bytes \<times> bytes" where
  "fgets 0 s = ([], s)"
| "fgets (Suc n) [] = ([], [])"
| "fgets (Suc n) (c # s) = (if c = 0x0A then ([c], s) else let (l, r) = fgets n s in (c # l, r))"

lemma fgets_length: "fgets n s = (l, r) \<Longrightarrow> length l + length r = length s"
  by (induction n s arbitrary: l r rule: fgets.induct) (auto split: prod.splits if_splits)

lemma fgets_progress: "0 < n \<Longrightarrow> fgets n (c # s) = (l, r) \<Longrightarrow> length r < Suc (length s)"
  using fgets_length by (cases n) (force split: prod.splits if_splits)+

lemma fgets_rest: "(l, r) = fgets (MAX_LINE - Suc 0) (c # s) \<Longrightarrow> length r < Suc (length s)"
  by (rule fgets_progress [of "MAX_LINE - Suc 0" c s l]) (simp_all add: MAX_LINE_def)

function file_lines :: "bytes \<Rightarrow> bytes list" where
  "file_lines [] = []"
| "file_lines (c # s) = (let (l, r) = fgets (MAX_LINE - 1) (c # s) in takeWhile (\<lambda>b. b \<noteq> 0) l # file_lines r)"
  by pat_completeness auto
termination
  by (relation "measure length") (use fgets_rest in auto)

text \<open>Left and right trimming.\<close>

definition trim :: "bytes \<Rightarrow> bytes" where
  "trim s = rev (dropWhile isspace (rev (dropWhile isspace s)))"

text \<open>The label, with a level that may rule the line out, and a number in brackets.\<close>

definition skip_label :: "int \<Rightarrow> bytes \<Rightarrow> bytes option" where
  "skip_label level s =
     (let s1 = dropWhile (\<lambda>c. isalnum c \<or> c = 0x5F) s in
      if hd0 s1 = 0x40 then
        (if atoi (tl s1) > level then None else Some (dropWhile isdigit (tl s1)))
      else Some s1)"

definition skip_number :: "bytes \<Rightarrow> bytes" where
  "skip_number s =
     (if hd0 s = 0x5B then let s1 = dropWhile isdigit (tl s) in if hd0 s1 = 0x5D then tl s1 else s1 else s)"

text \<open>What is between the quotes of a line, if the line has a value.\<close>

definition quoted :: "int \<Rightarrow> bytes \<Rightarrow> bytes option" where
  "quoted level line =
     (let l = trim line in
      if l = [] \<or> hd l = 0x23 then None
      else if last l \<noteq> 0x22 then None
      else case skip_label level (butlast l) of
        None \<Rightarrow> None
      | Some s \<Rightarrow>
          (let s1 = dropWhile (\<lambda>c. isspace c \<or> c = 0x3D) (skip_number s) in
           if hd0 s1 \<noteq> 0x22 then None else if tl s1 = [] then None else Some (tl s1)))"

text \<open>\<open>strchr(hexdigits, tolower(c)) - hexdigits\<close>\<close>

definition hexval :: "u8 \<Rightarrow> u8" where
  "hexval c = (let d = tolower c in if isdigit d then d - 0x30 else d - 0x61 + 10)"

text \<open>
  The loop over the value. The \<open>continue\<close> for a non-printable byte does not advance: the loop then
  never ends. The \<open>continue\<close> for a bad escape has consumed the backslash.
\<close>

partial_function (option) value_loop :: "bytes \<Rightarrow> bytes \<Rightarrow> bytes option" where
  "value_loop s acc =
     (case s of
        [] \<Rightarrow> Some acc
      | c # t \<Rightarrow>
          if 1 \<le> c \<and> c \<le> 31 \<or> 128 \<le> c then value_loop (c # t) acc
          else if c = 0x5C then
            (if hd0 t = 0x5C \<or> hd0 t = 0x22 then value_loop (tl t) (acc @ [hd0 t])
             else if hd0 t \<noteq> 0x78 \<or> \<not> isxdigit (hd0 (drop 1 t)) \<or> \<not> isxdigit (hd0 (drop 2 t)) then value_loop t acc
             else value_loop (drop 3 t) (acc @ [push_bit 4 (hexval (hd0 (drop 1 t))) OR hexval (hd0 (drop 2 t))]))
          else value_loop t (acc @ [c]))"

text \<open>One line, and a file. The two numbers are the least and the greatest length so far.\<close>

definition load_line :: "int \<Rightarrow> bytes \<Rightarrow> ('a) afl_extras_scheme \<times> u32 \<times> u32 \<Rightarrow> (('a) afl_extras_scheme \<times> u32 \<times> u32) res" where
  "load_line level line = (\<lambda>(afl, min_len, max_len).
     case quoted level line of
       None \<Rightarrow> Inr (afl, min_len, max_len)
     | Some s \<Rightarrow> (case value_loop s [] of
         None \<Rightarrow> Inl Hang
       | Some tok \<Rightarrow>
           if length tok > MAX_DICT_FILE then Inr (afl, min_len, max_len)
           else Inr (afl\<lparr>extras := extras afl @ [tok]\<rparr>, min min_len (of_nat (length tok)), max max_len (of_nat (length tok)))))"

definition load_extras_file ::
  "world \<Rightarrow> string \<Rightarrow> int \<Rightarrow> ('a) afl_extras_scheme \<times> u32 \<times> u32 \<Rightarrow> (('a) afl_extras_scheme \<times> u32 \<times> u32) res" where
  "load_extras_file w fn level x =
     (case open_read fn w of
        None \<Rightarrow> Inl (PFatal (''Unable to open '' @ fn))
      | Some data \<Rightarrow> foldm (load_line level) (file_lines data) x)"

definition extras_check_and_sort :: "bytes sorter \<Rightarrow> ('a) afl_extras_scheme \<Rightarrow> ('a) afl_extras_scheme" where
  "extras_check_and_sort qsort afl =
     (if extras afl = [] then afl else afl\<lparr>extras := qsort compare_extras_len (extras afl)\<rparr>)"

text \<open>
  A directory is read file by file; \<open>ls\<close> is what \<open>readdir\<close> returns, \<open>None\<close> for what is not a
  directory. Only regular files with content count (\<open>lstat\<close> does not follow links).
\<close>

definition load_extra_entry ::
  "world \<Rightarrow> string \<Rightarrow> string \<Rightarrow> ('a) afl_extras_scheme \<times> u32 \<times> u32 \<Rightarrow> (('a) afl_extras_scheme \<times> u32 \<times> u32) res" where
  "load_extra_entry w dir name = (\<lambda>(afl, min_len, max_len).
     let fn = dir @ ''/'' @ name in
     if deny w fn then Inl (PFatal (''Unable to access '' @ fn))
     else case (links w fn, files w fn) of
       (None, Some data) \<Rightarrow>
         if data = [] \<or> length data > MAX_DICT_FILE then Inr (afl, min_len, max_len)
         else Inr (afl\<lparr>extras := extras afl @ [data]\<rparr>, min min_len (of_nat (length data)), max max_len (of_nat (length data)))
     | _ \<Rightarrow> Inr (afl, min_len, max_len))"

definition load_extras ::
  "bytes sorter \<Rightarrow> (string \<Rightarrow> string list option) \<Rightarrow> world \<Rightarrow> string \<Rightarrow> ('a) afl_extras_scheme \<Rightarrow> ('a) afl_extras_scheme res" where
  "load_extras qsort ls w dir afl =
     (let path = takeWhile (\<lambda>c. c \<noteq> CHR ''@'') dir;
          x = dropWhile (\<lambda>c. c \<noteq> CHR ''@'') dir;
          level = (if x = [] then 0 else atoi (map of_char (tl x)));
          start = (afl, of_nat MAX_DICT_FILE, 0)
      in map_sum id (\<lambda>(afl', _, _). extras_check_and_sort qsort afl')
        (case ls path of
           None \<Rightarrow> if files w path = None then Inl (PFatal (''Unable to open '' @ path))
                   else load_extras_file w path level start
         | Some names \<Rightarrow>
             if x \<noteq> [] then Inl (Fatal ''Dictionary levels not supported for directories.'')
             else foldm (load_extra_entry w path) names start))"

section \<open>Tokens\<close>

text \<open>Equality but for the case of letters, over the first \<open>n\<close> bytes; 1 (true) is different.\<close>

definition memcmp_nocase :: "bytes \<Rightarrow> bytes \<Rightarrow> nat \<Rightarrow> bool" where
  "memcmp_nocase m1 m2 n = list_ex (\<lambda>i. tolower (m1 ! i) \<noteq> tolower (m2 ! i)) [0..<n]"

definition add_extra_nocheck :: "bytes \<Rightarrow> ('a) afl_extras_scheme \<Rightarrow> ('a) afl_extras_scheme" where
  "add_extra_nocheck mem afl = afl\<lparr>extras := extras afl @ [mem]\<rparr>"

text \<open>The numbers of zero bytes at even and at odd positions, and at positions 2 and 3 modulo 4.\<close>

definition zero_step :: "bytes \<Rightarrow> nat \<times> nat \<times> nat \<times> nat \<Rightarrow> nat \<Rightarrow> nat \<times> nat \<times> nat \<times> nat" where
  "zero_step d = (\<lambda>(z1, z2, z3, z4) j.
     if d ! j \<noteq> 0 then (z1, z2, z3, z4)
     else if j mod 4 = 0 then (z1 + 1, z2, z3, z4)
     else if j mod 4 = 1 then (z1, z2 + 1, z3, z4)
     else if j mod 4 = 2 then (z1 + 1, z2, z3 + 1, z4)
     else (z1, z2 + 1, z3, z4 + 1))"

definition count_zeros :: "bytes \<Rightarrow> nat \<times> nat \<times> nat \<times> nat" where
  "count_zeros d = foldl (zero_step d) (0, 0, 0, 0) [0..<length d]"

definition every :: "nat \<Rightarrow> nat \<Rightarrow> bytes \<Rightarrow> bytes" where
  "every n r d = map (\<lambda>j. d ! j) (filter (\<lambda>j. j mod n = r) [0..<length d])"

definition deunicode_one :: "nat \<Rightarrow> ('a) afl_extras_scheme \<Rightarrow> ('a) afl_extras_scheme" where
  "deunicode_one i afl =
     (let d = extras afl ! i; len = length d in
      if len < 6 \<or> len > 64 \<or> len mod 2 \<noteq> 0 then afl
      else
        let (z1, z2, z3, z4) = count_zeros d; half = len div 2; quarter = half div 2 in
        if z1 < half \<and> z2 < half \<or> z1 + z2 = len then afl
        else
          let afl1 =
            (if len mod 4 = 0 \<and> len \<ge> 12 \<and> (z3 = quarter \<or> z4 = quarter) \<and> z1 + z2 = quarter * 3
             then add_extra_nocheck (every 4 (if z4 < quarter then 3 else if z3 < quarter then 2
               else if z2 < half then 1 else 0) d) afl
             else afl)
          in add_extra_nocheck (every 2 (if z1 < half then 0 else 1) d) afl1)"

definition deunicode_extras :: "bytes sorter \<Rightarrow> ('a) afl_extras_scheme \<Rightarrow> ('a) afl_extras_scheme" where
  "deunicode_extras qsort afl =
     (if extras afl = [] then afl
      else let afl1 = foldl (\<lambda>a i. deunicode_one i a) afl [0..<length (extras afl)]
        in afl1\<lparr>extras := qsort compare_extras_len (extras afl1)\<rparr>)"

text \<open>The duplicates of entry \<open>i\<close> from \<open>j\<close> on, up to the first entry of another length.\<close>

function dedup_inner :: "nat \<Rightarrow> nat \<Rightarrow> bytes list \<Rightarrow> bytes list" where
  "dedup_inner i j es =
     (if j \<ge> length es \<or> length (es ! i) \<noteq> length (es ! j) then es
      else if es ! i = es ! j then dedup_inner i j (take j es @ drop (j + 1) es)
      else dedup_inner i (j + 1) es)"
  by pat_completeness auto
termination by (relation "measure (\<lambda>(i, j, es). length es - j)") auto

declare dedup_inner.simps [simp del]

lemma dedup_inner_length: "length (dedup_inner i j es) \<le> length es"
proof (induction i j es rule: dedup_inner.induct)
  case (1 i j es)
  show ?case
  proof (cases "j \<ge> length es \<or> length (es ! i) \<noteq> length (es ! j)")
    case True
    then show ?thesis by (simp add: dedup_inner.simps [of i j es])
  next
    case False
    note step = if_not_P [OF False] dedup_inner.simps [of i j es]
    show ?thesis
    proof (cases "es ! i = es ! j")
      case True
      have "length (dedup_inner i j es) \<le> length (take j es @ drop (j + 1) es)"
        unfolding step if_P [OF True] by (rule 1(1) [OF False True])
      then show ?thesis by simp
    next
      case neq: False
      show ?thesis unfolding step if_not_P [OF neq] by (rule 1(2) [OF False neq])
    qed
  qed
qed

function dedup_outer :: "nat \<Rightarrow> bytes list \<Rightarrow> bytes list" where
  "dedup_outer i es = (if i < length es - 1 then dedup_outer (i + 1) (dedup_inner i (i + 1) es) else es)"
  by pat_completeness auto
termination
proof (relation "measure (\<lambda>(i, es). length es - i)")
  show "((i + 1, dedup_inner i (i + 1) es), (i, es)) \<in> measure (\<lambda>(i, es). length es - i)"
    if "i < length es - 1" for i es
    using that dedup_inner_length [of i "i + 1" es] by simp
qed simp

declare dedup_outer.simps [simp del]

definition dedup_extras :: "('a) afl_extras_scheme \<Rightarrow> ('a) afl_extras_scheme" where
  "dedup_extras afl = (if length (extras afl) < 2 then afl else afl\<lparr>extras := dedup_outer 0 (extras afl)\<rparr>)"

text \<open>The search of \<open>add_extra\<close> through the entries of the token's length.\<close>

fun known_extra :: "bytes \<Rightarrow> bool \<Rightarrow> bytes list \<Rightarrow> bool" where
  "known_extra mem found [] = False"
| "known_extra mem found (e # es) =
     (if length e = length mem then (if e = mem then True else known_extra mem True es)
      else if found then False else known_extra mem found es)"

definition add_extra :: "bytes sorter \<Rightarrow> bytes \<Rightarrow> ('a) afl_extras_scheme \<Rightarrow> ('a) afl_extras_scheme" where
  "add_extra qsort mem afl =
     (if known_extra mem False (extras afl) \<or> length mem > MAX_DICT_FILE then afl
      else let afl1 = add_extra_nocheck mem afl
        in afl1\<lparr>extras := qsort compare_extras_len (extras afl1)\<rparr>)"

section \<open>Automatic tokens\<close>

text \<open>A run of one byte; a value the deterministic stages try anyway. The 16-bit comparison
  is between \<open>int\<close>s, so a negative value is not recognised in its own byte order.\<close>

definition single_byte_run :: "bytes \<Rightarrow> bool" where
  "single_byte_run mem \<longleftrightarrow> mem \<noteq> [] \<and> list_all (\<lambda>c. c = hd mem) (tl mem)"

definition builtin_value :: "bytes \<Rightarrow> bool" where
  "builtin_value mem =
     (if length mem = 2 then list_ex (\<lambda>x. uint (le_word mem :: u16) = x \<or> (le_word mem :: u16) = SWAP16 (word_of_int x)) interesting_16
      else if length mem = 4 then list_ex (\<lambda>x. (le_word mem :: u32) = word_of_int x \<or> le_word mem = SWAP32 (word_of_int x)) interesting_32
      else False)"

definition known_nocase :: "bytes \<Rightarrow> bytes list \<Rightarrow> bool" where
  "known_nocase mem es =
     list_ex (\<lambda>e. \<not> memcmp_nocase e mem (length mem))
       (takeWhile (\<lambda>e. length e = length mem) (dropWhile (\<lambda>e. length e < length mem) es))"

definition same_token :: "bytes \<Rightarrow> auto_extra \<Rightarrow> bool" where
  "same_token mem x \<longleftrightarrow> length (ax_data x) = length mem \<and> \<not> memcmp_nocase (ax_data x) mem (length mem)"

text \<open>The first match gets another hit.\<close>

fun bump :: "bytes \<Rightarrow> auto_extra list \<Rightarrow> auto_extra list option" where
  "bump mem [] = None"
| "bump mem (x # xs) = (if same_token mem x then Some (x\<lparr>ax_hit := ax_hit x + 1\<rparr> # xs) else map_option ((#) x) (bump mem xs))"

definition sort_a_extras :: "auto_extra sorter \<Rightarrow> auto_extra list \<Rightarrow> auto_extra list" where
  "sort_a_extras qsort xs =
     (let ys = qsort compare_auto_extras_use_d xs; n = min USE_AUTO_EXTRAS (length ys)
      in qsort compare_auto_extras_len (take n ys) @ drop n ys)"

definition maybe_add_auto :: "auto_extra sorter \<Rightarrow> bytes \<Rightarrow> ('a) afl_extras_scheme \<Rightarrow> ('a) afl_extras_scheme res" where
  "maybe_add_auto qsort mem afl =
     (if single_byte_run mem \<or> length mem > MAX_AUTO_LEN \<or> builtin_value mem \<or> known_nocase mem (extras afl) then Inr afl
      else
        let afl1 = afl\<lparr>auto_changed := True\<rparr> in
        case bump mem (a_extras afl) of
          Some xs \<Rightarrow> Inr (afl1\<lparr>a_extras := sort_a_extras qsort xs\<rparr>)
        | None \<Rightarrow>
            if length (a_extras afl) < MAX_AUTO_EXTRAS
            then Inr (afl1\<lparr>a_extras := sort_a_extras qsort (a_extras afl @ [\<lparr>ax_data = mem, ax_hit = 0\<rparr>])\<rparr>)
            else bnd (rand_below afl1 (of_nat ((MAX_AUTO_EXTRAS + 1) div 2))) (\<lambda>(r, afl2).
              bnd (wr (a_extras afl2) (MAX_AUTO_EXTRAS div 2 + unat r) \<lparr>ax_data = mem, ax_hit = 0\<rparr>) (\<lambda>xs.
              Inr (afl2\<lparr>a_extras := sort_a_extras qsort xs\<rparr>))))"

section \<open>Saving and loading automatic tokens\<close>

text \<open>\<open>%06u\<close>, for numbers below a million; \<open>open\<close> with \<open>O_WRONLY | O_CREAT | O_TRUNC\<close> and a write.\<close>

definition dec6 :: "nat \<Rightarrow> string" where
  "dec6 i = map (\<lambda>k. char_of (48 + (i div 10 ^ k) mod 10 :: nat)) [5, 4, 3, 2, 1, 0]"

definition auto_path :: "string \<Rightarrow> nat \<Rightarrow> string" where
  "auto_path dir i = dir @ ''/.state/auto_extras/auto_'' @ dec6 i"

definition save_token :: "string \<Rightarrow> nat \<times> auto_extra \<Rightarrow> world \<Rightarrow> world res" where
  "save_token out = (\<lambda>(i, x) w. let fn = auto_path (out @ ''/queue'') i in
     if deny w fn then Inl (PFatal (''Unable to create '' @ fn))
     else Inr (w\<lparr>files := (files w)(fn := Some (ax_data x))\<rparr>))"

definition save_auto :: "('a) afl_extras_scheme \<Rightarrow> world \<Rightarrow> (('a) afl_extras_scheme \<times> world) res" where
  "save_auto afl w =
     (if \<not> auto_changed afl then Inr (afl, w)
      else bnd (foldm (save_token (out_dir afl)) (enumerate 0 (take (min USE_AUTO_EXTRAS (length (a_extras afl))) (a_extras afl))) w)
        (\<lambda>w'. Inr (afl\<lparr>auto_changed := False\<rparr>, w')))"

text \<open>The loop ends at the first missing file.\<close>

fun load_auto_loop ::
  "auto_extra sorter \<Rightarrow> world \<Rightarrow> string \<Rightarrow> nat list \<Rightarrow> ('a) afl_extras_scheme \<Rightarrow> ('a) afl_extras_scheme res" where
  "load_auto_loop qsort w dir [] afl = Inr afl"
| "load_auto_loop qsort w dir (i # is) afl =
     (let fn = auto_path dir i in
      if deny w fn then Inl (PFatal (''Unable to open '' @ fn))
      else case files w fn of
        None \<Rightarrow> Inr afl
      | Some data \<Rightarrow>
          let tmp = take (MAX_AUTO_LEN + 1) data in
          bnd (if MIN_AUTO_LEN \<le> length tmp \<and> length tmp \<le> MAX_AUTO_LEN then maybe_add_auto qsort tmp afl else Inr afl)
            (load_auto_loop qsort w dir is))"

definition load_auto :: "auto_extra sorter \<Rightarrow> world \<Rightarrow> ('a) afl_extras_scheme \<Rightarrow> ('a) afl_extras_scheme res" where
  "load_auto qsort w afl = (case in_dir afl of None \<Rightarrow> Inr afl | Some dir \<Rightarrow> load_auto_loop qsort w dir [0..<USE_AUTO_EXTRAS] afl)"

section \<open>Dictionary files\<close>

text \<open>A byte as a dictionary writes it, and an entry of a file.\<close>

definition hexdigit :: "u8 \<Rightarrow> u8" where "hexdigit d = (if d < 10 then 0x30 + d else 0x57 + d)"

definition escape_byte :: "u8 \<Rightarrow> bytes" where
  "escape_byte c = (if 32 \<le> c \<and> c \<le> 127 \<and> c \<noteq> 0x22 \<and> c \<noteq> 0x5C then [c]
     else [0x5C, 0x78, hexdigit (drop_bit 4 c), hexdigit (c AND 15)])"

definition escape :: "bytes \<Rightarrow> bytes" where "escape tok = concat (map escape_byte tok)"

definition dict_entry :: "bytes \<Rightarrow> bytes \<Rightarrow> bytes" where
  "dict_entry name val = name @ [0x3D, 0x22] @ val @ [0x22, 0x0A]"

definition is_label :: "bytes \<Rightarrow> bool" where "is_label s \<longleftrightarrow> (\<forall>c \<in> set s. isalnum c \<or> c = 0x5F)"

definition unprintable :: "u8 \<Rightarrow> bool" where "unprintable c \<longleftrightarrow> 1 \<le> c \<and> c \<le> 31 \<or> 128 \<le> c"

lemma value_loop_stuck: "unprintable c \<Longrightarrow> value_loop (c # t) acc = None"
proof (rule ccontr)
  assume c: "unprintable c" and "value_loop (c # t) acc \<noteq> None"
  then obtain r where "value_loop (c # t) acc = Some r" by blast
  then have "\<not> (c # t \<noteq> [] \<and> unprintable (hd (c # t)))"
  proof (rule value_loop.raw_induct [rotated])
    fix loop acc s and r :: bytes
    assume IH: "\<And>s acc r. loop s acc = Some r \<Longrightarrow> \<not> (s \<noteq> [] \<and> unprintable (hd s))"
      and eq: "(case s of [] \<Rightarrow> Some acc
        | c # t \<Rightarrow>
          if 1 \<le> c \<and> c \<le> 31 \<or> 128 \<le> c then loop (c # t) acc
          else if c = 0x5C then
            (if hd0 t = 0x5C \<or> hd0 t = 0x22 then loop (tl t) (acc @ [hd0 t])
             else if hd0 t \<noteq> 0x78 \<or> \<not> isxdigit (hd0 (drop 1 t)) \<or> \<not> isxdigit (hd0 (drop 2 t)) then loop t acc
             else loop (drop 3 t) (acc @ [push_bit 4 (hexval (hd0 (drop 1 t))) OR hexval (hd0 (drop 2 t))]))
          else loop t (acc @ [c])) = Some r"
    show "\<not> (s \<noteq> [] \<and> unprintable (hd s))"
    proof
      assume s: "s \<noteq> [] \<and> unprintable (hd s)"
      then have "loop s acc = Some r" using eq by (cases s) (auto simp: unprintable_def)
      from IH [OF this] s show False by blast
    qed
  qed
  with c show False by simp
qed

lemma value_loop_plain: "\<not> unprintable c \<Longrightarrow> c \<noteq> 0x5C \<Longrightarrow> value_loop (c # t) acc = value_loop t (acc @ [c])"
  by (subst value_loop.simps) (auto simp: unprintable_def)

lemma nibble:
  assumes "d < (16 :: u8)"
  shows "isxdigit (hexdigit d) \<and> hexval (hexdigit d) = d"
proof -
  have all: "\<forall>n \<in> set [0..<16]. isxdigit (hexdigit (of_nat n)) \<and> hexval (hexdigit (of_nat n)) = of_nat n"
    by code_simp
  have "unat d \<in> set [0..<16]" using assms by (simp add: word_less_nat_alt)
  moreover have "of_nat (unat d) = d" by (simp add: of_nat_unat)
  ultimately show ?thesis using bspec [OF all] by metis
qed

lemma nibbles: "drop_bit 4 (c :: u8) < 16" "(c :: u8) AND 15 < 16"
proof -
  have "unat c < 256" using unat_lt [of c] by simp
  then show "drop_bit 4 c < 16" by (simp add: word_less_nat_alt unat_drop_bit less_mult_imp_div_less)
  show "c AND 15 < 16" using word_and_le1 [of c 15] by (simp add: word_le_nat_alt word_less_nat_alt)
qed

lemma byte_parts: "push_bit 4 (drop_bit 4 c) OR c AND 15 = (c :: u8)"
proof -
  have m: "(15 :: u8) = mask 4" by (simp add: mask_eq_exp_minus_1)
  show ?thesis
    unfolding m by (rule bit_word_eqI) (simp only: bit_or_iff bit_and_iff bit_push_bit_iff bit_drop_bit_eq bit_mask_iff o_def, auto)
qed

lemma value_loop_escape_byte: "value_loop (escape_byte c @ t) acc = value_loop t (acc @ [c])"
proof (cases "32 \<le> c \<and> c \<le> 127 \<and> c \<noteq> 0x22 \<and> c \<noteq> 0x5C")
  case True
  then have "\<not> unprintable c" by (auto simp: unprintable_def word_le_nat_alt)
  then show ?thesis using True by (simp add: escape_byte_def value_loop_plain)
next
  case False
  note d = nibbles [of c]
  show ?thesis
    unfolding escape_byte_def if_not_P [OF False]
    by (subst value_loop.simps) (simp add: hd0_def nibble [OF d(1)] nibble [OF d(2)] numeral_3_eq_3 byte_parts)
qed

lemma value_loop_escape: "value_loop (escape tok @ t) acc = value_loop t (acc @ tok)"
  by (induction tok arbitrary: acc) (simp_all add: escape_def value_loop_escape_byte)

lemma value_loop_Nil [simp]: "value_loop [] acc = Some acc"
  by (subst value_loop.simps) simp

lemma label_not_special: "is_label s \<Longrightarrow> c \<in> set s \<Longrightarrow> \<not> isspace c \<and> c \<noteq> 0x23"
  by (auto simp: is_label_def isspace_def isalnum_def isdigit_def word_le_nat_alt)

lemma dropWhile_hd: "xs \<noteq> [] \<Longrightarrow> \<not> P (hd xs) \<Longrightarrow> dropWhile P xs = xs"
  by (cases xs) auto

lemma quoted_entry:
  assumes "is_label name" "val \<noteq> []"
  shows "quoted level (dict_entry name val) = Some val"
proof -
  let ?l = "name @ [0x3D, 0x22] @ val @ [0x22]"
  have hd: "\<not> isspace (hd ?l) \<and> hd ?l \<noteq> 0x23"
    using label_not_special [OF assms(1)] by (cases name) (auto simp: isspace_def)
  have "dropWhile isspace (dict_entry name val) = dict_entry name val"
    using hd by (intro dropWhile_hd) (simp_all add: dict_entry_def hd_append split: if_splits)
  then have trim: "trim (dict_entry name val) = ?l"
    by (simp add: trim_def dict_entry_def isspace_def)
  have "dropWhile (\<lambda>c. isalnum c \<or> c = 0x5F) (butlast ?l) = [0x3D, 0x22] @ val"
    using assms(1) by (simp add: is_label_def butlast_append isalnum_def isdigit_def word_le_nat_alt)
  then have "skip_label level (butlast ?l) = Some ([0x3D, 0x22] @ val)"
    by (simp add: skip_label_def hd0_def)
  moreover have "last ?l = 0x22" by simp
  ultimately show ?thesis
    using hd assms(2) unfolding quoted_def Let_def trim
    by (simp add: skip_number_def hd0_def isspace_def)
qed

lemma load_line_entry:
  assumes "is_label name" "tok \<noteq> []" "length tok \<le> MAX_DICT_FILE"
  shows "load_line level (dict_entry name (escape tok)) (afl, lo, hi) =
    Inr (afl\<lparr>extras := extras afl @ [tok]\<rparr>, min lo (of_nat (length tok)), max hi (of_nat (length tok)))"
proof -
  have "escape tok \<noteq> []" using assms(2) by (cases tok) (auto simp: escape_def escape_byte_def split: if_splits)
  from quoted_entry [OF assms(1) this, of level] show ?thesis
    using value_loop_escape [of tok "[]" "[]"] assms(3) by (simp add: load_line_def)
qed

lemma fgets_line: "0x0A \<notin> set l \<Longrightarrow> length l < n \<Longrightarrow> fgets n (l @ 0x0A # r) = (l @ [0x0A], r)"
proof (induction l arbitrary: n)
  case Nil
  then show ?case by (cases n) auto
next
  case (Cons c l)
  then show ?case by (cases n) auto
qed

lemma file_lines_line:
  assumes "0x0A \<notin> set l" "0 \<notin> set l" "length l < MAX_LINE - 1"
  shows "file_lines (l @ 0x0A # r) = (l @ [0x0A]) # file_lines r"
proof -
  obtain c s where cs: "l @ 0x0A # r = c # s" by (cases l) auto
  have "takeWhile (\<lambda>b. b \<noteq> 0) (l @ [0x0A]) = l @ [0x0A]"
    using assms(2) by (simp add: takeWhile_eq_all_conv) (metis)
  then show ?thesis
    using fgets_line [OF assms(1,3), of r] unfolding cs by simp
qed

definition plain_text :: "bytes \<Rightarrow> bool" where
  "plain_text s \<longleftrightarrow> 0 \<notin> set s \<and> 0x0A \<notin> set s"

lemma plain_label: "is_label s \<Longrightarrow> plain_text s"
  by (auto simp: is_label_def plain_text_def isalnum_def isdigit_def word_le_nat_alt)

lemma hexdigit_plain: "d < 16 \<Longrightarrow> hexdigit d \<noteq> 0 \<and> hexdigit d \<noteq> 0x0A"
  using nibble [of d] by (auto simp: isxdigit_def isdigit_def)

lemma plain_escape: "plain_text (escape tok)"
proof -
  have "plain_text (escape_byte c)" for c
    using hexdigit_plain [OF nibbles(1), of c] hexdigit_plain [OF nibbles(2), of c]
    by (auto simp: plain_text_def escape_byte_def)
  then show ?thesis by (auto simp: escape_def plain_text_def)
qed

lemma length_escape: "length (escape tok) \<le> 4 * length tok"
  by (induction tok) (auto simp: escape_def escape_byte_def)

lemma file_lines_entry:
  assumes "plain_text name" "plain_text val" "length name + length val < MAX_LINE - 4"
  shows "file_lines (dict_entry name val @ r) = dict_entry name val # file_lines r"
  using file_lines_line [of "name @ [0x3D, 0x22] @ val @ [0x22]" r] assms
  by (simp add: dict_entry_def plain_text_def)

definition entry_ok :: "bytes \<times> bytes \<Rightarrow> bool" where
  "entry_ok = (\<lambda>(name, tok). is_label name \<and> length name \<le> 1024 \<and> tok \<noteq> [] \<and> length tok \<le> MAX_DICT_FILE)"

definition dict_file :: "(bytes \<times> bytes) list \<Rightarrow> bytes" where
  "dict_file es = concat (map (\<lambda>(name, tok). dict_entry name (escape tok)) es)"

lemma load_dict_file:
  "\<forall>e \<in> set es. entry_ok e \<Longrightarrow>
    \<exists>lo' hi'. foldm (load_line level) (file_lines (dict_file es)) (afl, lo, hi) = Inr (afl\<lparr>extras := extras afl @ map snd es\<rparr>, lo', hi')"
proof (induction es arbitrary: afl lo hi)
  case Nil
  then show ?case by (simp add: dict_file_def)
next
  case (Cons e es)
  obtain name tok where e: "e = (name, tok)" by (cases e)
  have ok: "is_label name" "length name \<le> 1024" "tok \<noteq> []" "length tok \<le> MAX_DICT_FILE"
    using Cons.prems by (simp_all add: e entry_ok_def)
  have "length name + length (escape tok) < MAX_LINE - 4"
    using ok(2,4) length_escape [of tok] by (simp add: MAX_LINE_def MAX_DICT_FILE_def)
  then have "file_lines (dict_file (e # es)) = dict_entry name (escape tok) # file_lines (dict_file es)"
    using file_lines_entry [OF plain_label [OF ok(1)] plain_escape] by (simp add: dict_file_def e)
  moreover obtain lo' hi' where "foldm (load_line level) (file_lines (dict_file es)) (afl\<lparr>extras := extras afl @ [tok]\<rparr>, min lo (of_nat (length tok)), max hi (of_nat (length tok)))
      = Inr (afl\<lparr>extras := extras afl @ [tok] @ map snd es\<rparr>, lo', hi')"
    using Cons.IH [of "afl\<lparr>extras := extras afl @ [tok]\<rparr>"] Cons.prems by fastforce
  ultimately show ?case
    using load_line_entry [OF ok(1,3,4), of level afl lo hi] by (simp add: e)
qed

text \<open>C22. Loading a dictionary file gives back the tokens it was written from: every non-empty token of
  at most \<open>MAX_DICT_FILE\<close> bytes, with \<open>\\xNN\<close> for quotes, backslashes and non-printable bytes.\<close>

theorem dict_file_roundtrip:
  assumes "\<forall>e \<in> set es. entry_ok e" "open_read fn w = Some (dict_file es)"
  shows "\<exists>lo' hi'. load_extras_file w fn level (afl, lo, hi) = Inr (afl\<lparr>extras := extras afl @ map snd es\<rparr>, lo', hi')"
  using load_dict_file [OF assms(1)] assms(2) by (simp add: load_extras_file_def)

text \<open>C37. A byte outside the printable range of ASCII in a value, reached before any backslash, makes the
  loading loop for ever: the warning's \<open>continue\<close> continues the inner loop without advancing.\<close>

theorem dict_file_hangs:
  assumes "is_label name" "\<forall>b \<in> set p. \<not> unprintable b \<and> b \<noteq> 0x5C" "unprintable c" "plain_text (p @ c # t)"
    and "length name + length (p @ c # t) < MAX_LINE - 4" "open_read fn w = Some (dict_entry name (p @ c # t) @ rest)"
  shows "load_extras_file w fn level (afl, lo, hi) = Inl Hang"
proof -
  have "value_loop (p @ c # t) acc = None" for acc
    using assms(2) by (induction p arbitrary: acc) (simp_all add: value_loop_plain value_loop_stuck [OF assms(3)])
  then have "load_line level (dict_entry name (p @ c # t)) (afl, lo, hi) = Inl Hang"
    using quoted_entry [OF assms(1), of "p @ c # t" level] by (simp add: load_line_def)
  then show ?thesis
    using assms(6) file_lines_entry [OF plain_label [OF assms(1)] assms(4,5), of rest] by (simp add: load_extras_file_def)
qed

section \<open>Duplicates\<close>

abbreviation by_len :: "bytes list \<Rightarrow> bool" where "by_len es \<equiv> sorted (map length es)"

lemma longer_rest:
  assumes "by_len es" "i < j" "j < length es" "length (es ! i) \<noteq> length (es ! j)"
  shows "filter (\<lambda>e. e \<noteq> es ! i) (drop j es) = drop j es"
proof (rule filter_True, rule ballI)
  fix e assume "e \<in> set (drop j es)"
  then obtain k where k: "k < length (drop j es)" "e = drop j es ! k" by (metis in_set_conv_nth)
  then have "length (es ! j) \<le> length e" using sorted_nth_mono [OF assms(1), of j "j + k"] assms(3) by simp
  moreover have "length (es ! i) \<le> length (es ! j)" using sorted_nth_mono [OF assms(1), of i j] assms(2,3) by simp
  ultimately show "e \<noteq> es ! i" using assms(4) by auto
qed

lemma by_len_remove:
  assumes "by_len es"
  shows "by_len (take j es @ drop (Suc j) es)"
proof (cases "j < length es")
  case True
  have "by_len (take j es @ es ! j # drop (Suc j) es)" using assms id_take_nth_drop [OF True] by simp
  then show ?thesis by (auto simp: sorted_append)
qed (use assms in simp)

lemma dedup_inner_filter:
  assumes "i < j" "by_len es" "j \<le> length es"
  shows "dedup_inner i j es = take j es @ filter (\<lambda>e. e \<noteq> es ! i) (drop j es)"
  using assms
proof (induction i j es rule: dedup_inner.induct)
  case (1 i j es)
  show ?case
  proof (cases "j = length es")
    case True
    then show ?thesis by (simp add: dedup_inner.simps [of i "length es"])
  next
    case False
    then have j: "j < length es" using 1(5) by simp
    have drop: "drop j es = es ! j # drop (j + 1) es" using j by (simp add: Cons_nth_drop_Suc)
    show ?thesis
    proof (cases "length (es ! i) = length (es ! j)")
      case len: False
      have "filter (\<lambda>e. e \<noteq> es ! i) (drop j es) = drop j es" by (rule longer_rest) (use 1(3,4) j len in auto)
      then show ?thesis using len by (simp add: dedup_inner.simps [of i j es])
    next
      case True
      then have run: "\<not> (j \<ge> length es \<or> length (es ! i) \<noteq> length (es ! j))" using j by simp
      show ?thesis
      proof (cases "es ! i = es ! j")
        case eq: True
        let ?es = "take j es @ drop (j + 1) es"
        have "by_len ?es" using by_len_remove [OF 1(4)] by simp
        from 1(1) [OF run eq 1(3) this] j 1(3)
        have "dedup_inner i j ?es = take j es @ filter (\<lambda>e. e \<noteq> es ! i) (drop (j + 1) es)"
          by (simp add: nth_append)
        then show ?thesis
          unfolding drop using eq by (simp add: dedup_inner.simps [of i j es] run)
      next
        case neq: False
        from 1(2) [OF run neq _ 1(4)] j 1(3)
        have "dedup_inner i (j + 1) es = take (j + 1) es @ filter (\<lambda>e. e \<noteq> es ! i) (drop (j + 1) es)" by simp
        then show ?thesis
          unfolding drop using neq run j by (simp add: dedup_inner.simps [of i j es] take_Suc_conv_app_nth)
      qed
    qed
  qed
qed

text \<open>What is left: the first occurrences, in order.\<close>

fun firsts :: "'a list \<Rightarrow> 'a list" where
  "firsts [] = []"
| "firsts (x # xs) = x # firsts (filter (\<lambda>y. y \<noteq> x) xs)"

lemma set_firsts: "set (firsts xs) = set xs"
  by (induction xs rule: firsts.induct) auto

lemma distinct_firsts: "distinct (firsts xs)"
  by (induction xs rule: firsts.induct) (auto simp: set_firsts)

lemma by_len_filter: "by_len es \<Longrightarrow> by_len (filter P es)"
  by (induction es) auto

lemma by_len_firsts: "by_len es \<Longrightarrow> by_len (firsts es)"
  by (induction es rule: firsts.induct) (auto simp: set_firsts by_len_filter)

lemma dedup_outer_firsts:
  assumes "by_len es" "i \<le> length es"
  shows "dedup_outer i es = take i es @ firsts (drop i es)"
  using assms
proof (induction i es rule: dedup_outer.induct)
  case (1 i es)
  show ?case
  proof (cases "i < length es - 1")
    case False
    then have "length (drop i es) \<le> 1" using 1(3) by simp
    then have "firsts (drop i es) = drop i es" by (cases "drop i es") auto
    then show ?thesis using False by (simp add: dedup_outer.simps [of i es])
  next
    case True
    let ?ds = "take (Suc i) es @ filter (\<lambda>e. e \<noteq> es ! i) (drop (Suc i) es)"
    have inner: "dedup_inner i (i + 1) es = ?ds"
      using dedup_inner_filter [of i "i + 1" es] 1(2) True by simp
    have "by_len (take (Suc i) es @ drop (Suc i) es)" using 1(2) by simp
    then have "by_len ?ds" by (auto simp: sorted_append by_len_filter simp del: append_take_drop_id)
    then have "dedup_outer (i + 1) ?ds = take (i + 1) ?ds @ firsts (drop (i + 1) ?ds)"
      using 1(1) [OF True] True unfolding inner by simp
    also have "\<dots> = take i es @ firsts (drop i es)"
      using True by (simp add: take_Suc_conv_app_nth flip: Cons_nth_drop_Suc)
    finally show ?thesis using True unfolding dedup_outer.simps [of i es] inner by simp
  qed
qed

text \<open>On tokens sorted by length, as loading leaves them, \<open>dedup_extras\<close> keeps exactly the first of
  equal tokens: the same set, no duplicates, still sorted.\<close>

theorem dedup_extras_correct:
  assumes "by_len (extras afl)"
  shows "extras (dedup_extras afl) = firsts (extras afl) \<and> distinct (extras (dedup_extras afl)) \<and>
    set (extras (dedup_extras afl)) = set (extras afl) \<and> by_len (extras (dedup_extras afl))"
proof -
  have "extras (dedup_extras afl) = firsts (extras afl)"
  proof (cases "length (extras afl) < 2")
    case True
    then have "firsts (extras afl) = extras afl" by (cases "extras afl") auto
    then show ?thesis using True by (simp add: dedup_extras_def)
  next
    case False
    then show ?thesis using dedup_outer_firsts [OF assms, of 0] by (simp add: dedup_extras_def)
  qed
  then show ?thesis using assms by (simp add: set_firsts distinct_firsts by_len_firsts)
qed

section \<open>Adding tokens\<close>

definition dict_ok :: "bytes list \<Rightarrow> bool" where
  "dict_ok es \<longleftrightarrow> by_len es \<and> distinct es \<and> (\<forall>e \<in> set es. length e \<le> MAX_DICT_FILE)"

lemma qsort_okD:
  assumes "qsort_ok qsort"
  shows "mset (qsort cmp xs) = mset xs"
    and "(\<And>a b. a \<in> set xs \<Longrightarrow> b \<in> set xs \<Longrightarrow> cmp a b = int (k a) - int (k b)) \<Longrightarrow> sorted (map k (qsort cmp xs))"
  using assms by (simp_all add: qsort_ok_def)

lemma qsort_set: "qsort_ok qsort \<Longrightarrow> set (qsort cmp xs) = set xs"
  using qsort_okD(1) by (metis set_mset_mset)

lemma sint_diff:
  assumes "a < 2 ^ 31" "b < 2 ^ 31"
  shows "sint (of_nat a - of_nat b :: u32) = int a - int b"
proof -
  have "(of_nat a - of_nat b :: u32) = of_int (int a - int b)" by simp
  moreover have "sint (of_int (int a - int b) :: u32) = signed_take_bit 31 (int a - int b)" by (subst signed_of_int) simp
  moreover have "signed_take_bit 31 (int a - int b) = int a - int b"
    using assms by (intro signed_take_bit_int_eq_self) auto
  ultimately show ?thesis by metis
qed

lemma qsort_by_len:
  assumes "qsort_ok qsort" "\<forall>e \<in> set es. length e < 2 ^ 31"
  shows "by_len (qsort compare_extras_len es)"
  by (rule qsort_okD(2) [OF assms(1)]) (use assms(2) in \<open>simp add: compare_extras_len_def sint_diff\<close>)

lemma known_extra_iff:
  assumes "by_len es" "found \<longrightarrow> (\<forall>e \<in> set es. length mem \<le> length e)"
  shows "known_extra mem found es \<longleftrightarrow> mem \<in> set es"
  using assms by (induction es arbitrary: found) force+

text \<open>C38. \<open>add_extra\<close> keeps the dictionary sorted by length, free of duplicates and within
  \<open>MAX_DICT_FILE\<close>, and adds the token unless it is known or too long.\<close>

theorem add_extra_correct:
  assumes "qsort_ok qsort" "dict_ok (extras afl)"
  shows "dict_ok (extras (add_extra qsort mem afl)) \<and>
    set (extras (add_extra qsort mem afl)) =
      (if length mem \<le> MAX_DICT_FILE then insert mem (set (extras afl)) else set (extras afl))"
proof (cases "mem \<in> set (extras afl) \<or> length mem > MAX_DICT_FILE")
  case True
  then have "add_extra qsort mem afl = afl"
    using known_extra_iff [of "extras afl" False mem] assms(2) by (auto simp: add_extra_def dict_ok_def)
  then show ?thesis using True assms(2) by (auto simp: dict_ok_def)
next
  case False
  let ?es = "extras afl @ [mem]"
  have es: "extras (add_extra qsort mem afl) = qsort compare_extras_len ?es"
    using False known_extra_iff [of "extras afl" False mem] assms(2)
    by (simp add: add_extra_def dict_ok_def add_extra_nocheck_def Let_def)
  have short: "\<forall>e \<in> set ?es. length e \<le> MAX_DICT_FILE" using False assms(2) by (auto simp: dict_ok_def)
  then have "\<forall>e \<in> set ?es. length e < 2 ^ 31" by (auto simp: MAX_DICT_FILE_def)
  note sorted = qsort_by_len [OF assms(1) this]
  have "distinct ?es" using False assms(2) by (simp add: dict_ok_def)
  then have "distinct (qsort compare_extras_len ?es)"
    using qsort_okD(1) [OF assms(1)] by (metis mset_eq_imp_distinct_iff)
  then show ?thesis
    using sorted short False qsort_set [OF assms(1)] by (auto simp: es dict_ok_def)
qed

section \<open>Unicode\<close>

definition utf16 :: "bytes \<Rightarrow> bytes" where
  "utf16 s = concat (map (\<lambda>c. [c, 0]) s)"

lemma length_utf16 [simp]: "length (utf16 s) = 2 * length s"
  by (induction s) (simp_all add: utf16_def)

lemma nth_utf16: "j < 2 * length s \<Longrightarrow> utf16 s ! j = (if even j then s ! (j div 2) else 0)"
proof (induction s arbitrary: j)
  case (Cons c s)
  have "utf16 (c # s) = c # 0 # utf16 s" by (simp add: utf16_def)
  then show ?case using Cons by (cases j rule: nat.exhaust; cases "j - 1") (auto simp: nth_Cons split: nat.splits)
qed simp

lemma upt_double_Suc: "[0 ..< 2 * Suc n] = [0 ..< 2 * n] @ [2 * n, 2 * n + 1]"
  by simp

lemma filter_even_upt: "filter (\<lambda>j. j mod 2 = 0) [0 ..< 2 * n] = map (\<lambda>i. 2 * i) [0..<n]"
  by (induction n) (simp_all add: upt_double_Suc del: upt_Suc mult_Suc_right, simp_all)

lemma length_filter_odd_upt: "length (filter (\<lambda>j. j mod 2 = 1) [0 ..< 2 * n]) = n"
  by (induction n) (simp_all add: upt_double_Suc del: upt_Suc mult_Suc_right)

lemma every_utf16: "every 2 0 (utf16 s) = s"
  by (intro nth_equalityI) (simp_all add: every_def filter_even_upt nth_utf16)

lemma zero_step_simp:
  "zero_step d (a, b, c, e) j =
    (if d ! j \<noteq> 0 then (a, b, c, e) else if j mod 4 = 0 then (a + 1, b, c, e) else if j mod 4 = 1 then (a, b + 1, c, e)
     else if j mod 4 = 2 then (a + 1, b, c + 1, e) else (a, b + 1, c, e + 1))"
  by (simp add: zero_step_def)

lemma count_zeros_foldl:
  "fst (foldl (zero_step d) (a, b, c, e) js) = a + length (filter (\<lambda>j. d ! j = 0 \<and> j mod 2 = 0) js) \<and>
   fst (snd (foldl (zero_step d) (a, b, c, e) js)) = b + length (filter (\<lambda>j. d ! j = 0 \<and> j mod 2 = 1) js)"
proof (induction js arbitrary: a b c e)
  case (Cons j js)
  have "j mod 4 = 0 \<and> j mod 2 = 0 \<or> j mod 4 = 1 \<and> j mod 2 = 1 \<or> j mod 4 = 2 \<and> j mod 2 = 0 \<or> j mod 4 = 3 \<and> j mod 2 = 1"
    by presburger
  then show ?case by (elim disjE) (simp_all add: zero_step_simp Cons.IH)
qed simp

lemma deunicode_utf16:
  assumes "0 \<notin> set s" "3 \<le> length s" "length s \<le> 32" "extras afl ! i = utf16 s"
  shows "\<exists>es. extras (deunicode_one i afl) = extras afl @ es @ [s]"
proof -
  let ?d = "utf16 s" and ?n = "length s"
  obtain z1 z2 z3 z4 where z: "count_zeros ?d = (z1, z2, z3, z4)" by (cases "count_zeros ?d") auto
  have even: "?d ! j = 0 \<longleftrightarrow> odd j" if "j < 2 * ?n" for j
    using that assms(1) by (auto simp: nth_utf16) (metis less_mult_imp_div_less mult.commute nth_mem)
  have "z1 = length (filter (\<lambda>j. ?d ! j = 0 \<and> j mod 2 = 0) [0 ..< 2 * ?n])"
    and "z2 = length (filter (\<lambda>j. ?d ! j = 0 \<and> j mod 2 = 1) [0 ..< 2 * ?n])"
    using count_zeros_foldl [of ?d 0 0 0 0 "[0 ..< 2 * ?n]"] z by (simp_all add: count_zeros_def)
  moreover have "filter (\<lambda>j. ?d ! j = 0 \<and> j mod 2 = 0) [0 ..< 2 * ?n] = []"
    using even by (auto simp: filter_empty_conv)
  moreover have "filter (\<lambda>j. ?d ! j = 0 \<and> j mod 2 = 1) [0 ..< 2 * ?n] = filter (\<lambda>j. j mod 2 = 1) [0 ..< 2 * ?n]"
    using even by (intro filter_cong) (auto simp: odd_iff_mod_2_eq_one)
  ultimately have "z1 = 0" "z2 = ?n" using length_filter_odd_upt [of ?n] by simp_all
  moreover have "s \<noteq> []" using assms(2) by auto
  ultimately show ?thesis
    using assms(2-4) z by (simp add: deunicode_one_def add_extra_nocheck_def Let_def every_utf16)
qed

lemma deunicode_appends: "\<exists>es. extras (deunicode_one i afl) = extras afl @ es"
  by (auto simp: deunicode_one_def add_extra_nocheck_def Let_def split: prod.splits)

lemma foldl_deunicode_appends: "\<exists>es. extras (foldl (\<lambda>a i. deunicode_one i a) afl js) = extras afl @ es"
proof (induction js arbitrary: afl)
  case (Cons j js)
  then show ?case using deunicode_appends [of j afl] by (metis append.assoc foldl_Cons)
qed simp

text \<open>\<open>deunicode_extras\<close> loses no token, and adds the plain form of every token that is the
  little-endian UTF-16 form of 3 to 32 non-zero bytes.\<close>

theorem deunicode_extras_correct:
  assumes "qsort_ok qsort"
  shows "set (extras afl) \<subseteq> set (extras (deunicode_extras qsort afl)) \<and>
    (\<forall>s. utf16 s \<in> set (extras afl) \<longrightarrow> 0 \<notin> set s \<longrightarrow> 3 \<le> length s \<longrightarrow> length s \<le> 32 \<longrightarrow>
       s \<in> set (extras (deunicode_extras qsort afl)))"
proof (cases "extras afl = []")
  case False
  let ?f = "\<lambda>a i. deunicode_one i a"
  have set: "set (extras (deunicode_extras qsort afl)) = set (extras (foldl ?f afl [0..<length (extras afl)]))"
    using False qsort_set [OF assms] by (simp add: deunicode_extras_def Let_def)
  have "s \<in> set (extras (foldl ?f afl [0..<length (extras afl)]))"
    if s: "utf16 s \<in> set (extras afl)" "0 \<notin> set s" "3 \<le> length s" "length s \<le> 32" for s
  proof -
    obtain i where i: "i < length (extras afl)" "extras afl ! i = utf16 s" using s(1) by (metis in_set_conv_nth)
    let ?a = "foldl ?f afl [0..<i]"
    have split: "[0..<length (extras afl)] = [0..<i] @ i # [Suc i..<length (extras afl)]"
      using i(1) by (metis less_imp_le_nat upt_add_eq_append upt_conv_Cons add_0 le_add_diff_inverse zero_le)
    obtain es where "extras ?a = extras afl @ es" using foldl_deunicode_appends [of afl "[0..<i]"] by blast
    then have "extras ?a ! i = utf16 s" using i by (simp add: nth_append)
    from deunicode_utf16 [OF s(2-4) this] have "s \<in> set (extras (deunicode_one i ?a))" by auto
    then show ?thesis
      using foldl_deunicode_appends [of "deunicode_one i ?a" "[Suc i..<length (extras afl)]"] by (auto simp: split)
  qed
  moreover have "set (extras afl) \<subseteq> set (extras (foldl ?f afl [0..<length (extras afl)]))"
    using foldl_deunicode_appends [of afl] by (metis Un_upper1 set_append)
  ultimately show ?thesis using set by blast
qed (simp add: deunicode_extras_def)

section \<open>Automatic tokens\<close>

definition lower :: "bytes \<Rightarrow> bytes" where "lower = map tolower"

definition auto_keys :: "auto_extra list \<Rightarrow> bytes list" where
  "auto_keys xs = map (\<lambda>x. lower (ax_data x)) xs"

text \<open>The table holds no two tokens that differ in case only, none the stages try anyway, and its
  first \<open>USE_AUTO_EXTRAS\<close> entries are sorted by length.\<close>

definition token_ok :: "bytes \<Rightarrow> bool" where
  "token_ok t \<longleftrightarrow> length t \<le> MAX_AUTO_LEN \<and> \<not> single_byte_run t \<and> \<not> builtin_value t"

definition auto_ok :: "auto_extra list \<Rightarrow> bool" where
  "auto_ok xs \<longleftrightarrow> length xs \<le> MAX_AUTO_EXTRAS \<and> distinct (auto_keys xs) \<and> (\<forall>x \<in> set xs. token_ok (ax_data x)) \<and>
     sorted (map (\<lambda>x. length (ax_data x)) (take USE_AUTO_EXTRAS xs))"

lemma memcmp_nocase_lower: "length a = length b \<Longrightarrow> memcmp_nocase a b (length b) \<longleftrightarrow> lower a \<noteq> lower b"
proof -
  assume len: "length a = length b"
  have "memcmp_nocase a b (length b) \<longleftrightarrow> (\<exists>i < length b. tolower (a ! i) \<noteq> tolower (b ! i))"
    by (auto simp: memcmp_nocase_def list_ex_iff)
  also have "\<dots> \<longleftrightarrow> lower a \<noteq> lower b"
    using len by (simp add: lower_def list_eq_iff_nth_eq)
  finally show ?thesis .
qed

lemma same_token_lower: "same_token t x \<longleftrightarrow> lower (ax_data x) = lower t"
  using memcmp_nocase_lower by (auto simp: same_token_def lower_def dest: map_eq_imp_length_eq)

lemma bump_None: "bump t xs = None \<longleftrightarrow> lower t \<notin> set (auto_keys xs)"
  by (induction xs) (auto simp: same_token_lower auto_keys_def)

lemma bump_keys:
  "bump t xs = Some ys \<Longrightarrow> auto_keys ys = auto_keys xs \<and> map ax_data ys = map ax_data xs \<and> lower t \<in> set (auto_keys xs)"
  by (induction xs arbitrary: ys) (auto simp: same_token_lower auto_keys_def split: if_splits)

lemma take_min: "length a = min u n \<Longrightarrow> length ys = n \<Longrightarrow> take u (a @ drop (min u n) ys) = a"
  by (cases "u \<le> n") simp_all

lemma sort_a_extras_mset:
  assumes "qsort_ok qsort" "\<forall>x \<in> set xs. length (ax_data x) \<le> MAX_AUTO_LEN"
  shows "mset (sort_a_extras qsort xs) = mset xs"
    "sorted (map (\<lambda>x. length (ax_data x)) (take USE_AUTO_EXTRAS (sort_a_extras qsort xs)))"
proof -
  let ?ys = "qsort compare_auto_extras_use_d xs" and ?n = "min USE_AUTO_EXTRAS (length xs)"
  have ys: "mset ?ys = mset xs" "length ?ys = length xs" "set ?ys = set xs"
    using qsort_okD(1) [OF assms(1)] qsort_set [OF assms(1)] by (blast, metis size_mset, blast)
  have "mset (qsort compare_auto_extras_len (take ?n ?ys) @ drop ?n ?ys) = mset (take ?n ?ys) + mset (drop ?n ?ys)"
    using qsort_okD(1) [OF assms(1)] by simp
  also have "\<dots> = mset ?ys" by (metis append_take_drop_id mset_append)
  finally show "mset (sort_a_extras qsort xs) = mset xs" by (simp add: sort_a_extras_def Let_def ys)
  have len: "length (qsort compare_auto_extras_len (take ?n ?ys)) = ?n"
    using qsort_okD(1) [OF assms(1)] ys(2) by (metis length_take min.cobounded2 min_absorb2 size_mset)
  have "length (ax_data x) < 2 ^ 31" if "x \<in> set (take ?n ?ys)" for x
    using that assms(2) ys(3) in_set_takeD by (fastforce simp: MAX_AUTO_LEN_def)
  then have "sorted (map (\<lambda>x. length (ax_data x)) (qsort compare_auto_extras_len (take ?n ?ys)))"
    by (intro qsort_okD(2) [OF assms(1)]) (simp add: compare_auto_extras_len_def sint_diff)
  moreover have "take USE_AUTO_EXTRAS (sort_a_extras qsort xs) = qsort compare_auto_extras_len (take ?n ?ys)"
    using take_min [OF len ys(2)] by (simp only: sort_a_extras_def Let_def ys(2))
  ultimately show "sorted (map (\<lambda>x. length (ax_data x)) (take USE_AUTO_EXTRAS (sort_a_extras qsort xs)))" by simp
qed

lemma auto_ok_sort:
  assumes "qsort_ok qsort" "length xs \<le> MAX_AUTO_EXTRAS" "distinct (auto_keys xs)" "\<forall>x \<in> set xs. token_ok (ax_data x)"
  shows "auto_ok (sort_a_extras qsort xs)" "set (auto_keys (sort_a_extras qsort xs)) = set (auto_keys xs)"
proof -
  have "\<forall>x \<in> set xs. length (ax_data x) \<le> MAX_AUTO_LEN" using assms(4) by (simp add: token_ok_def)
  note s = sort_a_extras_mset [OF assms(1) this]
  have m: "mset (auto_keys (sort_a_extras qsort xs)) = mset (auto_keys xs)" using s(1) by (simp add: auto_keys_def)
  have "set (sort_a_extras qsort xs) = set xs" "length (sort_a_extras qsort xs) = length xs"
    using s(1) by (metis set_mset_mset, metis size_mset)
  moreover have "distinct (auto_keys (sort_a_extras qsort xs))" using m assms(3) by (metis mset_eq_imp_distinct_iff)
  ultimately show "auto_ok (sort_a_extras qsort xs)" using assms(2,4) s(2) by (simp add: auto_ok_def)
  show "set (auto_keys (sort_a_extras qsort xs)) = set (auto_keys xs)" using m by (metis set_mset_mset)
qed

lemma quiet_extras:
  assumes "quiet a = quiet b"
  shows "a_extras a = a_extras b" "extras a = extras b" "auto_changed a = auto_changed b" "in_dir a = in_dir b"
proof -
  have "a_extras (quiet c) = a_extras c" "extras (quiet c) = extras c" "auto_changed (quiet c) = auto_changed c"
    "in_dir (quiet c) = in_dir c" for c :: "'a afl_extras_scheme"
    by (simp_all add: quiet_def)
  from this [of a] this [of b] assms show "a_extras a = a_extras b" "extras a = extras b"
    "auto_changed a = auto_changed b" "in_dir a = in_dir b"
    by simp_all
qed

definition rejected :: "bytes \<Rightarrow> ('a) afl_extras_scheme \<Rightarrow> bool" where
  "rejected mem afl \<longleftrightarrow> \<not> token_ok mem \<or> known_nocase mem (extras afl)"

lemma maybe_add_rejected: "rejected mem afl \<Longrightarrow> maybe_add_auto qsort mem afl = Inr afl"
  by (auto simp: rejected_def token_ok_def maybe_add_auto_def)

lemma auto_keys_simps [simp]:
  "length (auto_keys xs) = length xs" "auto_keys (xs @ ys) = auto_keys xs @ auto_keys ys"
  "auto_keys [x] = [lower (ax_data x)]" "auto_keys (xs[i := x]) = (auto_keys xs)[i := lower (ax_data x)]"
  by (simp_all add: auto_keys_def map_update)

lemma maybe_add_new:
  assumes "\<not> rejected mem afl" "lower mem \<notin> set (auto_keys (a_extras afl))" "length (a_extras afl) < MAX_AUTO_EXTRAS"
  shows "maybe_add_auto qsort mem afl =
    Inr (afl\<lparr>auto_changed := True, a_extras := sort_a_extras qsort (a_extras afl @ [\<lparr>ax_data = mem, ax_hit = 0\<rparr>])\<rparr>)"
  using assms bump_None [of mem "a_extras afl"]
  by (auto simp: rejected_def token_ok_def maybe_add_auto_def Let_def)

lemma evict_index:
  assumes "rand_below afl (of_nat ((MAX_AUTO_EXTRAS + 1) div 2)) = Inr (r, afl')"
  shows "MAX_AUTO_EXTRAS div 2 + unat r < MAX_AUTO_EXTRAS"
  using rand_below_lt [OF assms] by (auto simp: MAX_AUTO_EXTRAS_def USE_AUTO_EXTRAS_def word_less_nat_alt)

lemma rand_below_err: "rand_below afl l = Inl e \<Longrightarrow> e = Hang \<or> (\<exists>msg. e = PFatal msg)"
  by (auto simp: rand_below_def reseed_def Let_def bnd_def split: if_splits list.splits option.splits sum.splits)

lemma auto_ok_evict:
  assumes "auto_ok xs" "token_ok t" "lower t \<notin> set (auto_keys xs)" "i < length xs"
  shows "distinct (auto_keys (xs[i := \<lparr>ax_data = t, ax_hit = 0\<rparr>]))" "\<forall>x \<in> set (xs[i := \<lparr>ax_data = t, ax_hit = 0\<rparr>]). token_ok (ax_data x)"
    "lower t \<in> set (auto_keys (xs[i := \<lparr>ax_data = t, ax_hit = 0\<rparr>]))"
proof -
  show "distinct (auto_keys (xs[i := \<lparr>ax_data = t, ax_hit = 0\<rparr>]))"
    using assms(1,3) by (auto simp: auto_ok_def intro!: distinct_list_update)
  show "\<forall>x \<in> set (xs[i := \<lparr>ax_data = t, ax_hit = 0\<rparr>]). token_ok (ax_data x)"
    using assms(1,2) set_update_subset_insert [of xs i] by (fastforce simp: auto_ok_def)
  show "lower t \<in> set (auto_keys (xs[i := \<lparr>ax_data = t, ax_hit = 0\<rparr>]))"
    using assms(4) by (simp add: set_update_memI)
qed

lemma map_token_ok: "map ax_data ys = map ax_data xs \<Longrightarrow> \<forall>x \<in> set xs. token_ok (ax_data x) \<Longrightarrow> \<forall>y \<in> set ys. token_ok (ax_data y)"
  by (metis (no_types, lifting) imageE imageI list.set_map)

text \<open>C35. \<open>maybe_add_auto\<close> leaves everything as it is for a token it rejects (too long, one repeated byte,
  a built-in value, a known user token); otherwise the token is in the table, in some case of
  letters, and the table keeps its invariant: bounded, without two tokens that differ in case only,
  the used part sorted by length. It never leaves the table.\<close>

theorem maybe_add_auto_correct:
  assumes "qsort_ok qsort" "auto_ok (a_extras afl)"
  shows "case maybe_add_auto qsort mem afl of
      Inl e \<Rightarrow> e = Hang \<or> (\<exists>msg. e = PFatal msg)
    | Inr afl' \<Rightarrow> if rejected mem afl then afl' = afl
        else auto_ok (a_extras afl') \<and> lower mem \<in> set (auto_keys (a_extras afl')) \<and> auto_changed afl' \<and> extras afl' = extras afl"
proof (cases "rejected mem afl")
  case True
  then show ?thesis by (simp add: maybe_add_rejected)
next
  case False
  let ?new = "\<lparr>ax_data = mem, ax_hit = 0\<rparr> :: auto_extra" and ?afl1 = "afl\<lparr>auto_changed := True\<rparr>"
  define limit :: u32 where "limit = of_nat ((MAX_AUTO_EXTRAS + 1) div 2)"
  have tok: "token_ok mem" using False by (simp add: rejected_def)
  have xs: "length (a_extras afl) \<le> MAX_AUTO_EXTRAS" "distinct (auto_keys (a_extras afl))" "\<forall>x \<in> set (a_extras afl). token_ok (ax_data x)"
    using assms(2) by (simp_all add: auto_ok_def)
  have run: "maybe_add_auto qsort mem afl = (case bump mem (a_extras afl) of
      Some xs \<Rightarrow> Inr (?afl1\<lparr>a_extras := sort_a_extras qsort xs\<rparr>)
    | None \<Rightarrow> if length (a_extras afl) < MAX_AUTO_EXTRAS
        then Inr (?afl1\<lparr>a_extras := sort_a_extras qsort (a_extras afl @ [?new])\<rparr>)
        else bnd (rand_below ?afl1 limit) (\<lambda>(r, afl2).
          bnd (wr (a_extras afl2) (MAX_AUTO_EXTRAS div 2 + unat r) ?new) (\<lambda>xs. Inr (afl2\<lparr>a_extras := sort_a_extras qsort xs\<rparr>))))"
    using False unfolding limit_def by (auto simp: rejected_def token_ok_def maybe_add_auto_def Let_def)
  show ?thesis
  proof (cases "bump mem (a_extras afl)")
    case (Some ys)
    note b = bump_keys [OF Some]
    have "length ys \<le> MAX_AUTO_EXTRAS" using b xs(1) by (metis length_map)
    moreover have "distinct (auto_keys ys)" using b xs(2) by simp
    moreover have "\<forall>x \<in> set ys. token_ok (ax_data x)" by (rule map_token_ok [OF conjunct1 [OF conjunct2 [OF b]] xs(3)])
    ultimately show ?thesis
      using auto_ok_sort [OF assms(1), of ys] b False by (simp add: run Some)
  next
    case None
    then have new: "lower mem \<notin> set (auto_keys (a_extras afl))" by (simp add: bump_None)
    show ?thesis
    proof (cases "length (a_extras afl) < MAX_AUTO_EXTRAS")
      case True
      then show ?thesis
        using auto_ok_sort [OF assms(1), of "a_extras afl @ [?new]"] xs(2,3) new tok False by (simp add: run None)
    next
      case full: False
      show ?thesis
      proof (cases "rand_below ?afl1 limit")
        case (Inl e)
        then show ?thesis using rand_below_err [OF Inl] full by (simp add: run None)
      next
        case (Inr p)
        obtain r afl2 where p: "p = (r, afl2)" by (cases p)
        let ?i = "MAX_AUTO_EXTRAS div 2 + unat r"
        note q = quiet_extras [OF quiet_rand_below [OF Inr [unfolded p]]]
        have i: "?i < length (a_extras afl)" using evict_index [OF Inr [unfolded p limit_def]] full by simp
        note e = auto_ok_evict [OF assms(2) tok new i]
        show ?thesis
          using auto_ok_sort [OF assms(1) _ e(1,2)] xs(1) e(3) full False i q by (simp add: run None Inr p wr_def)
      qed
    qed
  qed
qed

section \<open>Saving and loading\<close>

lemma dec6_inj:
  assumes "dec6 i = dec6 j" "i < 1000000" "j < 1000000"
  shows "i = j"
proof -
  have digit: "(i div 10 ^ k) mod 10 = (j div 10 ^ k) mod 10" if "k < 6" for k
  proof -
    have "k \<in> set [5, 4, 3, 2, 1, 0 :: nat]" using that by auto
    then have "(char_of (48 + (i div 10 ^ k) mod 10 :: nat) :: char) = char_of (48 + (j div 10 ^ k) mod 10 :: nat)"
      using assms(1) unfolding dec6_def map_eq_conv by blast
    then have "(of_char (char_of (48 + (i div 10 ^ k) mod 10 :: nat)) :: nat) = of_char (char_of (48 + (j div 10 ^ k) mod 10 :: nat))"
      by simp
    then have "(48 + (i div 10 ^ k) mod 10) mod 256 = (48 + (j div 10 ^ k) mod 10) mod 256"
      by (simp only: of_char_of)
    moreover have "(i div 10 ^ k) mod 10 < 10" "(j div 10 ^ k) mod 10 < 10" by simp_all
    ultimately show ?thesis by (simp del: mod_less_divisor)
  qed
  have split: "n = 10 * (n div 10) + n mod 10" for n :: nat by simp
  have "i div 10 ^ k = j div 10 ^ k" if "k \<le> 6" for k
    using that
  proof (induction "6 - k" arbitrary: k)
    case 0
    then have "k = 6" by simp
    then show ?case using assms(2,3) by simp
  next
    case (Suc m)
    then have k: "k < 6" by simp
    have "i div 10 ^ Suc k = j div 10 ^ Suc k" by (rule Suc.hyps(1)) (use Suc.hyps(2) k in simp_all)
    then have "i div 10 ^ k div 10 = j div 10 ^ k div 10" by (simp only: power_Suc2 div_mult2_eq)
    then show ?case
      using digit [OF k] split [of "i div 10 ^ k"] split [of "j div 10 ^ k"] by metis
  qed
  from this [of 0] show ?thesis by simp
qed

lemma auto_path_inj: "auto_path dir i = auto_path dir j \<Longrightarrow> i < USE_AUTO_EXTRAS \<Longrightarrow> j < USE_AUTO_EXTRAS \<Longrightarrow> i = j"
  by (rule dec6_inj) (simp_all add: auto_path_def USE_AUTO_EXTRAS_def)

lemma save_tokens:
  assumes "foldm (save_token out) (enumerate n xs) w = Inr w'" "n + length xs \<le> USE_AUTO_EXTRAS"
  shows "deny w' = deny w \<and> (\<forall>k < length xs. files w' (auto_path (out @ ''/queue'') (n + k)) = Some (ax_data (xs ! k)) \<and>
      \<not> deny w (auto_path (out @ ''/queue'') (n + k))) \<and>
    (\<forall>p. (\<forall>k < length xs. p \<noteq> auto_path (out @ ''/queue'') (n + k)) \<longrightarrow> files w' p = files w p)"
  using assms
proof (induction xs arbitrary: n w)
  case (Cons x xs)
  let ?p = "\<lambda>k. auto_path (out @ ''/queue'') k"
  let ?w = "w\<lparr>files := (files w)(?p n := Some (ax_data x))\<rparr>"
  have 1: "\<not> deny w (?p n)" "foldm (save_token out) (enumerate (Suc n) xs) ?w = Inr w'"
    using Cons.prems(1) by (auto simp: save_token_def Let_def split: if_splits)
  note IH = Cons.IH [OF 1(2)]
  have fresh: "?p n \<noteq> ?p (Suc n + k)" if "k < length xs" for k
    using auto_path_inj [of "out @ ''/queue''" n "Suc n + k"] that Cons.prems(2) by auto
  have "deny w' = deny w" using IH Cons.prems(2) by simp
  moreover have "files w' (?p (n + k)) = Some (ax_data ((x # xs) ! k)) \<and> \<not> deny w (?p (n + k))" if "k < length (x # xs)" for k
  proof (cases k)
    case 0
    have "files w' (?p n) = files ?w (?p n)" using IH fresh Cons.prems(2) by simp
    then show ?thesis using 0 1(1) by simp
  next
    case (Suc m)
    then show ?thesis using IH that Cons.prems(2) by simp
  qed
  moreover have "files w' p = files w p" if p: "\<forall>k < length (x # xs). p \<noteq> ?p (n + k)" for p
  proof -
    have "p \<noteq> ?p n" using p by force
    moreover have "p \<noteq> ?p (Suc n + k)" if "k < length xs" for k
      using p that by (metis Suc_less_eq add_Suc_shift length_Cons)
    ultimately show ?thesis using IH Cons.prems(2) by simp
  qed
  ultimately show ?case by blast
qed simp

lemma load_tokens:
  assumes "qsort_ok qsort" "auto_ok (a_extras a)" "m + length xs \<le> USE_AUTO_EXTRAS"
    and "\<forall>k < length xs. files w (auto_path dir (m + k)) = Some (ax_data (xs ! k)) \<and> \<not> deny w (auto_path dir (m + k))"
    and "m + length xs < USE_AUTO_EXTRAS \<longrightarrow> files w (auto_path dir (m + length xs)) = None \<and> \<not> deny w (auto_path dir (m + length xs))"
    and "\<forall>x \<in> set xs. \<not> rejected (ax_data x) a \<and> MIN_AUTO_LEN \<le> length (ax_data x)"
    and "distinct (auto_keys (a_extras a) @ auto_keys xs)" "length (a_extras a) + length xs \<le> MAX_AUTO_EXTRAS"
  shows "\<exists>a'. load_auto_loop qsort w dir [m ..< USE_AUTO_EXTRAS] a = Inr a' \<and>
    set (auto_keys (a_extras a')) = set (auto_keys (a_extras a)) \<union> set (auto_keys xs)"
  using assms
proof (induction xs arbitrary: m a)
  case Nil
  show ?case
  proof (cases "m < USE_AUTO_EXTRAS")
    case True
    then have "[m ..< USE_AUTO_EXTRAS] = m # [Suc m ..< USE_AUTO_EXTRAS]" by (rule upt_conv_Cons)
    then show ?thesis using Nil True by (simp add: auto_keys_def)
  qed (simp add: auto_keys_def)
next
  case (Cons x xs)
  let ?d = "ax_data x"
  let ?a = "a\<lparr>auto_changed := True, a_extras := sort_a_extras qsort (a_extras a @ [\<lparr>ax_data = ?d, ax_hit = 0\<rparr>])\<rparr>"
  have upt: "[m ..< USE_AUTO_EXTRAS] = m # [Suc m ..< USE_AUTO_EXTRAS]" by (rule upt_conv_Cons) (use Cons.prems(3) in simp)
  have x: "\<not> rejected ?d a" "MIN_AUTO_LEN \<le> length ?d" using Cons.prems(6) by simp_all
  then have tok: "token_ok ?d" and len: "length ?d \<le> MAX_AUTO_LEN" by (auto simp: rejected_def token_ok_def)
  have new: "lower ?d \<notin> set (auto_keys (a_extras a))" using Cons.prems(7) by (simp add: auto_keys_def)
  have add: "maybe_add_auto qsort ?d a = Inr ?a" using Cons.prems(8) by (intro maybe_add_new x new) simp
  have stored: "files w (auto_path dir m) = Some ?d" "\<not> deny w (auto_path dir m)" using Cons.prems(4) by (auto dest: spec [of _ 0])
  have step: "load_auto_loop qsort w dir [m ..< USE_AUTO_EXTRAS] a = load_auto_loop qsort w dir [Suc m ..< USE_AUTO_EXTRAS] ?a"
    using stored x(2) len add by (simp add: upt)
  have old: "length (a_extras a) \<le> MAX_AUTO_EXTRAS" "distinct (auto_keys (a_extras a))" "\<forall>x \<in> set (a_extras a). token_ok (ax_data x)"
    using Cons.prems(2) by (simp_all add: auto_ok_def)
  have ok: "auto_ok (a_extras ?a)" "set (auto_keys (a_extras ?a)) = insert (lower ?d) (set (auto_keys (a_extras a)))"
    using auto_ok_sort [OF Cons.prems(1), of "a_extras a @ [\<lparr>ax_data = ?d, ax_hit = 0\<rparr>]"] old tok new Cons.prems(8) by simp_all
  have "\<forall>y \<in> set (a_extras a @ [\<lparr>ax_data = ?d, ax_hit = 0\<rparr>]). length (ax_data y) \<le> MAX_AUTO_LEN"
    using old(3) len by (auto simp: token_ok_def)
  from mset_eq_length [OF sort_a_extras_mset(1) [OF Cons.prems(1) this]]
  have size: "length (a_extras ?a) = Suc (length (a_extras a))" by simp
  have "\<exists>a'. load_auto_loop qsort w dir [Suc m ..< USE_AUTO_EXTRAS] ?a = Inr a' \<and>
      set (auto_keys (a_extras a')) = set (auto_keys (a_extras ?a)) \<union> set (auto_keys xs)"
  proof (rule Cons.IH [OF Cons.prems(1) ok(1)])
    show "\<forall>k < length xs. files w (auto_path dir (Suc m + k)) = Some (ax_data (xs ! k)) \<and> \<not> deny w (auto_path dir (Suc m + k))"
      using Cons.prems(4) by (metis Suc_less_eq add_Suc_shift length_Cons nth_Cons_Suc)
    have "distinct (auto_keys (a_extras ?a))" using ok(1) by (simp add: auto_ok_def)
    then show "distinct (auto_keys (a_extras ?a) @ auto_keys xs)"
      using Cons.prems(7) ok(2) by (auto simp: auto_keys_def)
  qed (use Cons.prems(3,5,6,8) size in \<open>auto simp: rejected_def\<close>)
  then show ?case using step ok(2) by (auto simp: auto_keys_def)
qed

text \<open>What \<open>save_auto\<close> writes, \<open>load_auto\<close> reads back: a fuzzer started on the output directory has the
  used tokens of the saved table, up to case, if none is shorter than \<open>MIN_AUTO_EXTRA\<close> or among
  the user's tokens.\<close>

theorem auto_extras_roundtrip:
  assumes qs: "qsort_ok qsort" and ok: "auto_ok (a_extras afl)" "auto_changed afl" "save_auto afl w = Inr (afl', w')"
    and len: "\<forall>x \<in> set (a_extras afl). MIN_AUTO_LEN \<le> length (ax_data x) \<and> \<not> known_nocase (ax_data x) (extras afl0)"
    and dir: "in_dir afl0 = Some (out_dir afl @ ''/queue'')" "a_extras afl0 = []"
    and fresh: "\<forall>i. files w (auto_path (out_dir afl @ ''/queue'') i) = None \<and> \<not> deny w (auto_path (out_dir afl @ ''/queue'') i)"
  shows "\<exists>a. load_auto qsort w' afl0 = Inr a \<and> set (auto_keys (a_extras a)) = set (auto_keys (take USE_AUTO_EXTRAS (a_extras afl)))"
proof -
  let ?xs = "take USE_AUTO_EXTRAS (a_extras afl)" and ?p = "auto_path (out_dir afl @ ''/queue'')"
  have xs: "take (min USE_AUTO_EXTRAS (length (a_extras afl))) (a_extras afl) = ?xs" by (simp add: min_def)
  have saved: "foldm (save_token (out_dir afl)) (enumerate 0 ?xs) w = Inr w'"
    using ok(2,3) by (auto simp: save_auto_def xs)
  have s: "deny w' = deny w" "\<forall>k < length ?xs. files w' (?p k) = Some (ax_data (?xs ! k)) \<and> \<not> deny w (?p k)"
    "\<And>p. (\<forall>k < length ?xs. p \<noteq> ?p k) \<Longrightarrow> files w' p = files w p"
    using save_tokens [OF saved] by simp_all
  have last: "length ?xs < USE_AUTO_EXTRAS \<longrightarrow> files w' (?p (length ?xs)) = None \<and> \<not> deny w' (?p (length ?xs))"
  proof
    assume n: "length ?xs < USE_AUTO_EXTRAS"
    have "?p (length ?xs) \<noteq> ?p k" if "k < length ?xs" for k
      using auto_path_inj [of "out_dir afl @ ''/queue''" "length ?xs" k] n that by linarith
    then show "files w' (?p (length ?xs)) = None \<and> \<not> deny w' (?p (length ?xs))" using s(1,3) fresh by simp
  qed
  have toks: "\<forall>x \<in> set ?xs. \<not> rejected (ax_data x) afl0 \<and> MIN_AUTO_LEN \<le> length (ax_data x)"
  proof
    fix x assume "x \<in> set ?xs"
    then have "x \<in> set (a_extras afl)" by (rule in_set_takeD)
    then show "\<not> rejected (ax_data x) afl0 \<and> MIN_AUTO_LEN \<le> length (ax_data x)"
      using ok(1) len by (simp add: auto_ok_def rejected_def)
  qed
  have "distinct (auto_keys ?xs)" using ok(1) by (simp add: auto_ok_def auto_keys_def flip: take_map)
  moreover have "length ?xs \<le> MAX_AUTO_EXTRAS" using ok(1) by (auto simp: auto_ok_def)
  moreover have "auto_ok (a_extras afl0)" by (simp add: dir(2) auto_ok_def auto_keys_def)
  ultimately have "\<exists>a. load_auto_loop qsort w' (out_dir afl @ ''/queue'') [0 ..< USE_AUTO_EXTRAS] afl0 = Inr a \<and>
      set (auto_keys (a_extras a)) = set (auto_keys (a_extras afl0)) \<union> set (auto_keys ?xs)"
    using load_tokens [OF qs, of afl0 0 ?xs w' "out_dir afl @ ''/queue''"] s(1,2) last toks by (simp add: dir(2) auto_keys_def)
  then show ?thesis using dir by (auto simp: load_auto_def auto_keys_def)
qed

section \<open>Instances\<close>

text \<open>Insertion sort is one of the routines \<open>qsort\<close> may be.\<close>

fun insert_by :: "('a \<Rightarrow> 'a \<Rightarrow> int) \<Rightarrow> 'a \<Rightarrow> 'a list \<Rightarrow> 'a list" where
  "insert_by cmp x [] = [x]"
| "insert_by cmp x (y # ys) = (if cmp x y \<le> 0 then x # y # ys else y # insert_by cmp x ys)"

definition sort_by :: "'a sorter" where "sort_by cmp xs = foldr (insert_by cmp) xs []"

lemma mset_insert_by [simp]: "mset (insert_by cmp x ys) = add_mset x (mset ys)"
  by (induction ys) auto

lemma mset_sort_by: "mset (sort_by cmp xs) = mset xs"
  by (induction xs) (auto simp: sort_by_def)

lemma set_insert_by [simp]: "set (insert_by cmp x ys) = insert x (set ys)"
  using mset_insert_by [of cmp x ys] by (metis set_mset_add_mset_insert set_mset_mset)

lemma sorted_insert_by:
  assumes "\<forall>a \<in> insert x (set ys). \<forall>b \<in> insert x (set ys). cmp a b = int (k a) - int (k b)" "sorted (map k ys)"
  shows "sorted (map k (insert_by cmp x ys))"
  using assms by (induction ys) auto

lemma sort_by_ok: "qsort_ok sort_by"
proof -
  have "sorted (map k (sort_by cmp xs))" if "\<forall>a \<in> set xs. \<forall>b \<in> set xs. cmp a b = int (k a) - int (k b)" for cmp xs and k :: "'a \<Rightarrow> nat"
    using that
  proof (induction xs)
    case (Cons x xs)
    have "set (sort_by cmp xs) = set xs" by (metis mset_sort_by set_mset_mset)
    then show ?case using Cons sorted_insert_by [of x "sort_by cmp xs" cmp k] by (simp add: sort_by_def)
  qed (simp add: sort_by_def)
  then show ?thesis by (simp add: qsort_ok_def mset_sort_by)
qed

definition dict_example :: "bytes list \<Rightarrow> auto_extra list \<Rightarrow> afl_extras" where
  "dict_example es xs = afl_mopt.extend mopt_example
     (afl_extras.fields es 256 xs True (Some (out_dir mopt_example @ ''/queue'')))"

lemma dict_example_simps [simp]:
  "extras (dict_example es xs) = es" "a_extras (dict_example es xs) = xs" "auto_changed (dict_example es xs)"
  "in_dir (dict_example es xs) = Some (out_dir (dict_example es xs) @ ''/queue'')" "out_dir (dict_example es xs) = out_dir mopt_example"
  by (simp_all add: dict_example_def afl_mopt.defs afl_extras.defs)

theorem dict_file_roundtrip_witness:
  "\<exists>lo hi. load_extras_file (empty_world\<lparr>files := (\<lambda>_. Some (dict_file [([0x61], [0x22, 0x00])]))\<rparr>) ''d'' 0
      (dict_example [] [], 128, 0) = Inr ((dict_example [] [])\<lparr>extras := [[0x22, 0x00]]\<rparr>, lo, hi)"
  using dict_file_roundtrip [of "[([0x61], [0x22, 0x00])]" "''d''" "empty_world\<lparr>files := (\<lambda>_. Some (dict_file [([0x61], [0x22, 0x00])]))\<rparr>"
      0 "dict_example [] []" 128 0]
  by (simp add: entry_ok_def is_label_def isalnum_def MAX_DICT_FILE_def open_read_def empty_world_def)

theorem dict_file_hangs_witness:
  "load_extras_file (empty_world\<lparr>files := (\<lambda>_. Some (dict_entry [0x61] [0x62, 0xC3, 0xBC]))\<rparr>) ''d'' 0 (dict_example [] [], 128, 0) = Inl Hang"
proof -
  have "open_read ''d'' (empty_world\<lparr>files := (\<lambda>_. Some (dict_entry [0x61] [0x62, 0xC3, 0xBC]))\<rparr>) =
      Some (dict_entry [0x61] ([0x62] @ 0xC3 # [0xBC]) @ [])"
    by (simp add: open_read_def empty_world_def)
  from dict_file_hangs [OF _ _ _ _ _ this] show ?thesis
    by (simp add: is_label_def isalnum_def unprintable_def plain_text_def MAX_LINE_def word_le_nat_alt)
qed

theorem dedup_extras_correct_witness:
  "extras (dedup_extras (dict_example [[1], [2], [1], [1, 2]] [])) = [[1], [2], [1, 2]]"
  using dedup_extras_correct [of "dict_example [[1], [2], [1], [1, 2]] []"] by simp

theorem add_extra_correct_witness:
  "dict_ok (extras (add_extra sort_by [7] (dict_example [[1, 2]] []))) \<and>
    set (extras (add_extra sort_by [7] (dict_example [[1, 2]] []))) = {[7], [1, 2]}"
  using add_extra_correct [OF sort_by_ok, of "dict_example [[1, 2]] []" "[7]"] by (simp add: dict_ok_def MAX_DICT_FILE_def)

theorem deunicode_extras_correct_witness:
  "[0x61, 0x62, 0x63] \<in> set (extras (deunicode_extras sort_by (dict_example [[0x61, 0, 0x62, 0, 0x63, 0]] [])))"
proof -
  have "utf16 [0x61, 0x62, 0x63] = [0x61, 0, 0x62, 0, 0x63, 0]" by (simp add: utf16_def)
  then show ?thesis
    using conjunct2 [OF deunicode_extras_correct [OF sort_by_ok, of "dict_example [[0x61, 0, 0x62, 0, 0x63, 0]] []"]]
    by (auto dest!: spec [of _ "[0x61, 0x62, 0x63]"])
qed

lemma auto_example_ok: "auto_ok [\<lparr>ax_data = [0x61, 0x62, 0x63], ax_hit = 0\<rparr>]"
  by (simp add: auto_ok_def auto_keys_def token_ok_def single_byte_run_def builtin_value_def MAX_AUTO_EXTRAS_def USE_AUTO_EXTRAS_def
      MAX_AUTO_LEN_def)

theorem maybe_add_auto_correct_witness:
  "case maybe_add_auto sort_by [0x41, 0x42, 0x43] (dict_example [] [\<lparr>ax_data = [0x61, 0x62, 0x63], ax_hit = 0\<rparr>]) of
     Inl e \<Rightarrow> e = Hang \<or> (\<exists>msg. e = PFatal msg)
   | Inr afl' \<Rightarrow> auto_ok (a_extras afl') \<and> [0x61, 0x62, 0x63] \<in> set (auto_keys (a_extras afl'))"
  using maybe_add_auto_correct [OF sort_by_ok, of "dict_example [] [\<lparr>ax_data = [0x61, 0x62, 0x63], ax_hit = 0\<rparr>]" "[0x41, 0x42, 0x43]"]
    auto_example_ok
  by (simp add: rejected_def token_ok_def single_byte_run_def builtin_value_def known_nocase_def MAX_AUTO_LEN_def lower_def tolower_def
      word_le_nat_alt split: sum.splits)

theorem auto_extras_roundtrip_witness:
  "\<exists>afl' w' a. save_auto (dict_example [] [\<lparr>ax_data = [0x61, 0x62, 0x63], ax_hit = 0\<rparr>]) empty_world = Inr (afl', w') \<and>
    load_auto sort_by w' (dict_example [] []) = Inr a \<and> set (auto_keys (a_extras a)) = {[0x61, 0x62, 0x63]}"
proof -
  let ?a = "dict_example [] [\<lparr>ax_data = [0x61, 0x62, 0x63], ax_hit = 0\<rparr>]"
  obtain afl' w' where run: "save_auto ?a empty_world = Inr (afl', w')"
    by (simp add: save_auto_def save_token_def USE_AUTO_EXTRAS_def empty_world_def Let_def)
  have "\<exists>a. load_auto sort_by w' (dict_example [] []) = Inr a \<and> set (auto_keys (a_extras a)) = set (auto_keys (take USE_AUTO_EXTRAS (a_extras ?a)))"
    by (rule auto_extras_roundtrip [OF sort_by_ok _ _ run])
      (use auto_example_ok in \<open>simp_all add: MIN_AUTO_LEN_def known_nocase_def empty_world_def\<close>)
  then show ?thesis
    using run by (auto simp: auto_keys_def lower_def tolower_def USE_AUTO_EXTRAS_def word_le_nat_alt)
qed

text \<open>The 16-bit comparison with the built-in values misses the negative ones in their own byte order.\<close>

lemma builtin_value_misses: "(-128 :: int) \<in> set interesting_16 \<and> \<not> builtin_value (le_bytes 2 (word_of_int (-128) :: u16))"
  by code_simp

end
