(* ===== verification/Dict_Stages.thy ===== *)
theory Dict_Stages
  imports Det_Stages Dict Text
begin

text \<open>
  The dictionary stages of \<open>fuzz_one_original\<close> (src/afl-fuzz-one.c): every token is written over the
  input at every offset, and inserted at every offset. The overwriting loop restores the buffer once
  per offset, which is enough because the tokens are sorted by length.
\<close>

section \<open>Overwriting\<close>

text \<open>\<open>memcpy(b + i, t, len)\<close>\<close>

definition put_bytes :: "bytes \<Rightarrow> nat \<Rightarrow> bytes \<Rightarrow> bytes" where
  "put_bytes b i t = take i b @ t @ drop (i + length t) b"

definition EFF_SPAN_ALEN :: "nat \<Rightarrow> nat \<Rightarrow> nat" where
  "EFF_SPAN_ALEN p l = EFF_APOS (p + l - 1) - EFF_APOS p + 1"

text \<open>\<open>memchr\<close> looks for a cell that is 1.\<close>

definition span_flagged :: "bytes \<Rightarrow> nat \<Rightarrow> nat \<Rightarrow> bool" where
  "span_flagged m i l = list_ex (\<lambda>k. m ! (EFF_APOS i + k) = 1) [0 ..< EFF_SPAN_ALEN i l]"

definition over_skip :: "det_state \<Rightarrow> nat \<Rightarrow> bytes \<Rightarrow> bool" where
  "over_skip d i t \<longleftrightarrow> length t > length (out_buf d) - i \<or> take (length t) (drop i (out_buf d)) = t \<or>
     \<not> span_flagged (eff_map d) i (length t)"

text \<open>One token; \<open>pick\<close> decides at random whether to leave it out. The number is \<open>last_len\<close>.\<close>

definition over_token :: "'s fuzz_env \<Rightarrow> ('s \<Rightarrow> (bool \<times> 's) res) \<Rightarrow> nat \<Rightarrow> bytes \<Rightarrow> nat \<times> 's det \<Rightarrow> 's stop + nat \<times> 's det" where
  "over_token env pick i t = (\<lambda>(last_len, d, s).
     bnd (lift (pick s)) (\<lambda>(skip, s1).
     if skip \<or> over_skip d i t then Inr (last_len, d\<lparr>stage_max := stage_max d - 1\<rparr>, s1)
     else bnd (run_case env (d\<lparr>out_buf := put_bytes (out_buf d) i t\<rparr>, s1)) (\<lambda>(d2, s2).
       Inr (length t, d2\<lparr>stage_cur := stage_cur d2 + 1\<rparr>, s2))))"

definition over_at :: "'s fuzz_env \<Rightarrow> ('s \<Rightarrow> (bool \<times> 's) res) \<Rightarrow> bytes \<Rightarrow> bytes list \<Rightarrow> nat \<Rightarrow> 's det \<Rightarrow> 's det_res" where
  "over_at env pick in_buf toks i = (\<lambda>(d, s).
     bnd (foldm (over_token env pick i) toks (0, d\<lparr>stage_cur_byte := of_nat i\<rparr>, s)) (\<lambda>(last_len, d1, s1).
     Inr (d1\<lparr>out_buf := put_bytes (out_buf d1) i (take last_len (drop i in_buf))\<rparr>, s1)))"

text \<open>Above \<open>max_det_extras\<close> tokens, \<open>draw\<close> (\<open>rand_below\<close>) thins out the user's.\<close>

definition pick_extra :: "(u32 \<Rightarrow> 's \<Rightarrow> (u32 \<times> 's) res) \<Rightarrow> u32 \<Rightarrow> u32 \<Rightarrow> 's \<Rightarrow> (bool \<times> 's) res" where
  "pick_extra draw cnt max_det s =
     (if cnt > max_det then map_sum id (\<lambda>(r, s'). (r \<ge> max_det, s')) (draw cnt s) else Inr (False, s))"

definition user_over_stage ::
  "'s fuzz_env \<Rightarrow> (u32 \<Rightarrow> 's \<Rightarrow> (u32 \<times> 's) res) \<Rightarrow> u32 \<Rightarrow> bytes list \<Rightarrow> bytes \<Rightarrow> 's det \<Rightarrow> 's det_res" where
  "user_over_stage env draw max_det toks in_buf = (\<lambda>(d, s).
     let cnt = of_nat (length toks); len = length (out_buf d);
         d1 = d\<lparr>stage_cur := 0, stage_max := cnt * buf_len d, stage_val_type := 0, orig_hit_cnt := new_hit_cnt d\<rparr> in
     bnd (foldm (over_at env (pick_extra draw cnt max_det) in_buf toks) [0 ..< len] (d1, s)) (end_stage env 12))"

definition auto_over_stage :: "'s fuzz_env \<Rightarrow> auto_extra list \<Rightarrow> bytes \<Rightarrow> 's det \<Rightarrow> 's det_res" where
  "auto_over_stage env autos in_buf = (\<lambda>(d, s).
     let n = min (length autos) USE_AUTO_EXTRAS; len = length (out_buf d);
         d1 = d\<lparr>stage_cur := 0, stage_max := of_nat n * buf_len d, stage_val_type := 0, orig_hit_cnt := new_hit_cnt d\<rparr> in
     bnd (foldm (over_at env (\<lambda>s. Inr (False, s)) in_buf (map ax_data (take n autos))) [0 ..< len] (d1, s)) (end_stage env 14))"

section \<open>Insertion\<close>

text \<open>
  \<open>ex\<close> is the buffer \<open>ex_tmp\<close>: the head of the input, the token, the tail. At the last offset the
  code copies \<open>out_buf[len]\<close>, a byte behind the input: \<open>slack\<close> is what the allocation holds there.
\<close>

definition insert_token :: "'s fuzz_env \<Rightarrow> nat \<Rightarrow> bytes \<Rightarrow> bytes \<times> 's det \<Rightarrow> 's stop + bytes \<times> 's det" where
  "insert_token env i t = (\<lambda>(ex, d, s).
     let len = length (out_buf d) in
     if len + length t > unat MAX_FILE then Inr (ex, d\<lparr>stage_max := stage_max d - 1\<rparr>, s)
     else if len + length t > length ex then Inl (Crash Oob)
     else
       let ex1 = put_bytes (put_bytes ex i t) (i + length t) (drop i (out_buf d));
           (stop, s1) = fuzz env d (take (len + length t) ex1) s
       in if stop then Inl (Abandon s1) else Inr (ex1, d\<lparr>stage_cur := stage_cur d + 1\<rparr>, s1))"

definition insert_pos :: "'s fuzz_env \<Rightarrow> bytes list \<Rightarrow> bytes \<Rightarrow> nat \<Rightarrow> bytes \<times> 's det \<Rightarrow> 's stop + bytes \<times> 's det" where
  "insert_pos env toks slack i = (\<lambda>(ex, d, s).
     bnd (foldm (insert_token env i) toks (ex, d\<lparr>stage_cur_byte := of_nat i\<rparr>, s)) (\<lambda>(ex1, d1, s1).
     bnd (lift (rd (out_buf d1 @ slack) i)) (\<lambda>c.
     bnd (lift (wr ex1 i c)) (\<lambda>ex2. Inr (ex2, d1, s1)))))"

definition insert_stage :: "'s fuzz_env \<Rightarrow> nat \<Rightarrow> bytes list \<Rightarrow> bytes option \<Rightarrow> bytes \<Rightarrow> 's det \<Rightarrow> 's det_res" where
  "insert_stage env k toks ex_buf slack = (\<lambda>(d, s).
     let len = length (out_buf d);
         d1 = d\<lparr>stage_cur := 0, stage_max := of_nat (length toks) * (buf_len d + 1), orig_hit_cnt := new_hit_cnt d\<rparr> in
     case ex_buf of
       None \<Rightarrow> Inl (Crash (PFatal ''alloc''))
     | Some ex \<Rightarrow>
         bnd (foldm (insert_pos env toks slack) [0 ..< len + 1] (ex, d1, s)) (\<lambda>(_, d2, s2). end_stage env k (d2, s2)))"

definition user_insert_stage :: "'s fuzz_env \<Rightarrow> bytes list \<Rightarrow> bytes option \<Rightarrow> bytes \<Rightarrow> 's det \<Rightarrow> 's det_res" where
  "user_insert_stage env = insert_stage env 13"

definition auto_insert_stage :: "'s fuzz_env \<Rightarrow> auto_extra list \<Rightarrow> bytes option \<Rightarrow> bytes \<Rightarrow> 's det \<Rightarrow> 's det_res" where
  "auto_insert_stage env autos = insert_stage env 15 (map ax_data autos)"

section \<open>Overwriting: proofs\<close>

lemma length_put_bytes [simp]: "i + length t \<le> length b \<Longrightarrow> length (put_bytes b i t) = length b"
  by (simp add: put_bytes_def)

lemma put_put_bytes:
  assumes "length p \<le> length t" "i + length t \<le> length b"
  shows "put_bytes (put_bytes b i p) i t = put_bytes b i t"
proof -
  have "drop (i + length t) (take i b @ p @ drop (i + length p) b) = drop (i + length t) b"
    using assms by (simp add: add.commute)
  then show ?thesis using assms by (simp add: put_bytes_def)
qed

lemma put_bytes_back: "i + length p \<le> length b \<Longrightarrow> put_bytes (put_bytes b i p) i (take (length p) (drop i b)) = b"
  using put_put_bytes [of p "take (length p) (drop i b)" i b]
  by (simp add: put_bytes_def) (metis append_take_drop_id drop_drop add.commute)

lemma put_bytes_same: "i + length t \<le> length c \<Longrightarrow> put_bytes c i t = c \<longleftrightarrow> take (length t) (drop i c) = t"
proof -
  assume "i + length t \<le> length c"
  then have "c = take i c @ take (length t) (drop i c) @ drop (i + length t) c"
    by (metis append_take_drop_id drop_drop add.commute)
  then show ?thesis unfolding put_bytes_def by (metis append_same_eq same_append_eq)
qed

text \<open>
  The executions at one offset: \<open>p\<close> is the token written last. A token is executed if it fits, touches
  a flagged block and changes the buffer.
\<close>

fun over_cases :: "bytes \<Rightarrow> bytes \<Rightarrow> nat \<Rightarrow> bytes \<Rightarrow> bytes list \<Rightarrow> bytes list" where
  "over_cases m b i p [] = []"
| "over_cases m b i p (t # ts) =
     (if i + length t \<le> length b \<and> put_bytes b i t \<noteq> put_bytes b i p \<and> span_flagged m i (length t)
      then put_bytes b i t # over_cases m b i t ts else over_cases m b i p ts)"

lemma length_over_cases: "length (over_cases m b i p ts) \<le> length ts"
  by (induction ts arbitrary: p) (auto intro: le_SucI)

lemma over_skip_iff:
  assumes "out_buf d = put_bytes b i p" "i + length p \<le> length b" "length p \<le> length t"
  shows "over_skip d i t \<longleftrightarrow> \<not> (i + length t \<le> length b \<and> put_bytes b i t \<noteq> put_bytes b i p \<and> span_flagged (eff_map d) i (length t))"
proof -
  have "length t > length b - i \<longleftrightarrow> \<not> i + length t \<le> length b" using assms(2) by auto
  moreover have "take (length t) (drop i (put_bytes b i p)) = t \<longleftrightarrow> put_bytes b i t = put_bytes b i p" if "i + length t \<le> length b"
    using put_bytes_same [of i t "put_bytes b i p"] put_put_bytes [OF assms(3) that] that assms(2) by simp
  ultimately show ?thesis using assms(1,2) by (auto simp: over_skip_def)
qed

abbreviation no_pick :: "'s \<Rightarrow> (bool \<times> 's) res" where "no_pick \<equiv> \<lambda>s. Inr (False, s)"

lemma over_tokens:
  assumes env: "fuzz env = (\<lambda>_. f)" and "by_len (p # ts)" "i + length p \<le> length b" "out_buf d = put_bytes b i p"
  shows "\<exists>d' q. (\<forall>s. foldm (over_token env no_pick i) ts (length p, d, s) =
        bnd (run_list f (over_cases (eff_map d) b i p ts) s) (\<lambda>s'. Inr (length q, d', s'))) \<and>
      out_buf d' = put_bytes b i q \<and> i + length q \<le> length b \<and> bare d' = bare d \<and>
      stage_cur d' = stage_cur d + of_nat (length (over_cases (eff_map d) b i p ts)) \<and>
      stage_max d' = stage_max d - of_nat (length ts) + of_nat (length (over_cases (eff_map d) b i p ts))"
  using assms(2-4)
proof (induction ts arbitrary: d p)
  case Nil
  then show ?case by (intro exI [of _ d] exI [of _ p]) simp
next
  case (Cons t ts)
  have len: "length p \<le> length t" "by_len (t # ts)" "by_len (p # ts)" using Cons.prems(1) by auto
  note skip = over_skip_iff [OF Cons.prems(3,2) len(1)]
  show ?case
  proof (cases "over_skip d i t")
    case True
    let ?d = "d\<lparr>stage_max := stage_max d - 1\<rparr>"
    have "over_cases (eff_map d) b i p (t # ts) = over_cases (eff_map d) b i p ts" using True skip by auto
    moreover have "over_token env no_pick i t (length p, d, s) = Inr (length p, ?d, s)" for s
      using True by (simp add: over_token_def)
    moreover have "bare ?d = bare d" "eff_map ?d = eff_map d" by (simp_all add: bare_def)
    ultimately show ?thesis
      using Cons.IH [of p ?d] len(3) Cons.prems(2,3) by (simp add: algebra_simps)
  next
    case False
    let ?d = "d\<lparr>out_buf := put_bytes b i t, stage_cur := stage_cur d + 1\<rparr>"
    have t: "i + length t \<le> length b" using False skip by blast
    have cs: "over_cases (eff_map d) b i p (t # ts) = put_bytes b i t # over_cases (eff_map d) b i t ts" using False skip by auto
    have "over_token env no_pick i t (length p, d, s) = bnd (run_list f [put_bytes b i t] s) (\<lambda>s'. Inr (length t, ?d, s'))" for s
      using False by (simp add: over_token_def Cons.prems(3) put_put_bytes [OF len(1) t] run_case_bytes [OF env])
    moreover have "bare ?d = bare d" "eff_map ?d = eff_map d" by (simp_all add: bare_def)
    moreover obtain d' q where "\<And>s. foldm (over_token env no_pick i) ts (length t, ?d, s) =
        bnd (run_list f (over_cases (eff_map d) b i t ts) s) (\<lambda>s'. Inr (length q, d', s'))"
      "out_buf d' = put_bytes b i q" "i + length q \<le> length b" "bare d' = bare ?d"
      "stage_cur d' = stage_cur ?d + of_nat (length (over_cases (eff_map d) b i t ts))"
      "stage_max d' = stage_max ?d - of_nat (length ts) + of_nat (length (over_cases (eff_map d) b i t ts))"
      using Cons.IH [of t ?d] len(2) t by auto
    ultimately show ?thesis
      unfolding cs by (intro exI [of _ d'] exI [of _ q]) (simp add: Let_def split: prod.splits)
  qed
qed

definition over_cases_at :: "bytes list \<Rightarrow> det_state \<Rightarrow> nat \<Rightarrow> bytes list" where
  "over_cases_at toks d i = over_cases (eff_map d) (out_buf d) i [] toks"

lemma over_at_does:
  assumes env: "fuzz env = (\<lambda>_. f)" and toks: "by_len toks" and i: "i < length (out_buf d)" and b: "in_buf = out_buf d"
  shows "does f ((=) (out_buf d)) (length toks) (over_cases_at toks d i) (over_at env no_pick in_buf toks i) d"
proof -
  let ?d = "d\<lparr>stage_cur_byte := of_nat i\<rparr>" and ?b = "out_buf d"
  have "by_len ([] # toks)" "i + length ([] :: bytes) \<le> length ?b" "out_buf ?d = put_bytes ?b i []"
    using toks i by (simp_all add: put_bytes_def)
  from over_tokens [OF env this] obtain d' q where run: "\<And>s. foldm (over_token env no_pick i) toks (0, ?d, s) =
      bnd (run_list f (over_cases_at toks d i) s) (\<lambda>s'. Inr (length q, d', s'))"
    and d': "out_buf d' = put_bytes ?b i q" "i + length q \<le> length ?b" "bare d' = bare ?d"
      "stage_cur d' = stage_cur d + of_nat (length (over_cases_at toks d i))"
      "stage_max d' = stage_max d - of_nat (length toks) + of_nat (length (over_cases_at toks d i))"
    by (auto simp: over_cases_at_def)
  let ?e = "d'\<lparr>out_buf := ?b\<rparr>"
  have "over_at env no_pick in_buf toks i (d, s) = exec f (over_cases_at toks d i) s ?e" for s
    using put_bytes_back [OF d'(2)]
    by (cases "run_list f (over_cases_at toks d i) s") (simp_all add: over_at_def run b d'(1) exec_def)
  moreover have "bare ?e = bare d" using d'(3) by (simp add: bare_def)
  ultimately show ?thesis unfolding does_def using d'(4,5) by (intro exI [of _ ?e]) simp
qed

lemma over_offsets:
  assumes "fuzz env = (\<lambda>_. f)" "by_len toks" "in_buf = out_buf d" "out_buf d1 = out_buf d" "eff_map d1 = eff_map d"
  shows "does f ((=) (out_buf d)) (length toks * length [0 ..< length (out_buf d)])
    (concat (map (over_cases_at toks d) [0 ..< length (out_buf d)]))
    (foldm (over_at env no_pick in_buf toks) [0 ..< length (out_buf d)]) d1"
  by (intro offsets_do over_at_does assms) (simp_all add: assms over_cases_at_def)

lemma no_pick_extra: "of_nat (length toks) \<le> max_det \<Longrightarrow> pick_extra draw (of_nat (length toks)) max_det = no_pick"
  by (auto simp: pick_extra_def fun_eq_iff)


section \<open>Insertion: proofs\<close>

definition insert_cases :: "bytes list \<Rightarrow> bytes \<Rightarrow> nat \<Rightarrow> bytes list" where
  "insert_cases toks b i =
     map (\<lambda>t. take i b @ t @ drop i b) (filter (\<lambda>t. length b + length t \<le> unat MAX_FILE) toks)"

text \<open>What a loop over tokens or offsets does: the cases \<open>cs\<close>, out of \<open>m\<close>, with \<open>ex\<close> left as \<open>P\<close> says.\<close>

definition inserts ::
  "(bytes \<Rightarrow> 's \<Rightarrow> bool \<times> 's) \<Rightarrow> (bytes \<Rightarrow> bool) \<Rightarrow> nat \<Rightarrow> bytes list \<Rightarrow> (bytes \<times> 's det \<Rightarrow> 's stop + bytes \<times> 's det) \<Rightarrow> bytes \<Rightarrow> det_state \<Rightarrow> bool" where
  "inserts f P m cs g ex d \<longleftrightarrow> (\<exists>ex' d'. (\<forall>s. g (ex, d, s) = bnd (run_list f cs s) (\<lambda>s'. Inr (ex', d', s'))) \<and>
     P ex' \<and> out_buf d' = out_buf d \<and> bare d' = bare d \<and>
     stage_cur d' = stage_cur d + of_nat (length cs) \<and> stage_max d' = stage_max d - of_nat m + of_nat (length cs))"

lemma bnd_run_list_append:
  "bnd (bnd (run_list f cs s) (\<lambda>s'. Inr (x, s'))) (\<lambda>(x, s'). bnd (run_list f ds s') (\<lambda>t. Inr (h x, t))) =
    bnd (run_list f (cs @ ds) s) (\<lambda>t. Inr (h x, t))"
  by (cases "run_list f cs s") (simp_all add: run_list_append)

lemma inserts_bnd:
  assumes g: "inserts f P m cs g ex d"
    and h: "\<And>ex1 d1. P ex1 \<Longrightarrow> out_buf d1 = out_buf d \<Longrightarrow> bare d1 = bare d \<Longrightarrow> inserts f Q n ds h ex1 d1"
  shows "inserts f Q (m + n) (cs @ ds) (\<lambda>x. bnd (g x) h) ex d"
proof -
  obtain ex1 d1 where 1: "\<And>s. g (ex, d, s) = bnd (run_list f cs s) (\<lambda>s'. Inr (ex1, d1, s'))" "P ex1" "out_buf d1 = out_buf d"
    "bare d1 = bare d" "stage_cur d1 = stage_cur d + of_nat (length cs)" "stage_max d1 = stage_max d - of_nat m + of_nat (length cs)"
    using g unfolding inserts_def by blast
  obtain ex2 d2 where 2: "\<And>s. h (ex1, d1, s) = bnd (run_list f ds s) (\<lambda>s'. Inr (ex2, d2, s'))" "Q ex2" "out_buf d2 = out_buf d1"
    "bare d2 = bare d1" "stage_cur d2 = stage_cur d1 + of_nat (length ds)" "stage_max d2 = stage_max d1 - of_nat n + of_nat (length ds)"
    using h [OF 1(2-4)] unfolding inserts_def by blast
  have "bnd (g (ex, d, s)) h = bnd (run_list f (cs @ ds) s) (\<lambda>s'. Inr (ex2, d2, s'))" for s
    by (cases "run_list f cs s") (simp_all add: 1(1) 2(1) run_list_append)
  moreover have "stage_max d2 = stage_max d - of_nat (m + n) + of_nat (length (cs @ ds))"
    unfolding 2(6) 1(6) by (simp add: algebra_simps)
  moreover have "stage_cur d2 = stage_cur d + of_nat (length (cs @ ds))" unfolding 2(5) 1(5) by simp
  ultimately show ?thesis unfolding inserts_def using 1(3,4) 2(2-4) by (intro exI [of _ ex2] exI [of _ d2]) simp
qed

lemma inserts_cong: "(\<And>s. g (ex, d, s) = h (ex, d, s)) \<Longrightarrow> inserts f P m cs g ex d \<longleftrightarrow> inserts f P m cs h ex d"
  by (simp add: inserts_def)

definition head_ready :: "bytes \<Rightarrow> nat \<Rightarrow> bytes \<Rightarrow> bool" where
  "head_ready b i ex \<longleftrightarrow> take i ex = take i b \<and> length b + MAX_DICT_FILE \<le> length ex"

lemma insert_token_inserts:
  assumes env: "fuzz env = (\<lambda>_. f)" and t: "length t \<le> MAX_DICT_FILE" and i: "i \<le> length (out_buf d)" and ex: "head_ready (out_buf d) i ex"
  shows "inserts f (head_ready (out_buf d) i) 1 (insert_cases [t] (out_buf d) i) (insert_token env i t) ex d"
proof (cases "length (out_buf d) + length t > unat MAX_FILE")
  case True
  then show ?thesis
    unfolding inserts_def
    by (intro exI [of _ ex] exI [of _ "d\<lparr>stage_max := stage_max d - 1\<rparr>"]) (use ex in \<open>simp add: insert_token_def insert_cases_def bare_def\<close>)
next
  case False
  let ?b = "out_buf d" and ?d = "d\<lparr>stage_cur := stage_cur d + 1\<rparr>"
  let ?ex = "put_bytes (put_bytes ex i t) (i + length t) (drop i ?b)"
  have room: "length ?b + length t \<le> length ex" using ex t by (simp add: head_ready_def)
  have "take i ex = take i ?b" using ex by (simp add: head_ready_def)
  moreover have "i \<le> length ex" using room i by simp
  ultimately have ex': "?ex = take i ?b @ t @ drop i ?b @ drop (length ?b + length t) ex"
    using room i by (simp add: put_bytes_def min_def)
  have buf: "take (length ?b + length t) ?ex = take i ?b @ t @ drop i ?b" unfolding ex' using i by simp
  have cs: "insert_cases [t] ?b i = [take i ?b @ t @ drop i ?b]" using False by (simp add: insert_cases_def)
  have "insert_token env i t (ex, d, s) = bnd (run_list f [take i ?b @ t @ drop i ?b] s) (\<lambda>s'. Inr (?ex, ?d, s'))" for s
    using False room by (simp add: insert_token_def Let_def env buf split: prod.splits)
  moreover have "head_ready ?b i ?ex" unfolding ex' head_ready_def using i room ex by (simp add: head_ready_def)
  moreover have "bare ?d = bare d" by (simp add: bare_def)
  ultimately show ?thesis unfolding inserts_def cs by (intro exI [of _ ?ex] exI [of _ ?d]) simp
qed

lemma insert_tokens_inserts:
  assumes env: "fuzz env = (\<lambda>_. f)" and t: "\<forall>t \<in> set toks. length t \<le> MAX_DICT_FILE" and i: "i \<le> length (out_buf d)"
    and ex: "head_ready (out_buf d) i ex"
  shows "inserts f (head_ready (out_buf d) i) (length toks) (insert_cases toks (out_buf d) i) (foldm (insert_token env i) toks) ex d"
  using t i ex
proof (induction toks arbitrary: ex d)
  case Nil
  then show ?case by (simp add: inserts_def insert_cases_def)
next
  case (Cons t ts)
  have "inserts f (head_ready (out_buf d) i) (1 + length ts) (insert_cases [t] (out_buf d) i @ insert_cases ts (out_buf d) i)
      (\<lambda>x. bnd (insert_token env i t x) (foldm (insert_token env i) ts)) ex d"
  proof (rule inserts_bnd [OF insert_token_inserts [OF env _ Cons.prems(2,3)]])
    show "length t \<le> MAX_DICT_FILE" using Cons.prems(1) by simp
    fix ex1 and d1 :: det_state assume "head_ready (out_buf d) i ex1" "out_buf d1 = out_buf d"
    then show "inserts f (head_ready (out_buf d) i) (length ts) (insert_cases ts (out_buf d) i) (foldm (insert_token env i) ts) ex1 d1"
      using Cons.IH [of d1 ex1] Cons.prems(1,2) by simp
  qed
  moreover have "insert_cases [t] (out_buf d) i @ insert_cases ts (out_buf d) i = insert_cases (t # ts) (out_buf d) i"
    by (simp add: insert_cases_def)
  ultimately show ?case by (subst inserts_cong [where h = "\<lambda>x. bnd (insert_token env i t x) (foldm (insert_token env i) ts)"]) simp_all
qed

lemma insert_pos_inserts:
  assumes env: "fuzz env = (\<lambda>_. f)" and t: "\<forall>t \<in> set toks. length t \<le> MAX_DICT_FILE" and i: "i \<le> length (out_buf d)"
    and ex: "head_ready (out_buf d) i ex" and slack: "i < length (out_buf d @ slack)"
  shows "inserts f (\<lambda>ex'. i < length (out_buf d) \<longrightarrow> head_ready (out_buf d) (Suc i) ex') (length toks)
    (insert_cases toks (out_buf d) i) (insert_pos env toks slack i) ex d"
proof -
  let ?d = "d\<lparr>stage_cur_byte := of_nat i\<rparr>" and ?b = "out_buf d" and ?c = "(out_buf d @ slack) ! i"
  let ?cs = "insert_cases toks ?b i"
  have "i \<le> length (out_buf ?d)" "head_ready (out_buf ?d) i ex" using i ex by simp_all
  from insert_tokens_inserts [OF env t this] obtain ex1 d1 where
    1: "\<And>s. foldm (insert_token env i) toks (ex, ?d, s) = bnd (run_list f ?cs s) (\<lambda>s'. Inr (ex1, d1, s'))" "head_ready ?b i ex1"
      "out_buf d1 = ?b" "bare d1 = bare ?d" "stage_cur d1 = stage_cur d + of_nat (length ?cs)"
      "stage_max d1 = stage_max d - of_nat (length toks) + of_nat (length ?cs)"
    unfolding inserts_def by auto
  have len: "i < length ex1" using 1(2) i by (simp add: head_ready_def MAX_DICT_FILE_def)
  have "insert_pos env toks slack i (ex, d, s) = bnd (run_list f ?cs s) (\<lambda>s'. Inr (ex1[i := ?c], d1, s'))" for s
    using slack len by (cases "run_list f ?cs s") (simp_all add: insert_pos_def 1(1,3) rd_def wr_def)
  moreover have "i < length ?b \<longrightarrow> head_ready ?b (Suc i) (ex1[i := ?c])"
    using 1(2) len by (simp add: head_ready_def take_Suc_conv_app_nth nth_append)
  moreover have "bare d1 = bare d" using 1(4) by (simp add: bare_def)
  ultimately show ?thesis
    unfolding inserts_def using 1(3,5,6) by (intro exI [of _ "ex1[i := ?c]"] exI [of _ d1]) simp
qed

lemma foldm_upto: "foldm g [0..<Suc n] = (\<lambda>x. bnd (foldm g [0..<n] x) (g n))"
  by (rule ext) (rule foldm_upt_Suc)

lemma insert_offsets:
  assumes env: "fuzz env = (\<lambda>_. f)" and t: "\<forall>t \<in> set toks. length t \<le> MAX_DICT_FILE" and n: "n \<le> length (out_buf d)"
    and ex: "length (out_buf d) + MAX_DICT_FILE \<le> length ex"
  shows "inserts f (head_ready (out_buf d) n) (length toks * n) (concat (map (insert_cases toks (out_buf d)) [0..<n]))
    (foldm (insert_pos env toks slack) [0..<n]) ex d"
  using n
proof (induction n)
  case 0
  then show ?case using ex by (auto simp: inserts_def head_ready_def)
next
  case (Suc n)
  have "inserts f (head_ready (out_buf d) (Suc n)) (length toks * n + length toks)
      (concat (map (insert_cases toks (out_buf d)) [0..<n]) @ insert_cases toks (out_buf d) n)
      (\<lambda>x. bnd (foldm (insert_pos env toks slack) [0..<n] x) (insert_pos env toks slack n)) ex d"
  proof (rule inserts_bnd [OF Suc.IH])
    show "n \<le> length (out_buf d)" using Suc.prems by simp
    fix ex1 and d1 :: det_state assume "head_ready (out_buf d) n ex1" "out_buf d1 = out_buf d"
    then show "inserts f (head_ready (out_buf d) (Suc n)) (length toks) (insert_cases toks (out_buf d) n) (insert_pos env toks slack n) ex1 d1"
      using insert_pos_inserts [OF env t, of n d1 ex1 slack] Suc.prems by simp
  qed
  then show ?case by (simp only: foldm_upto) (simp add: algebra_simps)
qed

lemma insert_stage_split:
  "insert_stage env k toks (Some ex) slack (d, s) =
     bnd (bnd (foldm (insert_pos env toks slack) [0 ..< length (out_buf d)]
         (ex, d\<lparr>stage_cur := 0, stage_max := of_nat (length toks) * (buf_len d + 1), orig_hit_cnt := new_hit_cnt d\<rparr>, s))
       (insert_pos env toks slack (length (out_buf d)))) (\<lambda>(_, d2, s2). end_stage env k (d2, s2))"
proof -
  have "length (out_buf d) + 1 = Suc (length (out_buf d))" by simp
  then show ?thesis by (simp only: insert_stage_def prod.case Let_def option.case foldm_upto)
qed

lemma insert_stage_runs:
  assumes env: "fuzz env = (\<lambda>_. f)" and t: "\<forall>t \<in> set toks. length t \<le> MAX_DICT_FILE"
    and ex: "length (out_buf d) + MAX_DICT_FILE \<le> length ex" and slack: "slack \<noteq> []"
  shows "stage_spec env f k (concat (map (insert_cases toks (out_buf d)) [0 ..< length (out_buf d) + 1])) (new_hit_cnt d) d s
      (insert_stage env k toks (Some ex) slack (d, s))"
proof -
  let ?b = "out_buf d" and ?n = "length (out_buf d)"
  let ?d = "d\<lparr>stage_cur := 0, stage_max := of_nat (length toks) * (buf_len d + 1), orig_hit_cnt := new_hit_cnt d\<rparr>"
  let ?cs = "concat (map (insert_cases toks ?b) [0..<?n])" and ?last = "insert_cases toks ?b ?n"
  have all: "concat (map (insert_cases toks ?b) [0 ..< ?n + 1]) = ?cs @ ?last" by simp
  have "inserts f (\<lambda>_. True) (length toks * ?n + length toks) (?cs @ ?last)
      (\<lambda>x. bnd (foldm (insert_pos env toks slack) [0..<?n] x) (insert_pos env toks slack ?n)) ex ?d"
  proof (rule inserts_bnd)
    show "inserts f (head_ready ?b ?n) (length toks * ?n) ?cs (foldm (insert_pos env toks slack) [0..<?n]) ex ?d"
      using insert_offsets [OF env t, of ?n ?d ex slack] ex by simp
    fix ex1 and d1 :: det_state assume "head_ready ?b ?n ex1" "out_buf d1 = out_buf ?d"
    then show "inserts f (\<lambda>_. True) (length toks) ?last (insert_pos env toks slack ?n) ex1 d1"
      using insert_pos_inserts [OF env t, of ?n d1 ex1 slack] slack by (simp add: inserts_def)
  qed
  then obtain ex2 d2 where 2: "\<And>s. bnd (foldm (insert_pos env toks slack) [0..<?n] (ex, ?d, s)) (insert_pos env toks slack ?n) =
      bnd (run_list f (?cs @ ?last) s) (\<lambda>s'. Inr (ex2, d2, s'))" "out_buf d2 = ?b" "bare d2 = bare ?d"
    "stage_cur d2 = of_nat (length (?cs @ ?last))" "stage_max d2 = of_nat (length (?cs @ ?last))"
    unfolding inserts_def by (auto simp: algebra_simps)
  show ?thesis
    unfolding insert_stage_split all 2(1) using 2(2,4,5) bare_fields [OF 2(3)]
    by (cases "run_list f (?cs @ ?last) s") (simp_all add: stage_spec_def end_stage_def Let_def)
qed

lemma insert_stage_reads_behind:
  assumes env: "fuzz env = (\<lambda>_. f)" and t: "\<forall>t \<in> set toks. length t \<le> MAX_DICT_FILE"
    and ex: "length (out_buf d) + MAX_DICT_FILE \<le> length ex"
  shows "insert_stage env k toks (Some ex) [] (d, s) =
    bnd (run_list f (concat (map (insert_cases toks (out_buf d)) [0 ..< length (out_buf d) + 1])) s) (\<lambda>_. Inl (Crash Oob))"
proof -
  let ?b = "out_buf d" and ?n = "length (out_buf d)"
  let ?d = "d\<lparr>stage_cur := 0, stage_max := of_nat (length toks) * (buf_len d + 1), orig_hit_cnt := new_hit_cnt d\<rparr>"
  let ?cs = "concat (map (insert_cases toks ?b) [0..<?n])" and ?last = "insert_cases toks ?b ?n"
  obtain ex1 d1 where 1: "\<And>s. foldm (insert_pos env toks []) [0..<?n] (ex, ?d, s) = bnd (run_list f ?cs s) (\<lambda>s'. Inr (ex1, d1, s'))"
    "head_ready ?b ?n ex1" "out_buf d1 = ?b"
    using insert_offsets [OF env t, of ?n ?d ex "[]"] ex unfolding inserts_def by auto
  let ?d1 = "d1\<lparr>stage_cur_byte := of_nat ?n\<rparr>"
  obtain ex2 d2 where 2: "\<And>s. foldm (insert_token env ?n) toks (ex1, ?d1, s) = bnd (run_list f ?last s) (\<lambda>s'. Inr (ex2, d2, s'))"
    "out_buf d2 = ?b"
    using insert_tokens_inserts [OF env t, of ?n ?d1 ex1] 1(2,3) unfolding inserts_def by auto
  have "insert_pos env toks [] ?n (ex1, d1, s) = bnd (run_list f ?last s) (\<lambda>_. Inl (Crash Oob))" for s
    by (cases "run_list f ?last s") (simp_all add: insert_pos_def 2 rd_def)
  then show ?thesis
    unfolding insert_stage_split 1(1) by (cases "run_list f ?cs s") (simp_all add: run_list_append bnd_def split: sum.splits)
qed

text \<open>C36. The insertion stages execute every token at every offset from 0 to the length inclusive, as long as
  the result fits \<open>MAX_FILE\<close>. They read one byte behind the input: when the allocation ends with the
  input, the last iteration is undefined behaviour, after all executions.\<close>

theorem insert_stages_refine:
  assumes env: "fuzz env = (\<lambda>_. f)" and ex: "length (out_buf d) + MAX_DICT_FILE \<le> length ex"
    and toks: "\<forall>t \<in> set toks. length t \<le> MAX_DICT_FILE" and autos: "auto_ok autos"
  shows "(slack \<noteq> [] \<longrightarrow>
      stage_spec env f 13 (concat (map (insert_cases toks (out_buf d)) [0 ..< length (out_buf d) + 1])) (new_hit_cnt d) d s
        (user_insert_stage env toks (Some ex) slack (d, s)) \<and>
      stage_spec env f 15 (concat (map (insert_cases (map ax_data autos) (out_buf d)) [0 ..< length (out_buf d) + 1])) (new_hit_cnt d) d s
        (auto_insert_stage env autos (Some ex) slack (d, s))) \<and>
    (slack = [] \<longrightarrow> user_insert_stage env toks (Some ex) slack (d, s) =
      bnd (run_list f (concat (map (insert_cases toks (out_buf d)) [0 ..< length (out_buf d) + 1])) s) (\<lambda>_. Inl (Crash Oob)))"
proof -
  have "\<forall>t \<in> set (map ax_data autos). length t \<le> MAX_DICT_FILE"
    using autos by (auto simp: auto_ok_def token_ok_def MAX_AUTO_LEN_def MAX_DICT_FILE_def)
  then show ?thesis
    unfolding user_insert_stage_def auto_insert_stage_def
    using insert_stage_runs [OF env toks ex] insert_stage_runs [OF env _ ex] insert_stage_reads_behind [OF env toks ex] by blast
qed

section \<open>Instances\<close>

abbreviation sample_auto :: "auto_extra list" where
  "sample_auto \<equiv> [\<lparr>ax_data = [0x61, 0x62, 0x63], ax_hit = 0\<rparr>]"

abbreviation count_runs :: "bytes \<Rightarrow> nat \<Rightarrow> bool \<times> nat" where
  "count_runs \<equiv> \<lambda>b n. (False, Suc n)"


theorem insert_stages_refine_witness:
  "stage_spec sample_env count_runs 13 (concat (map (insert_cases [[7]] (out_buf (sample_det [0, 9]))) [0 ..< length (out_buf (sample_det [0, 9])) + 1]))
      (new_hit_cnt (sample_det [0, 9])) (sample_det [0, 9]) 0
      (user_insert_stage sample_env [[7]] (Some (replicate 200 0)) [0] (sample_det [0, 9], 0)) \<and>
    user_insert_stage sample_env [[7]] (Some (replicate 200 0)) [] (sample_det [0, 9], 0) =
      bnd (run_list count_runs (concat (map (insert_cases [[7]] (out_buf (sample_det [0, 9]))) [0 ..< length (out_buf (sample_det [0, 9])) + 1])) 0)
        (\<lambda>_. Inl (Crash Oob))"
proof -
  have "length (out_buf (sample_det [0, 9])) + MAX_DICT_FILE \<le> length (replicate 200 (0 :: u8))" "\<forall>t \<in> set [[7 :: u8]]. length t \<le> MAX_DICT_FILE"
    by (simp_all add: MAX_DICT_FILE_def)
  from insert_stages_refine [OF sample_simps(1) this auto_example_ok] show ?thesis by blast
qed

end
