(* ===== verification/Crash_Site.thy ===== *)
theory Crash_Site
  imports Queue Dict
begin

text \<open>
  Where a target crashed (src/afl-fuzz-bitmap.c): \<open>find_crash_site\<close> reads the call stack the
  runtime of the target wrote (instrumentation/afl-igorfuzz-rt.o.c), \<open>same_crash_site\<close> compares it
  with the one remembered and \<open>write_crash_detail\<close> reports an entry. The symbolizer is a library
  the program links to: a function that says for a module and an offset whether there is a symbol
  at all and what its name is, if it is known.
\<close>

section \<open>State\<close>

record afl_crash = afl_extras +
  crash_mode :: u8

definition ascii :: "string \<Rightarrow> bytes" where
  "ascii s = map of_char s"

definition NEW_CRASH_MODE_LV1 :: u8 where "NEW_CRASH_MODE_LV1 = 1"
definition NEW_CRASH_MODE_LV2 :: u8 where "NEW_CRASH_MODE_LV2 = 2"
definition NEW_CRASH_MODE_LV3 :: u8 where "NEW_CRASH_MODE_LV3 = 3"
definition CALLSTACK_FORMAT_PATH :: bytes where "CALLSTACK_FORMAT_PATH = ascii ''@PATH''"
definition CALLSTACK_FORMAT_ADDR :: bytes where "CALLSTACK_FORMAT_ADDR = ascii ''@ADDR''"
definition CALLSTACK_MIN_LINELEN :: nat where "CALLSTACK_MIN_LINELEN = 16"
definition CALLSTACK_MAX_LINELEN :: nat where "CALLSTACK_MAX_LINELEN = 2048"
definition CALLSTACK_NUL_TEXT :: bytes where "CALLSTACK_NUL_TEXT = ascii ''null''"

definition sym_blacklist_function :: "bytes list" where
  "sym_blacklist_function = map ascii [''__asan'', ''__lsan'', ''__sanitizer'', ''__interceptor'',
     ''__interception'', ''__ubsan'', ''__sancov'', ''__hwasan'', ''__dfsan'', ''__dfsw'']"

type_synonym symbolizer = "bytes \<Rightarrow> u32 \<Rightarrow> bool \<times> bytes option"

text \<open>Symbol, module and offset, of which the first two can be null.\<close>

type_synonym site = "bytes option \<times> bytes option \<times> u32"

definition no_site :: site where "no_site = (None, None, 0)"

section \<open>Strings\<close>

text \<open>\<open>strstr\<close>, as the position of the first match; \<open>strrchr\<close> for a slash, or the whole string.\<close>

fun strpos :: "bytes \<Rightarrow> bytes \<Rightarrow> nat option" where
  "strpos [] n = (if n = [] then Some 0 else None)"
| "strpos (c # s) n = (if take (length n) (c # s) = n then Some 0 else map_option Suc (strpos s n))"

definition from_slash :: "bytes \<Rightarrow> bytes" where
  "from_slash p = (if 0x2F \<in> set p then 0x2F # rev (takeWhile (\<lambda>c. c \<noteq> 0x2F) (rev p)) else p)"

text \<open>\<open>strtoul\<close> with base 16.\<close>

definition hex_num :: "bytes \<Rightarrow> nat" where
  "hex_num s = foldl (\<lambda>n c. 16 * n + unat (hexval c)) 0 s"

definition strtoul16 :: "bytes \<Rightarrow> u64" where
  "strtoul16 s =
     (let t = dropWhile isspace s;
          neg = (hd0 t = 0x2D);
          u = (if hd0 t = 0x2D \<or> hd0 t = 0x2B then tl t else t);
          d = (if 3 \<le> length u \<and> u ! 0 = 0x30 \<and> (u ! 1 = 0x78 \<or> u ! 1 = 0x58) \<and> isxdigit (u ! 2) then drop 2 u else u);
          n = hex_num (takeWhile isxdigit d)
      in if n \<ge> 2 ^ 64 then - 1 else if neg then - of_nat n else of_nat n)"

text \<open>\<open>printf\<close> with \<open>%x\<close>\<close>

fun hex_of :: "nat \<Rightarrow> bytes" where
  "hex_of n = (let d = n mod 16; c = of_nat (if d < 10 then 0x30 + d else 0x57 + d)
     in if n < 16 then [c] else hex_of (n div 16) @ [c])"

declare hex_of.simps [simp del]

section \<open>The call stack\<close>

text \<open>\<open>__asan_on_error\<close>: what the sanitizer prints replaces the content of the file.\<close>

definition asan_on_error :: "string option \<Rightarrow> bytes \<Rightarrow> world \<Rightarrow> world" where
  "asan_on_error fpath report w =
     (case fpath of None \<Rightarrow> w
      | Some p \<Rightarrow> if deny w p then w else w\<lparr>files := (files w)(p := Some report)\<rparr>)"

text \<open>The lines \<open>fgets\<close> returns, as strings.\<close>

lemma stack_rest: "(l, r) = fgets (CALLSTACK_MAX_LINELEN - Suc 0) (c # s) \<Longrightarrow> length r < Suc (length s)"
  by (rule fgets_progress [of "CALLSTACK_MAX_LINELEN - Suc 0" c s l]) (simp_all add: CALLSTACK_MAX_LINELEN_def)

function stack_lines :: "bytes \<Rightarrow> bytes list" where
  "stack_lines [] = []"
| "stack_lines (c # s) =
     (let (l, r) = fgets (CALLSTACK_MAX_LINELEN - 1) (c # s) in takeWhile (\<lambda>b. b \<noteq> 0) l # stack_lines r)"
  by pat_completeness auto
termination
  by (relation "measure length") (use stack_rest in auto)

text \<open>The path and the text of the offset in a line.\<close>

definition parse_frame :: "bytes \<Rightarrow> (bytes \<times> bytes) option" where
  "parse_frame line =
     (case strpos line CALLSTACK_FORMAT_PATH of
        None \<Rightarrow> None
      | Some i \<Rightarrow>
          (let path = i + length CALLSTACK_FORMAT_PATH in
           case strpos line CALLSTACK_FORMAT_ADDR of
             None \<Rightarrow> None
           | Some a \<Rightarrow>
               if path \<ge> a then None
               else Some (take (a - path) (drop path line), drop (a + length CALLSTACK_FORMAT_ADDR) line)))"

definition func_blocked :: "bytes \<Rightarrow> bool" where
  "func_blocked func \<longleftrightarrow> list_ex (\<lambda>b. strpos func b \<noteq> None) sym_blacklist_function"

text \<open>What a stack frame does to the crash site found so far.\<close>

definition frame_step :: "symbolizer \<Rightarrow> bytes \<Rightarrow> bytes \<Rightarrow> u32 \<Rightarrow> site \<Rightarrow> site" where
  "frame_step symb target path addr_val = (\<lambda>(symbol, module, offset).
     if from_slash target \<noteq> from_slash path then no_site
     else let (n_sym, func) = symb path addr_val in
       if \<not> n_sym then (symbol, module, offset)
       else if (case func of Some f \<Rightarrow> func_blocked f | None \<Rightarrow> False) then no_site
       else if module = None then (func, Some path, addr_val)
       else (symbol, module, offset))"

definition line_step :: "symbolizer \<Rightarrow> bytes \<Rightarrow> site \<Rightarrow> bytes \<Rightarrow> site" where
  "line_step symb target s line =
     (if CALLSTACK_MIN_LINELEN < length line \<and> last line = 0x0A then
        (case parse_frame (butlast line) of
           None \<Rightarrow> s
         | Some (path, addr_str) \<Rightarrow> frame_step symb target path (ucast (strtoul16 addr_str)) s)
      else s)"

text \<open>\<open>rewind\<close> and the newline: the file is not truncated.\<close>

definition flush_stack :: "bytes \<Rightarrow> bytes" where
  "flush_stack data = 0x0A # tl data"

definition find_crash_site :: "symbolizer \<Rightarrow> afl_forkserver \<Rightarrow> bool \<Rightarrow> world \<Rightarrow> site \<times> world" where
  "find_crash_site symb fs flush w =
     (case call_stack_file fs of
        None \<Rightarrow> (no_site, w)
      | Some p \<Rightarrow>
          (case open_read p w of
             None \<Rightarrow> (no_site, w)
           | Some data \<Rightarrow>
               (foldl (line_step symb (target_path fs)) no_site (stack_lines data),
                if flush then w\<lparr>files := (files w)(p := Some (flush_stack data))\<rparr> else w)))"

section \<open>Details\<close>

definition readme :: "string \<Rightarrow> string" where
  "readme out = out @ ''/crashes/README.txt''"

definition detail_line :: "('a) afl_crash_scheme \<Rightarrow> queue_entry \<Rightarrow> bytes" where
  "detail_line afl e =
     ascii ''@FILE:'' @ ascii (fname e) @ ascii ''; @SIZE:'' @ hex_of (unat (bitmap_size e)) @
     ascii ''; @HITS:'' @ hex_of (unat (actual_counts (fsrv afl))) @ ascii ''; '' @
     (if crash_mode afl \<ge> NEW_CRASH_MODE_LV1 then
        (case crash_module (fsrv afl) of
           Some m \<Rightarrow> ascii ''@ADDR:'' @ m @ ascii ''+0x'' @ hex_of (unat (crash_offset (fsrv afl))) @ ascii ''; ''
         | None \<Rightarrow> ascii ''@ADDR:'' @ CALLSTACK_NUL_TEXT @ ascii ''; '')
      else []) @
     (if crash_mode afl \<ge> NEW_CRASH_MODE_LV2 then
        ascii ''@FUNC:'' @ (case crash_symbol (fsrv afl) of Some s \<Rightarrow> s | None \<Rightarrow> CALLSTACK_NUL_TEXT) @ ascii ''; ''
      else []) @ [0x0A]"

text \<open>\<open>fopen\<close> with mode \<open>a\<close>: the file is created if it does not exist.\<close>

definition write_crash_detail :: "('a) afl_crash_scheme \<Rightarrow> nat \<Rightarrow> world \<Rightarrow> world res" where
  "write_crash_detail afl q w =
     bnd (sprintf_path (readme (out_dir afl))) (\<lambda>fn.
     if deny w fn then Inl (PFatal (''Failed to open '' @ fn))
     else bnd (q_get afl q) (\<lambda>e.
       Inr (w\<lparr>files := (files w)(fn :=
              Some ((case files w fn of None \<Rightarrow> [] | Some b \<Rightarrow> b) @ detail_line afl e))\<rparr>)))"

section \<open>Comparing crash sites\<close>

definition fsrv_site :: "afl_forkserver \<Rightarrow> site" where
  "fsrv_site fs = (crash_symbol fs, crash_module fs, crash_offset fs)"

definition set_site :: "site \<Rightarrow> ('a) afl_crash_scheme \<Rightarrow> ('a) afl_crash_scheme" where
  "set_site = (\<lambda>(s, m, n) afl. afl\<lparr>fsrv := (fsrv afl)\<lparr>crash_symbol := s, crash_module := m, crash_offset := n\<rparr>\<rparr>)"

definition discard_entry :: "nat \<Rightarrow> ('a) afl_crash_scheme \<Rightarrow> ('a) afl_crash_scheme res" where
  "discard_entry q afl =
     bnd (q_get afl q) (\<lambda>e.
     let a1 = q_upd q (\<lambda>e. e\<lparr>disabled := True, perf_score := 0\<rparr>) afl
     in Inr (if \<not> was_fuzzed e
             then (q_upd q (\<lambda>e. e\<lparr>was_fuzzed := True\<rparr>) a1)
                    \<lparr>pending_not_fuzzed := pending_not_fuzzed afl - 1, active_items := active_items afl - 1\<rparr>
             else a1))"

definition same_crash_site ::
  "symbolizer \<Rightarrow> ('a) afl_crash_scheme \<Rightarrow> nat option \<Rightarrow> bool \<Rightarrow> bool \<Rightarrow> world
     \<Rightarrow> (bool \<times> ('a) afl_crash_scheme \<times> world) res" where
  "same_crash_site symb afl q detail discard w =
     (let tmp = fsrv_site (fsrv afl);
          (new, w1) = find_crash_site symb (fsrv afl) True w;
          a1 = set_site new afl
      in if snd tmp = snd new then Inr (True, a1, w1)
         else case q of
             None \<Rightarrow> Inr (False, set_site tmp a1, w1)
           | Some e \<Rightarrow>
               bnd (if detail then write_crash_detail a1 e w1 else Inr w1) (\<lambda>w2.
               bnd (if discard then discard_entry e a1 else Inr a1) (\<lambda>a2.
               Inr (False, set_site tmp a2, w2))))"

section \<open>Numbers and strings\<close>

lemma ascii_append [simp]: "ascii (s @ t) = ascii s @ ascii t"
  by (simp add: ascii_def)

lemma length_ascii [simp]: "length (ascii s) = length s"
  by (simp add: ascii_def)

definition hex_digit :: "nat \<Rightarrow> u8" where
  "hex_digit d = of_nat (if d < 10 then 0x30 + d else 0x57 + d)"

lemma hex_of_rec: "hex_of n = (if n < 16 then [hex_digit n] else hex_of (n div 16) @ [hex_digit (n mod 16)])"
  by (subst hex_of.simps) (simp add: hex_digit_def Let_def)

lemma hex_digit_facts:
  assumes "d < 16"
  shows "isxdigit (hex_digit d)" and "unat (hexval (hex_digit d)) = d" and "hex_digit d \<notin> {0, 0x0A, 0x40, 0x78, 0x58}"
proof -
  have "\<forall>d < 16. isxdigit (hex_digit d) \<and> unat (hexval (hex_digit d)) = d \<and>
      hex_digit d \<noteq> 0 \<and> hex_digit d \<noteq> 0x0A \<and> hex_digit d \<noteq> 0x40 \<and> hex_digit d \<noteq> 0x78 \<and> hex_digit d \<noteq> 0x58"
    by code_simp
  then show "isxdigit (hex_digit d)" and "unat (hexval (hex_digit d)) = d" and "hex_digit d \<notin> {0, 0x0A, 0x40, 0x78, 0x58}"
    using assms by blast+
qed

lemma hex_num_snoc [simp]: "hex_num (s @ [c]) = 16 * hex_num s + unat (hexval c)"
  by (simp add: hex_num_def)

lemma hex_num_of [simp]: "hex_num (hex_of n) = n"
proof (induction n rule: less_induct)
  case (less n)
  then show ?case
    using hex_num_snoc [of "[]"]
    by (subst hex_of_rec) (auto simp: hex_digit_facts hex_num_def [of "[]"])
qed

lemma hex_of_digits: "c \<in> set (hex_of n) \<Longrightarrow> \<exists>d < 16. c = hex_digit d"
proof (induction n rule: less_induct)
  case (less n)
  have "c = hex_digit (n mod 16) \<or> \<not> n < 16 \<and> c \<in> set (hex_of (n div 16))"
    using less.prems hex_of_rec [of n] by (auto split: if_splits)
  then show ?case
  proof
    assume "c = hex_digit (n mod 16)"
    then show ?thesis
      by (intro exI [of _ "n mod 16"]) simp
  next
    assume "\<not> n < 16 \<and> c \<in> set (hex_of (n div 16))"
    then show ?thesis
      by (intro less.IH [of "n div 16"]) simp_all
  qed
qed

lemma hex_of_nonempty [simp]: "hex_of n \<noteq> []"
  by (subst hex_of_rec) simp

lemma length_hex_of: "n < 16 ^ k \<Longrightarrow> 0 < k \<Longrightarrow> length (hex_of n) \<le> k"
proof (induction k arbitrary: n)
  case (Suc k)
  show ?case
  proof (cases "n < 16")
    case False
    then have "k \<noteq> 0" and "n div 16 < 16 ^ k"
      using Suc.prems by (cases k; simp add: less_mult_imp_div_less)+
    then show ?thesis
      using Suc.IH [of "n div 16"] False by (subst hex_of_rec) simp
  qed (simp add: hex_of_rec)
qed simp

lemma strtoul16_0x:
  assumes "c # cs = takeWhile isxdigit s" "hex_num (c # cs) < 2 ^ 64"
  shows "strtoul16 (0x30 # 0x78 # s) = of_nat (hex_num (c # cs))"
proof -
  obtain t where s: "s = c # t" and c: "isxdigit c"
    using assms(1) by (cases s) (auto split: if_splits)
  have "isspace 0x30 = False"
    by (simp add: isspace_def)
  then show ?thesis
    using assms(2) c by (simp add: strtoul16_def s hd0_def Let_def assms(1) [unfolded s])
qed

lemma strtoul16_hex: "strtoul16 (ascii ''0x'' @ hex_of (unat (n :: u32))) = ucast n"
proof -
  have x: "isxdigit c" if "c \<in> set (hex_of (unat n))" for c
    using hex_of_digits [OF that] hex_digit_facts(1) by auto
  have all: "takeWhile isxdigit (hex_of (unat n)) = hex_of (unat n)"
    by (simp add: x)
  obtain c cs where h: "hex_of (unat n) = c # cs"
    by (cases "hex_of (unat n)") auto
  have "hex_num (c # cs) = unat n"
    by (simp flip: h)
  moreover have "unat n < 2 ^ 64"
    using unat_lt [of n] by simp
  moreover have "ascii ''0x'' = [0x30, 0x78]"
    by (simp add: ascii_def)
  ultimately show ?thesis
    using strtoul16_0x [of c cs "hex_of (unat n)"] all h by (simp add: of_nat_unat)
qed
section \<open>Reports\<close>

text \<open>
  A frame as the sanitizer prints it in the format \<open>@PATH%m@ADDR%o\<close> the fuzzer asks for, of a
  module whose path fits a line and contains no marker.
\<close>

type_synonym frame = "bytes \<times> u32"

definition render_frame :: "frame \<Rightarrow> bytes" where
  "render_frame = (\<lambda>(p, n). CALLSTACK_FORMAT_PATH @ p @ CALLSTACK_FORMAT_ADDR @
     ascii ''0x'' @ hex_of (unat n) @ [0x0A])"

definition plain_path :: "bytes \<Rightarrow> bool" where
  "plain_path p \<longleftrightarrow> 3 \<le> length p \<and> length p \<le> 2000 \<and> 0 \<notin> set p \<and> 0x0A \<notin> set p \<and> 0x40 \<notin> set p"

abbreviation render :: "frame list \<Rightarrow> bytes" where
  "render fs \<equiv> concat (map render_frame fs)"

text \<open>
  The crash site a report means: frames up to a frame of another module or of the sanitizer are
  those of the error handling; behind the last of them, the first frame with a symbol.
\<close>

definition handles_error :: "symbolizer \<Rightarrow> bytes \<Rightarrow> frame \<Rightarrow> bool" where
  "handles_error symb target = (\<lambda>(p, n). from_slash target \<noteq> from_slash p \<or>
     fst (symb p n) \<and> (case snd (symb p n) of Some f \<Rightarrow> func_blocked f | None \<Rightarrow> False))"

definition crash_frame :: "symbolizer \<Rightarrow> bytes \<Rightarrow> frame list \<Rightarrow> frame option" where
  "crash_frame symb target fs =
     find (\<lambda>(p, n). fst (symb p n)) (rev (takeWhile (\<lambda>f. \<not> handles_error symb target f) (rev fs)))"

definition site_of :: "symbolizer \<Rightarrow> frame option \<Rightarrow> site" where
  "site_of symb f = (case f of None \<Rightarrow> no_site | Some (p, n) \<Rightarrow> (snd (symb p n), Some p, n))"

lemma find_append: "find P (xs @ ys) = (case find P xs of None \<Rightarrow> find P ys | Some x \<Rightarrow> Some x)"
  by (induction xs) auto

definition next_site :: "symbolizer \<Rightarrow> bytes \<Rightarrow> frame \<Rightarrow> frame option \<Rightarrow> frame option" where
  "next_site symb target f g =
     (if handles_error symb target f then None
      else if g = None then if fst (symb (fst f) (snd f)) then Some f else None else g)"

lemma crash_frame_snoc:
  "crash_frame symb target (fs @ [f]) = next_site symb target f (crash_frame symb target fs)"
  by (cases f) (auto simp: crash_frame_def next_site_def find_append split: option.splits)

lemma frame_step_site: "frame_step symb target p n (site_of symb g) = site_of symb (next_site symb target (p, n) g)"
  by (cases g) (auto simp: frame_step_def next_site_def handles_error_def site_of_def no_site_def
      case_prod_beta Let_def split: option.splits)

lemma frame_steps:
  "foldl (\<lambda>s (p, n). frame_step symb target p n s) no_site fs = site_of symb (crash_frame symb target fs)"
proof (induction fs rule: rev_induct)
  case Nil
  then show ?case
    by (simp add: crash_frame_def site_of_def)
next
  case (snoc f fs)
  then show ?case
    by (cases f) (simp add: crash_frame_snoc frame_step_site)
qed

text \<open>Parsing undoes printing.\<close>

lemma strpos_here: "take (length n) s = n \<Longrightarrow> strpos s n = Some 0"
  by (cases s) auto

lemma strpos_skip: "a \<notin> set p \<Longrightarrow> strpos (p @ s) (a # n) = map_option (\<lambda>i. i + length p) (strpos s (a # n))"
  by (induction p) (auto simp: option.map_comp comp_def option.map_ident)

lemma parse_render:
  assumes "0x40 \<notin> set p" "p \<noteq> []"
  shows "parse_frame (CALLSTACK_FORMAT_PATH @ p @ CALLSTACK_FORMAT_ADDR @ s) = Some (p, s)"
proof -
  have lits: "CALLSTACK_FORMAT_PATH = [0x40, 0x50, 0x41, 0x54, 0x48]"
      "CALLSTACK_FORMAT_ADDR = [0x40, 0x41, 0x44, 0x44, 0x52]"
    by (simp_all add: CALLSTACK_FORMAT_PATH_def CALLSTACK_FORMAT_ADDR_def ascii_def)
  have "strpos (p @ CALLSTACK_FORMAT_ADDR @ s) [0x40, 0x41, 0x44, 0x44, 0x52] = Some (length p)"
    using strpos_skip [of "0x40" p "CALLSTACK_FORMAT_ADDR @ s" "[0x41, 0x44, 0x44, 0x52]"] assms(1)
    by (simp add: lits)
  then have "strpos ([0x40, 0x50, 0x41, 0x54, 0x48] @ p @ CALLSTACK_FORMAT_ADDR @ s) CALLSTACK_FORMAT_ADDR
      = Some (5 + length p)"
    by (simp add: lits)
  then show ?thesis
    using assms(2) strpos_here [of CALLSTACK_FORMAT_PATH "CALLSTACK_FORMAT_PATH @ p @ CALLSTACK_FORMAT_ADDR @ s"]
    by (simp add: parse_frame_def) (simp add: lits)
qed

lemma hex_of_plain: "c \<in> set (hex_of n) \<Longrightarrow> c \<noteq> 0 \<and> c \<noteq> 0x0A"
  using hex_of_digits [of c n] hex_digit_facts(3) by auto

lemma stack_lines_line:
  assumes "0x0A \<notin> set l" "0 \<notin> set l" "length l < 2047"
  shows "stack_lines (l @ 0x0A # r) = (l @ [0x0A]) # stack_lines r"
proof -
  obtain c cs where cs: "l @ 0x0A # r = c # cs"
    by (cases l) auto
  have "fgets (CALLSTACK_MAX_LINELEN - 1) (c # cs) = (l @ [0x0A], r)"
    using fgets_line [OF assms(1), of 2047 r] assms(3) by (simp add: CALLSTACK_MAX_LINELEN_def flip: cs)
  moreover have "takeWhile (\<lambda>b. b \<noteq> 0) (l @ [0x0A]) = l @ [0x0A]"
    using assms(2) by (auto simp: takeWhile_eq_all_conv)
  ultimately show ?thesis
    unfolding cs by (simp add: Let_def)
qed

lemma render_line:
  fixes n :: u32
  assumes "plain_path p"
  defines "l \<equiv> CALLSTACK_FORMAT_PATH @ p @ CALLSTACK_FORMAT_ADDR @ ascii ''0x'' @ hex_of (unat n)"
  shows "stack_lines (render_frame (p, n) @ r) = (l @ [0x0A]) # stack_lines r"
    and "line_step symb target s (l @ [0x0A]) = frame_step symb target p n s"
proof -
  have len: "length (hex_of (unat n)) \<le> 8" "hex_of (unat n) \<noteq> []"
    using length_hex_of [of "unat n" 8] unat_lt [of n] by simp_all
  have parts: "CALLSTACK_FORMAT_PATH = [0x40, 0x50, 0x41, 0x54, 0x48]"
      "CALLSTACK_FORMAT_ADDR = [0x40, 0x41, 0x44, 0x44, 0x52]" "ascii ''0x'' = [0x30, 0x78]"
    by (simp_all add: CALLSTACK_FORMAT_PATH_def CALLSTACK_FORMAT_ADDR_def ascii_def)
  have "0x0A \<notin> set l" "0 \<notin> set l" "length l < 2047"
    using assms(1) len(1) hex_of_plain [of _ "unat n"] by (auto simp: l_def parts plain_path_def)
  from stack_lines_line [OF this, of r]
  show "stack_lines (render_frame (p, n) @ r) = (l @ [0x0A]) # stack_lines r"
    by (simp add: l_def render_frame_def)
  have "0 < length (hex_of (unat n))"
    using len(2) by simp
  then have "CALLSTACK_MIN_LINELEN < length (l @ [0x0A])"
    using assms(1) by (simp add: l_def parts plain_path_def CALLSTACK_MIN_LINELEN_def del: length_greater_0_conv)
  moreover have "parse_frame l = Some (p, ascii ''0x'' @ hex_of (unat n))"
    unfolding l_def by (rule parse_render) (use assms(1) in \<open>auto simp: plain_path_def\<close>)
  moreover have "ucast (ucast n :: u64) = n"
    by (rule bit_word_eqI) (simp add: bit_simps)
  ultimately show "line_step symb target s (l @ [0x0A]) = frame_step symb target p n s"
    by (simp add: line_step_def strtoul16_hex)
qed

lemma read_report:
  assumes "\<forall>f \<in> set fs. plain_path (fst f)"
  shows "foldl (line_step symb target) s (stack_lines (render fs)) = foldl (\<lambda>s (p, n). frame_step symb target p n s) s fs"
  using assms
proof (induction fs arbitrary: s)
  case (Cons f fs)
  obtain p n where f: "f = (p, n)"
    by (cases f)
  show ?case
    using Cons render_line(1) [of p n "render fs"] render_line(2) [of p symb target s n]
    by (simp add: f)
qed simp

text \<open>The flush spoils the marker of the first line and nothing else.\<close>

lemma strpos_absent: "a \<notin> set s \<Longrightarrow> strpos s (a # n) = None"
  by (induction s) auto

lemma spoilt_line:
  fixes n :: u32
  assumes "plain_path p"
  defines "l \<equiv> tl CALLSTACK_FORMAT_PATH @ p @ CALLSTACK_FORMAT_ADDR @ ascii ''0x'' @ hex_of (unat n)"
  shows "stack_lines (flush_stack (render_frame (p, n) @ r)) = [0x0A] # (l @ [0x0A]) # stack_lines r"
    and "line_step symb target s (l @ [0x0A]) = s"
proof -
  have len: "length (hex_of (unat n)) \<le> 8"
    using length_hex_of [of "unat n" 8] unat_lt [of n] by simp
  have parts: "CALLSTACK_FORMAT_PATH = [0x40, 0x50, 0x41, 0x54, 0x48]"
      "CALLSTACK_FORMAT_ADDR = [0x40, 0x41, 0x44, 0x44, 0x52]" "ascii ''0x'' = [0x30, 0x78]"
    by (simp_all add: CALLSTACK_FORMAT_PATH_def CALLSTACK_FORMAT_ADDR_def ascii_def)
  have "0x0A \<notin> set l" "0 \<notin> set l" "length l < 2047"
    using assms(1) len hex_of_plain [of _ "unat n"] by (auto simp: l_def parts plain_path_def)
  from stack_lines_line [OF this, of r] stack_lines_line [of "[]" "l @ 0x0A # r"]
  show "stack_lines (flush_stack (render_frame (p, n) @ r)) = [0x0A] # (l @ [0x0A]) # stack_lines r"
    by (simp add: l_def render_frame_def flush_stack_def parts)
  have "0x40 \<notin> set (hex_of (unat n))"
    using hex_of_digits [of "0x40" "unat n"] hex_digit_facts(3) by auto
  then have "strpos ([0x40, 0x41, 0x44, 0x44, 0x52, 0x30, 0x78] @ hex_of (unat n)) CALLSTACK_FORMAT_PATH = None"
    using strpos_absent [of "0x40" "[0x41, 0x44, 0x44, 0x52, 0x30, 0x78] @ hex_of (unat n)" "[0x50, 0x41, 0x54, 0x48]"]
    by (simp add: parts)
  then have "strpos l CALLSTACK_FORMAT_PATH = None"
    using strpos_skip [of "0x40" "[0x50, 0x41, 0x54, 0x48] @ p" _ "[0x50, 0x41, 0x54, 0x48]"] assms(1)
    by (simp add: l_def parts plain_path_def)
  then show "line_step symb target s (l @ [0x0A]) = s"
    by (simp add: line_step_def parse_frame_def)
qed

lemma read_flushed:
  assumes "\<forall>f \<in> set (f # fs). plain_path (fst f)"
  shows "foldl (line_step symb target) no_site (stack_lines (flush_stack (render (f # fs))))
    = site_of symb (crash_frame symb target fs)"
proof -
  obtain p n where f: "f = (p, n)"
    by (cases f)
  have "line_step symb target s [0x0A] = s" for s
    by (simp add: line_step_def CALLSTACK_MIN_LINELEN_def)
  then show ?thesis
    using assms spoilt_line(1) [of p n "render fs"] spoilt_line(2) [of p symb target no_site n]
      read_report [of fs symb target no_site] frame_steps [of symb target fs]
    by (simp add: f)
qed

lemma crash_frame_behind:
  assumes "handlers = [] \<or> handles_error symb target (last handlers)"
    and "\<forall>f \<in> set rest. \<not> handles_error symb target f"
  shows "crash_frame symb target (handlers @ rest) = find (\<lambda>(p, n). fst (symb p n)) rest"
proof -
  have "takeWhile (\<lambda>f. \<not> handles_error symb target f) (rev rest @ rev handlers) = rev rest"
    using assms by (cases handlers rule: rev_cases) (auto simp: takeWhile_append)
  then show ?thesis
    by (simp add: crash_frame_def)
qed

lemma crash_frame_Cons:
  assumes "handles_error symb target f" "crash_frame symb target fs \<noteq> None"
  shows "crash_frame symb target (f # fs) = crash_frame symb target fs"
proof (cases "\<forall>g \<in> set fs. \<not> handles_error symb target g")
  case True
  then have "takeWhile (\<lambda>f. \<not> handles_error symb target f) (rev fs) = rev fs"
    by simp
  then show ?thesis
    using crash_frame_behind [of "[f]" symb target fs] crash_frame_behind [of "[]" symb target fs] assms(1) True
    by simp
next
  case False
  then show ?thesis
    by (auto simp: crash_frame_def takeWhile_append)
qed

lemma find_report:
  assumes "call_stack_file fs = Some p" "files w p = Some (render frames)" "\<not> deny w p"
    and "\<forall>f \<in> set frames. plain_path (fst f)"
  shows "find_crash_site symb fs flush w =
    (site_of symb (crash_frame symb (target_path fs) frames),
     if flush then w\<lparr>files := (files w)(p := Some (flush_stack (render frames)))\<rparr> else w)"
  using assms read_report [of frames symb "target_path fs" no_site]
  by (simp add: find_crash_site_def open_read_def frame_steps)

section \<open>Properties\<close>

text \<open>C11. Reading the report of a crash, \<open>find_crash_site\<close> finds exactly the frame the report means:
  behind the last frame of another module or of the sanitizer, the first one with a symbol. The
  report is the text of the frames in the format the fuzzer asks the sanitizer for.\<close>

theorem find_crash_site_correct:
  assumes "call_stack_file fs = Some p" "files w p = Some (render (handlers @ callers))" "\<not> deny w p"
    and "\<forall>f \<in> set (handlers @ callers). plain_path (fst f)"
    and "handlers = [] \<or> handles_error symb (target_path fs) (last handlers)"
    and "\<forall>f \<in> set callers. \<not> handles_error symb (target_path fs) f"
  shows "find_crash_site symb fs flush w =
    (site_of symb (find (\<lambda>(p, n). fst (symb p n)) callers),
     if flush then w\<lparr>files := (files w)(p := Some (flush_stack (render (handlers @ callers))))\<rparr> else w)"
  using find_report [OF assms(1-4)] crash_frame_behind [OF assms(5,6)] by simp

definition crash_fsrv :: afl_forkserver where
  "crash_fsrv = (example_fsrv [])\<lparr>call_stack_file := Some ''s'', target_path := ascii ''/b/tgt''\<rparr>"

definition crash_frames :: "frame list" where
  "crash_frames = [(ascii ''/l/libc'', 16), (ascii ''/b/tgt'', 32), (ascii ''/b/tgt'', 48), (ascii ''/b/tgt'', 64)]"

text \<open>The function at 32 belongs to the sanitizer, the one at 48 is \<open>f\<close>, the rest has no name.\<close>

definition crash_symb :: symbolizer where
  "crash_symb p n = (True, if n = 32 then Some (ascii ''__asan_report'') else if n = 48 then Some (ascii ''f'') else None)"

definition crash_world :: world where
  "crash_world = asan_on_error (Some ''s'') (render crash_frames) empty_world"

lemma crash_world_simps:
  "files crash_world ''s'' = Some (render crash_frames)" "\<not> deny crash_world x"
  "call_stack_file crash_fsrv = Some ''s''" "target_path crash_fsrv = ascii ''/b/tgt''"
  by (simp_all add: crash_world_def asan_on_error_def empty_world_def crash_fsrv_def)

lemma crash_frames_plain: "\<forall>f \<in> set crash_frames. plain_path (fst f)"
  by code_simp

lemma crash_frames_site:
  "crash_frame crash_symb (ascii ''/b/tgt'') crash_frames = Some (ascii ''/b/tgt'', 48)"
  by code_simp

theorem find_crash_site_correct_witness:
  "fst (find_crash_site crash_symb crash_fsrv True crash_world) = (Some (ascii ''f''), Some (ascii ''/b/tgt''), 48)"
proof -
  have "files crash_world ''s'' = Some (render (take 2 crash_frames @ drop 2 crash_frames))"
    "\<forall>f \<in> set (take 2 crash_frames @ drop 2 crash_frames). plain_path (fst f)"
    using crash_world_simps(1) crash_frames_plain by (simp_all only: append_take_drop_id)
  moreover have "handles_error crash_symb (ascii ''/b/tgt'') (last (take 2 crash_frames))"
    "\<forall>f \<in> set (drop 2 crash_frames). \<not> handles_error crash_symb (ascii ''/b/tgt'') f"
    "site_of crash_symb (find (\<lambda>(p, n). fst (crash_symb p n)) (drop 2 crash_frames)) = (Some (ascii ''f''), Some (ascii ''/b/tgt''), 48)"
    by code_simp+
  ultimately show ?thesis
    using find_crash_site_correct [of crash_fsrv "''s''" crash_world "take 2 crash_frames" "drop 2 crash_frames" crash_symb True]
    by (simp only: crash_world_simps fst_conv simp_thms)
qed

text \<open>C26. The flush does not clear the report: until the next report the file still holds all frames
  but the first. When that one belongs to the error handling, as in every report of the
  sanitizer, a crash that writes no report is given the site of the previous one.\<close>

theorem flushed_report_survives:
  assumes "call_stack_file fs = Some p" "\<not> deny w p" "\<forall>g \<in> set (f # frames). plain_path (fst g)"
    and "find_crash_site symb fs True (asan_on_error (Some p) (render (f # frames)) w) = (site, w')"
  shows "fst (find_crash_site symb fs flush w') = site_of symb (crash_frame symb (target_path fs) frames) \<and>
    (handles_error symb (target_path fs) f \<and> crash_frame symb (target_path fs) frames \<noteq> None
      \<longrightarrow> fst (find_crash_site symb fs flush w') = site)"
proof -
  define w1 where "w1 = asan_on_error (Some p) (render (f # frames)) w"
  have w1: "files w1 p = Some (render (f # frames))" "\<not> deny w1 p"
    using assms(2) by (simp_all add: w1_def asan_on_error_def)
  from find_report [OF assms(1) w1 assms(3), of symb True]
  have w': "w' = w1\<lparr>files := (files w1)(p := Some (flush_stack (render (f # frames))))\<rparr>"
    and site: "site = site_of symb (crash_frame symb (target_path fs) (f # frames))"
    using assms(4) by (simp_all add: w1_def)
  have second: "fst (find_crash_site symb fs flush w') = site_of symb (crash_frame symb (target_path fs) frames)"
    using assms(1,3) w1(2) read_flushed [of f frames symb "target_path fs"]
    by (simp add: find_crash_site_def open_read_def w')
  then show ?thesis
    using site crash_frame_Cons by metis
qed

theorem flushed_report_survives_witness:
  "\<exists>w'. find_crash_site crash_symb crash_fsrv True crash_world = ((Some (ascii ''f''), Some (ascii ''/b/tgt''), 48), w') \<and>
     fst (find_crash_site crash_symb crash_fsrv True w') = (Some (ascii ''f''), Some (ascii ''/b/tgt''), 48)"
proof -
  obtain w' where w': "find_crash_site crash_symb crash_fsrv True crash_world = ((Some (ascii ''f''), Some (ascii ''/b/tgt''), 48), w')"
    using find_report [OF crash_world_simps(3,1,2) crash_frames_plain, of crash_symb True]
    by (simp add: crash_world_simps crash_frames_site site_of_def crash_symb_def)
  have run: "find_crash_site crash_symb crash_fsrv True
      (asan_on_error (Some ''s'') (render ((ascii ''/l/libc'', 16) # tl crash_frames)) empty_world)
      = ((Some (ascii ''f''), Some (ascii ''/b/tgt''), 48), w')"
    using w' by (simp add: crash_world_def crash_frames_def)
  have "handles_error crash_symb (ascii ''/b/tgt'') (ascii ''/l/libc'', 16)"
    "crash_frame crash_symb (ascii ''/b/tgt'') (tl crash_frames) \<noteq> None"
    by code_simp+
  then have "fst (find_crash_site crash_symb crash_fsrv True w') = (Some (ascii ''f''), Some (ascii ''/b/tgt''), 48)"
    using flushed_report_survives [OF crash_world_simps(3) _ _ run, of True, THEN conjunct2] crash_frames_plain
    by (simp add: crash_frames_def empty_world_def crash_world_simps)
  then show ?thesis
    using w' by blast
qed

text \<open>C14. \<open>same_crash_site\<close> compares module and offset, not the symbol. The same site is taken over;
  another one leaves what is remembered as it was, is reported in the README under the new site
  when asked to, and disables the entry when asked to, which counts it as fuzzed at the first time.\<close>

theorem same_crash_site_correct:
  assumes "q = Some i" "i < length (queue_buf afl)"
    and "length (readme (out_dir afl)) < PATH_MAX" "\<not> deny w (readme (out_dir afl))"
    and "find_crash_site symb (fsrv afl) True w = (site, w1)"
  shows "\<exists>same afl' w'. same_crash_site symb afl q detail discard w = Inr (same, afl', w') \<and>
    (same \<longleftrightarrow> crash_module (fsrv afl) = fst (snd site) \<and> crash_offset (fsrv afl) = snd (snd site)) \<and>
    (same \<longrightarrow> afl' = set_site site afl \<and> w' = w1) \<and>
    (\<not> same \<longrightarrow> fsrv afl' = fsrv afl \<and>
       w' = (if detail then w1\<lparr>files := (files w1)(readme (out_dir afl) :=
               Some ((case files w1 (readme (out_dir afl)) of None \<Rightarrow> [] | Some b \<Rightarrow> b) @
                     detail_line (set_site site afl) (queue_buf afl ! i)))\<rparr> else w1) \<and>
       queue_buf afl' = (if discard then (queue_buf afl)[i := (queue_buf afl ! i)
               \<lparr>disabled := True, perf_score := 0, was_fuzzed := True\<rparr>] else queue_buf afl) \<and>
       pending_not_fuzzed afl' = pending_not_fuzzed afl - of_bool (discard \<and> \<not> was_fuzzed (queue_buf afl ! i)) \<and>
       active_items afl' = active_items afl - of_bool (discard \<and> \<not> was_fuzzed (queue_buf afl ! i)))"
proof -
  obtain s m n where site: "site = (s, m, n)"
    by (cases site)
  have "w1 = w \<or> (\<exists>g. w1 = w\<lparr>files := g\<rparr>)"
    using assms(5) by (auto simp: find_crash_site_def split: option.splits if_splits)
  then have w1: "deny w1 = deny w"
    by auto
  have same: "(e :: queue_entry)\<lparr>was_fuzzed := True\<rparr> = e" if "was_fuzzed e" for e
    using that by (cases e) simp
  show ?thesis
  proof (cases "crash_module (fsrv afl) = m \<and> crash_offset (fsrv afl) = n")
    case True
    then have "same_crash_site symb afl q detail discard w = Inr (True, set_site site afl, w1)"
      using assms(5) by (simp add: same_crash_site_def site fsrv_site_def)
    then show ?thesis
      using True by (intro exI [of _ True] exI [of _ "set_site site afl"] exI [of _ w1]) (simp add: site)
  next
    case False
    have detail: "(if detail then write_crash_detail (set_site site afl) i w1 else Inr w1) =
        Inr (if detail then w1\<lparr>files := (files w1)(readme (out_dir afl) :=
               Some ((case files w1 (readme (out_dir afl)) of None \<Rightarrow> [] | Some b \<Rightarrow> b) @
                     detail_line (set_site site afl) (queue_buf afl ! i)))\<rparr> else w1)"
      using assms(2-4) w1 by (simp add: write_crash_detail_def sprintf_path_def q_get_def set_site_def site)
    show ?thesis
      using False assms(1,2,5) detail
      by (auto simp: same_crash_site_def site fsrv_site_def discard_entry_def set_site_def q_upd_def q_get_def same)
  qed
qed

definition crash_state :: afl_crash where
  "crash_state = afl_extras.extend
     ((dict_example [] [])\<lparr>fsrv := crash_fsrv, queue_buf := [zero_entry], active_items := 1, pending_not_fuzzed := 1\<rparr>)
     (afl_crash.fields NEW_CRASH_MODE_LV3)"

lemma crash_state_simps:
  "fsrv crash_state = crash_fsrv" "queue_buf crash_state = [zero_entry]" "active_items crash_state = 1"
  "pending_not_fuzzed crash_state = 1" "out_dir crash_state = ''o''"
  by (simp_all add: crash_state_def afl_extras.defs afl_crash.defs dict_example_def mopt_example_def
      afl_mopt.defs afl_cache.defs zero_afl_def)

theorem same_crash_site_correct_witness:
  "\<exists>afl' w'. same_crash_site crash_symb crash_state (Some 0) True True crash_world = Inr (False, afl', w') \<and>
     queue_buf afl' = [zero_entry\<lparr>disabled := True, perf_score := 0, was_fuzzed := True\<rparr>] \<and> active_items afl' = 0"
proof -
  obtain w' where "find_crash_site crash_symb crash_fsrv True crash_world = ((Some (ascii ''f''), Some (ascii ''/b/tgt''), 48), w')"
    using find_report [OF crash_world_simps(3,1,2) crash_frames_plain, of crash_symb True]
    by (simp add: crash_world_simps crash_frames_site site_of_def crash_symb_def)
  moreover have "crash_module crash_fsrv = None" "\<not> was_fuzzed zero_entry"
    by (simp_all add: crash_fsrv_def example_fsrv_def zero_entry_def)
  moreover have "length (readme ''o'') < PATH_MAX"
    by (simp add: readme_def PATH_MAX_def)
  ultimately show ?thesis
    using same_crash_site_correct [of "Some 0" 0 crash_state crash_world crash_symb
        "(Some (ascii ''f''), Some (ascii ''/b/tgt''), 48)" w' True True]
    by (auto simp: crash_state_simps crash_world_simps)
qed

end
