(* ===== verification/Target.thy ===== *)
theory Target
  imports Crash_Site
begin

text \<open>
  Running the target: test cases are handed over through shared memory, a file or standard input
  (\<open>afl_fsrv_write_to_testcase\<close> of src/afl-forkserver.c, \<open>write_to_testcase\<close> and \<open>write_with_gap\<close> of
  src/afl-fuzz-run.c), \<open>afl_fsrv_run_target\<close> drives the fork server and tells the outcome. What is
  at the other end of the pipes, and the custom mutators of the user, are parameters.
\<close>

section \<open>Writing all of a buffer\<close>

text \<open>
  The macro \<open>ck_write\<close> of include/debug.h. The list holds what the calls of \<open>write\<close> return, a write
  behind its end is complete; the result is what has been written.
\<close>

fun ck_write_loop :: "int list \<Rightarrow> bytes \<Rightarrow> int \<Rightarrow> int \<Rightarrow> int \<Rightarrow> bytes" where
  "ck_write_loop [] buf w_done off len = take (nat len) (drop (nat off) buf)"
| "ck_write_loop (r # rs) buf w_done off len =
     (let chunk = take (nat r) (drop (nat off) buf) in
      if r \<noteq> len \<and> (r > 0 \<and> w_done + r \<noteq> len)
      then chunk @ ck_write_loop rs buf (w_done + r) (off + r) (len - r)
      else chunk)"

definition ck_write :: "int list \<Rightarrow> bytes \<Rightarrow> bytes" where
  "ck_write rs buf = (if buf = [] then [] else ck_write_loop rs buf 0 0 (int (length buf)))"

section \<open>State\<close>

record afl_run = afl_crash +
  min_length :: u32
  max_length :: u32
  stop_soon :: bool
  skip_requested :: bool
  resuming_fuzz :: bool
  no_unlink :: bool

record custom_mutator =
  post_process :: "(bytes \<Rightarrow> int \<times> bytes option) option"
  fuzz_send :: "(bytes \<Rightarrow> world \<Rightarrow> world) option"

section \<open>Handing over a test case\<close>

text \<open>The first \<open>n\<close> bytes of a block; a block written over from its start.\<close>

definition peel :: "nat \<Rightarrow> bytes \<Rightarrow> bytes res" where
  "peel n b = (if n \<le> length b then Inr (take n b) else Inl Oob)"

definition overlay :: "bytes \<Rightarrow> bytes \<Rightarrow> bytes" where
  "overlay new old = take (length old) new @ drop (length new) old"

definition write_shmem :: "bytes \<Rightarrow> afl_forkserver \<Rightarrow> afl_forkserver res" where
  "write_shmem b fs =
     (if length (shmem_fuzz fs) < length b then Inl Oob
      else Inr (fs\<lparr>shmem_fuzz := overlay b (shmem_fuzz fs), shmem_fuzz_len := of_nat (length b)\<rparr>))"

text \<open>\<open>O_TRUNC\<close>, or \<open>unlink\<close> and \<open>O_EXCL\<close>; then the content and \<open>close\<close>.\<close>

definition write_new_file :: "bool \<Rightarrow> string \<Rightarrow> bytes \<Rightarrow> world \<Rightarrow> world res" where
  "write_new_file keep p b w =
     (if keep then
        (if deny w p then Inl (PFatal (''Unable to create '' @ p)) else Inr (w\<lparr>files := (files w)(p := Some b)\<rparr>))
      else
        (let (ok, w1) = create_excl p (snd (unlink p w)) in
         if ok then Inr (w1\<lparr>files := (files w1)(p := Some b)\<rparr>) else Inl (PFatal (''Unable to create '' @ p))))"

definition afl_fsrv_write_to_testcase ::
  "afl_forkserver \<Rightarrow> world \<Rightarrow> bytes \<Rightarrow> u32 \<Rightarrow> (afl_forkserver \<times> world) res" where
  "afl_fsrv_write_to_testcase fs w buf len =
     (if use_shmem_fuzz fs then
        bnd (peel (unat (min len MAX_FILE)) buf) (\<lambda>b. bnd (write_shmem b fs) (\<lambda>fs'. Inr (fs', w)))
      else bnd (peel (unat len) buf) (\<lambda>b.
        case (if use_stdin fs then None else out_file fs) of
          Some p \<Rightarrow> bnd (write_new_file (fsrv_no_unlink fs) p b w) (\<lambda>w'. Inr (fs, w'))
        | None \<Rightarrow>
            (case out_fd fs of
               None \<Rightarrow> Inl (Fatal ''Nowhere to write output to'')
             | Some old \<Rightarrow>
                 if \<not> out_fd_open fs then (if use_stdin fs then Inl (PFatal ''ftruncate() failed'') else Inr (fs, w))
                 else if use_stdin fs then Inr (fs\<lparr>out_fd := Some b\<rparr>, w)
                 else Inr (fs\<lparr>out_fd := Some (b @ drop (length b) old), out_fd_open := False\<rparr>, w))))"

text \<open>The post-processing chain: the block, its sz and whether it is another block than the input.\<close>

definition run_post :: "custom_mutator \<Rightarrow> bytes \<times> int \<times> bytes option \<times> bool \<Rightarrow> bytes \<times> int \<times> bytes option \<times> bool" where
  "run_post el = (\<lambda>(new_mem, new_size, new_buf, changed).
     case post_process el of
       None \<Rightarrow> (new_mem, new_size, new_buf, changed)
     | Some f \<Rightarrow>
         (let (sz, buf) = f (take (nat new_size) new_mem);
              buf' = (case buf of None \<Rightarrow> new_buf | Some b \<Rightarrow> Some b)
          in if buf' = None \<or> sz \<le> 0 then (new_mem, 0, Some new_mem, changed)
             else (the buf', sz, buf', True)))"

definition run_send :: "bytes \<Rightarrow> custom_mutator \<Rightarrow> world \<Rightarrow> world" where
  "run_send b el w = (case fuzz_send el of None \<Rightarrow> w | Some f \<Rightarrow> f b w)"

text \<open>What both branches do with the lengths.\<close>

definition clamp_length :: "('a) afl_run_scheme \<Rightarrow> int \<Rightarrow> bool \<Rightarrow> int" where
  "clamp_length afl sz fix =
     (if sz < int (unat (min_length afl)) \<and> \<not> fix then int (unat (min_length afl))
      else if sz > int (unat (max_length afl)) then int (unat (max_length afl)) else sz)"

definition write_to_testcase ::
  "custom_mutator list \<Rightarrow> ('a) afl_run_scheme \<Rightarrow> world \<Rightarrow> bytes \<Rightarrow> u32 \<Rightarrow> bool
     \<Rightarrow> (u32 \<times> bytes \<times> ('a) afl_run_scheme \<times> world) res" where
  "write_to_testcase muts afl w mem len fix =
     (if custom_mutators_count afl \<noteq> 0 then
        (let (new_mem, sz, _, changed) = foldl (\<lambda>s el. run_post el s) (mem, int (unat len), None, False) muts in
         if sz = 0 \<and> \<not> fix then Inr (0, mem, afl, w)
         else let n = clamp_length afl (if sz = 0 then int (unat len) else sz) fix in
           bnd (if changed \<and> n > 0 then peel (nat n) new_mem else Inr mem) (\<lambda>mem'.
           if list_ex (\<lambda>el. fuzz_send el \<noteq> None) muts then
             bnd (peel (nat n) mem') (\<lambda>b. Inr (len, mem', afl, fold (run_send b) muts w))
           else bnd (afl_fsrv_write_to_testcase (fsrv afl) w mem' (of_int n)) (\<lambda>(fs, w2).
                Inr (of_int n, mem', afl\<lparr>fsrv := fs\<rparr>, w2))))
      else
        let n = of_int (clamp_length afl (int (unat len)) fix) in
        bnd (afl_fsrv_write_to_testcase (fsrv afl) w mem n) (\<lambda>(fs, w2).
        Inr (n, mem, afl\<lparr>fsrv := fs\<rparr>, w2)))"

text \<open>
  \<open>write_with_gap\<close>: the test case without \<open>skip_len\<close> bytes at \<open>skip_at\<close>. Post-processing sees the
  copy without the gap. \<open>no_unlink\<close> is here the field of \<open>afl_state_t\<close>.
\<close>

definition run_gap_post :: "custom_mutator \<Rightarrow> bytes \<times> int \<times> bytes option \<Rightarrow> bytes \<times> int \<times> bytes option" where
  "run_gap_post el = (\<lambda>(new_mem, new_size, new_buf).
     case post_process el of
       None \<Rightarrow> (new_mem, new_size, new_buf)
     | Some f \<Rightarrow>
         (let (sz, buf) = f (take (nat new_size) new_mem);
              buf' = (case buf of None \<Rightarrow> new_buf | Some b \<Rightarrow> Some b)
          in case buf' of
               None \<Rightarrow> if sz \<le> 0 then (new_mem, 0, Some new_mem) else ([], sz, None)
             | Some b \<Rightarrow> (b, sz, Some b)))"

definition deliver :: "('a) afl_run_scheme \<Rightarrow> world \<Rightarrow> bytes \<Rightarrow> (('a) afl_run_scheme \<times> world) res" where
  "deliver afl w b =
     (let fs = fsrv afl in
      if use_shmem_fuzz fs then bnd (write_shmem b fs) (\<lambda>fs'. Inr (afl\<lparr>fsrv := fs'\<rparr>, w))
      else if \<not> use_stdin fs then
        (case out_file fs of
           None \<Rightarrow> Inl (PFatal ''Unable to create (null)'')
         | Some p \<Rightarrow> bnd (write_new_file (no_unlink afl) p b w) (\<lambda>w'. Inr (afl, w')))
      else if out_fd fs = None \<or> \<not> out_fd_open fs then Inl (PFatal ''ftruncate() failed'')
      else Inr (afl\<lparr>fsrv := fs\<lparr>out_fd := Some b\<rparr>\<rparr>, w))"

definition write_with_gap ::
  "custom_mutator list \<Rightarrow> ('a) afl_run_scheme \<Rightarrow> world \<Rightarrow> bytes \<Rightarrow> u32 \<Rightarrow> u32 \<Rightarrow> u32
     \<Rightarrow> (('a) afl_run_scheme \<times> world) res" where
  "write_with_gap muts afl w mem len skip_at skip_len =
     (let tail_len = len - skip_at - skip_len in
      bnd (peel (unat skip_at) mem) (\<lambda>a.
      bnd (peel (unat tail_len) (drop (unat skip_at + unat skip_len) mem)) (\<lambda>t.
      let trimmed = a @ t in
      if custom_mutators_count afl \<noteq> 0 \<and> list_ex (\<lambda>el. post_process el \<noteq> None) muts then
        (let (new_mem, sz, _) = foldl (\<lambda>s el. run_gap_post el s) (trimmed, int (unat (len - skip_len)), None) muts in
         if sz < 0 then Inl (if use_shmem_fuzz (fsrv afl) then Oob else PFatal ''ftruncate() failed'')
         else bnd (peel (nat sz) new_mem) (deliver afl w))
      else deliver afl w trimmed)))"

section \<open>Running the target\<close>

text \<open>
  What one round through the pipes brings: whether the request could be written, the process id, the
  time until the status came (0 for an error, more than the timeout if there was none), whether the
  status of a killed process could be read, the status as the macros of \<open>sys/wait.h\<close> see it, what the
  process left in the map, and which signals reached the fuzzer meanwhile (SIGINT, SIGUSR1).
\<close>

record answer =
  ctl_written :: bool
  st_pid :: "u32 option"
  exec_ms :: u32
  late_status :: bool
  wifstopped :: bool
  wifsignaled :: bool
  wtermsig :: u8
  wexitstatus :: u8
  map_after :: bytes
  interrupted :: bool
  skip_signal :: bool

text \<open>The request: the timeout, \<open>last_run_timed_out\<close>, the test case and the state out there.\<close>

type_synonym 'x child = "u32 \<Rightarrow> bool \<Rightarrow> bytes \<Rightarrow> 'x \<Rightarrow> answer \<times> 'x"

definition target_input :: "afl_forkserver \<Rightarrow> world \<Rightarrow> bytes" where
  "target_input fs w =
     (if use_shmem_fuzz fs then take (unat (shmem_fuzz_len fs)) (shmem_fuzz fs)
      else case (if use_stdin fs then None else out_file fs) of
        Some p \<Rightarrow> (case files w p of None \<Rightarrow> [] | Some b \<Rightarrow> b)
      | None \<Rightarrow> (case out_fd fs of None \<Rightarrow> [] | Some b \<Rightarrow> b))"

definition EXEC_FAIL_SIG :: u32 where "EXEC_FAIL_SIG = 0xfee1dead"
definition MSAN_ERROR :: u8 where "MSAN_ERROR = 86"
definition LSAN_ERROR :: u8 where "LSAN_ERROR = 23"
definition FS_OPT_ERROR :: u32 where "FS_OPT_ERROR = 0xf800008f"
definition FS_OPT_GET_ERROR :: "u32 \<Rightarrow> u32" where "FS_OPT_GET_ERROR x = drop_bit 8 (x AND 0x00ffff00)"
definition FS_ERROR_SHM_OPEN :: u32 where "FS_ERROR_SHM_OPEN = 4"

text \<open>Kill and collect a process that took too long; the time is set to 0 if that fails.\<close>

definition reap :: "u32 \<Rightarrow> answer \<Rightarrow> afl_forkserver \<Rightarrow> u32 \<times> afl_forkserver" where
  "reap timeout a fs =
     (if exec_ms a > timeout then
        (if late_status a then exec_ms a else 0,
         fs\<lparr>child_pid := (if sint (child_pid fs) > 0 then - 1 else child_pid fs), last_run_timed_out := True\<rparr>)
      else (exec_ms a, fs))"

definition crashed :: "afl_forkserver \<Rightarrow> answer \<Rightarrow> bool" where
  "crashed fs a \<longleftrightarrow> wifsignaled a \<or>
     uses_asan fs \<and> (wexitstatus a = MSAN_ERROR \<or> wexitstatus a = LSAN_ERROR) \<or>
     uses_crash_exitcode fs \<and> wexitstatus a = crash_exitcode fs"

definition outcome :: "answer \<Rightarrow> afl_forkserver \<Rightarrow> (fsrv_run_result \<times> afl_forkserver) res" where
  "outcome a fs =
     (if length (trace_bits fs) < 4 then Inl Oob
      else if ldw (trace_bits fs) = EXEC_FAIL_SIG then Inr (FSRV_RUN_ERROR, fs)
      else if last_run_timed_out fs then Inr (FSRV_RUN_TMOUT, fs\<lparr>last_kill_signal := child_kill_signal fs\<rparr>)
      else if crashed fs a
        then Inr (FSRV_RUN_CRASH, fs\<lparr>last_kill_signal := (if wifsignaled a then wtermsig a else 0)\<rparr>)
      else Inr (FSRV_RUN_OK, fs))"

text \<open>A failed exchange ends the process, unless the user asked to stop.\<close>

definition give_up :: "bool \<Rightarrow> err \<Rightarrow> afl_forkserver \<Rightarrow> (fsrv_run_result \<times> afl_forkserver) res" where
  "give_up stopping msg fs = (if stopping then Inr (FSRV_RUN_OK, fs) else Inl msg)"

definition collect_status ::
  "bool \<Rightarrow> u32 \<Rightarrow> answer \<Rightarrow> afl_forkserver \<Rightarrow> (fsrv_run_result \<times> afl_forkserver) res" where
  "collect_status stopping timeout a fs =
     (let (ms, fs3) = reap timeout a fs in
      if ms = 0 then give_up stopping (PFatal ''Unable to communicate with fork server'') fs3
      else let fs4 = (if wifstopped a then fs3 else fs3\<lparr>child_pid := - 1\<rparr>)
        in outcome a (fs4\<lparr>total_execs := total_execs fs4 + 1\<rparr>))"

definition await_child ::
  "bool \<Rightarrow> u32 \<Rightarrow> answer \<Rightarrow> u32 \<Rightarrow> afl_forkserver \<Rightarrow> (fsrv_run_result \<times> afl_forkserver) res" where
  "await_child stopping timeout a pid fs =
     (let fs2 = fs\<lparr>child_pid := pid, trace_bits := overlay (map_after a) (trace_bits fs)\<rparr> in
      if sint pid \<le> 0 then
        give_up stopping (if pid AND FS_OPT_ERROR \<noteq> 0 \<and> FS_OPT_GET_ERROR pid = FS_ERROR_SHM_OPEN
          then Fatal ''Target reported shared memory access failed'' else Fatal ''Fork server is misbehaving (OOM?)'') fs2
      else collect_status stopping timeout a fs2)"

definition request_run ::
  "bool \<Rightarrow> u32 \<Rightarrow> answer \<Rightarrow> afl_forkserver \<Rightarrow> (fsrv_run_result \<times> afl_forkserver) res" where
  "request_run stopping timeout a fs =
     (let oom = PFatal ''Unable to request new process from fork server (OOM?)'' in
      if \<not> ctl_written a then give_up stopping oom fs
      else let fs1 = fs\<lparr>last_run_timed_out := False\<rparr> in
        case st_pid a of
          None \<Rightarrow> give_up stopping oom fs1
        | Some pid \<Rightarrow> await_child stopping timeout a pid fs1)"

definition afl_fsrv_run_target ::
  "'x child \<Rightarrow> afl_forkserver \<Rightarrow> world \<Rightarrow> u32 \<Rightarrow> bool \<Rightarrow> 'x
     \<Rightarrow> (fsrv_run_result \<times> afl_forkserver \<times> answer \<times> 'x) res" where
  "afl_fsrv_run_target child fs w timeout stop x =
     (let n = unat (map_size fs);
          (a, x') = child timeout (last_run_timed_out fs) (target_input fs w) x
      in if length (trace_bits fs) < n then Inl Oob
         else bnd (request_run (stop \<or> interrupted a) timeout a
                     (fs\<lparr>trace_bits := replicate n 0 @ drop n (trace_bits fs)\<rparr>)) (\<lambda>(r, fs').
              Inr (r, fs', a, x')))"

definition fuzz_run_target ::
  "'x child \<Rightarrow> ('a) afl_run_scheme \<Rightarrow> world \<Rightarrow> u32 \<Rightarrow> 'x \<Rightarrow> (fsrv_run_result \<times> ('a) afl_run_scheme \<times> 'x) res" where
  "fuzz_run_target child afl w timeout x =
     bnd (afl_fsrv_run_target child (fsrv afl) w timeout (stop_soon afl) x) (\<lambda>(r, fs, a, x').
     Inr (r, afl\<lparr>fsrv := fs, stop_soon := stop_soon afl \<or> interrupted a,
                skip_requested := skip_requested afl \<or> skip_signal a\<rparr>, x'))"

section \<open>What the target reads\<close>

text \<open>The channel to the target works: the shared block is of full size, or the file can be written,
  or the descriptor is open.\<close>

definition transport_ok :: "afl_forkserver \<Rightarrow> world \<Rightarrow> bool" where
  "transport_ok fs w \<longleftrightarrow>
     (if use_shmem_fuzz fs then unat MAX_FILE \<le> length (shmem_fuzz fs)
      else if use_stdin fs then out_fd fs \<noteq> None \<and> out_fd_open fs
      else out_file fs \<noteq> None \<and> \<not> deny w (the (out_file fs)))"

lemma peel_ok [simp]: "n \<le> length b \<Longrightarrow> peel n b = Inr (take n b)"
  by (simp add: peel_def)

lemma write_new_file_ok:
  "\<not> deny w p \<Longrightarrow> \<exists>w'. write_new_file keep p b w = Inr w' \<and> files w' p = Some b \<and> deny w' = deny w"
  by (cases "files w p = None \<and> links w p = None") (auto simp: write_new_file_def create_excl_def unlink_def)

lemma write_shmem_ok:
  assumes "length b \<le> unat MAX_FILE" "unat MAX_FILE \<le> length (shmem_fuzz fs)"
  shows "\<exists>fs'. write_shmem b fs = Inr fs' \<and> take (unat (shmem_fuzz_len fs')) (shmem_fuzz fs') = b \<and>
    length (shmem_fuzz fs') = length (shmem_fuzz fs) \<and> use_shmem_fuzz fs' = use_shmem_fuzz fs \<and>
    trace_bits fs' = trace_bits fs \<and> map_size fs' = map_size fs \<and>
    real_map_size fs' = real_map_size fs \<and> exec_tmout fs' = exec_tmout fs"
proof -
  have "length b < 2 ^ 32"
    using assms(1) by (simp add: MAX_FILE_def)
  then have "unat (of_nat (length b) :: u32) = length b"
    by (simp add: unat_of_nat_small)
  then show ?thesis
    using assms by (simp add: write_shmem_def overlay_def)
qed

lemma fsrv_write_ok:
  assumes "transport_ok fs w" "unat len \<le> length mem" "len \<le> MAX_FILE"
  shows "\<exists>fs' w'. afl_fsrv_write_to_testcase fs w mem len = Inr (fs', w') \<and>
    target_input fs' w' = take (unat len) mem \<and> transport_ok fs' w' \<and> deny w' = deny w \<and>
    trace_bits fs' = trace_bits fs \<and> map_size fs' = map_size fs \<and>
    real_map_size fs' = real_map_size fs \<and> exec_tmout fs' = exec_tmout fs"
proof (cases "use_shmem_fuzz fs")
  case True
  have "unat len \<le> unat MAX_FILE"
    using assms(3) by (simp add: word_le_nat_alt)
  then have "length (take (unat len) mem) \<le> unat MAX_FILE" "unat MAX_FILE \<le> length (shmem_fuzz fs)"
    using True assms(1) by (simp_all add: transport_ok_def)
  from write_shmem_ok [OF this] obtain fs' where
    "write_shmem (take (unat len) mem) fs = Inr fs'" "take (unat (shmem_fuzz_len fs')) (shmem_fuzz fs') = take (unat len) mem"
    "length (shmem_fuzz fs') = length (shmem_fuzz fs)" "use_shmem_fuzz fs'"
    "trace_bits fs' = trace_bits fs" "map_size fs' = map_size fs" "real_map_size fs' = real_map_size fs" "exec_tmout fs' = exec_tmout fs"
    using True by auto
  then show ?thesis
    using True assms
    by (intro exI [of _ fs'] exI [of _ w])
      (simp add: afl_fsrv_write_to_testcase_def transport_ok_def target_input_def min_absorb1)
next
  case False
  show ?thesis
  proof (cases "use_stdin fs")
    case True
    then obtain old where "out_fd fs = Some old" "out_fd_open fs"
      using False assms(1) by (auto simp: transport_ok_def)
    then show ?thesis
      using False True assms(2)
      by (intro exI [of _ "fs\<lparr>out_fd := Some (take (unat len) mem)\<rparr>"] exI [of _ w])
        (simp add: afl_fsrv_write_to_testcase_def transport_ok_def target_input_def)
  next
    case stdin: False
    then obtain p where p: "out_file fs = Some p" "\<not> deny w p"
      using False assms(1) by (auto simp: transport_ok_def)
    from write_new_file_ok [OF p(2), of "fsrv_no_unlink fs" "take (unat len) mem"] obtain w' where
      "write_new_file (fsrv_no_unlink fs) p (take (unat len) mem) w = Inr w'"
      "files w' p = Some (take (unat len) mem)" "deny w' = deny w"
      by blast
    then show ?thesis
      using False stdin p assms(2)
      by (intro exI [of _ fs] exI [of _ w'])
        (simp add: afl_fsrv_write_to_testcase_def transport_ok_def target_input_def)
  qed
qed

lemma deliver_ok:
  assumes "transport_ok (fsrv afl) w" "length b \<le> unat MAX_FILE"
  shows "\<exists>afl' w'. deliver afl w b = Inr (afl', w') \<and> target_input (fsrv afl') w' = b \<and> transport_ok (fsrv afl') w' \<and> deny w' = deny w \<and>
    (\<exists>fs. afl' = afl\<lparr>fsrv := fs\<rparr> \<and> trace_bits fs = trace_bits (fsrv afl) \<and> map_size fs = map_size (fsrv afl) \<and>
       real_map_size fs = real_map_size (fsrv afl) \<and> exec_tmout fs = exec_tmout (fsrv afl))"
proof (cases "use_shmem_fuzz (fsrv afl)")
  case True
  then have "unat MAX_FILE \<le> length (shmem_fuzz (fsrv afl))"
    using assms(1) by (simp add: transport_ok_def)
  from write_shmem_ok [OF assms(2) this] obtain fs' where
    "write_shmem b (fsrv afl) = Inr fs'" "take (unat (shmem_fuzz_len fs')) (shmem_fuzz fs') = b"
    "length (shmem_fuzz fs') = length (shmem_fuzz (fsrv afl))" "use_shmem_fuzz fs'"
    "trace_bits fs' = trace_bits (fsrv afl)" "map_size fs' = map_size (fsrv afl)"
    "real_map_size fs' = real_map_size (fsrv afl)" "exec_tmout fs' = exec_tmout (fsrv afl)"
    using True by auto
  then show ?thesis
    using True assms(1)
    by (intro exI [of _ "afl\<lparr>fsrv := fs'\<rparr>"] exI [of _ w]) (auto simp: deliver_def transport_ok_def target_input_def)
next
  case False
  have self: "afl\<lparr>fsrv := fsrv afl\<rparr> = afl"
    by simp
  show ?thesis
  proof (cases "use_stdin (fsrv afl)")
    case True
    then show ?thesis
      using False assms(1)
      by (intro exI [of _ "afl\<lparr>fsrv := (fsrv afl)\<lparr>out_fd := Some b\<rparr>\<rparr>"] exI [of _ w])
        (auto simp: deliver_def transport_ok_def target_input_def)
  next
    case stdin: False
    then obtain p where p: "out_file (fsrv afl) = Some p" "\<not> deny w p"
      using False assms(1) by (auto simp: transport_ok_def)
    from write_new_file_ok [OF p(2), of "no_unlink afl" b] obtain w' where
      "write_new_file (no_unlink afl) p b w = Inr w'" "files w' p = Some b" "deny w' = deny w"
      by blast
    then show ?thesis
      using False stdin p self
      by (intro exI [of _ afl] exI [of _ w']) (auto simp: deliver_def transport_ok_def target_input_def intro: exI [of _ "fsrv afl"])
  qed
qed

section \<open>What a run changes\<close>

lemma length_overlay [simp]: "length (overlay new old) = length old"
  by (simp add: overlay_def)

text \<open>The fields of the fork server that a run leaves alone: all but the five it writes.\<close>

definition run_frame :: "afl_forkserver \<Rightarrow> afl_forkserver" where
  "run_frame fs = fs\<lparr>trace_bits := replicate (length (trace_bits fs)) 0, child_pid := 0,
     last_run_timed_out := False, last_kill_signal := 0, total_execs := 0\<rparr>"

lemma run_frame_upd [simp]:
  "run_frame (fs\<lparr>child_pid := p\<rparr>) = run_frame fs"
  "run_frame (fs\<lparr>last_run_timed_out := b\<rparr>) = run_frame fs"
  "run_frame (fs\<lparr>last_kill_signal := k\<rparr>) = run_frame fs"
  "run_frame (fs\<lparr>total_execs := n\<rparr>) = run_frame fs"
  "length t = length (trace_bits fs) \<Longrightarrow> run_frame (fs\<lparr>trace_bits := t\<rparr>) = run_frame fs"
  by (simp_all add: run_frame_def)

lemma run_frame_sel:
  "map_size fs = map_size (run_frame fs)" "real_map_size fs = real_map_size (run_frame fs)"
  "exec_tmout fs = exec_tmout (run_frame fs)"
  "length (trace_bits fs) = length (trace_bits (run_frame fs))"
  "transport_ok fs w = transport_ok (run_frame fs) w" "target_input fs w = target_input (run_frame fs) w"
  by (simp_all add: run_frame_def transport_ok_def target_input_def split: option.splits)

lemma run_frame_simps:
  assumes "run_frame fs' = run_frame fs"
  shows "map_size fs' = map_size fs" and "real_map_size fs' = real_map_size fs"
    and "exec_tmout fs' = exec_tmout fs" and "length (trace_bits fs') = length (trace_bits fs)"
    and "transport_ok fs' w = transport_ok fs w" and "target_input fs' w = target_input fs w"
  using run_frame_sel [of fs] run_frame_sel [of fs'] by (simp_all only: assms)

lemma outcome_frame: "outcome a fs = Inr (r, fs') \<Longrightarrow> run_frame fs' = run_frame fs"
  by (auto simp: outcome_def split: if_splits)

lemma reap_frame: "reap t a fs = (ms, fs') \<Longrightarrow> run_frame fs' = run_frame fs"
  by (auto simp: reap_def split: if_splits)

lemma collect_status_frame:
  assumes "collect_status stopping t a fs = Inr (r, fs')"
  shows "run_frame fs' = run_frame fs"
proof -
  obtain ms fs3 where "reap t a fs = (ms, fs3)"
    by (cases "reap t a fs")
  then show ?thesis
    using assms reap_frame [of t a fs ms fs3]
    by (auto simp: collect_status_def give_up_def Let_def split: if_splits dest!: outcome_frame)
qed

lemma request_run_frame:
  "request_run stopping t a fs = Inr (r, fs') \<Longrightarrow> run_frame fs' = run_frame fs"
  by (auto simp: request_run_def await_child_def give_up_def Let_def
      split: if_splits option.splits dest!: collect_status_frame)

lemma run_target_frame:
  "afl_fsrv_run_target child fs w t stop x = Inr (r, fs', a, x') \<Longrightarrow> run_frame fs' = run_frame fs"
  by (auto simp: afl_fsrv_run_target_def Let_def bnd_eq_Inr_iff split: prod.splits if_splits dest!: request_run_frame)

lemma fuzz_run_target_frame:
  assumes "fuzz_run_target child afl w t x = Inr (r, afl', x')"
  obtains fs b c where "afl' = afl\<lparr>fsrv := fs, stop_soon := b, skip_requested := c\<rparr>"
    and "run_frame fs = run_frame (fsrv afl)"
proof -
  obtain fs a where run: "afl_fsrv_run_target child (fsrv afl) w t (stop_soon afl) x = Inr (r, fs, a, x')"
    and "afl' = afl\<lparr>fsrv := fs, stop_soon := stop_soon afl \<or> interrupted a,
      skip_requested := skip_requested afl \<or> skip_signal a\<rparr>"
    using assms by (auto simp: fuzz_run_target_def bnd_eq_Inr_iff)
  then show thesis
    using that run_target_frame [OF run] by blast
qed

lemma case_delivered:
  assumes "custom_mutators_count afl = 0" "transport_ok (fsrv afl) w"
    and "min_length afl \<le> max_length afl" "max_length afl \<le> MAX_FILE"
    and "n = (if len < min_length afl \<and> \<not> fix then min_length afl else min len (max_length afl))"
    and "unat n \<le> length mem"
  shows "\<exists>afl' w'. write_to_testcase muts afl w mem len fix = Inr (n, mem, afl', w') \<and>
    target_input (fsrv afl') w' = take (unat n) mem \<and> transport_ok (fsrv afl') w' \<and> deny w' = deny w \<and>
    (\<exists>fs. afl' = afl\<lparr>fsrv := fs\<rparr> \<and> trace_bits fs = trace_bits (fsrv afl) \<and> map_size fs = map_size (fsrv afl) \<and>
       real_map_size fs = real_map_size (fsrv afl) \<and> exec_tmout fs = exec_tmout (fsrv afl))"
proof -
  have "clamp_length afl (int (unat len)) fix = int (unat n)"
    using assms(3) by (auto simp: clamp_length_def assms(5) min_def word_less_def word_le_def)
  moreover have "of_int (int (unat n)) = n"
    by (simp add: of_nat_unat)
  moreover have "n \<le> MAX_FILE"
    using assms(3,4) by (auto simp: assms(5) min_def)
  ultimately show ?thesis
    using assms(1) fsrv_write_ok [OF assms(2,6)] by (auto simp: write_to_testcase_def)
qed

lemma gap_delivered:
  assumes "custom_mutators_count afl = 0" "transport_ok (fsrv afl) w" "len \<le> MAX_FILE"
    and "unat skip_at + unat skip_len \<le> unat len" "unat len \<le> length mem"
  shows "\<exists>afl' w'. write_with_gap muts afl w mem len skip_at skip_len = Inr (afl', w') \<and>
    target_input (fsrv afl') w' =
      take (unat skip_at) mem @ drop (unat skip_at + unat skip_len) (take (unat len) mem) \<and>
    transport_ok (fsrv afl') w' \<and> deny w' = deny w \<and>
    (\<exists>fs. afl' = afl\<lparr>fsrv := fs\<rparr> \<and> trace_bits fs = trace_bits (fsrv afl) \<and> map_size fs = map_size (fsrv afl) \<and>
       real_map_size fs = real_map_size (fsrv afl) \<and> exec_tmout fs = exec_tmout (fsrv afl))"
proof -
  have "unat (len - skip_at - skip_len) = unat len - unat skip_at - unat skip_len"
    using assms(4) by (simp add: unat_sub word_le_nat_alt)
  moreover have "unat len \<le> unat MAX_FILE"
    using assms(3) by (simp add: word_le_nat_alt)
  moreover define b where "b = take (unat skip_at) mem @ take (unat len - unat skip_at - unat skip_len) (drop (unat skip_at + unat skip_len) mem)"
  ultimately have "length b \<le> unat MAX_FILE" and "write_with_gap muts afl w mem len skip_at skip_len = deliver afl w b"
    using assms(1,4,5) by (auto simp: write_with_gap_def)
  moreover have "b = take (unat skip_at) mem @ drop (unat skip_at + unat skip_len) (take (unat len) mem)"
    by (simp add: b_def drop_take)
  ultimately show ?thesis
    using deliver_ok [OF assms(2), of b] by auto
qed

lemma run_target_outcome:
  assumes "afl_fsrv_run_target child fs w timeout stop x = Inr (r, fs', a, x')"
    and "\<not> stop" "\<not> interrupted a"
  shows "r = (if ldw (trace_bits fs') = EXEC_FAIL_SIG then FSRV_RUN_ERROR
              else if exec_ms a > timeout then FSRV_RUN_TMOUT
              else if crashed fs a then FSRV_RUN_CRASH else FSRV_RUN_OK)"
    and "trace_bits fs' = overlay (map_after a)
           (replicate (unat (map_size fs)) 0 @ drop (unat (map_size fs)) (trace_bits fs))"
    and "last_run_timed_out fs' \<longleftrightarrow> exec_ms a > timeout"
    and "total_execs fs' = total_execs fs + 1"
    and "(a, x') = child timeout (last_run_timed_out fs) (target_input fs w) x"
proof -
  define fs0 where "fs0 = fs\<lparr>trace_bits := replicate (unat (map_size fs)) 0 @ drop (unat (map_size fs)) (trace_bits fs)\<rparr>"
  have run: "request_run False timeout a fs0 = Inr (r, fs')" and child: "(a, x') = child timeout (last_run_timed_out fs) (target_input fs w) x"
    using assms by (auto simp: afl_fsrv_run_target_def Let_def bnd_eq_Inr_iff fs0_def split: prod.splits if_splits)
  obtain pid where "ctl_written a" and pid: "st_pid a = Some pid"
    using run by (auto simp: request_run_def give_up_def Let_def split: if_splits option.splits)
  define fs2 where "fs2 = fs0\<lparr>last_run_timed_out := False, child_pid := pid, trace_bits := overlay (map_after a) (trace_bits fs0)\<rparr>"
  have "collect_status False timeout a fs2 = Inr (r, fs')"
    using run pid \<open>ctl_written a\<close>
    by (auto simp: request_run_def await_child_def give_up_def fs2_def Let_def split: if_splits)
  then obtain fs4 where out: "outcome a fs4 = Inr (r, fs')"
    and fs4: "trace_bits fs4 = trace_bits fs2" "last_run_timed_out fs4 = (exec_ms a > timeout)"
      "total_execs fs4 = total_execs fs + 1" "crashed fs4 a = crashed fs a"
    by (auto simp: collect_status_def reap_def give_up_def fs2_def fs0_def crashed_def Let_def split: if_splits)
  from out show "r = (if ldw (trace_bits fs') = EXEC_FAIL_SIG then FSRV_RUN_ERROR
              else if exec_ms a > timeout then FSRV_RUN_TMOUT
              else if crashed fs a then FSRV_RUN_CRASH else FSRV_RUN_OK)"
    and "trace_bits fs' = overlay (map_after a)
           (replicate (unat (map_size fs)) 0 @ drop (unat (map_size fs)) (trace_bits fs))"
    and "last_run_timed_out fs' \<longleftrightarrow> exec_ms a > timeout"
    and "total_execs fs' = total_execs fs + 1"
    using fs4 by (auto simp: outcome_def fs2_def fs0_def split: if_splits)
  show "(a, x') = child timeout (last_run_timed_out fs) (target_input fs w) x"
    by (rule child)
qed

section \<open>Properties\<close>

text \<open>C17. Without custom mutators the target reads exactly the test case, cut to \<open>max_length\<close> and, unless
  the length is fixed, extended to \<open>min_length\<close> with whatever is behind it in the buffer, whichever
  channel is used.\<close>

theorem write_to_testcase_delivers:
  assumes "custom_mutators_count afl = 0" "transport_ok (fsrv afl) w"
    and "min_length afl \<le> max_length afl" "max_length afl \<le> MAX_FILE"
    and "n = (if len < min_length afl \<and> \<not> fix then min_length afl else min len (max_length afl))"
    and "unat n \<le> length mem"
  shows "\<exists>afl' w'. write_to_testcase muts afl w mem len fix = Inr (n, mem, afl', w') \<and>
    target_input (fsrv afl') w' = take (unat n) mem \<and> transport_ok (fsrv afl') w'"
  using case_delivered [OF assms] by blast

text \<open>The trimmer runs the target on exactly the test case without the bytes to remove.\<close>

theorem write_with_gap_delivers:
  assumes "custom_mutators_count afl = 0" "transport_ok (fsrv afl) w" "len \<le> MAX_FILE"
    and "unat skip_at + unat skip_len \<le> unat len" "unat len \<le> length mem"
  shows "\<exists>afl' w'. write_with_gap muts afl w mem len skip_at skip_len = Inr (afl', w') \<and>
    target_input (fsrv afl') w' =
      take (unat skip_at) mem @ drop (unat skip_at + unat skip_len) (take (unat len) mem) \<and>
    transport_ok (fsrv afl') w'"
  using gap_delivered [OF assms] by blast

text \<open>C13. Unless the user interrupts it, a run is counted and its outcome is an execution failure when
  the map starts with the signature, else a timeout exactly when the process needed longer than
  allowed, else a crash exactly when a signal or one of the agreed exit codes ended it; the map then
  holds what the process left on a cleared map, and the next request tells whether it timed out.\<close>

theorem afl_fsrv_run_target_outcome:
  assumes "afl_fsrv_run_target child fs w timeout stop x = Inr (r, fs', a, x')"
    and "\<not> stop" "\<not> interrupted a"
  shows "r = (if ldw (trace_bits fs') = EXEC_FAIL_SIG then FSRV_RUN_ERROR
              else if exec_ms a > timeout then FSRV_RUN_TMOUT
              else if crashed fs a then FSRV_RUN_CRASH else FSRV_RUN_OK) \<and>
    trace_bits fs' = overlay (map_after a)
      (replicate (unat (map_size fs)) 0 @ drop (unat (map_size fs)) (trace_bits fs)) \<and>
    (last_run_timed_out fs' \<longleftrightarrow> exec_ms a > timeout) \<and>
    total_execs fs' = total_execs fs + 1 \<and>
    (a, x') = child timeout (last_run_timed_out fs) (target_input fs w) x"
  by (intro conjI run_target_outcome [OF assms])

text \<open>C27. \<open>ck_write\<close> does not write everything. It ends without a message when a write fails, and it ends
  early when the second of two short writes happens to reach the length that was left before it.\<close>

theorem ck_write_loses:
  assumes "0 < r1" "0 < r2" "2 * r1 + r2 = length buf"
  shows "ck_write [int r1, int r2] buf = take (r1 + r2) buf \<and> ck_write [int r1, int r2] buf \<noteq> buf \<and>
    ck_write [- 1] buf = [] \<and> ck_write [int r1] buf = buf"
proof (intro conjI)
  have ne: "buf \<noteq> []" "r1 \<noteq> length buf"
    using assms by auto
  show short: "ck_write [int r1, int r2] buf = take (r1 + r2) buf"
    using assms ne by (simp add: ck_write_def Let_def take_add)
  have "length (ck_write [int r1, int r2] buf) < length buf"
    using assms short by simp
  then show "ck_write [int r1, int r2] buf \<noteq> buf"
    by auto
  show "ck_write [- 1] buf = []"
    using ne by (simp add: ck_write_def)
  show "ck_write [int r1] buf = buf"
    using ne assms by (simp add: ck_write_def Let_def)
qed

text \<open>A fork server whose process crashes after ten milliseconds on any input, having hit the first edge.\<close>

definition crashing :: "unit child" where
  "crashing timeout timed_out input x =
     (\<lparr>ctl_written = True, st_pid = Some 77, exec_ms = 10, late_status = True, wifstopped = False,
       wifsignaled = True, wtermsig = 6, wexitstatus = 0, map_after = [1], interrupted = False, skip_signal = False\<rparr>, x)"

definition run_state :: afl_run where
  "run_state = afl_crash.extend (crash_state\<lparr>fsrv := example_fsrv (replicate 64 7)\<rparr>)
     (afl_run.fields 1 MAX_FILE False False False False)"

lemma run_state_simps:
  "fsrv run_state = example_fsrv (replicate 64 7)" "custom_mutators_count run_state = 0"
  "min_length run_state = 1" "max_length run_state = MAX_FILE" "stop_soon run_state = False"
  by (simp_all add: run_state_def afl_crash.defs afl_run.defs crash_state_def afl_extras.defs dict_example_def
      mopt_example_def afl_mopt.defs afl_cache.defs zero_afl_def)

lemma run_state_ready: "transport_ok (fsrv run_state) w"
  by (simp add: run_state_simps transport_ok_def example_fsrv_def)

theorem write_to_testcase_delivers_witness:
  "\<exists>afl' w'. write_to_testcase [] run_state empty_world [5, 6, 7] 2 False = Inr (2, [5, 6, 7], afl', w') \<and>
     target_input (fsrv afl') w' = [5, 6]"
  using write_to_testcase_delivers [of run_state empty_world 2 2 False "[5, 6, 7]" "[]"]
  by (auto simp: run_state_simps run_state_ready [unfolded run_state_simps] MAX_FILE_def)

theorem write_with_gap_delivers_witness:
  "\<exists>afl' w'. write_with_gap [] run_state empty_world [5, 6, 7, 8] 4 1 2 = Inr (afl', w') \<and>
     target_input (fsrv afl') w' = [5, 8]"
  using write_with_gap_delivers [of run_state empty_world 4 1 2 "[5, 6, 7, 8]" "[]"]
  by (auto simp: run_state_simps run_state_ready [unfolded run_state_simps] MAX_FILE_def)

theorem afl_fsrv_run_target_outcome_witness:
  "\<exists>fs' a. afl_fsrv_run_target crashing (example_fsrv (replicate 64 7)) empty_world 1000 False () = Inr (FSRV_RUN_CRASH, fs', a, ()) \<and>
     trace_bits fs' = 1 # replicate 63 0 \<and> total_execs fs' = 1"
proof -
  have "\<exists>r fs' a. afl_fsrv_run_target crashing (example_fsrv (replicate 64 7)) empty_world 1000 False () = Inr (r, fs', a, ()) \<and>
      exec_ms a = 10 \<and> wifsignaled a \<and> \<not> interrupted a \<and> map_after a = [1]"
    by (simp add: afl_fsrv_run_target_def crashing_def example_fsrv_def request_run_def await_child_def
        collect_status_def reap_def outcome_def Let_def)
  then obtain r fs' a where run: "afl_fsrv_run_target crashing (example_fsrv (replicate 64 7)) empty_world 1000 False () = Inr (r, fs', a, ())"
    and a: "exec_ms a = 10" "wifsignaled a" "\<not> interrupted a" "map_after a = [1]"
    by blast
  have out: "r = (if ldw (trace_bits fs') = EXEC_FAIL_SIG then FSRV_RUN_ERROR else if exec_ms a > 1000 then FSRV_RUN_TMOUT
      else if crashed (example_fsrv (replicate 64 7)) a then FSRV_RUN_CRASH else FSRV_RUN_OK)"
    "trace_bits fs' = overlay (map_after a) (replicate (unat (map_size (example_fsrv (replicate 64 7)))) 0 @
      drop (unat (map_size (example_fsrv (replicate 64 7)))) (trace_bits (example_fsrv (replicate 64 7))))"
    "total_execs fs' = total_execs (example_fsrv (replicate 64 7)) + 1"
    using afl_fsrv_run_target_outcome [OF run _ a(3)] by blast+
  have size: "unat (map_size (example_fsrv (replicate 64 7))) = 64" "trace_bits (example_fsrv (replicate 64 7)) = replicate 64 7"
    by (simp_all add: example_fsrv_def)
  have trace: "trace_bits fs' = 1 # replicate 63 0"
    using out(2) [unfolded size] a(4) by (simp add: overlay_def numeral_eq_Suc)
  have "r = FSRV_RUN_CRASH"
  proof -
    have "ldw (1 # replicate 63 0) \<noteq> EXEC_FAIL_SIG"
      by code_simp
    then show ?thesis
      using out(1) a trace by (simp add: crashed_def)
  qed
  then show ?thesis
    using run trace out(3) by (auto simp: example_fsrv_def)
qed

theorem ck_write_loses_witness:
  "ck_write [3, 4] [0, 1, 2, 3, 4, 5, 6, 7, 8, 9] = [0, 1, 2, 3, 4, 5, 6]"
  using ck_write_loses [of 3 4 "[0, 1, 2, 3, 4, 5, 6, 7, 8, 9]"] by simp

end
