(* ===== verification/Trim.thy ===== *)
theory Trim
  imports Cache Target "HOL-Library.Sublist"
begin

text \<open>
  The trimmer (\<open>trim_case\<close> of src/afl-fuzz-run.c): it removes chunks of a test case, of sizes that
  are halved round by round, as long as the checksum of the target's trace stays what it was for
  the whole test case, and rewrites the file. The custom trimmers of the user, which replace the
  whole procedure, are not modelled. \<open>hash64\<close> is a parameter.
\<close>

section \<open>State\<close>

record afl_trim = afl_run +
  clean_trace :: bytes
  trim_execs :: u64
  bytes_trim_in :: u64
  bytes_trim_out :: u64

definition TRIM_MIN_BYTES :: u32 where "TRIM_MIN_BYTES = 4"
definition TRIM_START_STEPS :: u32 where "TRIM_START_STEPS = 16"
definition TRIM_END_STEPS :: u32 where "TRIM_END_STEPS = 1024"

text \<open>The variables of the loops: the fuzzer, the files, the target, \<open>in_buf\<close>, \<open>q->len\<close>, \<open>needs_write\<close>.\<close>

record ('a, 'x) trim_state =
  t_afl :: 'a
  t_world :: world
  t_ext :: 'x
  t_buf :: bytes
  t_len :: u32
  t_write :: bool

section \<open>The loops\<close>

text \<open>\<open>memmove\<close> of the tail over a chunk.\<close>

definition remove_chunk :: "u32 \<Rightarrow> u32 \<Rightarrow> ('a, 'x) trim_state \<Rightarrow> ('a, 'x) trim_state" where
  "remove_chunk pos avail st =
     (let p = unat pos; n = unat avail; tail = unat (t_len st - pos - avail); b = t_buf st
      in st\<lparr>t_buf := take p b @ take tail (drop (p + n) b) @ drop (p + tail) b, t_len := t_len st - avail\<rparr>)"

text \<open>One execution without a chunk: the outcome, and whether the chunk is gone unless the trimmer aborts.\<close>

definition trim_try ::
  "'x child \<Rightarrow> (bytes \<Rightarrow> u64) \<Rightarrow> custom_mutator list \<Rightarrow> u64 \<Rightarrow> u32 \<Rightarrow> u32 \<Rightarrow> (('a) afl_trim_scheme, 'x) trim_state
     \<Rightarrow> (fsrv_run_result \<times> bool option \<times> (('a) afl_trim_scheme, 'x) trim_state) res" where
  "trim_try child hash64 muts cksum remove_len pos st =
     (let avail = min remove_len (t_len st - pos) in
      bnd (write_with_gap muts (t_afl st) (t_world st) (t_buf st) (t_len st) pos avail) (\<lambda>(a1, w1).
      bnd (fuzz_run_target child a1 w1 (exec_tmout (fsrv a1)) (t_ext st)) (\<lambda>(fault, a2, x1).
      let st1 = st\<lparr>t_afl := a2, t_world := w1, t_ext := x1\<rparr> in
      if stop_soon a2 \<or> fault = FSRV_RUN_ERROR then Inr (fault, None, st1)
      else bnd (classify_counts (fsrv a2)) (\<lambda>fs.
        let n = unat (map_size fs);
            a3 = a2\<lparr>fsrv := fs, trim_execs := trim_execs a2 + 1\<rparr>
        in if hash64 (take n (trace_bits fs)) = cksum
           then Inr (fault, Some True, (remove_chunk pos avail st1)
                  \<lparr>t_afl := (if t_write st then a3 else a3\<lparr>clean_trace := overlay (take n (trace_bits fs)) (clean_trace a3)\<rparr>),
                   t_write := True\<rparr>)
           else Inr (fault, Some False, st1\<lparr>t_afl := a3\<rparr>)))))"

text \<open>The inner loop over the chunks of one size; the Boolean of the result is an abort.\<close>

partial_function (option) trim_pass ::
  "(u32 \<Rightarrow> u32 \<Rightarrow> ('a, 'x) trim_state \<Rightarrow> (fsrv_run_result \<times> bool option \<times> ('a, 'x) trim_state) res)
     \<Rightarrow> u32 \<Rightarrow> u32 \<Rightarrow> fsrv_run_result \<Rightarrow> ('a, 'x) trim_state \<Rightarrow> (fsrv_run_result \<times> bool \<times> ('a, 'x) trim_state) res option" where
  "trim_pass tr remove_len pos fault st =
     (if \<not> pos < t_len st then Some (Inr (fault, False, st))
      else case tr remove_len pos st of
             Inl e \<Rightarrow> Some (Inl e)
           | Inr r \<Rightarrow>
               (case fst (snd r) of
                  None \<Rightarrow> Some (Inr (fst r, True, snd (snd r)))
                | Some removed \<Rightarrow>
                    trim_pass tr remove_len (if removed then pos else pos + remove_len) (fst r) (snd (snd r))))"

definition len_p2 :: "u32 \<Rightarrow> u32" where
  "len_p2 len = ucast (next_pow2 (ucast len))"

partial_function (option) trim_rounds ::
  "(u32 \<Rightarrow> u32 \<Rightarrow> ('a, 'x) trim_state \<Rightarrow> (fsrv_run_result \<times> bool option \<times> ('a, 'x) trim_state) res)
     \<Rightarrow> u32 \<Rightarrow> fsrv_run_result \<Rightarrow> ('a, 'x) trim_state \<Rightarrow> (fsrv_run_result \<times> bool \<times> ('a, 'x) trim_state) res option" where
  "trim_rounds tr remove_len fault st =
     (if \<not> remove_len \<ge> max (len_p2 (t_len st) div TRIM_END_STEPS) TRIM_MIN_BYTES then Some (Inr (fault, False, st))
      else Option.bind (trim_pass tr remove_len remove_len fault st) (\<lambda>r.
        case r of
          Inl e \<Rightarrow> Some (Inl e)
        | Inr v \<Rightarrow> if fst (snd v) then Some (Inr v)
                   else trim_rounds tr (drop_bit 1 remove_len) (fst v) (snd (snd v))))"

section \<open>Writing the result\<close>

text \<open>
  The loop of the \<open>no_unlink\<close> branch; the list holds what \<open>write\<close> returns, writes behind its end are
  complete. Every write starts at the beginning of the buffer.
\<close>

fun rewrite_loop :: "int list \<Rightarrow> bytes \<Rightarrow> nat \<Rightarrow> bytes" where
  "rewrite_loop [] b written = take (length b - written) b"
| "rewrite_loop (r # rs) b written =
     (if written \<ge> length b then []
      else if r > 0 then take (nat r) b @ rewrite_loop rs b (written + nat r)
      else rewrite_loop rs b written)"

definition rewrite_file :: "int list \<Rightarrow> ('a) afl_run_scheme \<Rightarrow> string \<Rightarrow> bytes \<Rightarrow> world \<Rightarrow> world res" where
  "rewrite_file rs afl fn b w =
     (if no_unlink afl then write_new_file True fn (rewrite_loop rs b 0) w
      else write_new_file False fn (ck_write rs b) w)"

text \<open>
  \<open>same\<close> tells whether \<open>in_buf\<close> is the block in the cache, as it is when the caller got it from there.
\<close>

definition finish_trim ::
  "int list \<Rightarrow> bool \<Rightarrow> (nat \<Rightarrow> u8) \<Rightarrow> bool \<Rightarrow> nat \<Rightarrow> u32 \<Rightarrow> bytes \<Rightarrow> ('a) afl_trim_scheme \<Rightarrow> world
     \<Rightarrow> (('a) afl_trim_scheme \<times> world) res" where
  "finish_trim rs mem_ok junk same q orig_len buf afl w =
     bnd (q_get afl q) (\<lambda>e.
     bnd (peel (unat (q_len e)) buf) (\<lambda>b.
     bnd (rewrite_file rs afl (fname e) b w) (\<lambda>w1.
     bnd (queue_testcase_retake_mem mem_ok junk same afl q buf (q_len e) orig_len) (\<lambda>a1.
     bnd (peel (unat (map_size (fsrv a1))) (clean_trace a1)) (\<lambda>t.
     bnd (update_bitmap_score (a1\<lparr>fsrv := (fsrv a1)\<lparr>trace_bits := overlay t (trace_bits (fsrv a1))\<rparr>\<rparr>) q) (\<lambda>a2.
     Inr (a2, w1)))))))"

definition trim_case ::
  "'x child \<Rightarrow> (bytes \<Rightarrow> u64) \<Rightarrow> custom_mutator list \<Rightarrow> int list \<Rightarrow> bool \<Rightarrow> (nat \<Rightarrow> u8) \<Rightarrow> bool
     \<Rightarrow> ('a) afl_trim_scheme \<Rightarrow> world \<Rightarrow> 'x \<Rightarrow> nat \<Rightarrow> bytes
     \<Rightarrow> (fsrv_run_result \<times> bytes \<times> ('a) afl_trim_scheme \<times> world \<times> 'x) res option" where
  "trim_case child hash64 muts rs mem_ok junk same afl w x q in_buf =
     (case q_get afl q of
        Inl e \<Rightarrow> Some (Inl e)
      | Inr e \<Rightarrow>
          if q_len e < 5 then Some (Inr (FSRV_RUN_OK, in_buf, afl, w, x))
          else
            let st0 = \<lparr>t_afl = afl\<lparr>bytes_trim_in := bytes_trim_in afl + ucast (q_len e)\<rparr>, t_world = w, t_ext = x,
                       t_buf = in_buf, t_len = q_len e, t_write = False\<rparr>;
                first_len = max (len_p2 (q_len e) div TRIM_START_STEPS) TRIM_MIN_BYTES
            in Option.bind (trim_rounds (trim_try child hash64 muts (exec_cksum e)) first_len FSRV_RUN_OK st0) (\<lambda>r.
               Some (bnd r (\<lambda>(fault, aborted, st).
                 let a1 = q_upd q (\<lambda>e. e\<lparr>q_len := t_len st, testcase_buf := (if same then Some (t_buf st) else testcase_buf e)\<rparr>) (t_afl st)
                 in bnd (if \<not> aborted \<and> t_write st
                         then finish_trim rs mem_ok junk same q (q_len e) (t_buf st) a1 (t_world st)
                         else Inr (a1, t_world st)) (\<lambda>(a2, w2).
                    Inr (fault, t_buf st, a2\<lparr>bytes_trim_out := bytes_trim_out a2 + ucast (t_len st)\<rparr>, w2, t_ext st))))))"

section \<open>The loops as such\<close>

text \<open>
  What the loops need of one attempt: on a state in order it does not abort, it either removes the
  chunk, only if the check succeeds on what remains, or leaves the test case as it is.
\<close>

definition content :: "('a, 'x) trim_state \<Rightarrow> bytes" where
  "content st = take (unat (t_len st)) (t_buf st)"

definition without :: "nat \<Rightarrow> nat \<Rightarrow> bytes \<Rightarrow> bytes" where
  "without p n b = take p b @ drop (p + n) b"

locale trimming =
  fixes tr :: "u32 \<Rightarrow> u32 \<Rightarrow> ('a, 'x) trim_state \<Rightarrow> (fsrv_run_result \<times> bool option \<times> ('a, 'x) trim_state) res"
    and fine :: "('a, 'x) trim_state \<Rightarrow> bool"
    and check :: "bytes \<Rightarrow> bool"
  assumes small: "fine st \<Longrightarrow> t_len st \<le> MAX_FILE"
    and attempt: "fine st \<Longrightarrow> pos < t_len st \<Longrightarrow> avail = min remove_len (t_len st - pos) \<Longrightarrow>
      \<exists>fault st'. fine st' \<and>
        (if check (without (unat pos) (unat avail) (content st))
         then tr remove_len pos st = Inr (fault, Some True, st') \<and> t_len st' = t_len st - avail \<and>
           content st' = without (unat pos) (unat avail) (content st) \<and> t_write st'
         else tr remove_len pos st = Inr (fault, Some False, st') \<and> t_len st' = t_len st \<and>
           content st' = content st \<and> t_write st' = t_write st)"
begin

text \<open>What any number of attempts at positions from \<open>n\<close> on achieves.\<close>

definition trimmed :: "nat \<Rightarrow> ('a, 'x) trim_state \<Rightarrow> ('a, 'x) trim_state \<Rightarrow> bool" where
  "trimmed n st st' \<longleftrightarrow> fine st' \<and> subseq (content st') (content st) \<and>
     take n (content st') = take n (content st) \<and> t_len st' \<le> t_len st \<and>
     (if t_len st' < t_len st then t_write st' \<and> check (content st')
      else content st' = content st \<and> t_write st' = t_write st)"

lemma trimmed_refl: "fine st \<Longrightarrow> trimmed n st st"
  by (simp add: trimmed_def)

lemma trimmed_trans:
  assumes "trimmed n st st'" "trimmed n st' st''"
  shows "trimmed n st st''"
proof -
  have "subseq (content st'') (content st)"
    using assms subseq_order.order_trans by (auto simp: trimmed_def)
  moreover have "t_len st'' \<le> t_len st' \<and> t_len st' \<le> t_len st"
    using assms by (simp add: trimmed_def)
  ultimately show ?thesis
    using assms by (auto simp: trimmed_def split: if_splits)
qed

lemma trimmed_attempt:
  assumes "fine st" "pos < t_len st" "0 < remove_len" "n \<le> unat pos"
  shows "\<exists>fault removed st'. tr remove_len pos st = Inr (fault, Some removed, st') \<and> trimmed n st st' \<and>
    (if removed then t_len st' < t_len st else t_len st' = t_len st)"
proof -
  define avail where "avail = min remove_len (t_len st - pos)"
  have avail: "0 < avail" "avail \<le> t_len st - pos"
    using assms(2,3) by (auto simp: avail_def min_def word_gt_0)
  have sub: "t_len st - pos \<le> t_len st"
    using assms(2) by (simp add: word_sub_le)
  then have "avail \<le> t_len st"
    using avail(2) by simp
  then have less: "t_len st - avail < t_len st"
    using avail(1) by (simp add: word_less_nat_alt word_le_nat_alt unat_sub)
  have cut: "subseq (without (unat pos) m b) b" for m and b :: bytes
  proof -
    have "subseq (drop m (drop (unat pos) b)) (drop (unat pos) b)"
      by (intro suffix_imp_subseq suffix_drop)
    then have "subseq (take (unat pos) b @ drop (unat pos + m) b) (take (unat pos) b @ drop (unat pos) b)"
      by (simp only: subseq_append' drop_drop add.commute)
    then show ?thesis
      by (simp only: append_take_drop_id without_def)
  qed
  have keep: "take n (without (unat pos) m (content st)) = take n (content st)" for m
  proof -
    have "unat pos \<le> length (content st) \<or> n \<le> length (take (unat pos) (content st)) \<or> length (content st) \<le> unat pos"
      by linarith
    then show ?thesis
      using assms(4) by (cases "unat pos \<le> length (content st)") (auto simp: without_def min_absorb1)
  qed
  obtain fault st' where st': "fine st'"
    "if check (without (unat pos) (unat avail) (content st))
         then tr remove_len pos st = Inr (fault, Some True, st') \<and> t_len st' = t_len st - avail \<and>
           content st' = without (unat pos) (unat avail) (content st) \<and> t_write st'
         else tr remove_len pos st = Inr (fault, Some False, st') \<and> t_len st' = t_len st \<and>
           content st' = content st \<and> t_write st' = t_write st"
    using attempt [OF assms(1,2) avail_def] by blast
  show ?thesis
  proof (cases "check (without (unat pos) (unat avail) (content st))")
    case True
    then show ?thesis
      using st' cut keep less by (intro exI [of _ fault] exI [of _ True] exI [of _ st']) (auto simp: trimmed_def)
  next
    case False
    then show ?thesis
      using st' by (intro exI [of _ fault] exI [of _ False] exI [of _ st']) (auto simp: trimmed_def)
  qed
qed

lemma pass_result:
  assumes "fine st" "0 < remove_len" "remove_len \<le> 0x40000000" "n \<le> unat pos"
  shows "\<exists>fault' st'. trim_pass tr remove_len pos fault st = Some (Inr (fault', False, st')) \<and> trimmed n st st'"
  using assms
proof (induction "unat (t_len st) - unat pos" arbitrary: st pos fault rule: less_induct)
  case less
  show ?case
  proof (cases "pos < t_len st")
    case False
    then show ?thesis
      using less.prems(1) trimmed_refl by (subst trim_pass.simps) simp
  next
    case True
    obtain f removed st' where tr: "tr remove_len pos st = Inr (f, Some removed, st')" "trimmed n st st'"
      "if removed then t_len st' < t_len st else t_len st' = t_len st"
      using trimmed_attempt [OF less.prems(1) True less.prems(2,4)] by blast
    define pos' where "pos' = (if removed then pos else pos + remove_len)"
    have "unat (t_len st) \<le> unat MAX_FILE" "unat remove_len \<le> unat (0x40000000 :: u32)"
      using small [OF less.prems(1)] less.prems(3) by (simp_all add: word_le_nat_alt)
    then have plus: "unat (pos + remove_len) = unat pos + unat remove_len"
      using True by (intro unat_plus_simple [THEN iffD1] no_olen_add_nat [THEN iffD2]) (simp add: MAX_FILE_def word_less_nat_alt)
    have "unat (t_len st') - unat pos' < unat (t_len st) - unat pos" "n \<le> unat pos'"
      using True tr(3) less.prems(2,4) plus by (auto simp: pos'_def word_less_nat_alt split: if_splits)
    moreover have "fine st'"
      using tr(2) by (simp add: trimmed_def)
    ultimately obtain f' st'' where "trim_pass tr remove_len pos' f st' = Some (Inr (f', False, st''))" "trimmed n st' st''"
      using less.hyps less.prems(2,3) by blast
    then show ?thesis
      using True tr(1) trimmed_trans [OF tr(2)] by (subst trim_pass.simps) (simp add: pos'_def)
  qed
qed

lemma rounds_result:
  assumes "fine st" "remove_len \<le> 0x40000000"
  shows "\<exists>fault' st'. trim_rounds tr remove_len fault st = Some (Inr (fault', False, st')) \<and> trimmed 4 st st'"
  using assms
proof (induction "unat remove_len" arbitrary: remove_len st fault rule: less_induct)
  case less
  show ?case
  proof (cases "remove_len \<ge> max (len_p2 (t_len st) div TRIM_END_STEPS) TRIM_MIN_BYTES")
    case False
    then show ?thesis
      using less.prems(1) trimmed_refl by (subst trim_rounds.simps) simp
  next
    case True
    then have "TRIM_MIN_BYTES \<le> remove_len"
      by simp
    then have four: "4 \<le> unat remove_len"
      by (simp add: TRIM_MIN_BYTES_def word_le_nat_alt)
    then have "0 < remove_len"
      by (simp add: word_less_nat_alt)
    from pass_result [OF less.prems(1) this less.prems(2) four] obtain f st' where
      pass: "trim_pass tr remove_len remove_len fault st = Some (Inr (f, False, st'))" "trimmed 4 st st'"
      by blast
    have half: "unat (drop_bit 1 remove_len) = unat remove_len div 2"
      by (simp add: unat_drop_bit)
    then have "unat (drop_bit 1 remove_len) < unat remove_len" "drop_bit 1 remove_len \<le> 0x40000000"
      using four less.prems(2) by (auto simp: word_le_nat_alt)
    moreover have "fine st'"
      using pass(2) by (simp add: trimmed_def)
    ultimately obtain f' st'' where "trim_rounds tr (drop_bit 1 remove_len) f st' = Some (Inr (f', False, st''))" "trimmed 4 st' st''"
      using less.hyps by blast
    then show ?thesis
      using True pass(1) trimmed_trans [OF pass(2)] by (subst trim_rounds.simps) simp
  qed
qed

end

section \<open>A steady target\<close>

text \<open>
  A target whose trace is a function of its input, that can always be run, and whose map never looks
  like a failed execution; it may crash or time out.
\<close>

definition steady :: "(bytes \<Rightarrow> bytes) \<Rightarrow> nat \<Rightarrow> 'x child \<Rightarrow> bool" where
  "steady T n child \<longleftrightarrow>
     (\<forall>inp. ldw (overlay (T inp) (replicate n 0)) \<noteq> EXEC_FAIL_SIG) \<and>
     (\<forall>timeout late inp x. ctl_written (fst (child timeout late inp x)) \<and>
        (\<exists>pid. st_pid (fst (child timeout late inp x)) = Some pid \<and> 0 < sint pid) \<and>
        exec_ms (fst (child timeout late inp x)) \<noteq> 0 \<and> late_status (fst (child timeout late inp x)) \<and>
        \<not> interrupted (fst (child timeout late inp x)) \<and> map_after (fst (child timeout late inp x)) = T inp)"

definition checksum :: "(bytes \<Rightarrow> u64) \<Rightarrow> (bytes \<Rightarrow> bytes) \<Rightarrow> nat \<Rightarrow> bytes \<Rightarrow> u64" where
  "checksum hash64 T n inp = hash64 (map count_class_lookup8 (overlay (T inp) (replicate n 0)))"

lemma request_run_returns:
  assumes "ctl_written a" "st_pid a = Some pid" "0 < sint pid" "exec_ms a \<noteq> 0" "late_status a" "4 \<le> length (trace_bits fs)"
  shows "\<exists>r fs'. request_run False t a fs = Inr (r, fs')"
  using assms
  by (auto simp: request_run_def await_child_def collect_status_def reap_def outcome_def Let_def)

lemma steady_run:
  assumes "steady T n child" "map_wf (fsrv afl)" "unat (map_size (fsrv afl)) = n" "0 < n" "\<not> stop_soon afl"
  shows "\<exists>r x' fs b. fuzz_run_target child afl w t x =
      Inr (r, afl\<lparr>fsrv := fs, stop_soon := False, skip_requested := b\<rparr>, x') \<and> r \<noteq> FSRV_RUN_ERROR \<and>
    run_frame fs = run_frame (fsrv afl) \<and> trace_bits fs = overlay (T (target_input (fsrv afl) w)) (replicate n 0) \<and>
    (let a = fst (child t (last_run_timed_out (fsrv afl)) (target_input (fsrv afl) w) x) in
     exec_ms a \<le> t \<and> wifsignaled a \<longrightarrow> r = FSRV_RUN_CRASH)"
proof -
  define fs where "fs = fsrv afl"
  obtain a x' where a: "child t (last_run_timed_out fs) (target_input fs w) x = (a, x')"
    by (cases "child t (last_run_timed_out fs) (target_input fs w) x")
  obtain pid where ok: "ctl_written a" "st_pid a = Some pid" "0 < sint pid" "exec_ms a \<noteq> 0" "late_status a"
      "\<not> interrupted a" "map_after a = T (target_input fs w)"
    using assms(1) a unfolding steady_def by (metis fst_conv)
  have len: "length (trace_bits fs) = n" "4 \<le> n"
    using assms(2-4) by (auto simp: map_wf_def fs_def)
  then have "4 \<le> length (trace_bits (fs\<lparr>trace_bits := replicate n 0 @ drop n (trace_bits fs)\<rparr>))"
    by simp
  from request_run_returns [OF ok(1-5) this] obtain r fs' where
    "request_run False t a (fs\<lparr>trace_bits := replicate n 0 @ drop n (trace_bits fs)\<rparr>) = Inr (r, fs')"
    by blast
  then have run: "afl_fsrv_run_target child fs w t False x = Inr (r, fs', a, x')"
    using a ok(6) len assms(3) by (simp add: afl_fsrv_run_target_def fs_def Let_def)
  note out = run_target_outcome [OF run _ ok(6)]
  have trace: "trace_bits fs' = overlay (T (target_input fs w)) (replicate n 0)"
    using out(2) ok(7) len assms(3) by (simp add: fs_def)
  have "r \<noteq> FSRV_RUN_ERROR"
    using out(1) trace assms(1) by (auto simp: steady_def split: if_splits)
  moreover have "exec_ms a \<le> t \<and> wifsignaled a \<longrightarrow> r = FSRV_RUN_CRASH"
    using out(1) trace assms(1) by (auto simp: steady_def crashed_def)
  ultimately show ?thesis
    using run run_target_frame [OF run] trace assms(5) ok(6) a
    by (auto simp: fuzz_run_target_def fs_def Let_def)
qed

text \<open>The attempts of the trimmer are what the loops need, for the check that the checksum is kept.\<close>

definition trim_frame :: "('a) afl_trim_scheme \<Rightarrow> ('a) afl_trim_scheme" where
  "trim_frame afl = afl\<lparr>fsrv := example_fsrv [], stop_soon := False, skip_requested := False,
     trim_execs := 0, clean_trace := replicate (length (clean_trace afl)) 0\<rparr>"

lemma trim_frame_upd [simp]:
  "trim_frame (afl\<lparr>fsrv := fs\<rparr>) = trim_frame afl" "trim_frame (afl\<lparr>stop_soon := b\<rparr>) = trim_frame afl"
  "trim_frame (afl\<lparr>skip_requested := b\<rparr>) = trim_frame afl" "trim_frame (afl\<lparr>trim_execs := k\<rparr>) = trim_frame afl"
  "length c = length (clean_trace afl) \<Longrightarrow> trim_frame (afl\<lparr>clean_trace := c\<rparr>) = trim_frame afl"
  by (simp_all add: trim_frame_def)

lemma trim_frame_sel:
  assumes "trim_frame afl = trim_frame afl0"
  shows "queue_buf afl = queue_buf afl0" "top_rated afl = top_rated afl0" "queued_items afl = queued_items afl0"
    "map_tmp_buf afl = map_tmp_buf afl0" "testcase_matrix afl = testcase_matrix afl0" "no_unlink afl = no_unlink afl0"
    "length (clean_trace afl) = length (clean_trace afl0)"
proof -
  have sel: "queue_buf a = queue_buf (trim_frame a)" "top_rated a = top_rated (trim_frame a)"
    "queued_items a = queued_items (trim_frame a)" "map_tmp_buf a = map_tmp_buf (trim_frame a)"
    "testcase_matrix a = testcase_matrix (trim_frame a)" "no_unlink a = no_unlink (trim_frame a)"
    "length (clean_trace a) = length (clean_trace (trim_frame a))" for a :: "('b) afl_trim_scheme"
    by (simp_all add: trim_frame_def)
  show "queue_buf afl = queue_buf afl0" "top_rated afl = top_rated afl0" "queued_items afl = queued_items afl0"
    "map_tmp_buf afl = map_tmp_buf afl0" "testcase_matrix afl = testcase_matrix afl0" "no_unlink afl = no_unlink afl0"
    "length (clean_trace afl) = length (clean_trace afl0)"
    using sel [of afl] sel [of afl0] by (simp_all only: assms)
qed

definition trim_fine ::
  "'x child \<Rightarrow> (bytes \<Rightarrow> bytes) \<Rightarrow> nat \<Rightarrow> ('a) afl_trim_scheme \<Rightarrow> world \<Rightarrow> (('a) afl_trim_scheme, 'x) trim_state \<Rightarrow> bool" where
  "trim_fine child T n afl0 w0 st \<longleftrightarrow> trim_frame (t_afl st) = trim_frame afl0 \<and> deny (t_world st) = deny w0 \<and> steady T n child \<and> custom_mutators_count (t_afl st) = 0 \<and>
     transport_ok (fsrv (t_afl st)) (t_world st) \<and> map_wf (fsrv (t_afl st)) \<and>
     unat (map_size (fsrv (t_afl st))) = n \<and> 0 < n \<and> \<not> stop_soon (t_afl st) \<and>
     t_len st \<le> MAX_FILE \<and> unat (t_len st) \<le> length (t_buf st)"

lemma take_moved:
  assumes "p + n \<le> l" "l \<le> length b"
  shows "take (l - n) (take p b @ take (l - p - n) (drop (p + n) b) @ r) = take p (take l b) @ drop (p + n) (take l b)"
proof -
  define x where "x = take p b @ take (l - p - n) (drop (p + n) b)"
  have "length x = l - n"
    using assms by (simp add: x_def)
  then have "take (l - n) (x @ r) = x"
    by simp
  moreover have "take p (take l b) = take p b" and "drop (p + n) (take l b) = take (l - p - n) (drop (p + n) b)"
    using assms(1) by (simp_all add: drop_take min_absorb1)
  ultimately show ?thesis
    by (simp add: x_def)
qed

lemma transport_ok_trace [simp]: "transport_ok (fs\<lparr>trace_bits := t, actual_counts := c\<rparr>) w = transport_ok fs w"
  by (simp add: transport_ok_def)

lemma content_remove_chunk:
  assumes "unat pos + unat avail \<le> unat (t_len st)" "unat (t_len st) \<le> length (t_buf st)"
  shows "t_len (remove_chunk pos avail st) = t_len st - avail"
    and "content (remove_chunk pos avail st) = without (unat pos) (unat avail) (content st)"
    and "unat (t_len st - avail) \<le> length (t_buf (remove_chunk pos avail st))"
proof -
  have tail: "unat (t_len st - pos - avail) = unat (t_len st) - unat pos - unat avail"
    and new: "unat (t_len st - avail) = unat (t_len st) - unat avail"
    using assms(1) by (simp_all add: unat_sub word_le_nat_alt)
  show "t_len (remove_chunk pos avail st) = t_len st - avail"
    by (simp add: remove_chunk_def Let_def)
  show "content (remove_chunk pos avail st) = without (unat pos) (unat avail) (content st)"
    using take_moved [OF assms] by (simp add: remove_chunk_def content_def without_def tail new Let_def)
  show "unat (t_len st - avail) \<le> length (t_buf (remove_chunk pos avail st))"
    using assms by (simp add: remove_chunk_def tail new Let_def)
qed

lemma trim_try_fine:
  assumes "trim_fine child T n afl0 w0 st" "pos < t_len st" "avail = min remove_len (t_len st - pos)"
  shows "\<exists>fault st'. trim_fine child T n afl0 w0 st' \<and>
    (if checksum hash64 T n (without (unat pos) (unat avail) (content st)) = cksum
     then trim_try child hash64 muts cksum remove_len pos st = Inr (fault, Some True, st') \<and> t_len st' = t_len st - avail \<and>
       content st' = without (unat pos) (unat avail) (content st) \<and> t_write st'
     else trim_try child hash64 muts cksum remove_len pos st = Inr (fault, Some False, st') \<and> t_len st' = t_len st \<and>
       content st' = content st \<and> t_write st' = t_write st)"
proof -
  note fine = assms(1) [unfolded trim_fine_def]
  have "unat (t_len st - pos) = unat (t_len st) - unat pos" "unat avail \<le> unat (t_len st - pos)"
    using assms(2,3) by (simp_all add: unat_sub word_le_nat_alt word_less_nat_alt min_def)
  then have sum: "unat pos + unat avail \<le> unat (t_len st)"
    using assms(2) by (simp add: word_less_nat_alt)
  have "take (unat pos) (t_buf st) @ drop (unat pos + unat avail) (take (unat (t_len st)) (t_buf st))
      = without (unat pos) (unat avail) (content st)"
    using sum by (simp add: without_def content_def min_absorb1)
  with gap_delivered [of "t_afl st" "t_world st" "t_len st" pos avail "t_buf st" muts] fine sum
  obtain fs1 w1 where gap: "write_with_gap muts (t_afl st) (t_world st) (t_buf st) (t_len st) pos avail = Inr ((t_afl st)\<lparr>fsrv := fs1\<rparr>, w1)"
    "target_input fs1 w1 = without (unat pos) (unat avail) (content st)" "transport_ok fs1 w1" "deny w1 = deny (t_world st)"
    "trace_bits fs1 = trace_bits (fsrv (t_afl st))" "map_size fs1 = map_size (fsrv (t_afl st))"
    "real_map_size fs1 = real_map_size (fsrv (t_afl st))" "exec_tmout fs1 = exec_tmout (fsrv (t_afl st))"
    by auto
  have wf1: "map_wf fs1" "unat (map_size fs1) = n"
    using fine gap(5-7) by (auto simp: map_wf_def)
  then obtain r x' fs2 b where run: "fuzz_run_target child ((t_afl st)\<lparr>fsrv := fs1\<rparr>) w1 (exec_tmout fs1) (t_ext st) =
      Inr (r, (t_afl st)\<lparr>fsrv := fs2, stop_soon := False, skip_requested := b\<rparr>, x')" "r \<noteq> FSRV_RUN_ERROR"
    "run_frame fs2 = run_frame fs1" "trace_bits fs2 = overlay (T (without (unat pos) (unat avail) (content st))) (replicate n 0)"
    using steady_run [of T n child "(t_afl st)\<lparr>fsrv := fs1\<rparr>" w1 "exec_tmout fs1" "t_ext st"] fine gap(2) by auto
  note frame = run_frame_simps [OF run(3)]
  have wf2: "map_wf fs2"
    using wf1(1) frame by (simp add: map_wf_def)
  define fs3 where "fs3 = fs2\<lparr>trace_bits := map count_class_lookup8 (trace_bits fs2),
    actual_counts := of_nat (weighted_hits (trace_bits fs2))\<rparr>"
  have cls: "classify_counts fs2 = Inr fs3"
    using classify_counts_map [OF wf2] by (simp add: fs3_def)
  have fs3: "map_wf fs3" "unat (map_size fs3) = n" "transport_ok fs3 w1" "length (trace_bits fs3) = n"
  proof -
    show "map_wf fs3" "unat (map_size fs3) = n" "length (trace_bits fs3) = n"
      using wf2 wf1(2) frame run(4) by (simp_all add: fs3_def map_wf_def)
    show "transport_ok fs3 w1"
      using frame(5) gap(3) by (simp add: fs3_def)
  qed
  have sum_is: "hash64 (take n (trace_bits fs3)) = checksum hash64 T n (without (unat pos) (unat avail) (content st))"
    using run(4) by (simp add: fs3_def checksum_def)
  define a3 where "a3 = (t_afl st)\<lparr>fsrv := fs3, stop_soon := False, skip_requested := b, trim_execs := trim_execs (t_afl st) + 1\<rparr>"
  define st1 where "st1 = st\<lparr>t_world := w1, t_ext := x'\<rparr>"
  define a4 where "a4 = (if t_write st then a3 else a3\<lparr>clean_trace := overlay (take n (trace_bits fs3)) (clean_trace a3)\<rparr>)"
  have same: "t_len st1 = t_len st" "t_buf st1 = t_buf st" "content st1 = content st" "t_write st1 = t_write st"
    by (simp_all add: st1_def content_def)
  have tried: "trim_try child hash64 muts cksum remove_len pos st =
      (if checksum hash64 T n (without (unat pos) (unat avail) (content st)) = cksum
       then Inr (r, Some True, (remove_chunk pos avail st1)\<lparr>t_afl := a4, t_write := True\<rparr>)
       else Inr (r, Some False, st1\<lparr>t_afl := a3\<rparr>))"
    using run(1,2) cls fs3(2) sum_is
    by (simp add: trim_try_def gap(1) assms(3) [symmetric] a3_def a4_def st1_def Let_def remove_chunk_def)
  have a3: "custom_mutators_count a3 = 0" "fsrv a3 = fs3" "\<not> stop_soon a3" "fsrv a4 = fs3" "\<not> stop_soon a4" "custom_mutators_count a4 = 0"
    using fine by (simp_all add: a3_def a4_def)
  have frame3: "trim_frame a3 = trim_frame afl0" "trim_frame a4 = trim_frame afl0"
    using fine by (simp_all add: a3_def a4_def)
  note chunk = content_remove_chunk [of pos avail st1, unfolded same, OF sum]
  have "t_len st - avail \<le> t_len st"
    using sum by (intro word_sub_le) (simp add: word_le_nat_alt)
  then have small: "t_len st - avail \<le> MAX_FILE"
    using fine by auto
  show ?thesis
  proof (cases "checksum hash64 T n (without (unat pos) (unat avail) (content st)) = cksum")
    case True
    define st2 where "st2 = (remove_chunk pos avail st1)\<lparr>t_afl := a4, t_write := True\<rparr>"
    have "t_world st2 = w1" "t_len st2 = t_len st - avail" "content st2 = without (unat pos) (unat avail) (content st)"
      "unat (t_len st2) \<le> length (t_buf st2)"
      using chunk fine by (simp_all add: st2_def content_def remove_chunk_def st1_def Let_def)
    then show ?thesis
      using True tried small a3 fs3 fine frame3 gap(4) by (intro exI [of _ r] exI [of _ st2]) (simp add: trim_fine_def st2_def)
  next
    case False
    then show ?thesis
      using tried same a3 fs3 fine frame3 gap(4)
      by (intro exI [of _ r] exI [of _ "st1\<lparr>t_afl := a3\<rparr>"]) (simp add: trim_fine_def content_def st1_def)
  qed
qed

interpretation trimmer: trimming "trim_try child hash64 muts cksum" "trim_fine child T n afl0 w0" "\<lambda>b. checksum hash64 T n b = cksum"
proof (unfold_locales, goal_cases)
  case 1
  then show ?case
    by (simp add: trim_fine_def)
next
  case 2
  then show ?case
    by (rule trim_try_fine)
qed


section \<open>The whole procedure\<close>

lemma queue_wf_upd:
  assumes "queue_wf afl" "map_wf fs" "map_size fs = map_size (fsrv afl)"
    and "queue_buf a = (queue_buf afl)[q := e]" "tc_ref e = tc_ref (queue_buf afl ! q)" "trace_mini e = trace_mini (queue_buf afl ! q)"
    and "top_rated a = top_rated afl" "queued_items a = queued_items afl" "map_tmp_buf a = map_tmp_buf afl"
    and "testcase_matrix a = testcase_matrix afl" "fsrv a = fs"
  shows "queue_wf a"
proof -
  have "tc_ref (queue_buf a ! t) = tc_ref (queue_buf afl ! t)" "trace_mini (queue_buf a ! t) = trace_mini (queue_buf afl ! t)"
    if "t < length (queue_buf afl)" for t
    using assms(4-6) that by (cases "t = q"; simp)+
  then have "top_inv (testcase_matrix afl) m (queue_buf a) (top_rated afl) = top_inv (testcase_matrix afl) m (queue_buf afl) (top_rated afl)" for m
    using assms(4) by (auto simp: top_inv_def)
  then show ?thesis
    using assms by (auto simp: queue_wf_def)
qed

lemma retake_mem_result:
  assumes "q < length (queue_buf afl)" "unat len \<le> length mem" "len \<noteq> old_len"
  shows "\<exists>c k. queue_testcase_retake_mem True junk same afl q mem len old_len =
    Inr (afl\<lparr>queue_buf := (queue_buf afl)[q := (queue_buf afl ! q)\<lparr>testcase_buf := c\<rparr>], q_testcase_cache_size := k\<rparr>)"
proof (cases "testcase_buf (queue_buf afl ! q)")
  case None
  have "(queue_buf afl)[q := (queue_buf afl ! q)\<lparr>testcase_buf := None\<rparr>] = queue_buf afl"
    using None by (metis list_update_id queue_entry.surjective queue_entry.update_convs(25))
  then have "afl = afl\<lparr>queue_buf := (queue_buf afl)[q := (queue_buf afl ! q)\<lparr>testcase_buf := None\<rparr>],
      q_testcase_cache_size := q_testcase_cache_size afl\<rparr>"
    by simp
  then show ?thesis
    using assms(1) None by (intro exI [of _ None] exI [of _ "q_testcase_cache_size afl"]) (simp add: queue_testcase_retake_mem_def)
next
  case (Some b)
  define b1 where "b1 = take (unat len) b @ map junk [length b ..< unat len]"
  have "unat len \<le> length b1"
    by (simp add: b1_def)
  then show ?thesis
    using assms Some
    by (intro exI [of _ "Some (if same then b1 else take (unat len) mem @ drop (unat len) b1)"]
        exI [of _ "q_testcase_cache_size afl + ucast len - ucast old_len"])
      (simp add: queue_testcase_retake_mem_def q_upd_def b1_def Let_def)
qed

lemma rewrite_file_ok:
  assumes "\<not> deny w fn"
  shows "\<exists>w'. rewrite_file [] afl fn b w = Inr w' \<and> files w' fn = Some b"
proof -
  have "ck_write [] b = b" "rewrite_loop [] b 0 = b"
    by (simp_all add: ck_write_def)
  then show ?thesis
    using write_new_file_ok [OF assms, of _ b] by (auto simp: rewrite_file_def)
qed

lemma finish_trim_result:
  assumes wf: "queue_wf afl" "q < length (queue_buf afl)"
    and st: "trim_frame a = trim_frame afl" "map_wf (fsrv a)" "map_size (fsrv a) = map_size (fsrv afl)"
      "unat (map_size (fsrv a)) \<le> length (clean_trace afl)"
    and len: "unat len \<le> length buf" "len \<noteq> old_len" and w: "\<not> deny w (fname (queue_buf afl ! q))"
  shows "\<exists>a' w'. finish_trim [] True junk same q old_len buf
      (q_upd q (\<lambda>e. e\<lparr>q_len := len, testcase_buf := d e\<rparr>) a) w = Inr (a', w') \<and>
    queue_wf a' \<and> length (queue_buf a') = length (queue_buf afl) \<and> q_len (queue_buf a' ! q) = len \<and>
    files w' (fname (queue_buf afl ! q)) = Some (take (unat len) buf)"
proof -
  note sel = trim_frame_sel [OF st(1)]
  define a1 where "a1 = q_upd q (\<lambda>e. e\<lparr>q_len := len, testcase_buf := d e\<rparr>) a"
  have a1: "queue_buf a1 = (queue_buf afl)[q := (queue_buf afl ! q)\<lparr>q_len := len, testcase_buf := d (queue_buf afl ! q)\<rparr>]"
    "fsrv a1 = fsrv a" "clean_trace a1 = clean_trace a"
    by (simp_all add: a1_def q_upd_def sel)
  obtain w1 where w1: "rewrite_file [] a1 (fname (queue_buf afl ! q)) (take (unat len) buf) w = Inr w1"
    "files w1 (fname (queue_buf afl ! q)) = Some (take (unat len) buf)"
    using rewrite_file_ok [OF w] by blast
  obtain c k where retake: "queue_testcase_retake_mem True junk same a1 q buf len old_len =
      Inr (a1\<lparr>queue_buf := (queue_buf a1)[q := (queue_buf a1 ! q)\<lparr>testcase_buf := c\<rparr>], q_testcase_cache_size := k\<rparr>)"
    using retake_mem_result [of q a1 len buf old_len junk same] wf(2) len a1(1) by auto
  define a2 where "a2 = a1\<lparr>queue_buf := (queue_buf a1)[q := (queue_buf a1 ! q)\<lparr>testcase_buf := c\<rparr>], q_testcase_cache_size := k\<rparr>"
  define t where "t = take (unat (map_size (fsrv a))) (clean_trace a)"
  define a3 where "a3 = a2\<lparr>fsrv := (fsrv a2)\<lparr>trace_bits := overlay t (trace_bits (fsrv a2))\<rparr>\<rparr>"
  have buf3: "queue_buf a3 = (queue_buf afl)[q := (queue_buf afl ! q)\<lparr>q_len := len, testcase_buf := c\<rparr>]"
    using wf(2) by (simp add: a3_def a2_def a1)
  have "queue_wf a3"
  proof (rule queue_wf_upd [OF wf(1) _ _ buf3])
    show "map_wf (fsrv a3)" "map_size (fsrv a3) = map_size (fsrv afl)"
      using st(2,3) by (simp_all add: a3_def a2_def a1(2) map_wf_def)
    show "top_rated a3 = top_rated afl" "queued_items a3 = queued_items afl" "map_tmp_buf a3 = map_tmp_buf afl"
      "testcase_matrix a3 = testcase_matrix afl"
      by (simp_all add: a3_def a2_def a1_def q_upd_def sel)
  qed simp_all
  moreover have q3: "q < length (queue_buf a3)"
    using wf(2) by (simp add: buf3)
  ultimately obtain s where s: "update_bitmap_score a3 q = Inr s" "scored a3 q (unat (map_size (fsrv a3))) s"
    using update_bitmap_score_scored by blast
  have "queue_wf s"
    using scored_wf(1) [OF \<open>queue_wf a3\<close> s(2)] .
  have "map static (queue_buf s) = map static (queue_buf a3)"
    using s(2) unfolding scored_def by force
  note static = this
  have "length (queue_buf s) = length (queue_buf a3)"
    using arg_cong [OF static, of length] by simp
  moreover from this have "static (queue_buf s ! q) = static (queue_buf a3 ! q)"
    using arg_cong [OF static, of "\<lambda>xs. xs ! q"] q3 by simp
  from static_fields(1) [OF this] have "q_len (queue_buf s ! q) = len"
    using wf(2) by (simp add: buf3)
  ultimately have "length (queue_buf s) = length (queue_buf afl)" and "q_len (queue_buf s ! q) = len"
    by (simp_all add: buf3)
  moreover have "finish_trim [] True junk same q old_len buf a1 w = Inr (s, w1)"
  proof -
    have "q_get a1 q = Inr ((queue_buf afl ! q)\<lparr>q_len := len, testcase_buf := d (queue_buf afl ! q)\<rparr>)"
      using wf(2) by (simp add: a1(1))
    moreover have "fsrv a2 = fsrv a" "clean_trace a2 = clean_trace a"
      by (simp_all add: a2_def a1)
    moreover have "peel (unat (map_size (fsrv a))) (clean_trace a) = Inr t"
      using st(4) sel(7) by (simp add: t_def)
    ultimately show ?thesis
      using len(1) w1(1) retake s(1) by (simp add: finish_trim_def a3_def a2_def [symmetric])
  qed
  ultimately show ?thesis
    using \<open>queue_wf s\<close> w1(2) unfolding a1_def by blast
qed

lemma queue_wf_counters [simp]:
  "queue_wf (afl\<lparr>bytes_trim_in := k\<rparr>) = queue_wf afl" "queue_wf (afl\<lparr>bytes_trim_out := k\<rparr>) = queue_wf afl"
  by (simp_all add: queue_wf_def)

text \<open>The search, from the state \<open>trim_case\<close> starts it in.\<close>

definition trim_start :: "('a) afl_trim_scheme \<Rightarrow> world \<Rightarrow> 'x \<Rightarrow> bytes \<Rightarrow> u32 \<Rightarrow> (('a) afl_trim_scheme, 'x) trim_state" where
  "trim_start afl w x in_buf len = \<lparr>t_afl = afl\<lparr>bytes_trim_in := bytes_trim_in afl + ucast len\<rparr>, t_world = w, t_ext = x,
     t_buf = in_buf, t_len = len, t_write = False\<rparr>"

lemma trim_search:
  assumes "queue_wf afl" "custom_mutators_count afl = 0" "\<not> stop_soon afl" "transport_ok (fsrv afl) w"
    and "n = unat (map_size (fsrv afl))" "0 < n" "steady T n child" "len \<le> MAX_FILE" "unat len \<le> length in_buf"
  defines "afl0 \<equiv> afl\<lparr>bytes_trim_in := bytes_trim_in afl + ucast len\<rparr>"
  shows "\<exists>fault st. trim_rounds (trim_try child hash64 muts cksum) (max (len_p2 len div TRIM_START_STEPS) TRIM_MIN_BYTES)
      FSRV_RUN_OK (trim_start afl w x in_buf len) = Some (Inr (fault, False, st)) \<and>
    trim_fine child T n afl0 w st \<and> subseq (content st) (take (unat len) in_buf) \<and>
    take 4 (content st) = take 4 (take (unat len) in_buf) \<and> t_len st \<le> len \<and>
    (if t_len st < len then t_write st \<and> checksum hash64 T n (content st) = cksum
     else content st = take (unat len) in_buf \<and> \<not> t_write st)"
proof -
  define st0 where "st0 = trim_start afl w x in_buf len"
  have st0: "content st0 = take (unat len) in_buf" "t_len st0 = len" "\<not> t_write st0"
    by (simp_all add: content_def st0_def trim_start_def)
  have "map_wf (fsrv afl)"
    using assms(1) by (simp add: queue_wf_def)
  then have fine: "trim_fine child T n afl0 w st0"
    using assms by (simp add: trim_fine_def st0_def trim_start_def)
  have "unat (len_p2 len div TRIM_START_STEPS) \<le> unat (0x40000000 :: u32)"
    using unat_lt [of "len_p2 len"] by (simp add: unat_div TRIM_START_STEPS_def)
  then have "max (len_p2 len div TRIM_START_STEPS) TRIM_MIN_BYTES \<le> 0x40000000"
    by (auto simp: max_def TRIM_MIN_BYTES_def word_le_nat_alt)
  from trimmer.rounds_result [OF fine this, of hash64 muts cksum FSRV_RUN_OK] obtain fault st where
    "trim_rounds (trim_try child hash64 muts cksum) (max (len_p2 len div TRIM_START_STEPS) TRIM_MIN_BYTES)
      FSRV_RUN_OK st0 = Some (Inr (fault, False, st))"
    "trim_fine child T n afl0 w st" "subseq (content st) (content st0)" "take 4 (content st) = take 4 (content st0)"
    "t_len st \<le> t_len st0"
    "if t_len st < t_len st0 then t_write st \<and> checksum hash64 T n (content st) = cksum
     else content st = content st0 \<and> t_write st = t_write st0"
    unfolding trimmer.trimmed_def by blast
  then show ?thesis
    unfolding st0_def [symmetric] by (intro exI [of _ fault] exI [of _ st]) (simp add: st0)
qed

text \<open>What is done with the result of the search.\<close>

lemma trim_outcome:
  fixes d :: "queue_entry \<Rightarrow> bytes option"
  assumes "queue_wf afl" "q < length (queue_buf afl)" "\<not> deny w (fname (queue_buf afl ! q))"
    and "n = unat (map_size (fsrv afl))" "n \<le> length (clean_trace afl)"
    and st: "trim_fine child T n afl w st" and len: "t_len st \<le> len" "t_write st \<longleftrightarrow> t_len st < len"
  defines "a1 \<equiv> q_upd q (\<lambda>e. e\<lparr>q_len := t_len st, testcase_buf := d e\<rparr>) (t_afl st)"
  shows "\<exists>a' w'. (if t_write st then finish_trim [] True junk same q len (t_buf st) a1 (t_world st)
      else Inr (a1, t_world st)) = Inr (a', w') \<and> queue_wf a' \<and> q_len (queue_buf a' ! q) = t_len st \<and>
    (t_len st < len \<longrightarrow> files w' (fname (queue_buf afl ! q)) = Some (content st))"
proof -
  note f = st [unfolded trim_fine_def]
  note sel = trim_frame_sel [of "t_afl st" afl]
  have size: "map_size (fsrv (t_afl st)) = map_size (fsrv afl)"
    using f assms(4) by (auto simp: word_unat_eq_iff)
  show ?thesis
  proof (cases "t_len st < len")
    case True
    then have "t_len st \<noteq> len"
      by simp
    moreover have "\<not> deny (t_world st) (fname (queue_buf afl ! q))" "unat (map_size (fsrv (t_afl st))) \<le> length (clean_trace afl)"
      using f assms(3,5) by simp_all
    ultimately show ?thesis
      using True finish_trim_result [of afl q "t_afl st" "t_len st" "t_buf st" len "t_world st" junk same d] f assms(1,2) size len(2)
      unfolding a1_def content_def by auto
  next
    case False
    have "queue_wf a1"
      by (rule queue_wf_upd [OF assms(1), where fs = "fsrv (t_afl st)" and q = q
            and e = "(queue_buf afl ! q)\<lparr>q_len := t_len st, testcase_buf := d (queue_buf afl ! q)\<rparr>"])
        (use f size sel assms(2) in \<open>simp_all add: a1_def q_upd_def\<close>)
    moreover have "q_len (queue_buf a1 ! q) = t_len st"
      using sel(1) f assms(2) by (simp add: a1_def q_upd_def)
    ultimately show ?thesis
      using False len(2) by auto
  qed
qed

section \<open>Properties\<close>

text \<open>C12. On a steady target \<open>trim_case\<close> ends. What is left of the test case is a subsequence of it that
  starts with the same four bytes; if anything was removed, its trace has the checksum of the entry
  and it is what the file of the entry now holds. The queue stays well-formed.\<close>

theorem trim_case_correct:
  assumes "queue_wf afl" "q < length (queue_buf afl)" "custom_mutators_count afl = 0" "\<not> stop_soon afl"
    and "transport_ok (fsrv afl) w" "\<not> deny w (fname (queue_buf afl ! q))"
    and "n = unat (map_size (fsrv afl))" "0 < n" "n \<le> length (clean_trace afl)" "steady T n child"
    and "len = q_len (queue_buf afl ! q)" "5 \<le> len" "len \<le> MAX_FILE" "unat len \<le> length in_buf"
  shows "\<exists>fault buf afl' w' x' len'.
    trim_case child hash64 muts [] True junk same afl w x q in_buf = Some (Inr (fault, buf, afl', w', x')) \<and>
    queue_wf afl' \<and> len' = q_len (queue_buf afl' ! q) \<and> len' \<le> len \<and>
    subseq (take (unat len') buf) (take (unat len) in_buf) \<and>
    take 4 (take (unat len') buf) = take 4 (take (unat len) in_buf) \<and>
    (if len' < len
     then checksum hash64 T n (take (unat len') buf) = exec_cksum (queue_buf afl ! q) \<and>
       files w' (fname (queue_buf afl ! q)) = Some (take (unat len') buf)
     else take (unat len') buf = take (unat len) in_buf)"
proof -
  define afl0 where "afl0 = afl\<lparr>bytes_trim_in := bytes_trim_in afl + ucast len\<rparr>"
  define e where "e = queue_buf afl ! q"
  obtain fault st where loop: "trim_rounds (trim_try child hash64 muts (exec_cksum e))
      (max (len_p2 len div TRIM_START_STEPS) TRIM_MIN_BYTES) FSRV_RUN_OK (trim_start afl w x in_buf len) = Some (Inr (fault, False, st))"
    and fine: "trim_fine child T n afl0 w st"
    and st: "subseq (content st) (take (unat len) in_buf)" "take 4 (content st) = take 4 (take (unat len) in_buf)" "t_len st \<le> len"
      "if t_len st < len then t_write st \<and> checksum hash64 T n (content st) = exec_cksum e
       else content st = take (unat len) in_buf \<and> \<not> t_write st"
    using trim_search [OF assms(1,3,4,5,7,8,10,13,14)] unfolding afl0_def by blast
  define a1 where "a1 = q_upd q (\<lambda>e. e\<lparr>q_len := t_len st, testcase_buf := (if same then Some (t_buf st) else testcase_buf e)\<rparr>) (t_afl st)"
  have run: "trim_case child hash64 muts [] True junk same afl w x q in_buf =
      Some (bnd (if t_write st then finish_trim [] True junk same q len (t_buf st) a1 (t_world st) else Inr (a1, t_world st))
        (\<lambda>(a2, w2). Inr (fault, t_buf st, a2\<lparr>bytes_trim_out := bytes_trim_out a2 + ucast (t_len st)\<rparr>, w2, t_ext st)))"
    using assms(2,11) leD [OF assms(12)] loop [unfolded trim_start_def]
    by (simp add: trim_case_def a1_def e_def Let_def)
  have "queue_wf afl0" "queue_buf afl0 = queue_buf afl" "fsrv afl0 = fsrv afl" "clean_trace afl0 = clean_trace afl"
    using assms(1) by (simp_all add: afl0_def)
  moreover have "t_write st \<longleftrightarrow> t_len st < len"
    using st(4) by (simp split: if_splits)
  ultimately obtain a' w' where
    "(if t_write st then finish_trim [] True junk same q len (t_buf st) a1 (t_world st) else Inr (a1, t_world st)) = Inr (a', w')"
    "queue_wf a'" "q_len (queue_buf a' ! q) = t_len st" "t_len st < len \<longrightarrow> files w' (fname e) = Some (content st)"
    using trim_outcome [OF _ _ _ _ _ fine st(3), where q = q and junk = junk and same = same
        and d = "\<lambda>e. if same then Some (t_buf st) else testcase_buf e"]
      assms(2,6,7,9) unfolding a1_def e_def by auto
  then show ?thesis
    using run st unfolding content_def e_def by (auto split: if_splits)
qed

definition trim_example :: afl_trim where
  "trim_example = afl_run.extend (run_state\<lparr>fsrv := example_fsrv (replicate 64 0),
       queue_buf := [zero_entry\<lparr>q_len := 8, fname := ''f''\<rparr>], queued_items := 1, top_rated := replicate 64 None,
       map_tmp_buf := replicate 8 0\<rparr>) (afl_trim.fields (replicate 64 0) 0 0 0)"

lemma trim_example_simps:
  "fsrv trim_example = example_fsrv (replicate 64 0)" "queue_buf trim_example = [zero_entry\<lparr>q_len := 8, fname := ''f''\<rparr>]"
  "custom_mutators_count trim_example = 0" "\<not> stop_soon trim_example" "length (clean_trace trim_example) = 64"
  "top_rated trim_example = replicate 64 None" "queued_items trim_example = 1" "length (map_tmp_buf trim_example) = 8"
  "testcase_matrix trim_example = None"
  by (simp_all add: trim_example_def afl_run.defs afl_trim.defs run_state_def afl_crash.defs crash_state_def
      afl_extras.defs dict_example_def mopt_example_def afl_mopt.defs afl_cache.defs zero_afl_def)

lemma trim_example_wf: "queue_wf trim_example"
  by (simp add: queue_wf_def trim_example_simps map_wf_def top_inv_def zero_entry_def count_list_replicate_eq)

lemma crashing_steady: "steady (\<lambda>_. [1]) 64 crashing"
proof -
  have "ldw (overlay [1] (replicate 64 0)) \<noteq> EXEC_FAIL_SIG"
    by code_simp
  then show ?thesis
    by (simp add: steady_def crashing_def)
qed

theorem trim_case_correct_witness:
  "\<exists>fault buf afl' w' x'. trim_case crashing (\<lambda>_. 0) [] [] True (\<lambda>_. 0) False trim_example empty_world () 0 [1, 2, 3, 4, 5, 6, 7, 8]
      = Some (Inr (fault, buf, afl', w', x')) \<and> queue_wf afl' \<and> q_len (queue_buf afl' ! 0) \<le> 8"
proof -
  have ready: "0 < length (queue_buf trim_example)" "custom_mutators_count trim_example = 0" "\<not> stop_soon trim_example"
    "transport_ok (fsrv trim_example) empty_world" "\<not> deny empty_world (fname (queue_buf trim_example ! 0))"
    "64 = unat (map_size (fsrv trim_example))" "0 < (64 :: nat)" "64 \<le> length (clean_trace trim_example)"
    by (simp_all add: trim_example_simps transport_ok_def example_fsrv_def empty_world_def)
  have len: "8 = q_len (queue_buf trim_example ! 0)" "5 \<le> (8 :: u32)" "8 \<le> MAX_FILE"
    "unat (8 :: u32) \<le> length [1, 2, 3, 4, 5, 6, 7, 8 :: u8]"
    by (simp_all add: trim_example_simps MAX_FILE_def)
  from trim_case_correct [OF trim_example_wf ready crashing_steady len, of "\<lambda>_. 0" "[]" "\<lambda>_. 0" False "()"]
  show ?thesis
    by (elim exE conjE) (intro exI conjI, assumption+, simp)
qed

text \<open>The rewriting loop used when files may not be unlinked starts every write at the beginning of
  the buffer, so after a short write the file starts with that part twice, and it loses the end.\<close>

lemma rewrite_loop_repeats:
  assumes "0 < r" "r < length b"
  shows "rewrite_loop [int r] b 0 = take r b @ take (length b - r) b"
    and "length (rewrite_loop [int r] b 0) = length b"
  using assms by simp_all

end
