(* ===== verification/Calibrate.thy ===== *)
theory Calibrate
  imports Virgin Trim
begin

text \<open>
  Calibration (\<open>calibrate_case\<close> of src/afl-fuzz-run.c): a test case is run several times to learn
  how long it takes, what it covers and whether its trace is stable; in IgorFuzz it also lowers the
  minima that \<open>has_few_bits\<close> compares with. The fork server is taken to be up, as it is after the
  first call; messages are not modelled. The clock and \<open>hash64\<close> are parameters.
\<close>

section \<open>State\<close>

record afl_cal = afl_trim +
  first_trace :: bytes
  var_bytes :: bytes
  var_byte_count :: u32
  queued_with_cov :: u32
  queued_variable :: u32
  afl_cal_fast :: bool

definition CAL_CYCLES_FAST :: u32 where "CAL_CYCLES_FAST = 3"
definition CAL_CYCLES :: u32 where "CAL_CYCLES = 7"
definition CAL_CYCLES_LONG :: u32 where "CAL_CYCLES_LONG = 12"
definition CAL_TMOUT_ADD :: u32 where "CAL_TMOUT_ADD = 50"
definition CAL_TMOUT_PERC :: u32 where "CAL_TMOUT_PERC = 125"

text \<open>The local variables; \<open>c_max\<close> is \<open>stage_max\<close>, \<open>c_abort\<close> the jump to \<open>abort_calibration\<close>.\<close>

record ('a, 'x) cal_state =
  c_afl :: 'a
  c_world :: world
  c_ext :: 'x
  c_mem :: bytes
  c_fault :: fsrv_run_result
  c_new_bits :: u8
  c_var :: bool
  c_max :: u32
  c_abort :: bool

section \<open>One execution\<close>

text \<open>Write and run; give up unless it crashed, or when the first run leaves no trace.\<close>

definition cal_run ::
  "'x child \<Rightarrow> custom_mutator list \<Rightarrow> nat \<Rightarrow> u32 \<Rightarrow> nat \<Rightarrow> (('a) afl_cal_scheme, 'x) cal_state
     \<Rightarrow> (('a) afl_cal_scheme, 'x) cal_state res" where
  "cal_run child muts q use_tmout stage_cur c =
     bnd (q_get (c_afl c) q) (\<lambda>e.
     bnd (write_to_testcase muts (c_afl c) (c_world c) (c_mem c) (q_len e) True) (\<lambda>(_, mem, a1, w1).
     bnd (fuzz_run_target child a1 w1 use_tmout (c_ext c)) (\<lambda>(fault, a2, x1).
     let c1 = c\<lparr>c_afl := a2, c_world := w1, c_ext := x1, c_mem := mem, c_fault := fault\<rparr> in
     if stop_soon a2 \<or> fault \<noteq> FSRV_RUN_CRASH then Inr (c1\<lparr>c_abort := True\<rparr>)
     else bnd (if \<not> non_instrumented_mode a2 \<and> stage_cur = 0
               then bnd (count_bytes a2 (trace_bits (fsrv a2))) (\<lambda>n. Inr (n = 0)) else Inr False) (\<lambda>blind.
          Inr (if blind then c1\<lparr>c_fault := FSRV_RUN_NOINST, c_abort := True\<rparr> else c1)))))"

definition gather_bits :: "('a) afl_cal_scheme \<Rightarrow> u8 \<Rightarrow> (u8 \<times> ('a) afl_cal_scheme) res" where
  "gather_bits afl new_bits =
     bnd (has_few_bits afl VIRGIN_BITS) (\<lambda>(hnb, afl').
     Inr (if hnb > 0x10 then hnb else if hnb > new_bits then hnb else new_bits, afl'))"

text \<open>A byte that differs from the first trace is variable and counts as fully discovered.\<close>

definition mark_var_byte :: "nat \<Rightarrow> ('a) afl_cal_scheme \<Rightarrow> ('a) afl_cal_scheme res" where
  "mark_var_byte i afl =
     bnd (rd (var_bytes afl) i) (\<lambda>v.
     if v \<noteq> 0 then Inr afl
     else bnd (rd (first_trace afl) i) (\<lambda>f.
          bnd (rd (trace_bits (fsrv afl)) i) (\<lambda>t.
          if f = t then Inr afl
          else bnd (wr (virgin_bits afl) i 0) (\<lambda>vb.
               Inr (afl\<lparr>var_bytes := (var_bytes afl)[i := 1], virgin_bits := vb\<rparr>)))))"

definition keep_first_trace :: "('a) afl_cal_scheme \<Rightarrow> ('a) afl_cal_scheme" where
  "keep_first_trace afl =
     afl\<lparr>first_trace := overlay (take (unat (map_size (fsrv afl))) (trace_bits (fsrv afl))) (first_trace afl)\<rparr>"

definition cal_compare ::
  "(bytes \<Rightarrow> u64) \<Rightarrow> nat \<Rightarrow> (('a) afl_cal_scheme, 'x) cal_state \<Rightarrow> (('a) afl_cal_scheme, 'x) cal_state res" where
  "cal_compare hash64 q c =
     bnd (classify_counts (fsrv (c_afl c))) (\<lambda>fs.
     let a1 = (c_afl c)\<lparr>fsrv := fs\<rparr>;
         cksum = hash64 (take (unat (map_size fs)) (trace_bits fs))
     in bnd (q_get a1 q) (\<lambda>e.
        if exec_cksum e = cksum then Inr (c\<lparr>c_afl := a1\<rparr>)
        else bnd (gather_bits a1 (c_new_bits c)) (\<lambda>(nb, a2).
          if exec_cksum e \<noteq> 0 then
            bnd (foldm mark_var_byte [0 ..< unat (map_size fs)] a2) (\<lambda>a3.
            Inr (c\<lparr>c_afl := a3, c_new_bits := nb, c_var := True,
                   c_max := (if afl_cal_fast a3 then CAL_CYCLES else CAL_CYCLES_LONG)\<rparr>))
          else Inr (c\<lparr>c_afl := keep_first_trace (q_upd q (\<lambda>e. e\<lparr>exec_cksum := cksum\<rparr>) a2), c_new_bits := nb\<rparr>))))"

text \<open>The loop. \<open>stage_max\<close> only grows, to at most \<open>CAL_CYCLES_LONG\<close>.\<close>

definition cal_round ::
  "'x child \<Rightarrow> (bytes \<Rightarrow> u64) \<Rightarrow> custom_mutator list \<Rightarrow> nat \<Rightarrow> u32 \<Rightarrow> nat \<Rightarrow> (('a) afl_cal_scheme, 'x) cal_state
     \<Rightarrow> (('a) afl_cal_scheme, 'x) cal_state res" where
  "cal_round child hash64 muts q use_tmout i c =
     (if c_abort c \<or> \<not> i < unat (c_max c) then Inr c
      else bnd (cal_run child muts q use_tmout i c) (\<lambda>c1.
           if c_abort c1 then Inr c1 else cal_compare hash64 q c1))"

section \<open>The results\<close>

definition cal_time :: "('a) afl_cal_scheme \<Rightarrow> u64 \<times> u64 \<Rightarrow> u32 \<Rightarrow> u64" where
  "cal_time afl clock stage_max =
     (if fixed_seed afl then ucast (exec_tmout (fsrv afl) - 1) * ucast stage_max
      else let d = snd clock - fst clock in if d = 0 then 1 else d)"

definition lower_minima :: "u8 \<Rightarrow> u32 \<Rightarrow> ('a) afl_cal_scheme \<Rightarrow> ('a) afl_cal_scheme" where
  "lower_minima new_bits bm_size afl =
     (if new_bits > 0x10 then
        afl\<lparr>min_bitmap_size := (if min_bitmap_size afl > bm_size then bm_size else min_bitmap_size afl),
            min_actual_cnts := (if min_actual_cnts afl > actual_counts (fsrv afl) then actual_counts (fsrv afl)
                                else min_actual_cnts afl)\<rparr>
      else afl)"

definition account_time :: "u64 \<Rightarrow> u32 \<Rightarrow> ('a) afl_cal_scheme \<Rightarrow> ('a) afl_cal_scheme" where
  "account_time us stage_max afl =
     afl\<lparr>total_cal_us := total_cal_us afl + us, total_cal_cycles := total_cal_cycles afl + ucast stage_max\<rparr>"

definition account_entry :: "nat \<Rightarrow> u64 \<Rightarrow> u32 \<Rightarrow> u32 \<Rightarrow> u32 \<Rightarrow> ('a) afl_cal_scheme \<Rightarrow> ('a) afl_cal_scheme" where
  "account_entry q us stage_max bm_size late afl =
     (let afl' = q_upd q (\<lambda>e. e\<lparr>exec_us := us div ucast stage_max, bitmap_size := bm_size, handicap := ucast late,
                               cal_failed := 0\<rparr>) afl
      in afl'\<lparr>total_bitmap_size := total_bitmap_size afl' + ucast bm_size,
              total_bitmap_entries := total_bitmap_entries afl' + 1\<rparr>)"

text \<open>Whether the caller is told that the case brought nothing new.\<close>

definition cal_verdict :: "bool \<Rightarrow> bool \<Rightarrow> u8 \<Rightarrow> fsrv_run_result \<Rightarrow> fsrv_run_result" where
  "cal_verdict non_instr first_run new_bits fault =
     (if \<not> non_instr \<and> first_run \<and> fault = FSRV_RUN_OK \<and> (new_bits = 0x10 \<or> new_bits = 0x00)
      then FSRV_RUN_NOBITS else fault)"

definition cal_results ::
  "u64 \<times> u64 \<Rightarrow> nat \<Rightarrow> u32 \<Rightarrow> bool \<Rightarrow> (('a) afl_cal_scheme, 'x) cal_state \<Rightarrow> (('a) afl_cal_scheme, 'x) cal_state res" where
  "cal_results clock q late first_run c =
     (let us = cal_time (c_afl c) clock (c_max c);
          a1 = account_time us (c_max c) (c_afl c)
      in if c_max c = 0 then Inl (Fatal ''BUG: stage_max should not be 0 here!'')
         else bnd (q_get a1 q) (\<lambda>_.
              bnd (count_bytes a1 (trace_bits (fsrv a1))) (\<lambda>n.
              bnd (update_bitmap_score (lower_minima (c_new_bits c) n (account_entry q us (c_max c) n late a1)) q) (\<lambda>a2.
              Inr (c\<lparr>c_afl := a2,
                     c_fault := cal_verdict (non_instrumented_mode a2) first_run (c_new_bits c) (c_fault c)\<rparr>)))))"

text \<open>What follows the label \<open>abort_calibration\<close>.\<close>

definition cal_finish ::
  "nat \<Rightarrow> (('a) afl_cal_scheme, 'x) cal_state \<Rightarrow> (('a) afl_cal_scheme, 'x) cal_state res" where
  "cal_finish q c =
     bnd (q_get (c_afl c) q) (\<lambda>e.
     let a1 = (if c_new_bits c AND 0x02 \<noteq> 0 \<and> \<not> has_new_cov e
               then (q_upd q (\<lambda>e. e\<lparr>has_new_cov := True\<rparr>) (c_afl c))\<lparr>queued_with_cov := queued_with_cov (c_afl c) + 1\<rparr>
               else c_afl c)
     in if \<not> c_var c then Inr (c\<lparr>c_afl := a1\<rparr>)
        else bnd (count_bytes a1 (var_bytes a1)) (\<lambda>n.
             let a2 = a1\<lparr>var_byte_count := n\<rparr> in
             if var_behavior e then Inr (c\<lparr>c_afl := a2\<rparr>)
             else bnd (mark_as_variable a2 (c_world c) q) (\<lambda>(a3, w3).
                  Inr (c\<lparr>c_afl := a3\<lparr>queued_variable := queued_variable a3 + 1\<rparr>, c_world := w3\<rparr>))))"

text \<open>The run that comes first in cmplog mode; \<open>old_sc\<close> is the \<open>stage_cur\<close> of the caller.\<close>

definition cal_dummy_run ::
  "'x child \<Rightarrow> custom_mutator list \<Rightarrow> nat \<Rightarrow> u32 \<Rightarrow> u32 \<Rightarrow> (('a) afl_cal_scheme, 'x) cal_state
     \<Rightarrow> (('a) afl_cal_scheme, 'x) cal_state res" where
  "cal_dummy_run child muts q use_tmout old_sc c =
     (if cmplog_mode (c_afl c) then cal_run child muts q use_tmout (unat old_sc) c else Inr c)"

definition cal_resume ::
  "nat \<Rightarrow> (('a) afl_cal_scheme, 'x) cal_state \<Rightarrow> (('a) afl_cal_scheme, 'x) cal_state res" where
  "cal_resume q c =
     bnd (q_get (c_afl c) q) (\<lambda>e.
     if exec_cksum e = 0 then Inr c
     else bnd (gather_bits (keep_first_trace (c_afl c)) (c_new_bits c)) (\<lambda>(nb, a).
          Inr (c\<lparr>c_afl := a, c_new_bits := nb\<rparr>)))"

definition cal_timeout :: "('a) afl_cal_scheme \<Rightarrow> bool \<Rightarrow> u32" where
  "cal_timeout afl from_queue =
     (let t = exec_tmout (fsrv afl) in
      if \<not> from_queue \<or> resuming_fuzz afl then max (t + CAL_TMOUT_ADD) (t * CAL_TMOUT_PERC div 100) else t)"

definition calibrate_case ::
  "'x child \<Rightarrow> (bytes \<Rightarrow> u64) \<Rightarrow> custom_mutator list \<Rightarrow> u64 \<times> u64 \<Rightarrow> u32 \<Rightarrow> ('a) afl_cal_scheme \<Rightarrow> world \<Rightarrow> 'x \<Rightarrow> nat
     \<Rightarrow> bytes \<Rightarrow> u32 \<Rightarrow> bool \<Rightarrow> (fsrv_run_result \<times> ('a) afl_cal_scheme \<times> world \<times> 'x) res" where
  "calibrate_case child hash64 muts clock old_sc afl w x q use_mem late from_queue =
     bnd (q_get afl q) (\<lambda>e.
     let first_run = (exec_cksum e = 0);
         use_tmout = cal_timeout afl from_queue;
         a0 = q_upd q (\<lambda>e. e\<lparr>exec_cksum := (if cmplog_mode afl then 0 else exec_cksum e), cal_failed := cal_failed e + 1\<rparr>) afl;
         c0 = \<lparr>c_afl = a0, c_world = w, c_ext = x, c_mem = use_mem, c_fault = FSRV_RUN_OK, c_new_bits = 0, c_var = False,
               c_max = (if afl_cal_fast afl then CAL_CYCLES_FAST else CAL_CYCLES), c_abort = False\<rparr>
     in bnd (cal_dummy_run child muts q use_tmout old_sc c0) (\<lambda>c1.
        bnd (if c_abort c1 then Inr c1
             else bnd (cal_resume q c1) (foldm (cal_round child hash64 muts q use_tmout) [0 ..< unat CAL_CYCLES_LONG])) (\<lambda>c2.
        bnd (if c_abort c2 then Inr c2 else cal_results clock q late first_run c2) (\<lambda>c3.
        bnd (cal_finish q c3) (\<lambda>c4.
        Inr (c_fault c4, c_afl c4, c_world c4, c_ext c4))))))"

section \<open>Calibrating on a steady target\<close>

text \<open>The target crashes on every input before the timeout \<open>t\<close>.\<close>

definition crashes :: "u32 \<Rightarrow> 'x child \<Rightarrow> bool" where
  "crashes t child \<longleftrightarrow> (\<forall>late inp x. exec_ms (fst (child t late inp x)) \<le> t \<and> wifsignaled (fst (child t late inp x)))"

text \<open>A fork server that differs from that of \<open>base\<close> at most in what writing and running change.\<close>

definition calm :: "('a) afl_cal_scheme \<Rightarrow> afl_forkserver \<Rightarrow> world \<Rightarrow> bool" where
  "calm base fs w \<longleftrightarrow> map_wf fs \<and> map_size fs = map_size (fsrv base) \<and> real_map_size fs = real_map_size (fsrv base) \<and>
     exec_tmout fs = exec_tmout (fsrv base) \<and> transport_ok fs w"

abbreviation cal_with :: "('a) afl_cal_scheme \<Rightarrow> afl_forkserver \<Rightarrow> bool \<Rightarrow> ('a) afl_cal_scheme" where
  "cal_with base fs b \<equiv> base\<lparr>fsrv := fs, stop_soon := False, skip_requested := b\<rparr>"

definition classified :: "afl_forkserver \<Rightarrow> afl_forkserver" where
  "classified fs = fs\<lparr>trace_bits := map count_class_lookup8 (trace_bits fs),
     actual_counts := of_nat (weighted_hits (trace_bits fs))\<rparr>"

definition lengths_ok :: "('a) afl_cal_scheme \<Rightarrow> nat \<Rightarrow> bytes \<Rightarrow> bool" where
  "lengths_ok base q mem \<longleftrightarrow> custom_mutators_count base = 0 \<and> q < length (queue_buf base) \<and>
     min_length base \<le> max_length base \<and> max_length base \<le> MAX_FILE \<and>
     q_len (queue_buf base ! q) \<le> max_length base \<and> unat (q_len (queue_buf base ! q)) \<le> length mem"

definition raw_trace :: "(bytes \<Rightarrow> bytes) \<Rightarrow> ('a) afl_cal_scheme \<Rightarrow> nat \<Rightarrow> bytes \<Rightarrow> bytes" where
  "raw_trace T base q mem = overlay (T (take (unat (q_len (queue_buf base ! q))) mem))
     (replicate (unat (map_size (fsrv base))) 0)"

definition hits :: "('a) afl_cal_scheme \<Rightarrow> bytes \<Rightarrow> u32" where
  "hits base trace = of_nat (length (filter (\<lambda>b. b \<noteq> 0) (counted base trace)))"

lemma count_class_lookup8_eq_0 [simp]: "count_class_lookup8 b = 0 \<longleftrightarrow> b = 0"
  by (simp add: count_class_lookup8_def)

lemma hits_classified: "hits base (map count_class_lookup8 t) = hits base t"
  by (simp add: hits_def counted_def take_map filter_map comp_def)

lemma count_hits:
  assumes "map_wf (fsrv a)" "real_map_size (fsrv a) = real_map_size (fsrv base)"
  shows "count_bytes a (trace_bits (fsrv a)) = Inr (hits base (trace_bits (fsrv a)))"
proof -
  have "length (trace_bits (fsrv a)) = unat (map_size (fsrv a))"
    using assms(1) by (simp add: map_wf_def)
  from count_bytes_wf [OF assms(1) this] show ?thesis
    by (simp add: hits_def counted_def assms(2))
qed

lemma map_wf_classified: "map_wf (classified fs) = map_wf fs"
  by (simp add: classified_def map_wf_def)

lemma calm_classified: "calm base fs w \<Longrightarrow> calm base (classified fs) w"
  by (simp add: calm_def map_wf_classified) (simp add: classified_def)

lemma cal_run_steady:
  assumes "c_afl c = cal_with base fs b" "calm base fs (c_world c)" "lengths_ok base q (c_mem c)"
    and "steady T n child" "n = unat (map_size (fsrv base))" "0 < n" "crashes t child" "0 < t"
    and "hits base (raw_trace T base q (c_mem c)) \<noteq> 0"
  shows "\<exists>fs' b' w' x'. cal_run child muts q t i c = Inr (c\<lparr>c_afl := cal_with base fs' b', c_world := w', c_ext := x',
      c_fault := FSRV_RUN_CRASH\<rparr>) \<and> calm base fs' w' \<and> trace_bits fs' = raw_trace T base q (c_mem c)"
proof -
  define e where "e = queue_buf base ! q"
  note len = assms(3) [unfolded lengths_ok_def]
  have entry: "q_get (c_afl c) q = Inr e"
    using len by (simp add: assms(1) e_def)
  have "min (q_len e) (max_length base) = q_len e"
    using len by (simp add: e_def min_absorb1)
  with case_delivered [of "c_afl c" "c_world c" "q_len e" "q_len e" True "c_mem c" muts] assms(1,2) len
  obtain fs1 w1 where written: "write_to_testcase muts (c_afl c) (c_world c) (c_mem c) (q_len e) True =
      Inr (q_len e, c_mem c, (c_afl c)\<lparr>fsrv := fs1\<rparr>, w1)"
    and fs1: "target_input fs1 w1 = take (unat (q_len e)) (c_mem c)" "transport_ok fs1 w1" "trace_bits fs1 = trace_bits fs"
      "map_size fs1 = map_size fs" "real_map_size fs1 = real_map_size fs" "exec_tmout fs1 = exec_tmout fs"
    by (auto simp: calm_def e_def)
  have wf1: "map_wf fs1" "unat (map_size fs1) = n"
    using assms(2,5) fs1 by (auto simp: calm_def map_wf_def)
  have split: "(c_afl c)\<lparr>fsrv := fs1\<rparr> = cal_with base fs1 b"
    by (simp add: assms(1))
  from steady_run [OF assms(4), of "cal_with base fs1 b" w1 t "c_ext c"] wf1 assms(6)
  obtain r x' fs2 b' where run: "fuzz_run_target child (cal_with base fs1 b) w1 t (c_ext c) = Inr (r, cal_with base fs2 b', x')"
    and fs2: "run_frame fs2 = run_frame fs1" "trace_bits fs2 = overlay (T (target_input fs1 w1)) (replicate n 0)"
    and r: "let a = fst (child t (last_run_timed_out fs1) (target_input fs1 w1) (c_ext c)) in
      exec_ms a \<le> t \<and> wifsignaled a \<longrightarrow> r = FSRV_RUN_CRASH"
    by auto
  have crash: "r = FSRV_RUN_CRASH"
    using r assms(7,8) by (simp add: crashes_def Let_def)
  have raw: "trace_bits fs2 = raw_trace T base q (c_mem c)"
    using fs2(2) fs1(1) assms(5) by (simp add: raw_trace_def e_def)
  have calm: "calm base fs2 w1"
    using run_frame_simps [OF fs2(1)] fs1 wf1 assms(2) by (simp add: calm_def map_wf_def)
  have "count_bytes (cal_with base fs2 b') (trace_bits fs2) = Inr (hits base (trace_bits fs2))"
    using calm count_hits [of "cal_with base fs2 b'" base] by (simp add: calm_def)
  then have "cal_run child muts q t i c = Inr (c\<lparr>c_afl := cal_with base fs2 b', c_world := w1, c_ext := x',
      c_mem := c_mem c, c_fault := FSRV_RUN_CRASH\<rparr>)"
    using assms(9) raw by (simp add: cal_run_def entry written split run crash)
  then show ?thesis
    using calm raw by auto
qed

lemma cal_compare_same:
  assumes "c_afl c = cal_with base fs b" "map_wf fs" "q < length (queue_buf base)"
    and "exec_cksum (queue_buf base ! q) = hash64 (take (unat (map_size fs)) (trace_bits (classified fs)))"
  shows "cal_compare hash64 q c = Inr (c\<lparr>c_afl := cal_with base (classified fs) b\<rparr>)"
proof -
  have "classify_counts fs = Inr (classified fs)"
    using classify_counts_map [OF assms(2)] by (simp add: classified_def)
  then show ?thesis
    using assms by (simp add: cal_compare_def Let_def) (simp add: classified_def)
qed

text \<open>Once the checksum is known, further rounds only run the target again.\<close>

lemma cal_rounds_steady:
  assumes "c_afl c = cal_with base (classified fs) b" "calm base fs (c_world c)" "lengths_ok base q (c_mem c)"
    and "steady T n child" "n = unat (map_size (fsrv base))" "0 < n" "crashes t child" "0 < t"
    and "hits base (raw_trace T base q (c_mem c)) \<noteq> 0" "trace_bits fs = raw_trace T base q (c_mem c)"
    and "exec_cksum (queue_buf base ! q) = hash64 (map count_class_lookup8 (raw_trace T base q (c_mem c)))"
    and "\<not> c_abort c" "c_fault c = FSRV_RUN_CRASH"
  shows "\<exists>fs' b' w' x'. foldm (cal_round child hash64 muts q t) js c =
      Inr (c\<lparr>c_afl := cal_with base (classified fs') b', c_world := w', c_ext := x'\<rparr>) \<and>
    calm base fs' w' \<and> trace_bits fs' = raw_trace T base q (c_mem c)"
  using assms
proof (induction js arbitrary: c fs b)
  case Nil
  then show ?case
    by (intro exI [of _ fs] exI [of _ b] exI [of _ "c_world c"] exI [of _ "c_ext c"]) simp
next
  case (Cons i js)
  show ?case
  proof (cases "i < unat (c_max c)")
    case False
    then have "cal_round child hash64 muts q t i c = Inr c"
      by (simp add: cal_round_def)
    then show ?thesis
      using Cons.IH [OF Cons.prems] by simp
  next
    case True
    obtain fs1 b1 w1 x1 where run: "cal_run child muts q t i c = Inr (c\<lparr>c_afl := cal_with base fs1 b1, c_world := w1, c_ext := x1,
        c_fault := FSRV_RUN_CRASH\<rparr>)" and fs1: "calm base fs1 w1" "trace_bits fs1 = raw_trace T base q (c_mem c)"
      using cal_run_steady [OF Cons.prems(1) calm_classified [OF Cons.prems(2)] Cons.prems(3-9)] by blast
    define c1 where "c1 = c\<lparr>c_afl := cal_with base fs1 b1, c_world := w1, c_ext := x1\<rparr>"
    have "c\<lparr>c_afl := cal_with base fs1 b1, c_world := w1, c_ext := x1, c_fault := FSRV_RUN_CRASH\<rparr> = c1"
      using Cons.prems(13) by (simp add: c1_def)
    moreover have "cal_compare hash64 q c1 = Inr (c1\<lparr>c_afl := cal_with base (classified fs1) b1\<rparr>)"
    proof (rule cal_compare_same)
      show "map_wf fs1"
        using fs1(1) by (simp add: calm_def)
      then have "length (trace_bits fs1) = unat (map_size fs1)"
        by (simp add: map_wf_def)
      then show "exec_cksum (queue_buf base ! q) = hash64 (take (unat (map_size fs1)) (trace_bits (classified fs1)))"
        using Cons.prems(11) fs1(2) by (simp add: classified_def)
    qed (use Cons.prems(3) in \<open>simp_all add: c1_def lengths_ok_def\<close>)
    ultimately have step: "cal_round child hash64 muts q t i c = Inr (c1\<lparr>c_afl := cal_with base (classified fs1) b1\<rparr>)"
      using True Cons.prems(12) by (simp add: cal_round_def run) (simp add: c1_def)
    from Cons.IH [of "c1\<lparr>c_afl := cal_with base (classified fs1) b1\<rparr>" b1 fs1] Cons.prems(3-13) fs1
    show ?thesis
      by (simp add: step c1_def)
  qed
qed

text \<open>The first round learns the checksum and looks for lost coverage.\<close>

lemma few_bits_run:
  assumes "cov_wf afl" "testcase_matrix afl \<noteq> None"
  shows "\<exists>nb m bc. has_few_bits afl VIRGIN_BITS = Inr (nb, afl\<lparr>virgin_bits := m, bitmap_changed := bc\<rparr>) \<and>
    0x10 \<le> nb \<and> (of_nat (length (filter (\<lambda>b. b \<noteq> 0) (counted afl (trace_bits (fsrv afl))))) < min_bitmap_size afl \<longrightarrow> 0x10 < nb)"
proof -
  obtain bms hcn cov m where run: "has_few_bits afl VIRGIN_BITS = finish_few_bits afl VIRGIN_BITS bms (hcn, cov, m)"
    and bms: "bms \<longleftrightarrow> of_nat (length (filter (\<lambda>b. b \<noteq> 0) (counted afl (trace_bits (fsrv afl))))) < min_bitmap_size afl"
    using has_few_bits_matrix [OF assms, of VIRGIN_BITS] unfolding Let_def by blast
  have "bms \<Longrightarrow> 0x10 < few_bits_code bms cov hcn"
    by (cases cov; cases hcn; simp add: few_bits_code_def)
  moreover have "afl\<lparr>virgin_bits := m, bitmap_changed := bitmap_changed afl\<rparr> = afl\<lparr>virgin_bits := m\<rparr>"
    by simp
  ultimately show ?thesis
    using bms few_bits_code_bits(5) [of bms cov hcn] unfolding run finish_few_bits_simps
    by (intro exI [of _ "few_bits_code bms cov hcn"] exI [of _ m] exI [of _ "cov \<or> bitmap_changed afl"]) simp
qed

lemma cal_first_compare:
  assumes "c_afl c = cal_with base fs b" "calm base fs w" "q < length (queue_buf base)" "cov_wf base" "testcase_matrix base \<noteq> None"
    and "exec_cksum (queue_buf base ! q) = 0" "K = hash64 (map count_class_lookup8 (trace_bits fs))" "K \<noteq> 0" "c_new_bits c = 0"
  shows "\<exists>nb m bc ft. cal_compare hash64 q c = Inr (c\<lparr>c_afl := cal_with (base\<lparr>virgin_bits := m, bitmap_changed := bc,
        queue_buf := (queue_buf base)[q := (queue_buf base ! q)\<lparr>exec_cksum := K\<rparr>], first_trace := ft\<rparr>) (classified fs) b,
      c_new_bits := nb\<rparr>) \<and> (hits base (trace_bits fs) < min_bitmap_size base \<longrightarrow> 0x10 < nb)"
proof -
  define a1 where "a1 = cal_with base (classified fs) b"
  have wf: "map_wf fs"
    using assms(2) by (simp add: calm_def)
  then have cls: "classify_counts fs = Inr (classified fs)"
    using classify_counts_map by (simp add: classified_def)
  have "length (get_virgin vm base) = unat (map_size fs)" for vm
    using assms(2,4) by (simp add: cov_wf_def calm_def)
  moreover have "get_virgin vm a1 = get_virgin vm base" for vm
    by (cases vm) (simp_all add: a1_def)
  ultimately have "length (get_virgin vm a1) = unat (map_size (classified fs))" for vm
    by (simp add: classified_def)
  then have "cov_wf a1"
    using wf by (simp add: cov_wf_def a1_def map_wf_classified)
  with few_bits_run [of a1] assms(5) obtain nb m bc where
    nb: "has_few_bits a1 VIRGIN_BITS = Inr (nb, a1\<lparr>virgin_bits := m, bitmap_changed := bc\<rparr>)" "0x10 \<le> nb"
      "of_nat (length (filter (\<lambda>b. b \<noteq> 0) (counted a1 (trace_bits (fsrv a1))))) < min_bitmap_size a1 \<longrightarrow> 0x10 < nb"
    by (auto simp: a1_def)
  have "hits base (trace_bits fs) = of_nat (length (filter (\<lambda>b. b \<noteq> 0) (counted a1 (trace_bits (fsrv a1)))))"
    using assms(2) hits_classified [of base "trace_bits fs"] by (simp add: hits_def counted_def a1_def calm_def classified_def)
  then have few: "hits base (trace_bits fs) < min_bitmap_size base \<longrightarrow> 0x10 < nb"
    using nb(3) by (simp add: a1_def)
  have "0 < nb"
    using nb(2) by (auto simp: word_gt_0)
  then have gather: "gather_bits a1 0 = Inr (nb, a1\<lparr>virgin_bits := m, bitmap_changed := bc\<rparr>)"
    using nb(1) by (simp add: gather_bits_def)
  define ft where "ft = overlay (take (unat (map_size fs)) (trace_bits (classified fs))) (first_trace base)"
  have ck: "hash64 (take (unat (map_size fs)) (trace_bits (classified fs))) = K"
    using wf assms(7) by (simp add: classified_def map_wf_def)
  have ms: "map_size (classified fs) = map_size fs"
    by (simp add: classified_def)
  have "keep_first_trace (q_upd q (\<lambda>e. e\<lparr>exec_cksum := K\<rparr>) (a1\<lparr>virgin_bits := m, bitmap_changed := bc\<rparr>)) =
      cal_with (base\<lparr>virgin_bits := m, bitmap_changed := bc,
        queue_buf := (queue_buf base)[q := (queue_buf base ! q)\<lparr>exec_cksum := K\<rparr>], first_trace := ft\<rparr>) (classified fs) b"
    by (simp add: keep_first_trace_def q_upd_def a1_def ft_def ms)
  moreover have "q_get a1 q = Inr (queue_buf base ! q)"
    using assms(3) by (simp add: a1_def)
  moreover have "(c_afl c)\<lparr>fsrv := classified fs\<rparr> = a1" "fsrv (c_afl c) = fs"
    by (simp_all add: assms(1) a1_def)
  ultimately have "cal_compare hash64 q c = Inr (c\<lparr>c_afl := cal_with (base\<lparr>virgin_bits := m, bitmap_changed := bc,
        queue_buf := (queue_buf base)[q := (queue_buf base ! q)\<lparr>exec_cksum := K\<rparr>], first_trace := ft\<rparr>) (classified fs) b,
      c_new_bits := nb\<rparr>)"
    using assms(6,8,9) cls gather ck by (simp add: cal_compare_def Let_def ms)
  then show ?thesis
    using few by blast
qed

text \<open>What the entry and the minima are afterwards.\<close>

lemma static_more:
  assumes "static e = static e'"
  shows "exec_cksum e = exec_cksum e'" "bitmap_size e = bitmap_size e'" "cal_failed e = cal_failed e'"
    "has_new_cov e = has_new_cov e'" "var_behavior e = var_behavior e'" "q_len e = q_len e'"
proof -
  have sel: "exec_cksum x = exec_cksum (static x)" "bitmap_size x = bitmap_size (static x)" "cal_failed x = cal_failed (static x)"
    "has_new_cov x = has_new_cov (static x)" "var_behavior x = var_behavior (static x)"
    "q_len x = q_len (static x)" for x
    by (simp_all add: static_def)
  show "exec_cksum e = exec_cksum e'" "bitmap_size e = bitmap_size e'" "cal_failed e = cal_failed e'"
    "has_new_cov e = has_new_cov e'" "var_behavior e = var_behavior e'" "q_len e = q_len e'"
    using sel [of e] sel [of e'] by (simp_all only: assms)
qed

text \<open>The test case cache, which calibration does not touch.\<close>

definition slots_of :: "('a) afl_cache_scheme \<Rightarrow> u64 \<times> u32 \<times> u64 \<times> u32 \<times> u32 \<times> u32 \<times> nat option list" where
  "slots_of afl = (q_testcase_max_cache_size afl, q_testcase_max_cache_entries afl, q_testcase_cache_size afl,
     q_testcase_max_cache_count afl, q_testcase_cache_count afl, q_testcase_smallest_free afl, q_testcase_cache afl)"

definition calibrated :: "nat \<Rightarrow> u64 \<Rightarrow> u32 \<Rightarrow> ('a) afl_cal_scheme \<Rightarrow> ('a) afl_cal_scheme \<Rightarrow> bool" where
  "calibrated q K n afl afl' \<longleftrightarrow> queue_wf afl' \<and> length (queue_buf afl') = length (queue_buf afl) \<and>
     exec_cksum (queue_buf afl' ! q) = K \<and> bitmap_size (queue_buf afl' ! q) = n \<and> cal_failed (queue_buf afl' ! q) = 0 \<and>
     var_bytes afl' = var_bytes afl \<and> total_bitmap_entries afl' = total_bitmap_entries afl + 1 \<and>
     q_len (queue_buf afl' ! q) = q_len (queue_buf afl ! q) \<and> crash_mode afl' = crash_mode afl \<and> slots_of afl' = slots_of afl \<and>
     afl_cal.more afl' = afl_cal.more afl"

lemma cal_results_steady:
  fixes a :: "('a) afl_cal_scheme" and c :: "(('a) afl_cal_scheme, 'x) cal_state"
  assumes "queue_wf a" "c_afl c = a" "q < length (queue_buf a)" "c_max c \<noteq> 0" "c_fault c = FSRV_RUN_CRASH"
    and "n = hits a (trace_bits (fsrv a))"
  shows "\<exists>a'. cal_results clock q late first_run c = Inr (c\<lparr>c_afl := a'\<rparr>) \<and>
    calibrated q (exec_cksum (queue_buf a ! q)) n a a' \<and>
    min_bitmap_size a' = (if 0x10 < c_new_bits c then min (min_bitmap_size a) n else min_bitmap_size a) \<and>
    min_actual_cnts a' = (if 0x10 < c_new_bits c then min (min_actual_cnts a) (actual_counts (fsrv a)) else min_actual_cnts a)"
proof -
  define us where "us = cal_time a clock (c_max c)"
  define e where "e = (queue_buf a ! q)\<lparr>exec_us := us div ucast (c_max c), bitmap_size := n, handicap := ucast late, cal_failed := 0\<rparr>"
  define a1 where "a1 = account_time us (c_max c) a"
  define a3 where "a3 = lower_minima (c_new_bits c) n (account_entry q us (c_max c) n late a1)"
  have wf: "map_wf (fsrv a)"
    using assms(1) by (simp add: queue_wf_def)
  have a3: "queue_buf a3 = (queue_buf a)[q := e]" "fsrv a3 = fsrv a" "top_rated a3 = top_rated a" "queued_items a3 = queued_items a"
    "map_tmp_buf a3 = map_tmp_buf a" "testcase_matrix a3 = testcase_matrix a" "var_bytes a3 = var_bytes a"
    "total_bitmap_entries a3 = total_bitmap_entries a + 1" "crash_mode a3 = crash_mode a"
    "slots_of a3 = slots_of a" "afl_cal.more a3 = afl_cal.more a"
    by (simp_all add: a3_def account_entry_def a1_def account_time_def q_upd_def e_def lower_minima_def slots_of_def Let_def)
  have minima: "min_bitmap_size a3 = (if 0x10 < c_new_bits c then min (min_bitmap_size a) n else min_bitmap_size a)"
    "min_actual_cnts a3 = (if 0x10 < c_new_bits c then min (min_actual_cnts a) (actual_counts (fsrv a)) else min_actual_cnts a)"
    by (auto simp: a3_def account_entry_def a1_def account_time_def q_upd_def lower_minima_def min_def Let_def)
  have "queue_wf a3"
    by (rule queue_wf_upd [OF assms(1) wf refl a3(1)]) (simp_all add: a3 e_def)
  moreover have q3: "q < length (queue_buf a3)"
    using assms(3) by (simp add: a3(1))
  ultimately obtain a4 where a4: "update_bitmap_score a3 q = Inr a4" "scored a3 q (unat (map_size (fsrv a3))) a4"
    using update_bitmap_score_scored by blast
  then obtain buf tr sc where up: "a4 = a3\<lparr>queue_buf := buf, top_rated := tr, score_changed := sc\<rparr>" "map static buf = map static (queue_buf a3)"
    unfolding scored_def by blast
  have "length buf = length (queue_buf a3)"
    using arg_cong [OF up(2), of length] by simp
  then have "static (buf ! q) = static e"
    using arg_cong [OF up(2), of "\<lambda>xs. xs ! q"] q3 assms(3) by (simp add: a3(1))
  note st = static_more [OF this]
  have "calibrated q (exec_cksum (queue_buf a ! q)) n a a4"
    using scored_wf(1) [OF \<open>queue_wf a3\<close> a4(2)] st \<open>length buf = length (queue_buf a3)\<close>
    by (simp add: calibrated_def up(1) a3 e_def) (simp add: slots_of_def a3(10) [unfolded slots_of_def])
  moreover have "cal_results clock q late first_run c = Inr (c\<lparr>c_afl := a4\<rparr>)"
  proof -
    have a1: "fsrv a1 = fsrv a" "queue_buf a1 = queue_buf a"
      by (simp_all add: a1_def account_time_def)
    have "count_bytes a1 (trace_bits (fsrv a1)) = Inr n"
      using count_hits [of a1 a] wf assms(6) by (simp add: a1)
    moreover have "q_get a1 q = Inr (queue_buf a ! q)"
      using assms(3) by (simp add: a1)
    moreover have "c\<lparr>c_afl := a4, c_fault := FSRV_RUN_CRASH\<rparr> = c\<lparr>c_afl := a4\<rparr>"
      using assms(5) by (cases c) simp
    moreover have "cal_verdict b first_run nb FSRV_RUN_CRASH = FSRV_RUN_CRASH" for b nb
      by (simp add: cal_verdict_def)
    moreover have "cal_time (c_afl c) clock (c_max c) = us" "account_time us (c_max c) (c_afl c) = a1"
      by (simp_all add: assms(2) us_def a1_def)
    moreover have "lower_minima (c_new_bits c) n (account_entry q us (c_max c) n late a1) = a3"
      by (simp only: a3_def)
    ultimately show ?thesis
      by (simp only: cal_results_def Let_def assms(4,5) a4(1) bnd_simps if_False)
  qed
  ultimately show ?thesis
    using minima up(1) by auto
qed

lemma cal_finish_steady:
  assumes "\<not> c_var c" "q < length (queue_buf (c_afl c))" "calibrated q K n a (c_afl c)"
  shows "\<exists>a'. cal_finish q c = Inr (c\<lparr>c_afl := a'\<rparr>) \<and> calibrated q K n a a' \<and>
    min_bitmap_size a' = min_bitmap_size (c_afl c) \<and> min_actual_cnts a' = min_actual_cnts (c_afl c)"
proof (cases "c_new_bits c AND 0x02 \<noteq> 0 \<and> \<not> has_new_cov (queue_buf (c_afl c) ! q)")
  case True
  define a' where "a' = (q_upd q (\<lambda>e. e\<lparr>has_new_cov := True\<rparr>) (c_afl c))\<lparr>queued_with_cov := queued_with_cov (c_afl c) + 1\<rparr>"
  have wf: "queue_wf (c_afl c)"
    using assms(3) by (simp add: calibrated_def)
  then have "map_wf (fsrv (c_afl c))"
    by (simp add: queue_wf_def)
  then have "queue_wf a'"
    by (intro queue_wf_upd [OF wf, of "fsrv (c_afl c)" a' q "(queue_buf (c_afl c) ! q)\<lparr>has_new_cov := True\<rparr>"])
      (simp_all add: a'_def q_upd_def)
  moreover have "cal_finish q c = Inr (c\<lparr>c_afl := a'\<rparr>)"
    using True assms(1,2) by (simp add: cal_finish_def a'_def Let_def)
  ultimately show ?thesis
    using assms(2,3) by (intro exI [of _ a']) (simp add: calibrated_def slots_of_def a'_def q_upd_def)
next
  case False
  then have "cal_finish q c = Inr (c\<lparr>c_afl := c_afl c\<rparr>)"
    using assms(1,2) by (auto simp: cal_finish_def Let_def)
  then show ?thesis
    using assms(3) by blast
qed

text \<open>The first round followed by the others, from the state \<open>c\<close> the loop starts in.\<close>

lemma cal_loop_steady:
  assumes "c_afl c = cal_with base (fsrv base) b" "calm base (fsrv base) (c_world c)" "lengths_ok base q (c_mem c)"
    and "cov_wf base" "testcase_matrix base \<noteq> None" "exec_cksum (queue_buf base ! q) = 0"
    and "steady T n child" "n = unat (map_size (fsrv base))" "0 < n" "crashes t child" "0 < t"
    and "raw = raw_trace T base q (c_mem c)" "hits base raw \<noteq> 0" "K = hash64 (map count_class_lookup8 raw)" "K \<noteq> 0"
    and "c_new_bits c = 0" "\<not> c_abort c" "0 < unat (c_max c)"
  shows "\<exists>nb m bc ft fs' b' w' x'. foldm (cal_round child hash64 muts q t) [0 ..< Suc k] c =
      Inr (c\<lparr>c_afl := cal_with (base\<lparr>virgin_bits := m, bitmap_changed := bc,
          queue_buf := (queue_buf base)[q := (queue_buf base ! q)\<lparr>exec_cksum := K\<rparr>], first_trace := ft\<rparr>) (classified fs') b',
        c_world := w', c_ext := x', c_fault := FSRV_RUN_CRASH, c_new_bits := nb\<rparr>) \<and>
    calm base fs' w' \<and> trace_bits fs' = raw \<and> (hits base raw < min_bitmap_size base \<longrightarrow> 0x10 < nb)"
proof -
  have q: "q < length (queue_buf base)"
    using assms(3) by (simp add: lengths_ok_def)
  obtain fs1 b1 w1 x1 where run: "cal_run child muts q t 0 c = Inr (c\<lparr>c_afl := cal_with base fs1 b1, c_world := w1,
      c_ext := x1, c_fault := FSRV_RUN_CRASH\<rparr>)" and fs1: "calm base fs1 w1" "trace_bits fs1 = raw"
    using cal_run_steady [OF assms(1-3,7-11)] assms(12,13) by blast
  define c1 where "c1 = c\<lparr>c_afl := cal_with base fs1 b1, c_world := w1, c_ext := x1, c_fault := FSRV_RUN_CRASH\<rparr>"
  have c1: "c_afl c1 = cal_with base fs1 b1" "c_new_bits c1 = 0"
    by (simp_all add: c1_def assms(16))
  have K: "K = hash64 (map count_class_lookup8 (trace_bits fs1))"
    by (simp add: fs1(2) assms(14))
  obtain nb m bc ft where cmp: "cal_compare hash64 q c1 = Inr (c1\<lparr>c_afl := cal_with (base\<lparr>virgin_bits := m, bitmap_changed := bc,
        queue_buf := (queue_buf base)[q := (queue_buf base ! q)\<lparr>exec_cksum := K\<rparr>], first_trace := ft\<rparr>) (classified fs1) b1,
      c_new_bits := nb\<rparr>)" and nb: "hits base raw < min_bitmap_size base \<longrightarrow> 0x10 < nb"
    using cal_first_compare [where ?hash64.0 = hash64 and K = K, OF c1(1) fs1(1) q assms(4-6) K assms(15) c1(2)] fs1(2) by blast
  define base1 where "base1 = base\<lparr>virgin_bits := m, bitmap_changed := bc,
        queue_buf := (queue_buf base)[q := (queue_buf base ! q)\<lparr>exec_cksum := K\<rparr>], first_trace := ft\<rparr>"
  define c2 where "c2 = c1\<lparr>c_afl := cal_with base1 (classified fs1) b1, c_new_bits := nb\<rparr>"
  have step: "cal_round child hash64 muts q t 0 c = Inr c2"
    using assms(17,18) cmp by (simp add: cal_round_def run c1_def [symmetric] base1_def [symmetric] c2_def)
      (simp add: c1_def)
  have raw: "raw_trace T base1 q mem = raw_trace T base q mem" "hits base1 xs = hits base xs" for mem xs
    using q by (simp_all add: raw_trace_def hits_def counted_def base1_def)
  have calm: "calm base1 fs w \<longleftrightarrow> calm base fs w" for fs w
    by (simp add: calm_def base1_def)
  have "c_afl c2 = cal_with base1 (classified fs1) b1" "c_mem c2 = c_mem c" "\<not> c_abort c2" "c_fault c2 = FSRV_RUN_CRASH"
    "calm base1 fs1 (c_world c2)"
    using assms(17) fs1(1) by (simp_all add: c2_def c1_def calm)
  moreover have "lengths_ok base1 q (c_mem c)" "exec_cksum (queue_buf base1 ! q) = hash64 (map count_class_lookup8 raw)"
    "n = unat (map_size (fsrv base1))"
    using assms(3,8,14) q by (simp_all add: lengths_ok_def base1_def)
  ultimately obtain fs' b' w' x' where "foldm (cal_round child hash64 muts q t) [1 ..< Suc k] c2 =
      Inr (c2\<lparr>c_afl := cal_with base1 (classified fs') b', c_world := w', c_ext := x'\<rparr>)"
    "calm base fs' w'" "trace_bits fs' = raw"
    using cal_rounds_steady [where c = c2 and base = base1 and fs = fs1 and b = b1 and q = q and T = T and n = n
        and child = child and t = t and ?hash64.0 = hash64 and muts = muts and js = "[1 ..< Suc k]"] assms(7,9-13) fs1(2)
    by (simp add: raw calm) blast
  then show ?thesis
    using nb upt_conv_Cons [of 0 "Suc k"]
    by (intro exI [of _ nb] exI [of _ m] exI [of _ bc] exI [of _ ft] exI [of _ fs'] exI [of _ b'] exI [of _ w'] exI [of _ x'])
      (simp add: step c2_def c1_def base1_def del: upt_Suc)
qed

text \<open>The same for an entry whose checksum is known already.\<close>

lemma cal_again_steady:
  assumes "c_afl c = cal_with base (fsrv base) b" "calm base (fsrv base) (c_world c)" "lengths_ok base q (c_mem c)"
    and "cov_wf base" "testcase_matrix base \<noteq> None" "exec_cksum (queue_buf base ! q) = K"
    and "steady T n child" "n = unat (map_size (fsrv base))" "0 < n" "crashes t child" "0 < t"
    and "raw = raw_trace T base q (c_mem c)" "hits base raw \<noteq> 0" "K = hash64 (map count_class_lookup8 raw)" "K \<noteq> 0"
    and "c_new_bits c = 0" "\<not> c_abort c" "0 < unat (c_max c)" "hits base (trace_bits (fsrv base)) = hits base raw"
  shows "\<exists>nb m bc ft fs' b' w' x'. bnd (cal_resume q c) (foldm (cal_round child hash64 muts q t) [0 ..< Suc k]) =
      Inr (c\<lparr>c_afl := cal_with (base\<lparr>virgin_bits := m, bitmap_changed := bc, first_trace := ft\<rparr>) (classified fs') b',
        c_world := w', c_ext := x', c_fault := FSRV_RUN_CRASH, c_new_bits := nb\<rparr>) \<and>
    calm base fs' w' \<and> trace_bits fs' = raw \<and> (hits base raw < min_bitmap_size base \<longrightarrow> 0x10 < nb)"
proof -
  have q: "q < length (queue_buf base)"
    using assms(3) by (simp add: lengths_ok_def)
  define a where "a = keep_first_trace (cal_with base (fsrv base) b)"
  define ft where "ft = first_trace a"
  have virgin: "get_virgin vm a = get_virgin vm base" for vm
    by (cases vm) (simp_all add: a_def keep_first_trace_def)
  have a: "fsrv a = fsrv base" "testcase_matrix a = testcase_matrix base" "min_bitmap_size a = min_bitmap_size base"
    by (simp_all add: a_def keep_first_trace_def)
  have "cov_wf a"
    using assms(4) by (simp add: cov_wf_def a virgin)
  with few_bits_run [of a] assms(5) obtain nb m bc where
    nb: "has_few_bits a VIRGIN_BITS = Inr (nb, a\<lparr>virgin_bits := m, bitmap_changed := bc\<rparr>)" "0x10 \<le> nb"
      "of_nat (length (filter (\<lambda>b. b \<noteq> 0) (counted a (trace_bits (fsrv a))))) < min_bitmap_size a \<longrightarrow> 0x10 < nb"
    by (auto simp: a)
  have few: "hits base raw < min_bitmap_size base \<longrightarrow> 0x10 < nb"
    using nb(3) assms(19) by (simp add: hits_def counted_def a)
  have "0 < nb"
    using nb(2) by (auto simp: word_gt_0)
  then have gather: "gather_bits a 0 = Inr (nb, a\<lparr>virgin_bits := m, bitmap_changed := bc\<rparr>)"
    using nb(1) by (simp add: gather_bits_def)
  define base1 where "base1 = base\<lparr>virgin_bits := m, bitmap_changed := bc, first_trace := ft\<rparr>"
  have split: "a\<lparr>virgin_bits := m, bitmap_changed := bc\<rparr> = cal_with base1 (fsrv base) b"
    by (simp add: base1_def ft_def a_def keep_first_trace_def)
  define c1 where "c1 = c\<lparr>c_afl := cal_with base1 (fsrv base) b, c_new_bits := nb\<rparr>"
  have "keep_first_trace (c_afl c) = a"
    by (simp add: a_def assms(1))
  moreover have "\<not> length (queue_buf (c_afl c)) \<le> q" "exec_cksum (queue_buf (c_afl c) ! q) \<noteq> 0"
    using assms(1,6,15) q by simp_all
  ultimately have resume: "cal_resume q c = Inr c1"
    using gather assms(16) unfolding split by (simp add: cal_resume_def c1_def)
  have same: "raw_trace T base1 q mem = raw_trace T base q mem" "hits base1 xs = hits base xs" "calm base1 fs w = calm base fs w"
    "lengths_ok base1 q mem = lengths_ok base q mem" for mem xs fs w
    by (simp_all add: raw_trace_def hits_def counted_def base1_def calm_def lengths_ok_def)
  have c1: "c_afl c1 = cal_with base1 (fsrv base) b" "calm base1 (fsrv base) (c_world c1)" "lengths_ok base1 q (c_mem c1)"
    "n = unat (map_size (fsrv base1))" "hits base1 (raw_trace T base1 q (c_mem c1)) \<noteq> 0"
    using assms(2,3,8,12,13) by (simp_all add: c1_def same) (simp add: base1_def)
  obtain fs1 b1 w1 x1 where run: "cal_run child muts q t 0 c1 = Inr (c1\<lparr>c_afl := cal_with base1 fs1 b1, c_world := w1,
      c_ext := x1, c_fault := FSRV_RUN_CRASH\<rparr>)" and fs1: "calm base1 fs1 w1" "trace_bits fs1 = raw_trace T base1 q (c_mem c1)"
    using cal_run_steady [OF c1(1-3) assms(7) c1(4) assms(9-11) c1(5)] by blast
  have raw: "raw_trace T base1 q (c_mem c1) = raw"
    by (simp add: same assms(12) c1_def)
  define c2 where "c2 = c1\<lparr>c_afl := cal_with base1 fs1 b1, c_world := w1, c_ext := x1, c_fault := FSRV_RUN_CRASH\<rparr>"
  have len: "length (trace_bits fs1) = unat (map_size fs1)"
    using fs1(1) by (simp add: calm_def map_wf_def)
  have K: "exec_cksum (queue_buf base1 ! q) = hash64 (map count_class_lookup8 raw)"
    using assms(6,14) by (simp add: base1_def)
  have "cal_compare hash64 q c2 = Inr (c2\<lparr>c_afl := cal_with base1 (classified fs1) b1\<rparr>)"
  proof (rule cal_compare_same)
    show "exec_cksum (queue_buf base1 ! q) = hash64 (take (unat (map_size fs1)) (trace_bits (classified fs1)))"
      using K len fs1(2) raw by (simp add: classified_def)
  qed (use fs1(1) q in \<open>simp_all add: c2_def calm_def base1_def\<close>)
  then have step: "cal_round child hash64 muts q t 0 c1 = Inr (c2\<lparr>c_afl := cal_with base1 (classified fs1) b1\<rparr>)"
    using assms(17,18) by (simp add: cal_round_def run c2_def [symmetric]) (simp add: c2_def c1_def)
  define c3 where "c3 = c2\<lparr>c_afl := cal_with base1 (classified fs1) b1\<rparr>"
  have "c_afl c3 = cal_with base1 (classified fs1) b1" "calm base1 fs1 (c_world c3)" "lengths_ok base1 q (c_mem c3)"
    "\<not> c_abort c3" "c_fault c3 = FSRV_RUN_CRASH" "raw_trace T base1 q (c_mem c3) = raw"
    using fs1(1) c1(3) assms(17) raw by (simp_all add: c3_def c2_def c1_def)
  then obtain fs' b' w' x' where rest: "foldm (cal_round child hash64 muts q t) [1 ..< Suc k] c3 =
      Inr (c3\<lparr>c_afl := cal_with base1 (classified fs') b', c_world := w', c_ext := x'\<rparr>)"
    "calm base fs' w'" "trace_bits fs' = raw"
    using cal_rounds_steady [where c = c3 and base = base1 and fs = fs1 and b = b1 and q = q and T = T and n = n
        and child = child and t = t and ?hash64.0 = hash64 and muts = muts and js = "[1 ..< Suc k]"]
      assms(7,9-11,13) c1(4) fs1(2) raw K by (simp add: same) blast
  have "bnd (cal_resume q c) (foldm (cal_round child hash64 muts q t) [0 ..< Suc k]) =
      Inr (c3\<lparr>c_afl := cal_with base1 (classified fs') b', c_world := w', c_ext := x'\<rparr>)"
    using rest(1) upt_conv_Cons [of 0 "Suc k"] by (simp add: resume step c3_def [symmetric] del: upt_Suc)
  then show ?thesis
    using few rest(2,3)
    by (intro exI [of _ nb] exI [of _ m] exI [of _ bc] exI [of _ ft] exI [of _ fs'] exI [of _ b'] exI [of _ w'] exI [of _ x'])
      (simp add: c3_def c2_def c1_def base1_def)
qed

text \<open>Both together: the search for the checksum.\<close>

lemma cal_search_steady:
  assumes "c_afl c = cal_with base (fsrv base) b" "calm base (fsrv base) (c_world c)" "lengths_ok base q (c_mem c)"
    and "cov_wf base" "testcase_matrix base \<noteq> None"
    and "exec_cksum (queue_buf base ! q) = 0 \<or> exec_cksum (queue_buf base ! q) = K \<and> hits base (trace_bits (fsrv base)) = hits base raw"
    and "steady T n child" "n = unat (map_size (fsrv base))" "0 < n" "crashes t child" "0 < t"
    and "raw = raw_trace T base q (c_mem c)" "hits base raw \<noteq> 0" "K = hash64 (map count_class_lookup8 raw)" "K \<noteq> 0"
    and "c_new_bits c = 0" "\<not> c_abort c" "0 < unat (c_max c)"
  shows "\<exists>nb m bc ft fs' b' w' x'. bnd (cal_resume q c) (foldm (cal_round child hash64 muts q t) [0 ..< Suc k]) =
      Inr (c\<lparr>c_afl := cal_with (base\<lparr>virgin_bits := m, bitmap_changed := bc,
          queue_buf := (queue_buf base)[q := (queue_buf base ! q)\<lparr>exec_cksum := K\<rparr>], first_trace := ft\<rparr>) (classified fs') b',
        c_world := w', c_ext := x', c_fault := FSRV_RUN_CRASH, c_new_bits := nb\<rparr>) \<and>
    calm base fs' w' \<and> trace_bits fs' = raw \<and> (hits base raw < min_bitmap_size base \<longrightarrow> 0x10 < nb)"
proof (cases "exec_cksum (queue_buf base ! q) = 0")
  case True
  have "q < length (queue_buf base)"
    using assms(3) by (simp add: lengths_ok_def)
  then have "cal_resume q c = Inr c"
    using True by (simp add: cal_resume_def assms(1))
  then show ?thesis
    using cal_loop_steady [where ?hash64.0 = hash64 and K = K, OF assms(1-5) True assms(7-18), of muts k] by (simp del: upt_Suc)
next
  case False
  then have K: "exec_cksum (queue_buf base ! q) = K" "hits base (trace_bits (fsrv base)) = hits base raw"
    using assms(6) by simp_all
  have "(queue_buf base ! q)\<lparr>exec_cksum := K\<rparr> = queue_buf base ! q"
    by (simp add: K(1) [symmetric])
  then have "base\<lparr>virgin_bits := m, bitmap_changed := bc, queue_buf := (queue_buf base)[q := (queue_buf base ! q)\<lparr>exec_cksum := K\<rparr>],
      first_trace := ft\<rparr> = base\<lparr>virgin_bits := m, bitmap_changed := bc, first_trace := ft\<rparr>" for m bc ft
    by simp
  then show ?thesis
    using cal_again_steady [where ?hash64.0 = hash64 and K = K, OF assms(1-5) K(1) assms(7-18) K(2), of muts k] by (simp del: upt_Suc)
qed

text \<open>What follows the loop.\<close>

lemma cal_after_steady:
  fixes a :: "('a) afl_cal_scheme" and c :: "(('a) afl_cal_scheme, 'x) cal_state"
  assumes "queue_wf a" "c_afl c = a" "q < length (queue_buf a)" "c_max c \<noteq> 0" "c_fault c = FSRV_RUN_CRASH" "\<not> c_var c"
    and "n = hits a (trace_bits (fsrv a))"
  shows "\<exists>b. bnd (cal_results clock q late first_run c) (cal_finish q) = Inr (c\<lparr>c_afl := b\<rparr>) \<and>
    calibrated q (exec_cksum (queue_buf a ! q)) n a b \<and>
    min_bitmap_size b = (if 0x10 < c_new_bits c then min (min_bitmap_size a) n else min_bitmap_size a)"
proof -
  obtain a' where res: "cal_results clock q late first_run c = Inr (c\<lparr>c_afl := a'\<rparr>)"
    and a': "calibrated q (exec_cksum (queue_buf a ! q)) n a a'"
      "min_bitmap_size a' = (if 0x10 < c_new_bits c then min (min_bitmap_size a) n else min_bitmap_size a)"
    using cal_results_steady [OF assms(1-5,7), of clock late first_run] by blast
  have fin: "\<not> c_var (c\<lparr>c_afl := a'\<rparr>)" "q < length (queue_buf (c_afl (c\<lparr>c_afl := a'\<rparr>)))"
    "calibrated q (exec_cksum (queue_buf a ! q)) n a (c_afl (c\<lparr>c_afl := a'\<rparr>))"
    using assms(3,6) a' by (simp_all add: calibrated_def)
  show ?thesis
    using cal_finish_steady [OF fin] res a'(2) by auto
qed

text \<open>The whole call.\<close>

lemma calibrate_steady:
  fixes afl :: "('a) afl_cal_scheme"
  assumes "queue_wf afl" "cov_wf afl" "testcase_matrix afl \<noteq> None" "\<not> cmplog_mode afl" "\<not> stop_soon afl"
    and "exec_cksum (queue_buf afl ! q) = 0 \<or> exec_cksum (queue_buf afl ! q) = K \<and> hits afl (trace_bits (fsrv afl)) = h"
    and "lengths_ok afl q use_mem" "transport_ok (fsrv afl) w" "n = unat (map_size (fsrv afl))"
    and "0 < n" "steady T n child" "crashes (cal_timeout afl from_queue) child"
    and "raw = raw_trace T afl q use_mem" "h = hits afl raw" "h \<noteq> 0" "K = hash64 (map count_class_lookup8 raw)" "K \<noteq> 0"
  shows "\<exists>afl' w' x'. calibrate_case child hash64 muts clock old_sc afl w x q use_mem late from_queue =
      Inr (FSRV_RUN_CRASH, afl', w', x') \<and> calibrated q K h afl afl' \<and>
    min_bitmap_size afl' = min (min_bitmap_size afl) h"
proof -
  define a0 where "a0 = q_upd q (\<lambda>e. e\<lparr>exec_cksum := (if cmplog_mode afl then 0 else exec_cksum e), cal_failed := cal_failed e + 1\<rparr>) afl"
  define c0 where "c0 = \<lparr>c_afl = a0, c_world = w, c_ext = x, c_mem = use_mem, c_fault = FSRV_RUN_OK, c_new_bits = 0, c_var = False,
               c_max = (if afl_cal_fast afl then CAL_CYCLES_FAST else CAL_CYCLES), c_abort = False\<rparr>"
  have q: "q < length (queue_buf afl)"
    using assms(7) by (simp add: lengths_ok_def)
  have a0: "fsrv a0 = fsrv afl" "queue_buf a0 = (queue_buf afl)[q := (queue_buf afl ! q)\<lparr>cal_failed := cal_failed (queue_buf afl ! q) + 1\<rparr>]"
    "cmplog_mode a0 = cmplog_mode afl" "stop_soon a0 = stop_soon afl" "testcase_matrix a0 = testcase_matrix afl"
    "min_bitmap_size a0 = min_bitmap_size afl" "var_bytes a0 = var_bytes afl" "total_bitmap_entries a0 = total_bitmap_entries afl"
    "get_virgin vm a0 = get_virgin vm afl" "top_rated a0 = top_rated afl" "queued_items a0 = queued_items afl"
    "map_tmp_buf a0 = map_tmp_buf afl" for vm
    using assms(4) by (cases vm; simp add: a0_def q_upd_def)+
  have frame: "raw_trace T a0 q use_mem = raw" "hits a0 raw = h" "lengths_ok a0 q use_mem" "cov_wf a0"
    using assms(2,7,13,14) q
    by (simp_all add: raw_trace_def hits_def counted_def lengths_ok_def cov_wf_def a0) (simp_all add: a0_def q_upd_def)
  have cksum: "exec_cksum (queue_buf a0 ! q) = 0 \<or> exec_cksum (queue_buf a0 ! q) = K \<and> hits a0 (trace_bits (fsrv a0)) = hits a0 raw"
    using assms(6) q frame(2) by (simp add: hits_def counted_def a0)
  have wf: "map_wf (fsrv afl)"
    using assms(1) by (simp add: queue_wf_def)
  have "exec_ms (fst (child (cal_timeout afl from_queue) False [] x)) \<noteq> 0"
    using assms(11) by (simp add: steady_def)
  moreover have "exec_ms (fst (child (cal_timeout afl from_queue) False [] x)) \<le> cal_timeout afl from_queue"
    using assms(12) by (simp add: crashes_def)
  ultimately have pos: "0 < cal_timeout afl from_queue"
    by (auto simp: word_gt_0)
  have c0: "c_afl c0 = cal_with a0 (fsrv a0) (skip_requested a0)" "calm a0 (fsrv a0) (c_world c0)" "n = unat (map_size (fsrv a0))"
    "lengths_ok a0 q (c_mem c0)" "raw = raw_trace T a0 q (c_mem c0)" "hits a0 raw \<noteq> 0" "testcase_matrix a0 \<noteq> None"
    "c_new_bits c0 = 0" "\<not> c_abort c0" "0 < unat (c_max c0)"
    using assms(3,5,8,9,15) wf
    by (simp_all add: c0_def frame calm_def CAL_CYCLES_FAST_def CAL_CYCLES_def) (simp_all add: a0)
  obtain nb m bc ft fs' b' w' x' where
    loop: "bnd (cal_resume q c0) (foldm (cal_round child hash64 muts q (cal_timeout afl from_queue)) [0 ..< Suc 11]) =
      Inr (c0\<lparr>c_afl := cal_with (a0\<lparr>virgin_bits := m, bitmap_changed := bc,
          queue_buf := (queue_buf a0)[q := (queue_buf a0 ! q)\<lparr>exec_cksum := K\<rparr>], first_trace := ft\<rparr>) (classified fs') b',
        c_world := w', c_ext := x', c_fault := FSRV_RUN_CRASH, c_new_bits := nb\<rparr>)"
    and fs': "calm a0 fs' w'" "trace_bits fs' = raw" and nb: "h < min_bitmap_size afl \<longrightarrow> 0x10 < nb"
    using cal_search_steady [where ?hash64.0 = hash64 and K = K, OF c0(1,2,4) frame(4) c0(7) cksum assms(11) c0(3) assms(10,12) pos
        c0(5,6) assms(16,17) c0(8-10), of muts 11] unfolding frame(2) a0(6) by blast
  define a where "a = cal_with (a0\<lparr>virgin_bits := m, bitmap_changed := bc,
          queue_buf := (queue_buf a0)[q := (queue_buf a0 ! q)\<lparr>exec_cksum := K\<rparr>], first_trace := ft\<rparr>) (classified fs') b'"
  define c2 where "c2 = c0\<lparr>c_afl := a, c_world := w', c_ext := x', c_fault := FSRV_RUN_CRASH, c_new_bits := nb\<rparr>"
  have awf: "queue_wf a"
    using fs'(1) q by (intro queue_wf_upd [OF assms(1), of "classified fs'" a q
          "(queue_buf afl ! q)\<lparr>cal_failed := cal_failed (queue_buf afl ! q) + 1, exec_cksum := K\<rparr>"])
      (simp_all add: a_def a0 calm_def map_wf_classified, simp_all add: classified_def)
  have a: "q < length (queue_buf a)" "length (queue_buf a) = length (queue_buf afl)" "var_bytes a = var_bytes afl"
    "total_bitmap_entries a = total_bitmap_entries afl" "min_bitmap_size a = min_bitmap_size afl" "exec_cksum (queue_buf a ! q) = K"
    using q by (simp_all add: a_def a0)
  have rest: "crash_mode a = crash_mode afl" "slots_of a = slots_of afl" "afl_cal.more a = afl_cal.more afl"
    "q_len (queue_buf a ! q) = q_len (queue_buf afl ! q)"
    using q by (simp_all add: a_def a0_def q_upd_def slots_of_def)
  have "hits a (trace_bits (fsrv a)) = hits a raw"
    by (simp add: a_def fs'(2) [symmetric] classified_def hits_classified)
  also have "\<dots> = h"
    using frame(2) fs'(1) by (simp add: hits_def counted_def a_def calm_def classified_def)
  finally have h: "h = hits a (trace_bits (fsrv a))" ..
  have c2: "c_afl c2 = a" "c_max c2 \<noteq> 0" "c_fault c2 = FSRV_RUN_CRASH" "\<not> c_abort c2" "\<not> c_var c2" "c_new_bits c2 = nb"
    by (simp_all add: c2_def c0_def CAL_CYCLES_FAST_def CAL_CYCLES_def)
  obtain b where over: "bnd (cal_results clock q late (exec_cksum (queue_buf afl ! q) = 0) c2) (cal_finish q) = Inr (c2\<lparr>c_afl := b\<rparr>)"
    and b: "calibrated q K h a b" "min_bitmap_size b = (if 0x10 < nb then min (min_bitmap_size a) h else min_bitmap_size a)"
    using cal_after_steady [OF awf c2(1) a(1) c2(2,3,5) h, of clock late] unfolding a(6) c2(6) by blast
  have "min_bitmap_size b = min (min_bitmap_size afl) h"
    using b(2) a(5) nb by (auto simp: min_def not_less)
  moreover have "calibrated q K h afl b"
    using b(1) a rest by (simp add: calibrated_def)
  moreover have "calibrate_case child hash64 muts clock old_sc afl w x q use_mem late from_queue = Inr (FSRV_RUN_CRASH, b, w', x')"
  proof -
    have "cal_dummy_run child muts q (cal_timeout afl from_queue) old_sc c0 = Inr c0"
      using assms(4) a0(3) by (simp add: cal_dummy_run_def c0_def)
    moreover have "bnd (cal_resume q c0) (foldm (cal_round child hash64 muts q (cal_timeout afl from_queue)) [0 ..< unat CAL_CYCLES_LONG]) = Inr c2"
      using loop by (simp add: CAL_CYCLES_LONG_def c2_def a_def del: upt_Suc)
    moreover have "q_get afl q = Inr (queue_buf afl ! q)" "\<not> c_abort c0"
      using q by (simp_all add: c0_def)
    moreover obtain c3 where "cal_results clock q late (exec_cksum (queue_buf afl ! q) = 0) c2 = Inr c3" "cal_finish q c3 = Inr (c2\<lparr>c_afl := b\<rparr>)"
      using over by auto
    ultimately show ?thesis
      using c2(4) unfolding calibrate_case_def Let_def a0_def [symmetric]
      by (simp add: c0_def [symmetric]) (simp add: c2_def)
  qed
  ultimately show ?thesis
    by blast
qed

section \<open>What the caller is told\<close>

lemma run_target_never_nobits:
  "fuzz_run_target child afl w t x = Inr (r, afl', x') \<Longrightarrow> r \<noteq> FSRV_RUN_NOBITS"
  by (auto simp: fuzz_run_target_def afl_fsrv_run_target_def request_run_def await_child_def collect_status_def
      give_up_def outcome_def Let_def split: if_splits option.splits prod.splits)

text \<open>A state of the calibration in which a run has taken place.\<close>

definition ran :: "(('a) afl_cal_scheme, 'x) cal_state \<Rightarrow> bool" where
  "ran c \<longleftrightarrow> c_fault c \<noteq> FSRV_RUN_NOBITS \<and> (c_abort c \<or> c_fault c = FSRV_RUN_CRASH)"

lemma cal_run_ran:
  assumes "cal_run child muts q t i c = Inr c'"
  shows "ran c' \<and> c_max c' = c_max c"
proof (rule yieldsD [OF _ assms])
  show "yields (\<lambda>c'. ran c' \<and> c_max c' = c_max c) (cal_run child muts q t i c)"
    unfolding cal_run_def by (intro yields_intros) (auto simp: ran_def dest: run_target_never_nobits)
qed

lemma cal_compare_frame:
  assumes "cal_compare hash64 q c = Inr c'"
  shows "c_fault c' = c_fault c \<and> c_abort c' = c_abort c"
proof (rule yieldsD [OF _ assms])
  show "yields (\<lambda>c'. c_fault c' = c_fault c \<and> c_abort c' = c_abort c) (cal_compare hash64 q c)"
    unfolding cal_compare_def by (intro yields_intros) auto
qed

lemma cal_round_ran:
  assumes "cal_round child hash64 muts q t i c = Inr c'" "ran c \<or> \<not> c_abort c \<and> i < unat (c_max c)"
  shows "ran c'"
proof (cases "c_abort c \<or> \<not> i < unat (c_max c)")
  case True
  then show ?thesis
    using assms by (auto simp: cal_round_def)
next
  case False
  then obtain c1 where "cal_run child muts q t i c = Inr c1" "(if c_abort c1 then Inr c1 else cal_compare hash64 q c1) = Inr c'"
    using assms(1) by (auto simp: cal_round_def)
  moreover from this have "ran c1"
    using cal_run_ran by blast
  ultimately show ?thesis
    using cal_compare_frame [of hash64 q c1 c'] by (auto simp: ran_def split: if_splits)
qed

lemma cal_rounds_ran:
  "foldm (cal_round child hash64 muts q t) js c = Inr c' \<Longrightarrow> ran c \<Longrightarrow> ran c'"
  by (induction js arbitrary: c) (auto dest: cal_round_ran)

lemma cal_resume_frame:
  "cal_resume q c = Inr c' \<Longrightarrow> c_fault c' = c_fault c \<and> c_abort c' = c_abort c \<and> c_max c' = c_max c"
  unfolding cal_resume_def by (auto simp: bnd_eq_Inr_iff split: if_splits prod.splits)

lemma cal_dummy_run_frame:
  "cal_dummy_run child muts q t sc c = Inr c' \<Longrightarrow> \<not> cmplog_mode (c_afl c) \<and> c' = c \<or> ran c'"
  by (auto simp: cal_dummy_run_def dest: cal_run_ran split: if_splits)

lemma cal_loop_ran:
  assumes "(if c_abort c then Inr c else bnd (cal_resume q c) (foldm (cal_round child hash64 muts q t) [0 ..< Suc k])) = Inr c'"
    and "ran c \<or> \<not> c_abort c" "0 < unat (c_max c)"
  shows "ran c'"
proof (cases "c_abort c")
  case True
  then show ?thesis
    using assms by auto
next
  case False
  then obtain c1 where c1: "cal_resume q c = Inr c1" "foldm (cal_round child hash64 muts q t) (0 # [1 ..< Suc k]) c1 = Inr c'"
    using assms(1) upt_conv_Cons [of 0 "Suc k"] by (auto simp del: upt_Suc)
  then obtain c2 where "cal_round child hash64 muts q t 0 c1 = Inr c2" "foldm (cal_round child hash64 muts q t) [1 ..< Suc k] c2 = Inr c'"
    by (auto simp del: upt_Suc)
  moreover have "\<not> c_abort c1 \<and> 0 < unat (c_max c1)"
    using cal_resume_frame [OF c1(1)] False assms(3) by simp
  ultimately show ?thesis
    using cal_round_ran cal_rounds_ran by blast
qed

lemma cal_results_ran:
  "cal_results clock q late first_run c = Inr c' \<Longrightarrow> ran c \<Longrightarrow> \<not> c_abort c \<Longrightarrow> c_fault c' = FSRV_RUN_CRASH"
  unfolding cal_results_def by (auto simp: bnd_eq_Inr_iff cal_verdict_def ran_def Let_def split: if_splits)

lemma cal_finish_fault:
  assumes "cal_finish q c = Inr c'"
  shows "c_fault c' = c_fault c"
proof (rule yieldsD [OF _ assms])
  show "yields (\<lambda>c'. c_fault c' = c_fault c) (cal_finish q c)"
    unfolding cal_finish_def by (intro yields_intros) auto
qed

lemma calibrate_case_fault:
  fixes afl afl' :: "('a) afl_cal_scheme" and x x' :: 'x
  assumes "calibrate_case child hash64 muts clock old_sc afl w x q use_mem late from_queue = Inr (fault, afl', w', x')"
  shows "fault \<noteq> FSRV_RUN_NOBITS"
proof -
  obtain c0 c1 c2 c3 c4 :: "(('a) afl_cal_scheme, 'x) cal_state" where c0: "\<not> c_abort c0" "0 < unat (c_max c0)"
    and steps: "cal_dummy_run child muts q (cal_timeout afl from_queue) old_sc c0 = Inr c1"
      "(if c_abort c1 then Inr c1 else bnd (cal_resume q c1)
         (foldm (cal_round child hash64 muts q (cal_timeout afl from_queue)) [0 ..< Suc 11])) = Inr c2"
      "(if c_abort c2 then Inr c2 else cal_results clock q late (exec_cksum (queue_buf afl ! q) = 0) c2) = Inr c3"
      "cal_finish q c3 = Inr c4" "fault = c_fault c4"
  proof -
    define c0 where "c0 = \<lparr>c_afl = q_upd q (\<lambda>e. e\<lparr>exec_cksum := (if cmplog_mode afl then 0 else exec_cksum e),
        cal_failed := cal_failed e + 1\<rparr>) afl, c_world = w, c_ext = x, c_mem = use_mem, c_fault = FSRV_RUN_OK, c_new_bits = 0,
        c_var = False, c_max = (if afl_cal_fast afl then CAL_CYCLES_FAST else CAL_CYCLES), c_abort = False\<rparr>"
    have "\<not> c_abort c0" "0 < unat (c_max c0)"
      by (simp_all add: c0_def CAL_CYCLES_FAST_def CAL_CYCLES_def)
    moreover have "q_get afl q = Inr e \<longleftrightarrow> q < length (queue_buf afl) \<and> e = queue_buf afl ! q" for e
      by (auto simp: q_get_def rd_def)
    moreover have "unat CAL_CYCLES_LONG = Suc 11"
      by (simp add: CAL_CYCLES_LONG_def)
    note run = assms [unfolded calibrate_case_def Let_def c0_def [symmetric] this]
    ultimately show ?thesis
      using run that [of c0] by (auto simp: bnd_eq_Inr_iff simp del: upt_Suc)
  qed
  have "0 < unat (c_max c1)"
    using steps(1) c0(2) by (auto simp: cal_dummy_run_def dest!: cal_run_ran split: if_splits)
  moreover have "ran c1 \<or> \<not> c_abort c1"
    using cal_dummy_run_frame [OF steps(1)] c0(1) by auto
  ultimately have "ran c2"
    using cal_loop_ran [OF steps(2)] by blast
  have "c_fault c3 \<noteq> FSRV_RUN_NOBITS"
  proof (cases "c_abort c2")
    case True
    then show ?thesis
      using steps(3) \<open>ran c2\<close> by (simp add: ran_def)
  next
    case False
    then show ?thesis
      using steps(3) cal_results_ran [of clock q late _ c2 c3] \<open>ran c2\<close> by simp
  qed
  then show ?thesis
    using cal_finish_fault [OF steps(4)] steps(5) by simp
qed

section \<open>Properties\<close>

text \<open>C3. Calibrating a new entry on a target that crashes the same way on the same input ends with the
  verdict crash: the entry has the checksum of its classified trace and the number of its edges, is
  no longer marked as failing to calibrate, the smallest bitmap seen is lowered to it when it is
  smaller, no byte becomes variable, and the queue stays well-formed.\<close>

theorem calibrate_case_correct:
  fixes afl :: "('a) afl_cal_scheme"
  assumes "queue_wf afl" "cov_wf afl" "testcase_matrix afl \<noteq> None" "\<not> cmplog_mode afl" "\<not> stop_soon afl"
    and "exec_cksum (queue_buf afl ! q) = 0 \<or> exec_cksum (queue_buf afl ! q) = K \<and> hits afl (trace_bits (fsrv afl)) = h"
    and "lengths_ok afl q use_mem" "transport_ok (fsrv afl) w" "n = unat (map_size (fsrv afl))"
    and "0 < n" "steady T n child" "crashes (cal_timeout afl from_queue) child"
    and "raw = raw_trace T afl q use_mem" "h = hits afl raw" "h \<noteq> 0" "K = hash64 (map count_class_lookup8 raw)" "K \<noteq> 0"
  shows "\<exists>afl' w' x'. calibrate_case child hash64 muts clock old_sc afl w x q use_mem late from_queue =
      Inr (FSRV_RUN_CRASH, afl', w', x') \<and> calibrated q K h afl afl' \<and>
    min_bitmap_size afl' = min (min_bitmap_size afl) h"
  by (rule calibrate_steady [where ?hash64.0 = hash64 and K = K, OF assms])

text \<open>C28. \<open>calibrate_case\<close> never tells its caller that a case brought nothing new, whatever the target does:
  only a crash reaches the code that computes the verdict, and the verdict is given for no fault only.\<close>

theorem calibrate_case_never_nobits:
  assumes "calibrate_case child hash64 muts clock old_sc afl w x q use_mem late from_queue = Inr (fault, afl', w', x')"
  shows "fault \<noteq> FSRV_RUN_NOBITS"
  by (rule calibrate_case_fault [OF assms])

text \<open>A queue with one entry that is also the test case matrix, on the target that crashes at once.\<close>

definition cal_example :: afl_cal where
  "cal_example = afl_trim.extend (trim_example\<lparr>testcase_matrix := Some 0, virgin_bits := replicate 64 0, virgin_tmout := replicate 64 0,
      virgin_crash := replicate 64 0, min_bitmap_size := 5\<rparr>) (afl_cal.fields [] [] 0 0 0 True)"

lemma cal_example_simps:
  "fsrv cal_example = example_fsrv (replicate 64 0)" "queue_buf cal_example = [zero_entry\<lparr>q_len := 8, fname := ''f''\<rparr>]"
  "custom_mutators_count cal_example = 0" "\<not> stop_soon cal_example" "testcase_matrix cal_example = Some 0"
  "top_rated cal_example = replicate 64 None" "queued_items cal_example = 1" "length (map_tmp_buf cal_example) = 8"
  "get_virgin vm cal_example = replicate 64 0" "\<not> cmplog_mode cal_example" "min_length cal_example = 1" "max_length cal_example = MAX_FILE"
  "\<not> resuming_fuzz cal_example" "min_bitmap_size cal_example = 5"
  by (cases vm; simp add: cal_example_def afl_cal.defs trim_example_def afl_run.defs afl_trim.defs run_state_def afl_crash.defs
      crash_state_def afl_extras.defs dict_example_def mopt_example_def afl_mopt.defs afl_cache.defs zero_afl_def)+

lemma cal_example_wf: "queue_wf cal_example" "cov_wf cal_example"
  by (simp_all add: queue_wf_def cov_wf_def cal_example_simps map_wf_def top_inv_def zero_entry_def count_list_replicate_eq)

lemma cal_example_ready:
  "testcase_matrix cal_example \<noteq> None" "\<not> cmplog_mode cal_example" "\<not> stop_soon cal_example"
  "exec_cksum (queue_buf cal_example ! 0) = 0" "lengths_ok cal_example 0 [1, 2, 3, 4, 5, 6, 7, 8]"
  "transport_ok (fsrv cal_example) empty_world" "64 = unat (map_size (fsrv cal_example))" "0 < (64 :: nat)"
  "crashes (cal_timeout cal_example True) crashing"
  by (simp_all add: cal_example_simps lengths_ok_def transport_ok_def zero_entry_def MAX_FILE_def empty_world_def cal_timeout_def
      crashes_def crashing_def) (simp_all add: example_fsrv_def)

lemma cal_example_hits: "hits cal_example (raw_trace (\<lambda>_. [1]) cal_example 0 mem) = 1"
  by (simp add: hits_def raw_trace_def counted_def cal_example_simps) (simp add: example_fsrv_def overlay_def)

theorem calibrate_case_correct_witness:
  "\<exists>afl' w' x'. calibrate_case crashing (\<lambda>_. 7) [] (0, 0) 0 cal_example empty_world () 0 [1, 2, 3, 4, 5, 6, 7, 8] 0 True
      = Inr (FSRV_RUN_CRASH, afl', w', x') \<and> calibrated 0 7 1 cal_example afl' \<and> min_bitmap_size afl' = 1"
proof -
  note r = cal_example_ready
  have K: "(7 :: u64) \<noteq> 0" and h: "(1 :: u32) \<noteq> 0"
    by simp_all
  show ?thesis
    using calibrate_case_correct [where ?hash64.0 = "\<lambda>_. 7", OF cal_example_wf r(1-3) disjI1 [OF r(4)] r(5-8) crashing_steady r(9) refl
        cal_example_hits [symmetric] h refl K, of "[]" "(0, 0)" 0 "()" 0]
    by (simp add: cal_example_simps)
qed

theorem calibrate_case_never_nobits_witness:
  "\<exists>fault afl' w' x'. calibrate_case crashing (\<lambda>_. 7) [] (0, 0) 0 cal_example empty_world () 0 [1, 2, 3, 4, 5, 6, 7, 8] 0 True
      = Inr (fault, afl', w', x') \<and> fault \<noteq> FSRV_RUN_NOBITS"
proof -
  note r = cal_example_ready
  have K: "(7 :: u64) \<noteq> 0" and h: "(1 :: u32) \<noteq> 0"
    by simp_all
  obtain afl' w' x' where
    "calibrate_case crashing (\<lambda>_. 7) [] (0, 0) 0 cal_example empty_world () 0 [1, 2, 3, 4, 5, 6, 7, 8] 0 True
      = Inr (FSRV_RUN_CRASH, afl', w', x')"
    using calibrate_steady [where ?hash64.0 = "\<lambda>_. 7", OF cal_example_wf r(1-3) disjI1 [OF r(4)] r(5-8) crashing_steady r(9) refl
        cal_example_hits [symmetric] h refl K, of "[]" "(0, 0)" 0 "()" 0] by blast
  then show ?thesis
    using calibrate_case_never_nobits by blast
qed

end
