(* ===== verification/Keep.thy ===== *)
theory Keep
  imports Calibrate
begin

text \<open>
  What the operations around a run keep, whatever the target and the custom mutators do: the
  coverage maps and the queue stay well-formed, no entry comes, goes or changes its file name. One
  relation between the state before and after, and a rule for each operation, up to
  \<open>calibrate_case\<close>.
\<close>

section \<open>The relation\<close>

definition same_map :: "afl_forkserver \<Rightarrow> afl_forkserver \<Rightarrow> bool" where
  "same_map fs fs' \<longleftrightarrow> map_size fs' = map_size fs \<and> real_map_size fs' = real_map_size fs \<and>
     length (trace_bits fs') = length (trace_bits fs)"

definition fit :: "('a) afl_queue_scheme \<Rightarrow> bool" where
  "fit afl \<longleftrightarrow> queue_wf afl \<and> cov_wf afl"

definition refs :: "queue_entry \<Rightarrow> string \<times> u32 \<times> bytes option" where
  "refs e = (fname e, tc_ref e, trace_mini e)"

definition names :: "('a) afl_queue_scheme \<Rightarrow> string list" where
  "names afl = map fname (queue_buf afl)"

definition kept :: "('a) afl_sched_scheme \<Rightarrow> ('a) afl_sched_scheme \<Rightarrow> bool" where
  "kept a b \<longleftrightarrow> (fit a \<longrightarrow> fit b) \<and> names b = names a \<and> queued_items b = queued_items a \<and>
     queue_top b = queue_top a \<and> out_dir b = out_dir a \<and> testcase_matrix b = testcase_matrix a \<and>
     queued_discovered b = queued_discovered a"

lemma kept_refl: "kept a a"
  by (simp add: kept_def)

lemma kept_trans: "kept a b \<Longrightarrow> kept b c \<Longrightarrow> kept a c"
  by (simp add: kept_def)

lemma same_map_refl [simp]: "same_map fs fs"
  by (simp add: same_map_def)

lemma same_map_trans: "same_map a b \<Longrightarrow> same_map b c \<Longrightarrow> same_map a c"
  by (simp add: same_map_def)

lemma run_frame_same_map: "run_frame fs' = run_frame fs \<Longrightarrow> same_map fs fs'"
  using run_frame_simps [of fs' fs] by (simp add: same_map_def)

lemma same_map_wf: "same_map fs fs' \<Longrightarrow> map_wf fs' = map_wf fs"
  by (simp add: same_map_def map_wf_def)

lemma top_inv_refs:
  assumes "map refs buf' = map refs buf"
  shows "top_inv m n buf' tr = top_inv m n buf tr"
proof -
  have "length buf' = length buf"
    using arg_cong [OF assms, of length] by simp
  moreover have "tc_ref (buf' ! t) = tc_ref (buf ! t)" "trace_mini (buf' ! t) = trace_mini (buf ! t)" if "t < length buf" for t
    using arg_cong [OF assms, of "\<lambda>xs. xs ! t"] that calculation by (simp_all add: refs_def)
  ultimately show ?thesis
    by (auto simp: top_inv_def)
qed

text \<open>The one rule behind all others.\<close>

lemma keptI:
  assumes "same_map (fsrv a) (fsrv b)" "map refs (queue_buf b) = map refs (queue_buf a)"
    and "top_rated b = top_rated a" "queued_items b = queued_items a" "map_tmp_buf b = map_tmp_buf a"
    and "testcase_matrix b = testcase_matrix a" "queue_top b = queue_top a" "out_dir b = out_dir a"
    and "queued_discovered b = queued_discovered a"
    and "\<And>vm. length (get_virgin vm b) = length (get_virgin vm a)"
  shows "kept a b"
proof -
  have l: "length (queue_buf b) = length (queue_buf a)"
    using arg_cong [OF assms(2), of length] by simp
  have "map (fst \<circ> refs) (queue_buf b) = map (fst \<circ> refs) (queue_buf a)"
    using arg_cong [OF assms(2), of "map fst"] by simp
  then have "names b = names a"
    by (simp add: names_def refs_def comp_def)
  moreover have "queue_wf b" if "queue_wf a"
    using that assms top_inv_refs [OF assms(2)] same_map_wf [OF assms(1)] l by (auto simp: queue_wf_def same_map_def)
  moreover have "cov_wf b" if "cov_wf a"
    using that assms(1,10) same_map_wf [OF assms(1)] by (auto simp: cov_wf_def same_map_def)
  ultimately show ?thesis
    using assms by (simp add: kept_def fit_def)
qed

lemma keptI_same:
  assumes "same_map (fsrv a) (fsrv b)" "map refs (queue_buf b) = map refs (queue_buf a)"
    and "top_rated b = top_rated a" "queued_items b = queued_items a" "map_tmp_buf b = map_tmp_buf a"
    and "testcase_matrix b = testcase_matrix a" "queue_top b = queue_top a" "out_dir b = out_dir a"
    and "queued_discovered b = queued_discovered a"
    and "virgin_bits b = virgin_bits a" "virgin_tmout b = virgin_tmout a" "virgin_crash b = virgin_crash a"
  shows "kept a b"
proof (rule keptI [OF assms(1-9)])
  show "length (get_virgin vm b) = length (get_virgin vm a)" for vm
    using assms(10-12) by (cases vm) simp_all
qed

lemma map_refs_update: "refs e = refs (buf ! q) \<Longrightarrow> map refs (buf[q := e]) = map refs buf"
  by (cases "q < length buf") (simp_all add: map_update list_update_same_conv not_less list_update_beyond)

lemma kept_fsrv: "same_map (fsrv a) fs \<Longrightarrow> kept a (a\<lparr>fsrv := fs\<rparr>)"
  by (rule keptI) simp_all

lemma kept_entry: "(\<And>e. refs (f e) = refs e) \<Longrightarrow> kept a (q_upd q f a)"
  by (rule keptI) (simp_all add: q_upd_def map_refs_update, case_tac vm, simp_all)

lemma kept_virgin:
  assumes "length m = length (get_virgin vm a)"
  shows "kept a (set_virgin vm m a)" "kept a ((set_virgin vm m a)\<lparr>bitmap_changed := c\<rparr>)"
proof -
  have virgin: "length (get_virgin vm' (set_virgin vm m a)) = length (get_virgin vm' a)" for vm'
    using assms by (cases "vm = vm'") simp_all
  have frame: "queue_buf (set_virgin vm m a) = queue_buf a" "top_rated (set_virgin vm m a) = top_rated a"
    "queued_items (set_virgin vm m a) = queued_items a" "map_tmp_buf (set_virgin vm m a) = map_tmp_buf a"
    "queue_top (set_virgin vm m a) = queue_top a" "out_dir (set_virgin vm m a) = out_dir a"
    "queued_discovered (set_virgin vm m a) = queued_discovered a"
    by (cases vm; simp)+
  show "kept a (set_virgin vm m a)" and "kept a ((set_virgin vm m a)\<lparr>bitmap_changed := c\<rparr>)"
    by (rule keptI; simp add: frame virgin)+
qed

section \<open>Coverage\<close>

lemma classify_kept:
  assumes "classify_counts (fsrv a) = Inr fs" "fit a"
  shows "same_map (fsrv a) fs"
proof -
  have "map_wf (fsrv a)"
    using assms(2) by (simp add: fit_def queue_wf_def)
  then show ?thesis
    using assms(1) classify_counts_map [of "fsrv a"] by (auto simp: same_map_def)
qed

lemma has_few_bits_kept:
  assumes "has_few_bits a vm = Inr (r, b)" "fit a"
  shows "kept a b"
proof -
  have wf: "cov_wf a"
    using assms(2) by (simp add: fit_def)
  let ?s = "seen64 a" and ?cs = "trace_bits (fsrv a)" and ?vs = "get_virgin vm a"
  show ?thesis
  proof (cases "testcase_matrix a = None")
    case True
    then have "has_new_bits a vm = Inr (r, b)"
      using assms(1) by (simp add: has_few_bits_def)
    then have "\<exists>c m. b = (if c then (set_virgin vm m a)\<lparr>bitmap_changed := True\<rparr> else set_virgin vm m a) \<and>
        m = clear_seen (take ?s ?cs) (take ?s ?vs) @ drop ?s ?vs"
      unfolding has_new_bits_spec [OF wf] Let_def finish_new_bits_simps by blast
    moreover have "length (clear_seen (take ?s ?cs) (take ?s ?vs) @ drop ?s ?vs) = length ?vs"
      using cov_wfD(2,3,5) [OF wf] by simp
    ultimately show ?thesis
      using kept_virgin by metis
  next
    case False
    then have "\<exists>c m. b = (if c then (set_virgin vm m a)\<lparr>bitmap_changed := True\<rparr> else set_virgin vm m a) \<and>
        m = map2 restore (take ?s ?cs) (take ?s ?vs) @ drop ?s ?vs"
      using assms(1) unfolding has_few_bits_matrix [OF wf False] Let_def finish_few_bits_simps by blast
    moreover have "length (map2 restore (take ?s ?cs) (take ?s ?vs) @ drop ?s ?vs) = length ?vs"
      using cov_wfD(2,3,5) [OF wf] by simp
    ultimately show ?thesis
      using kept_virgin by metis
  qed
qed

lemma gather_bits_kept:
  assumes "gather_bits a nb = Inr (nb', b)" "fit a"
  shows "kept a b"
proof -
  obtain r where "has_few_bits a VIRGIN_BITS = Inr (r, b)"
    using assms(1) by (auto simp: gather_bits_def bnd_eq_Inr_iff)
  then show ?thesis
    using has_few_bits_kept assms(2) by blast
qed

section \<open>Runs\<close>

lemma fsrv_write_same_map:
  assumes "afl_fsrv_write_to_testcase fs w buf len = Inr (fs', w')"
  shows "same_map fs fs'"
  using assms by (auto simp: afl_fsrv_write_to_testcase_def write_shmem_def same_map_def bnd_eq_Inr_iff
      split: if_splits option.splits)

lemma write_to_testcase_kept:
  assumes "write_to_testcase muts a w mem len fix = Inr (n, mem', b, w')"
  shows "kept a b"
proof -
  have "yields (\<lambda>(n, mem', b, w'). kept a b) (write_to_testcase muts a w mem len fix)"
    unfolding write_to_testcase_def
    by (intro yields_intros) (auto intro: kept_refl kept_fsrv dest!: fsrv_write_same_map)
  then show ?thesis
    using yieldsD assms by fastforce
qed

lemma fuzz_run_target_kept:
  assumes "fuzz_run_target child a w t x = Inr (r, b, x')"
  shows "kept a b"
proof -
  obtain fs c d where b: "b = a\<lparr>fsrv := fs, stop_soon := c, skip_requested := d\<rparr>" and "run_frame fs = run_frame (fsrv a)"
    using fuzz_run_target_frame [OF assms] by blast
  then have "same_map (fsrv a) fs"
    using run_frame_same_map by blast
  then show ?thesis
    unfolding b by (intro keptI) (simp_all, case_tac vm, simp_all)
qed

section \<open>Calibration\<close>

lemma kept_fit: "kept a b \<Longrightarrow> fit a \<Longrightarrow> fit b"
  by (simp add: kept_def)

lemma mark_var_byte_kept:
  assumes "mark_var_byte i a = Inr b"
  shows "kept a b"
proof (rule yieldsD [OF _ assms])
  show "yields (kept a) (mark_var_byte i a)"
    unfolding mark_var_byte_def
  proof (intro yields_intros kept_refl)
    fix vb
    assume "wr (virgin_bits a) i 0 = Inr vb"
    then have "length vb = length (virgin_bits a)"
      by (auto simp: wr_def split: if_splits)
    then have "length (get_virgin vm (a\<lparr>var_bytes := (var_bytes a)[i := 1], virgin_bits := vb\<rparr>)) = length (get_virgin vm a)" for vm
      by (cases vm) simp_all
    then show "kept a (a\<lparr>var_bytes := (var_bytes a)[i := 1], virgin_bits := vb\<rparr>)"
      by (intro keptI) simp_all
  qed
qed

lemma foldm_mark_kept:
  "foldm mark_var_byte js a = Inr b \<Longrightarrow> kept a b"
proof (induction js arbitrary: a)
  case (Cons j js)
  then obtain c where "mark_var_byte j a = Inr c" "foldm mark_var_byte js c = Inr b"
    by (auto simp: bnd_eq_Inr_iff)
  then show ?case
    using kept_trans [OF mark_var_byte_kept Cons.IH] by blast
qed (simp add: kept_refl)

lemma keep_first_trace_kept: "kept a (keep_first_trace a)"
  unfolding keep_first_trace_def by (rule keptI) (simp_all, case_tac vm, simp_all)

lemma update_bitmap_score_kept:
  assumes "update_bitmap_score a q = Inr b" "fit a" "q < length (queue_buf a)"
  shows "kept a b"
proof -
  have wf: "queue_wf a" "cov_wf a"
    using assms(2) by (simp_all add: fit_def)
  then have sc: "scored a q (unat (map_size (fsrv a))) b"
    using update_bitmap_score_scored [OF wf(1) assms(3)] assms(1) by auto
  then obtain buf tr c where b: "b = a\<lparr>queue_buf := buf, top_rated := tr, score_changed := c\<rparr>"
    and st: "map static buf = map static (queue_buf a)"
    unfolding scored_def by blast
  have "fname (static e) = fname e" for e
    by (simp add: static_def)
  then have "names b = names a"
    using arg_cong [OF st, of "map fname"] by (simp add: names_def b comp_def)
  moreover have "get_virgin vm b = get_virgin vm a" for vm
    by (cases vm) (simp_all add: b)
  then have "cov_wf b"
    using wf(2) by (simp add: cov_wf_def b)
  ultimately show ?thesis
    using scored_wf(1) [OF wf(1) sc] by (simp add: kept_def fit_def b)
qed

lemma mark_as_variable_kept:
  "mark_as_variable a w q = Inr (b, w') \<Longrightarrow> kept a b"
  by (auto simp: mark_as_variable_def bnd_eq_Inr_iff refs_def intro!: kept_entry)

lemma cal_run_kept:
  assumes "cal_run child muts q t i c = Inr c'"
  shows "kept (c_afl c) (c_afl c')"
proof (rule yieldsD [OF _ assms])
  have both: "kept (c_afl c) a2" if "write_to_testcase muts (c_afl c) w m len True = Inr (n, m', a1, w1)"
    "fuzz_run_target child a1 w1 t x = Inr (r, a2, x1)" for w m len n m' a1 w1 x r a2 x1
    using kept_trans [OF write_to_testcase_kept [OF that(1)] fuzz_run_target_kept [OF that(2)]] .
  show "yields (\<lambda>c'. kept (c_afl c) (c_afl c')) (cal_run child muts q t i c)"
    unfolding cal_run_def by (intro yields_intros; simp) (use both in blast)+
qed

lemma cal_compare_kept:
  assumes "cal_compare hash64 q c = Inr c'" "fit (c_afl c)"
  shows "kept (c_afl c) (c_afl c')"
proof (rule yieldsD [OF _ assms(1)])
  have first: "kept (c_afl c) a2" if "classify_counts (fsrv (c_afl c)) = Inr fs" "gather_bits ((c_afl c)\<lparr>fsrv := fs\<rparr>) nb = Inr (nb', a2)"
    for fs nb nb' a2
    using kept_fsrv [OF classify_kept [OF that(1) assms(2)]] gather_bits_kept [OF that(2)] kept_fit kept_trans assms(2) by blast
  have cls: "kept (c_afl c) ((c_afl c)\<lparr>fsrv := fs\<rparr>)" if "classify_counts (fsrv (c_afl c)) = Inr fs" for fs
    by (rule kept_fsrv [OF classify_kept [OF that assms(2)]])
  have learnt: "kept a2 (keep_first_trace (q_upd q (\<lambda>e. e\<lparr>exec_cksum := k\<rparr>) a2))" for a2 :: "('a) afl_cal_scheme" and k
    by (rule kept_trans [OF kept_entry keep_first_trace_kept]) (simp add: refs_def)
  show "yields (\<lambda>c'. kept (c_afl c) (c_afl c')) (cal_compare hash64 q c)"
    unfolding cal_compare_def
    by (intro yields_intros; simp) (use first cls learnt foldm_mark_kept kept_trans in blast)+
qed

lemma cal_round_kept:
  assumes "cal_round child hash64 muts q t i c = Inr c'" "fit (c_afl c)"
  shows "kept (c_afl c) (c_afl c')"
proof (cases "c_abort c \<or> \<not> i < unat (c_max c)")
  case True
  then show ?thesis
    using assms(1) kept_refl by (auto simp: cal_round_def)
next
  case False
  then obtain c1 where c1: "cal_run child muts q t i c = Inr c1" "(if c_abort c1 then Inr c1 else cal_compare hash64 q c1) = Inr c'"
    using assms(1) by (auto simp: cal_round_def)
  have "kept (c_afl c) (c_afl c1)"
    by (rule cal_run_kept [OF c1(1)])
  moreover have "kept (c_afl c1) (c_afl c')"
    using c1(2) cal_compare_kept kept_fit [OF calculation assms(2)] kept_refl by (auto split: if_splits)
  ultimately show ?thesis
    by (rule kept_trans)
qed

lemma cal_rounds_kept:
  "foldm (cal_round child hash64 muts q t) js c = Inr c' \<Longrightarrow> fit (c_afl c) \<Longrightarrow> kept (c_afl c) (c_afl c')"
proof (induction js arbitrary: c)
  case (Cons j js)
  then obtain d where d: "cal_round child hash64 muts q t j c = Inr d" "foldm (cal_round child hash64 muts q t) js d = Inr c'"
    by (auto simp: bnd_eq_Inr_iff)
  then show ?case
    using cal_round_kept [OF d(1) Cons.prems(2)] Cons.IH [OF d(2)] kept_fit kept_trans Cons.prems(2) by blast
qed (simp add: kept_refl)

lemma cal_resume_kept:
  assumes "cal_resume q c = Inr c'" "fit (c_afl c)"
  shows "kept (c_afl c) (c_afl c')"
proof (rule yieldsD [OF _ assms(1)])
  have "kept (c_afl c) b" if "gather_bits (keep_first_trace (c_afl c)) nb = Inr (nb', b)" for nb nb' b
    using kept_trans [OF keep_first_trace_kept gather_bits_kept [OF that kept_fit [OF keep_first_trace_kept assms(2)]]] .
  then show "yields (\<lambda>c'. kept (c_afl c) (c_afl c')) (cal_resume q c)"
    unfolding cal_resume_def by (intro yields_intros; simp) (use kept_refl in blast)+
qed

lemma cal_results_kept:
  assumes "cal_results clock q late first_run c = Inr c'" "fit (c_afl c)"
  shows "kept (c_afl c) (c_afl c')"
proof (rule yieldsD [OF _ assms(1)])
  have entry: "kept a (lower_minima nb n (account_entry q us m n late (account_time us m a)))" for nb n us m and a :: "('a) afl_cal_scheme"
    by (rule keptI) (simp_all add: lower_minima_def account_entry_def account_time_def Let_def q_upd_def map_refs_update refs_def,
      case_tac vm, simp_all)
  have len: "length (queue_buf (lower_minima nb n (account_entry q us m n late (account_time us m a)))) = length (queue_buf a)"
    for nb n us m and a :: "('a) afl_cal_scheme"
    by (simp add: lower_minima_def account_entry_def account_time_def Let_def q_upd_def)
  have all: "kept (c_afl c) b" if "q_get (account_time us m (c_afl c)) q = Inr e"
    "update_bitmap_score (lower_minima nb n (account_entry q us m n late (account_time us m (c_afl c)))) q = Inr b" for us m e nb n b
  proof (rule kept_trans [OF entry update_bitmap_score_kept [OF that(2)]])
    show "fit (lower_minima nb n (account_entry q us m n late (account_time us m (c_afl c))))"
      by (rule kept_fit [OF entry assms(2)])
    show "q < length (queue_buf (lower_minima nb n (account_entry q us m n late (account_time us m (c_afl c)))))"
      using that(1) unfolding len by (auto simp: q_get_def rd_def account_time_def split: if_splits)
  qed
  show "yields (\<lambda>c'. kept (c_afl c) (c_afl c')) (cal_results clock q late first_run c)"
    unfolding cal_results_def by (intro yields_intros; simp) (use all in blast)
qed

lemma cal_finish_kept:
  assumes "cal_finish q c = Inr c'"
  shows "kept (c_afl c) (c_afl c')"
proof (rule yieldsD [OF _ assms])
  have cov: "kept a (if p then (q_upd q (\<lambda>e. e\<lparr>has_new_cov := True\<rparr>) a)\<lparr>queued_with_cov := m\<rparr> else a)"
    for p m and a :: "('a) afl_cal_scheme"
  proof -
    have "length (get_virgin vm (a\<lparr>queue_buf := buf, queued_with_cov := m\<rparr>)) = length (get_virgin vm a)" for vm buf
      by (cases vm) simp_all
    then have "kept a ((q_upd q (\<lambda>e. e\<lparr>has_new_cov := True\<rparr>) a)\<lparr>queued_with_cov := m\<rparr>)"
      by (intro keptI) (simp_all add: q_upd_def map_refs_update refs_def)
    then show ?thesis
      by (cases p) (simp_all add: kept_refl)
  qed
  have count: "kept a (a\<lparr>var_byte_count := n\<rparr>)" for n and a :: "('a) afl_cal_scheme"
    by (rule keptI) (simp_all, case_tac vm, simp_all)
  have variable: "kept a (b\<lparr>queued_variable := m\<rparr>)" if "mark_as_variable a w q = Inr (b, w')" for m w w' and a b :: "('a) afl_cal_scheme"
  proof (rule kept_trans [OF mark_as_variable_kept [OF that]])
    show "kept b (b\<lparr>queued_variable := m\<rparr>)"
      by (rule keptI) (simp_all, case_tac vm, simp_all)
  qed
  let ?start = "\<lambda>p m. if p then (q_upd q (\<lambda>e. e\<lparr>has_new_cov := True\<rparr>) (c_afl c))\<lparr>queued_with_cov := m\<rparr> else c_afl c"
  have one: "kept (c_afl c) b" if "b = ?start p m" for b p m
    unfolding that by (rule cov)
  have two: "kept (c_afl c) d" if "b = ?start p m" "d = b\<lparr>var_byte_count := n\<rparr>" for b p m d n
    unfolding that(2) by (rule kept_trans [OF one [OF that(1)] count])
  have three: "kept (c_afl c) (f\<lparr>queued_variable := k\<rparr>)"
    if "b = ?start p m" "d = b\<lparr>var_byte_count := n\<rparr>" "mark_as_variable d w q = Inr x" "x = (f, w')" for b p m d n w x f w' k
    by (rule kept_trans [OF two [OF that(1,2)] variable [OF that(3) [unfolded that(4)]]])
  have sel: "c_afl (c\<lparr>c_afl := b\<rparr>) = b" "c_afl (c\<lparr>c_afl := b, c_world := w\<rparr>) = b" for b w
    by simp_all
  show "yields (\<lambda>c'. kept (c_afl c) (c_afl c')) (cal_finish q c)"
    unfolding cal_finish_def
    by (intro yields_intros; simp (no_asm) only: sel)
      ((rule one, assumption) | (rule two, assumption, assumption) | (rule three, assumption, assumption, assumption, assumption))+
qed

lemma calibrate_case_kept:
  assumes run: "calibrate_case child hash64 muts clock old_sc a w x q use_mem late from_queue = Inr (fault, b, w', x')"
    and fit: "fit a"
  shows "kept a b"
proof -
  have start: "kept a (q_upd q (\<lambda>e. e\<lparr>exec_cksum := k e, cal_failed := cal_failed e + 1\<rparr>) a)" for k
    by (rule kept_entry) (simp add: refs_def)
  have dummy: "kept (c_afl c) (c_afl c')" if "cal_dummy_run child muts q t sc c = Inr c'" for t sc c c'
    using that kept_refl cal_run_kept by (auto simp: cal_dummy_run_def split: if_splits)
  have loop: "kept (c_afl c) (c_afl c')"
    if run: "(if c_abort c then Inr c else bnd (cal_resume q c) (foldm (cal_round child hash64 muts q t) js)) = Inr c'"
      and "fit (c_afl c)" for t js c c'
  proof (cases "c_abort c")
    case False
    then obtain d where "cal_resume q c = Inr d" "foldm (cal_round child hash64 muts q t) js d = Inr c'"
      using run by auto
    then show ?thesis
      using that(2) cal_resume_kept cal_rounds_kept kept_fit kept_trans by blast
  qed (use that kept_refl in simp)
  have results: "kept (c_afl c) (c_afl c')"
    if "(if c_abort c then Inr c else cal_results clock q late fr c) = Inr c'" and "fit (c_afl c)" for fr c c'
    using that kept_refl cal_results_kept [of clock q late fr c c'] by (auto split: if_splits)
  have chain: "kept a (c_afl c4)"
    if "c_afl c0 = q_upd q (\<lambda>e. e\<lparr>exec_cksum := (if cmplog_mode a then 0 else exec_cksum e), cal_failed := cal_failed e + 1\<rparr>) a" "cal_dummy_run child muts q t sc c0 = Inr c1"
      "(if c_abort c1 then Inr c1 else bnd (cal_resume q c1) (foldm (cal_round child hash64 muts q t) js)) = Inr c2"
      "(if c_abort c2 then Inr c2 else cal_results clock q late fr c2) = Inr c3" "cal_finish q c3 = Inr c4"
    for c0 t sc c1 js c2 fr c3 c4
  proof -
    have "kept a (c_afl c0)"
      unfolding that(1) by (rule start)
    then have k1: "kept a (c_afl c1)"
      by (rule kept_trans [OF _ dummy [OF that(2)]])
    have k2: "kept a (c_afl c2)"
      using kept_trans [OF k1 loop [OF that(3) kept_fit [OF k1 fit]]] .
    have k3: "kept a (c_afl c3)"
      using kept_trans [OF k2 results [OF that(4) kept_fit [OF k2 fit]]] .
    show ?thesis
      using kept_trans [OF k3 cal_finish_kept [OF that(5)]] .
  qed
  have "yields (\<lambda>(fault, b, w', x'). kept a b) (calibrate_case child hash64 muts clock old_sc a w x q use_mem late from_queue)"
    unfolding calibrate_case_def
    by (intro yields_intros, simp (no_asm) only: prod.case, rule chain [rotated]) (assumption+, simp)
  from yieldsD [OF this run] show ?thesis
    by simp
qed

end
