(* ===== verification/Save.thy ===== *)
theory Save
  imports Keep
begin

text \<open>
  What becomes of a test case that has been run (src/afl-fuzz-bitmap.c): \<open>save_if_interesting\<close> keeps
  the crashes that lose coverage in the queue and samples of hangs, under names \<open>describe_op\<close> makes up;
  \<open>common_fuzz_stuff\<close> (src/afl-fuzz-run.c) runs one case of a stage. Here the components meet: writing
  and running, coverage, the queue, calibration, the cache and the crash sites.
\<close>

section \<open>State\<close>

record afl_save = afl_cal +
  afl_ignore_timeouts :: bool
  hang_tmout :: u32
  total_tmouts :: u64
  total_crashes :: u64
  saved_hangs :: u64
  saved_crashes :: u64
  last_hang_time :: u64
  last_crash_time :: u64
  last_crash_execs :: u64
  prev_run_time :: u64
  syncing_case :: u32
  current_entry :: u32
  splicing_with :: u32
  op_short :: string
  op_cur_byte :: u32
  op_cur_val :: u32
  op_val_type :: u8
  subseq_tmouts :: u32
  cur_skipped_items :: u32

definition KEEP_UNIQUE_HANG :: u64 where "KEEP_UNIQUE_HANG = 500"
definition TMOUT_LIMIT :: u32 where "TMOUT_LIMIT = 250"
definition N_FUZZ_SIZE :: u64 where "N_FUZZ_SIZE = 2 ^ 21"
definition NAME_MAX :: nat where "NAME_MAX = 255"

text \<open>
  What the routines get from outside: the target, the custom mutators with the hooks for new entries
  and the description the current one gives, the symbolizer, \<open>hash64\<close>, what a run leaves in the file
  system (the report of a crash), the readings of the clock, and whether memory can be had.
\<close>

record 'x save_env =
  e_child :: "'x child"
  e_muts :: "custom_mutator list"
  e_hooks :: "new_entry_hook option list"
  e_describe :: "(int \<Rightarrow> string option) option"
  e_symb :: symbolizer
  e_hash :: "bytes \<Rightarrow> u64"
  e_leaves :: "'x \<Rightarrow> world \<Rightarrow> world"
  e_now :: u64
  e_add_time :: u64
  e_clock :: "u64 \<times> u64"
  e_done :: u64
  e_stage_cur :: u32
  e_mem_ok :: bool

section \<open>Names\<close>

text \<open>\<open>printf\<close> with \<open>%u\<close>, \<open>%06u\<close>, \<open>%d\<close> and \<open>%+d\<close>\<close>

fun dec_of :: "nat \<Rightarrow> string" where
  "dec_of n = (if n < 10 then [char_of (48 + n)] else dec_of (n div 10) @ [char_of (48 + n mod 10)])"

declare dec_of.simps [simp del]

definition dec06 :: "nat \<Rightarrow> string" where
  "dec06 n = (let s = dec_of n in replicate (6 - length s) (CHR ''0'') @ s)"

definition dec_int :: "bool \<Rightarrow> int \<Rightarrow> string" where
  "dec_int with_plus i = (if i < 0 then ''-'' else if with_plus then ''+'' else '''') @ dec_of (nat \<bar>i\<bar>)"

definition cov_tag :: "u8 \<Rightarrow> string" where
  "cov_tag new_bits =
     (if new_bits = 0x02 then '',+cov'' else if new_bits = 0x11 then '',-xxh'' else if new_bits = 0x12 then '',-xcx''
      else if new_bits = 0x13 then '',-xch'' else if new_bits = 0x14 then '',-bxx'' else if new_bits = 0x15 then '',-bxh''
      else if new_bits = 0x16 then '',-bcx'' else if new_bits = 0x17 then '',-bch'' else '''')"

definition normal_op :: "('a) afl_save_scheme \<Rightarrow> string" where
  "normal_op afl =
     '',op:'' @ op_short afl @
     (if sint (op_cur_byte afl) \<ge> 0 then
        '',pos:'' @ dec_int False (sint (op_cur_byte afl)) @
        (if op_val_type afl \<noteq> STAGE_VAL_NONE then
           '',val:'' @ (if op_val_type afl = STAGE_VAL_BE then ''be:'' else '''') @ dec_int True (sint (op_cur_val afl))
         else '''')
      else '',rep:'' @ dec_int False (sint (op_cur_val afl)))"

definition custom_op :: "('a) afl_save_scheme \<Rightarrow> (int \<Rightarrow> string option) \<Rightarrow> nat \<Rightarrow> bool \<Rightarrow> nat \<Rightarrow> string res" where
  "custom_op afl describe real_max_len is_timeout len_current =
     (let size_left = int real_max_len - int len_current - 5 - 2 - (if is_timeout then 6 else 0) in
      if size_left \<le> 0 then Inl (Fatal ''filename got too long'')
      else case describe size_left of
             None \<Rightarrow> Inr (''op:'' @ op_short afl)
           | Some d \<Rightarrow> Inr (if d = '''' then ''op:'' @ op_short afl else take (nat size_left) d))"

definition describe_prefix :: "(int \<Rightarrow> string option) option \<Rightarrow> u64 \<Rightarrow> ('a) afl_save_scheme \<Rightarrow> nat \<Rightarrow> bool \<Rightarrow> string res" where
  "describe_prefix describe now afl real_max_len is_timeout =
     (case syncing_party afl of
        Some party \<Rightarrow> Inr (''sync:'' @ party @ '',src:'' @ dec06 (unat (syncing_case afl)))
      | None \<Rightarrow>
          (let s = ''src:'' @ dec06 (unat (current_entry afl)) @
                   (if sint (splicing_with afl) \<ge> 0 then ''+'' @ dec06 (unat (splicing_with afl)) else '''') @
                   '',time:'' @ dec_of (unat (now + prev_run_time afl - start_time afl)) @
                   '',execs:'' @ dec_of (unat (total_execs (fsrv afl)))
           in case describe of
                None \<Rightarrow> Inr (s @ normal_op afl)
              | Some f \<Rightarrow> bnd (custom_op afl f real_max_len is_timeout (length s + 1)) (\<lambda>d. Inr (s @ '','' @ d))))"

text \<open>The buffer has 256 bytes, which nothing but the last check protects.\<close>

definition describe_op ::
  "(int \<Rightarrow> string option) option \<Rightarrow> u64 \<Rightarrow> ('a) afl_save_scheme \<Rightarrow> u8 \<Rightarrow> nat \<Rightarrow> string res" where
  "describe_op describe now afl new_bits max_description_len =
     (let is_timeout = (new_bits AND 0x20 \<noteq> 0);
          new_bits = (if is_timeout then new_bits - 0x20 else new_bits)
      in bnd (describe_prefix describe now afl (min max_description_len 256) is_timeout) (\<lambda>s.
         let ret = s @ (if is_timeout then '',+tout'' else '''') @ cov_tag new_bits in
         if length ret \<ge> 256 then Inl Oob
         else if length ret \<ge> max_description_len then Inl (Fatal ''describe string is too long'')
         else Inr ret))"

section \<open>Crashes\<close>

definition write_case :: "string \<Rightarrow> bytes \<Rightarrow> u32 \<Rightarrow> world \<Rightarrow> world res" where
  "write_case fn mem len w =
     (let (ok, w1) = create_excl fn w in
      if \<not> ok then Inl (PFatal (''Unable to create '' @ fn))
      else bnd (peel (unat len) mem) (\<lambda>b. Inr (w1\<lparr>files := (files w1)(fn := Some b)\<rparr>)))"

text \<open>What is recorded in the new entry and the frequencies before it is calibrated.\<close>

definition enrol :: "(bytes \<Rightarrow> u64) \<Rightarrow> nat \<Rightarrow> u8 \<Rightarrow> u64 \<Rightarrow> ('a) afl_save_scheme \<Rightarrow> ('a) afl_save_scheme" where
  "enrol hash64 q few_bits cksum afl =
     (let a1 = (if few_bits AND 0x02 \<noteq> 0
                then (q_upd q (\<lambda>e. e\<lparr>has_new_cov := True\<rparr>) afl)\<lparr>queued_with_cov := queued_with_cov afl + 1\<rparr> else afl);
          a2 = q_upd q (\<lambda>e. e\<lparr>exec_cksum := hash64 (take (unat (map_size (fsrv a1))) (trace_bits (fsrv a1)))\<rparr>) a1;
          i = cksum mod N_FUZZ_SIZE
      in if cksum \<noteq> 0 then (q_upd q (\<lambda>e. e\<lparr>n_fuzz_entry := ucast i\<rparr>) a2)\<lparr>n_fuzz := (n_fuzz a2)(unat i := 1)\<rparr> else a2)"

text \<open>The crash site is compared again, or looked up for the first time.\<close>

definition report_crash ::
  "symbolizer \<Rightarrow> nat \<Rightarrow> ('a) afl_save_scheme \<Rightarrow> world \<Rightarrow> (('a) afl_save_scheme \<times> world) res" where
  "report_crash symb q afl w =
     bnd (if crash_mode afl = 0 then Inr (False, afl, w)
          else if crash_mode afl \<ge> NEW_CRASH_MODE_LV3 then
            bnd (same_crash_site symb afl (Some q) True False w) (\<lambda>(same, a, w1). Inr (\<not> same, a, w1))
          else let (site, w1) = find_crash_site symb (fsrv afl) True w in Inr (False, set_site site afl, w1))
       (\<lambda>(detail_saved, a1, w1).
     bnd (if detail_saved then Inr w1 else write_crash_detail a1 q w1) (\<lambda>w2. Inr (a1, w2)))"

definition admit_crash ::
  "'x save_env \<Rightarrow> nat \<Rightarrow> ('a) afl_save_scheme \<Rightarrow> world \<Rightarrow> 'x \<Rightarrow> bytes
     \<Rightarrow> (bool \<times> ('a) afl_save_scheme \<times> world \<times> 'x) res" where
  "admit_crash env q afl w x mem =
     bnd (calibrate_case (e_child env) (e_hash env) (e_muts env) (e_clock env) (e_stage_cur env) afl w x q mem
            (ucast (queue_cycle afl - 1)) False) (\<lambda>(r, a1, w1, x1).
     if r = FSRV_RUN_ERROR then Inl (Fatal ''Unable to execute target application'')
     else bnd (if q_testcase_max_cache_size a1 \<noteq> 0 then queue_testcase_store_mem (e_mem_ok env) a1 q mem else Inr a1) (\<lambda>a2.
     bnd (report_crash (e_symb env) q a2 (e_leaves env x1 w1)) (\<lambda>(a3, w2).
     Inr (True, a3\<lparr>saved_crashes := saved_crashes a3 + 1, last_crash_time := e_done env,
                   last_crash_execs := total_execs (fsrv a3)\<rparr>, w2, x1))))"

definition queue_name :: "('a) afl_save_scheme \<Rightarrow> string \<Rightarrow> string" where
  "queue_name afl descr = out_dir afl @ ''/queue/id:'' @ dec06 (unat (queued_items afl)) @ '','' @ descr"

definition save_crash ::
  "'x save_env \<Rightarrow> ('a) afl_save_scheme \<Rightarrow> world \<Rightarrow> 'x \<Rightarrow> bytes \<Rightarrow> u32 \<Rightarrow> bool \<Rightarrow> u64 \<Rightarrow> u8
     \<Rightarrow> (bool \<times> ('a) afl_save_scheme \<times> world \<times> 'x) res" where
  "save_crash env afl w x mem len was_classified cksum is_timeout =
     (let a0 = afl\<lparr>total_crashes := total_crashes afl + 1\<rparr> in
      bnd (if crash_mode a0 \<ge> NEW_CRASH_MODE_LV3 then same_crash_site (e_symb env) a0 None False False w
           else Inr (True, a0, w)) (\<lambda>(same, a1, w1).
      if \<not> same then Inr (False, a1, w1, x)
      else bnd (if was_classified then Inr (fsrv a1) else classify_counts (fsrv a1)) (\<lambda>fs.
      bnd (has_few_bits (a1\<lparr>fsrv := fs\<rparr>) VIRGIN_BITS) (\<lambda>(few_bits, a2).
      if few_bits = 0x10 \<or> few_bits = 0x00 then Inr (False, a2, w1, x)
      else bnd (describe_op (e_describe env) (e_now env) a2 (few_bits + is_timeout) (NAME_MAX - 10)) (\<lambda>descr.
      bnd (write_case (queue_name a2 descr) mem len w1) (\<lambda>w2.
      bnd (add_to_queue (e_hooks env) (e_add_time env) a2 w2 (queue_name a2 descr) len False) (\<lambda>(a3, w3).
      case queue_top a3 of
        None \<Rightarrow> Inl NullPtr
      | Some q \<Rightarrow> admit_crash env q (enrol (e_hash env) q few_bits cksum a3) w3 x mem)))))))"

section \<open>Timeouts\<close>

text \<open>The other cases of the switch; after a second run it is entered once more.\<close>

definition save_switch ::
  "'x save_env \<Rightarrow> fsrv_run_result \<Rightarrow> ('a) afl_save_scheme \<Rightarrow> world \<Rightarrow> 'x \<Rightarrow> bytes \<Rightarrow> u32 \<Rightarrow> bool \<Rightarrow> u64 \<Rightarrow> u8
     \<Rightarrow> (bool \<times> ('a) afl_save_scheme \<times> world \<times> 'x) res" where
  "save_switch env fault afl w x mem len was_classified cksum is_timeout =
     (if fault = FSRV_RUN_CRASH then save_crash env afl w x mem len was_classified cksum is_timeout
      else if fault = FSRV_RUN_ERROR then Inl (Fatal ''Unable to execute target application'')
      else Inr (False, afl, w, x))"

definition keep_hang ::
  "'x save_env \<Rightarrow> ('a) afl_save_scheme \<Rightarrow> world \<Rightarrow> 'x \<Rightarrow> bytes \<Rightarrow> u32 \<Rightarrow> (bool \<times> ('a) afl_save_scheme \<times> world \<times> 'x) res" where
  "keep_hang env afl w x mem len =
     bnd (describe_op (e_describe env) (e_now env) afl 0 (NAME_MAX - 10)) (\<lambda>descr.
     bnd (write_case (snprintf_path (out_dir afl @ ''/hangs/id:'' @ dec06 (unat (saved_hangs afl)) @ '','' @ descr)) mem len w) (\<lambda>w1.
     Inr (False, afl\<lparr>saved_hangs := saved_hangs afl + 1, last_hang_time := e_done env\<rparr>, w1, x)))"

text \<open>The second run, with the timeout that makes a hang.\<close>

definition rerun ::
  "'x save_env \<Rightarrow> ('a) afl_save_scheme \<Rightarrow> world \<Rightarrow> 'x \<Rightarrow> bytes \<Rightarrow> u32
     \<Rightarrow> (fsrv_run_result \<times> ('a) afl_save_scheme \<times> world \<times> 'x \<times> bytes \<times> u32) res" where
  "rerun env afl w x mem len =
     bnd (write_to_testcase (e_muts env) afl w mem len False) (\<lambda>(tmp_len, mem1, a1, w1).
     bnd (if tmp_len \<noteq> 0 then Inr (tmp_len, mem1, a1, w1) else write_to_testcase (e_muts env) a1 w1 mem1 len True) (\<lambda>(len2, mem2, a2, w2).
     bnd (fuzz_run_target (e_child env) a2 w2 (hang_tmout a2) x) (\<lambda>(fault, a3, x1).
     bnd (classify_counts (fsrv a3)) (\<lambda>fs.
     Inr (fault, a3\<lparr>fsrv := fs\<rparr>, e_leaves env x1 w2, x1, mem2, len2)))))"

definition save_timeout ::
  "'x save_env \<Rightarrow> ('a) afl_save_scheme \<Rightarrow> world \<Rightarrow> 'x \<Rightarrow> bytes \<Rightarrow> u32 \<Rightarrow> bool \<Rightarrow> u64
     \<Rightarrow> (bool \<times> ('a) afl_save_scheme \<times> world \<times> 'x) res" where
  "save_timeout env afl w x mem len was_classified cksum =
     (let a0 = afl\<lparr>total_tmouts := total_tmouts afl + 1\<rparr> in
      if saved_hangs a0 \<ge> KEEP_UNIQUE_HANG then Inr (False, a0, w, x)
      else bnd (if was_classified then Inr (fsrv a0) else classify_counts (fsrv a0)) (\<lambda>fs.
      bnd (simplify_trace (a0\<lparr>fsrv := fs\<rparr>) (trace_bits fs)) (\<lambda>t.
      bnd (has_few_bits (a0\<lparr>fsrv := fs\<lparr>trace_bits := t\<rparr>\<rparr>) VIRGIN_TMOUT) (\<lambda>(few_bits, a1).
      if few_bits = 0x10 \<or> few_bits = 0x00 then Inr (False, a1, w, x)
      else if exec_tmout (fsrv a1) < hang_tmout a1 then
        bnd (rerun env a1 w x mem len) (\<lambda>(fault, a2, w2, x2, mem2, len2).
        if fault \<noteq> FSRV_RUN_TMOUT then save_switch env fault a2 w2 x2 mem2 len2 True cksum 0x20
        else keep_hang env a2 w2 x2 mem2 len2)
      else keep_hang env a1 w x mem len))))"

section \<open>The whole\<close>

definition count_path :: "(bytes \<Rightarrow> u64) \<Rightarrow> ('a) afl_save_scheme \<Rightarrow> (u64 \<times> ('a) afl_save_scheme) res" where
  "count_path hash64 afl =
     bnd (classify_counts (fsrv afl)) (\<lambda>fs.
     let cksum = hash64 (take (unat (map_size fs)) (trace_bits fs));
         i = unat (cksum mod N_FUZZ_SIZE)
     in Inr (cksum, afl\<lparr>fsrv := fs, n_fuzz := (if n_fuzz afl i < 0xFFFFFFFF then (n_fuzz afl)(i := n_fuzz afl i + 1) else n_fuzz afl)\<rparr>))"

definition save_if_interesting ::
  "'x save_env \<Rightarrow> ('a) afl_save_scheme \<Rightarrow> world \<Rightarrow> 'x \<Rightarrow> bytes \<Rightarrow> u32 \<Rightarrow> fsrv_run_result
     \<Rightarrow> (bool \<times> ('a) afl_save_scheme \<times> world \<times> 'x) res" where
  "save_if_interesting env afl w x mem len fault =
     (if len = 0 \<or> fault = FSRV_RUN_TMOUT \<and> afl_ignore_timeouts afl then Inr (False, afl, w, x)
      else let often = (schedule afl \<ge> FAST \<and> schedule afl \<le> RARE) in
        bnd (if often then count_path (e_hash env) afl else Inr (0, afl)) (\<lambda>(cksum, a1).
        if fault = FSRV_RUN_TMOUT then save_timeout env a1 w x mem len often cksum
        else save_switch env fault a1 w x mem len often cksum 0))"

definition common_fuzz_stuff ::
  "'x save_env \<Rightarrow> ('a) afl_save_scheme \<Rightarrow> world \<Rightarrow> 'x \<Rightarrow> bytes \<Rightarrow> u32 \<Rightarrow> (bool \<times> ('a) afl_save_scheme \<times> world \<times> 'x) res" where
  "common_fuzz_stuff env afl w x out_buf len =
     bnd (write_to_testcase (e_muts env) afl w out_buf len False) (\<lambda>(len1, buf, a1, w1).
     if len1 = 0 then Inr (False, a1, w1, x)
     else bnd (fuzz_run_target (e_child env) a1 w1 (exec_tmout (fsrv a1)) x) (\<lambda>(fault, a2, x1).
     let w2 = e_leaves env x1 w1 in
     if stop_soon a2 then Inr (True, a2, w2, x1)
     else if fault = FSRV_RUN_TMOUT \<and> subseq_tmouts a2 > TMOUT_LIMIT
       then Inr (True, a2\<lparr>subseq_tmouts := subseq_tmouts a2 + 1, cur_skipped_items := cur_skipped_items a2 + 1\<rparr>, w2, x1)
     else let a3 = a2\<lparr>subseq_tmouts := (if fault = FSRV_RUN_TMOUT then subseq_tmouts a2 + 1 else 0)\<rparr> in
       if skip_requested a3
       then Inr (True, a3\<lparr>skip_requested := False, cur_skipped_items := cur_skipped_items a3 + 1\<rparr>, w2, x1)
       else bnd (save_if_interesting env a3 w2 x1 buf len1 fault) (\<lambda>(saved, a4, w3, x2).
            Inr (False, a4\<lparr>queued_discovered := queued_discovered a4 + of_bool saved\<rparr>, w3, x2))))"


section \<open>What is kept\<close>

lemma store_mem_kept:
  assumes "queue_testcase_store_mem ok a q mem = Inr b"
  shows "kept a b"
proof (rule yieldsD [OF _ assms])
  have reg: "kept a (register i q m a)" for i m
    by (rule keptI_same) (simp_all add: register_def q_upd_def Let_def map_refs_update refs_def)
  show "yields (kept a) (queue_testcase_store_mem ok a q mem)"
    unfolding queue_testcase_store_mem_def by (intro yields_intros kept_refl reg)
qed

lemma set_site_kept: "kept a (set_site site a)"
proof -
  obtain s m n where "site = (s, m, n)"
    by (cases site)
  then show ?thesis
    unfolding set_site_def by (simp, intro kept_fsrv) (simp add: same_map_def)
qed

lemma same_crash_site_kept:
  assumes "same_crash_site symb a q detail False w = Inr (same, b, w')"
  shows "kept a b"
proof -
  have "yields (\<lambda>(same, b, w'). kept a b) (same_crash_site symb a q detail False w)"
    unfolding same_crash_site_def
    by (cases q) (intro yields_intros; auto simp: yields_def bnd_eq_Inr_iff intro: set_site_kept kept_trans)+
  from yieldsD [OF this assms] show ?thesis
    by simp
qed

lemma report_crash_kept:
  assumes "report_crash symb q a w = Inr (b, w')"
  shows "kept a b"
proof -
  have "yields (\<lambda>(b, w'). kept a b) (report_crash symb q a w)"
    unfolding report_crash_def
    by (auto simp: yields_def bnd_eq_Inr_iff intro: kept_refl set_site_kept dest: same_crash_site_kept split: if_splits prod.splits)
  from yieldsD [OF this assms] show ?thesis
    by simp
qed

lemma kept_counters:
  "kept a (a\<lparr>total_crashes := n\<rparr>)" "kept a (a\<lparr>total_tmouts := n\<rparr>)" "kept a (a\<lparr>subseq_tmouts := t\<rparr>)"
  "kept a (a\<lparr>saved_hangs := n, last_hang_time := m\<rparr>)"
  "kept a (a\<lparr>saved_crashes := n, last_crash_time := m, last_crash_execs := k\<rparr>)"
  "kept a (a\<lparr>subseq_tmouts := t, cur_skipped_items := u\<rparr>)" "kept a (a\<lparr>skip_requested := c, cur_skipped_items := u\<rparr>)"
  "kept a (a\<lparr>queued_with_cov := t\<rparr>)" "kept a (a\<lparr>n_fuzz := f\<rparr>)"
proof -
  show "kept a (a\<lparr>total_crashes := n\<rparr>)" "kept a (a\<lparr>total_tmouts := n\<rparr>)" "kept a (a\<lparr>subseq_tmouts := t\<rparr>)"
    "kept a (a\<lparr>saved_hangs := n, last_hang_time := m\<rparr>)"
    by (rule keptI_same; simp)+
  show "kept a (a\<lparr>saved_crashes := n, last_crash_time := m, last_crash_execs := k\<rparr>)"
    "kept a (a\<lparr>subseq_tmouts := t, cur_skipped_items := u\<rparr>)" "kept a (a\<lparr>skip_requested := c, cur_skipped_items := u\<rparr>)"
    "kept a (a\<lparr>queued_with_cov := t\<rparr>)" "kept a (a\<lparr>n_fuzz := f\<rparr>)"
    by (rule keptI_same; simp)+
qed

lemma enrol_kept: "kept a (enrol hash64 q few_bits cksum a)"
proof -
  have entry: "kept b (q_upd q f b)" if "\<And>e. refs (f e) = refs e" for f and b :: "('a) afl_save_scheme"
    by (rule kept_entry [OF that])
  define a1 where "a1 = (if few_bits AND 0x02 \<noteq> 0
    then (q_upd q (\<lambda>e. e\<lparr>has_new_cov := True\<rparr>) a)\<lparr>queued_with_cov := queued_with_cov a + 1\<rparr> else a)"
  define a2 where "a2 = q_upd q (\<lambda>e. e\<lparr>exec_cksum := hash64 (take (unat (map_size (fsrv a1))) (trace_bits (fsrv a1)))\<rparr>) a1"
  have "kept a a1"
    using kept_trans [OF entry kept_counters(8)] by (simp add: a1_def refs_def kept_refl)
  moreover have "kept a1 a2"
    unfolding a2_def by (rule entry) (simp add: refs_def)
  ultimately have a2: "kept a a2"
    by (rule kept_trans)
  have freq: "kept a2 ((q_upd q (\<lambda>e. e\<lparr>n_fuzz_entry := k\<rparr>) a2)\<lparr>n_fuzz := f\<rparr>)" for k f
    by (rule kept_trans [OF entry kept_counters(9)]) (simp add: refs_def)
  show ?thesis
    unfolding enrol_def Let_def a1_def [symmetric] a2_def [symmetric]
    using a2 kept_trans [OF a2 freq] by (simp only: split: if_split) blast
qed

lemma admit_crash_kept:
  assumes "admit_crash env q a w x mem = Inr (saved, b, w', x')" "fit a"
  shows "saved \<and> kept a b"
proof -
  have cal: "kept a a1" if "calibrate_case (e_child env) (e_hash env) (e_muts env) (e_clock env) (e_stage_cur env) a w x q mem
      (ucast (queue_cycle a - 1)) False = Inr r" "r = (f, s)" "s = (a1, t)" for r f s a1 t
    using that by (cases t) (simp, rule calibrate_case_kept [OF _ assms(2)])
  have store: "kept a1 a2"
    if "(if q_testcase_max_cache_size a1 \<noteq> 0 then queue_testcase_store_mem (e_mem_ok env) a1 q mem else Inr a1) = Inr a2"
    for a1 a2 :: "('a) afl_save_scheme"
    using that store_mem_kept by (cases "q_testcase_max_cache_size a1 \<noteq> 0") (auto simp: kept_refl)
  have over: "kept a2 (a3\<lparr>saved_crashes := n, last_crash_time := m, last_crash_execs := k\<rparr>)"
    if "report_crash (e_symb env) q a2 w = Inr r" "r = (a3, w2)" for a2 a3 :: "('a) afl_save_scheme" and w r w2 n m k
    using kept_trans [OF report_crash_kept kept_counters(5)] that by blast
  have "yields (\<lambda>(s, b, w', x'). s \<and> kept a b) (admit_crash env q a w x mem)"
    unfolding admit_crash_def
    by (intro yields_intros; simp (no_asm) only: prod.case simp_thms) (rule kept_trans [OF kept_trans [OF cal store] over]; assumption)
  from yieldsD [OF this assms(1)] show ?thesis
    by simp
qed

section \<open>Growing\<close>

text \<open>Either nothing comes, or one entry, under the next number.\<close>

definition grown :: "bool \<Rightarrow> ('a) afl_save_scheme \<Rightarrow> ('a) afl_save_scheme \<Rightarrow> bool" where
  "grown saved a b \<longleftrightarrow> (fit a \<and> unat (queued_items a) + 1 < 2 ^ 32 \<longrightarrow>
     fit b \<and> out_dir b = out_dir a \<and> testcase_matrix b = testcase_matrix a \<and> queued_discovered b = queued_discovered a \<and>
     (if saved then (\<exists>descr. names b = names a @ [queue_name a descr]) \<and> queued_items b = queued_items a + 1 \<and>
        queue_top b = Some (length (names a))
      else names b = names a \<and> queued_items b = queued_items a \<and> queue_top b = queue_top a))"

lemma kept_grown: "kept a b \<Longrightarrow> grown False a b"
  by (auto simp: kept_def grown_def)

lemma grown_trans:
  assumes "kept a b" "grown s b c"
  shows "grown s a c"
proof -
  have "queue_name b descr = queue_name a descr" for descr
    using assms(1) by (simp add: queue_name_def kept_def)
  then show ?thesis
    using assms by (auto simp: kept_def grown_def)
qed

lemma grown_kept:
  assumes "grown s a b" "kept b c"
  shows "grown s a c"
  using assms by (auto simp: kept_def grown_def)

lemma add_to_queue_frame:
  fixes a b :: "('b) afl_sched_scheme"
  assumes "add_to_queue hooks now a w fn len det = Inr (b, w')"
  shows "fsrv b = fsrv a \<and> get_virgin vm b = get_virgin vm a \<and> out_dir b = out_dir a \<and> queued_items b = queued_items a + 1 \<and>
    testcase_matrix b = testcase_matrix a \<and> queued_discovered b = queued_discovered a"
proof -
  let ?P = "\<lambda>b. fsrv b = fsrv a \<and> get_virgin vm b = get_virgin vm a \<and> out_dir b = out_dir a \<and> queued_items b = queued_items a + 1 \<and>
    testcase_matrix b = testcase_matrix a \<and> queued_discovered b = queued_discovered a"
  have virgin: "get_virgin vm (find_times a now) = get_virgin vm a" "get_virgin vm (a\<lparr>queue_buf := buf\<rparr>) = get_virgin vm a"
    "get_virgin vm (link_entry a q i) = get_virgin vm a" for a :: "('b) afl_sched_scheme" and now buf q i
    by (cases vm; simp add: find_times_def link_entry_def Let_def)+
  have out: "out_dir (find_times a now) = out_dir a" "out_dir (link_entry a q i) = out_dir a" for a :: "('b) afl_sched_scheme" and now q i
    by (simp_all add: find_times_def link_entry_def Let_def)
  have found: "queued_discovered (find_times a now) = queued_discovered a" "queued_discovered (link_entry a q i) = queued_discovered a"
    "queued_discovered (a\<lparr>queue_buf := buf\<rparr>) = queued_discovered a" for a :: "('b) afl_sched_scheme" and now q i buf
    by (simp_all add: find_times_def link_entry_def Let_def)
  have "yields (\<lambda>(b, w'). ?P b) (add_to_queue hooks now a w fn len det)"
    unfolding add_to_queue_def by (intro yields_intros) (simp add: q_upd_def virgin out found)
  from yieldsD [OF this assms] show ?thesis
    by simp
qed

lemma add_to_queue_grown:
  assumes "add_to_queue hooks now a w (queue_name a descr) len det = Inr (b, w')"
  shows "grown True a b"
proof -
  have "fit b \<and> names b = names a @ [queue_name a descr] \<and> queue_top b = Some (length (names a))"
    if "fit a" "unat (queued_items a) + 1 < 2 ^ 32"
  proof -
    have "queue_wf a" "cov_wf a"
      using that(1) by (simp_all add: fit_def)
    note res = add_to_queue_result [OF this(1) that(2) assms]
    moreover have "cov_wf b"
      using \<open>cov_wf a\<close> add_to_queue_frame [OF assms] by (simp add: cov_wf_def)
    ultimately show ?thesis
      by (auto simp: fit_def names_def)
  qed
  then show ?thesis
    using add_to_queue_frame [OF assms] by (auto simp: grown_def)
qed

abbreviation grows :: "('a) afl_save_scheme \<Rightarrow> bool \<times> ('a) afl_save_scheme \<times> world \<times> 'x \<Rightarrow> bool" where
  "grows a r \<equiv> grown (fst r) a (fst (snd r))"

lemma admit_crash_grown:
  assumes "admit_crash env q b w x mem = Inr r" "grown True a b" "fit a" "unat (queued_items a) + 1 < 2 ^ 32"
  shows "grows a r"
proof -
  obtain s c w' x' where r: "r = (s, c, w', x')"
    by (cases r)
  have "fit b"
    using assms(2-4) by (simp add: grown_def)
  then show ?thesis
    using admit_crash_kept [OF assms(1) [unfolded r]] grown_kept [OF assms(2)] r by auto
qed

lemma save_crash_grown:
  assumes "save_crash env a w x mem len was_classified cksum is_timeout = Inr r" "fit a" "unat (queued_items a) + 1 < 2 ^ 32"
  shows "grows a r"
proof (rule yieldsD [OF _ assms(1)])
  let ?a0 = "a\<lparr>total_crashes := total_crashes a + 1\<rparr>"
  have site: "kept a a1"
    if "(if crash_mode ?a0 \<ge> NEW_CRASH_MODE_LV3 then same_crash_site (e_symb env) ?a0 None False False w else Inr (True, ?a0, w)) = Inr p"
      "p = (same, s)" "s = (a1, w1)" for p same s a1 w1
    using that kept_trans [OF kept_counters(1) same_crash_site_kept] kept_counters(1) by (simp split: if_splits) blast+
  have fs: "kept a1 (a1\<lparr>fsrv := fs\<rparr>)"
    if "(if was_classified then Inr (fsrv a1) else classify_counts (fsrv a1)) = Inr fs" "fit a1" for a1 fs
    using that classify_kept [of a1 fs] kept_fsrv [of a1 fs] by (cases was_classified) simp_all
  have bits: "kept a a2"
    if "kept a a1" "(if was_classified then Inr (fsrv a1) else classify_counts (fsrv a1)) = Inr fs"
      "has_few_bits (a1\<lparr>fsrv := fs\<rparr>) VIRGIN_BITS = Inr p" "p = (few_bits, a2)" for a1 fs p few_bits a2
  proof -
    have k: "kept a (a1\<lparr>fsrv := fs\<rparr>)"
      using kept_trans [OF that(1) fs [OF that(2) kept_fit [OF that(1) assms(2)]]] .
    show ?thesis
      using kept_trans [OF k has_few_bits_kept [OF that(3) [unfolded that(4)] kept_fit [OF k assms(2)]]] .
  qed
  have admit: "grows a r"
    if "kept a a2" "add_to_queue (e_hooks env) now a2 w2 (queue_name a2 descr) len False = Inr p" "p = (a3, w3)"
      "admit_crash env q (enrol h q few_bits cksum a3) w3 x mem = Inr r" for a2 now w2 descr p a3 w3 q h few_bits r
  proof -
    have "grown True a a3"
      using grown_trans [OF that(1) add_to_queue_grown [OF that(2) [unfolded that(3)]]] .
    from admit_crash_grown [OF that(4) grown_kept [OF this enrol_kept] assms(2,3)] show ?thesis .
  qed
  have finish: "yields (grows a) (case queue_top a3 of None \<Rightarrow> Inl NullPtr
      | Some q \<Rightarrow> admit_crash env q (enrol (e_hash env) q few_bits cksum a3) w3 x mem)"
    if "kept a a2" "add_to_queue (e_hooks env) (e_add_time env) a2 w2 (queue_name a2 descr) len False = Inr p" "p = (a3, w3)"
    for a2 w2 descr p a3 w3 few_bits
    using admit [OF that] by (auto simp: yields_def split: option.splits)
  show "yields (grows a) (save_crash env a w x mem len was_classified cksum is_timeout)"
    unfolding save_crash_def Let_def
    by (intro yields_intros; (rule finish [OF bits [OF site]], assumption+)?; simp (no_asm) only: fst_conv snd_conv)
      (rule kept_grown, rule site bits [OF site], assumption+)+
qed

text \<open>What holds of a run of the switch that starts in a state reached by keeping.\<close>

lemma grows_from:
  assumes "kept a b" "fit a" "unat (queued_items a) + 1 < 2 ^ 32"
    and "\<And>r. fit b \<Longrightarrow> unat (queued_items b) + 1 < 2 ^ 32 \<Longrightarrow> m = Inr r \<Longrightarrow> grows b r"
  shows "yields (grows a) m"
  unfolding yields_def
proof (intro allI impI)
  fix r
  assume "m = Inr r"
  moreover have "fit b" "unat (queued_items b) + 1 < 2 ^ 32"
    using assms(1-3) by (simp_all add: kept_def)
  ultimately show "grows a r"
    using grown_trans [OF assms(1)] assms(4) by blast
qed

lemma save_switch_grown:
  assumes "save_switch env fault a w x mem len was_classified cksum is_timeout = Inr r" "fit a" "unat (queued_items a) + 1 < 2 ^ 32"
  shows "grows a r"
proof (cases "fault = FSRV_RUN_CRASH")
  case True
  then show ?thesis
    using save_crash_grown [OF _ assms(2,3)] assms(1) by (simp add: save_switch_def)
next
  case False
  then have "r = (False, a, w, x)"
    using assms(1) by (simp add: save_switch_def split: if_splits)
  then show ?thesis
    using kept_grown [OF kept_refl] by simp
qed

lemma keep_hang_grown:
  assumes "keep_hang env a w x mem len = Inr r"
  shows "grows a r"
proof (rule yieldsD [OF _ assms])
  show "yields (grows a) (keep_hang env a w x mem len)"
    unfolding keep_hang_def by (intro yields_intros; simp only: fst_conv snd_conv) (rule kept_grown [OF kept_counters(4)])
qed

lemma rerun_kept:
  assumes "rerun env a w x mem len = Inr (fault, b, w', x', mem', len')" "fit a"
  shows "kept a b"
proof -
  have first: "kept a a1" if "write_to_testcase muts a w mem len fx = Inr p" "p = (n, p1)" "p1 = (m, p2)" "p2 = (a1, w1)"
    for muts w mem len fx p n p1 m p2 a1 w1
    using that by (simp, intro write_to_testcase_kept)
  have second: "kept a a2"
    if "kept a a1" "(if n \<noteq> 0 then Inr (n, m, a1, w1) else write_to_testcase muts a1 w1 m len fx) = Inr p" "p = (n2, p1)" "p1 = (m2, p2)" "p2 = (a2, w2)"
    for a1 n m w1 muts len fx p n2 p1 m2 p2 a2 w2
    using that kept_trans [OF that(1) write_to_testcase_kept [of muts a1 w1 m len fx n2 m2 a2 w2]] by (cases "n = 0") simp_all
  have third: "kept a a3"
    if "kept a a2" "fuzz_run_target child a2 w2 t x = Inr p" "p = (f, p1)" "p1 = (a3, x1)" for a2 child w2 t x p f p1 a3 x1
    using that kept_trans [OF that(1) fuzz_run_target_kept [of child a2 w2 t x f a3 x1]] by simp
  have last: "kept a (a3\<lparr>fsrv := fs\<rparr>)" if "kept a a3" "classify_counts (fsrv a3) = Inr fs" for a3 fs
    using kept_trans [OF that(1) kept_fsrv [OF classify_kept [OF that(2) kept_fit [OF that(1) assms(2)]]]] .
  have "yields (\<lambda>(fault, b, w', x', mem', len'). kept a b) (rerun env a w x mem len)"
    unfolding rerun_def
    by (intro yields_intros; simp (no_asm) only: prod.case) (rule last [OF third [OF second [OF first]]]; assumption)
  from yieldsD [OF this assms(1)] show ?thesis
    by simp
qed

lemma save_timeout_grown:
  assumes "save_timeout env a w x mem len was_classified cksum = Inr r" "fit a" "unat (queued_items a) + 1 < 2 ^ 32"
  shows "grows a r"
proof (rule yieldsD [OF _ assms(1)])
  let ?a0 = "a\<lparr>total_tmouts := total_tmouts a + 1\<rparr>"
  have fit0: "fit ?a0"
    by (rule kept_fit [OF kept_counters(2) assms(2)])
  have bits: "kept a a1"
    if fs: "(if was_classified then Inr (fsrv ?a0) else classify_counts (fsrv ?a0)) = Inr fs"
      and t: "simplify_trace (?a0\<lparr>fsrv := fs\<rparr>) (trace_bits fs) = Inr t"
      and h: "has_few_bits (?a0\<lparr>fsrv := fs\<lparr>trace_bits := t\<rparr>\<rparr>) VIRGIN_TMOUT = Inr p" "p = (few_bits, a1)" for fs t p few_bits a1
  proof -
    have same: "same_map (fsrv ?a0) fs"
      using fs classify_kept [of ?a0 fs] fit0 by (cases was_classified) simp_all
    have "map_wf fs"
      using fit0 same_map_wf [OF same] by (simp add: fit_def queue_wf_def)
    then have "length t = length (trace_bits fs)"
      using t simplify_trace_map(1) [of "?a0\<lparr>fsrv := fs\<rparr>" "trace_bits fs"] by (auto simp: map_wf_def)
    then have "same_map (fsrv ?a0) (fs\<lparr>trace_bits := t\<rparr>)"
      using same by (simp add: same_map_def)
    then have k: "kept a (?a0\<lparr>fsrv := fs\<lparr>trace_bits := t\<rparr>\<rparr>)"
      using kept_trans [OF kept_counters(2) kept_fsrv] by blast
    show ?thesis
      using kept_trans [OF k has_few_bits_kept [OF h(1) [unfolded h(2)] kept_fit [OF k assms(2)]]] .
  qed
  have again: "kept a a2" if "kept a a1" "rerun env a1 w x mem len = Inr p" "p = (fault, p1)" "p1 = (a2, p2)"
    for a1 p fault p1 a2 p2
    using that(2) unfolding that(3,4)
    by (cases p2) (simp, rule kept_trans [OF that(1) rerun_kept [OF _ kept_fit [OF that(1) assms(2)]]])
  have switch: "yields (grows a) (save_switch env fault a2 w2 x2 mem2 len2 c k u)" if "kept a a2" for fault a2 w2 x2 mem2 len2 c k u
    by (rule grows_from [OF that assms(2,3)]) (rule save_switch_grown)
  have hang: "yields (grows a) (keep_hang env a2 w2 x2 mem2 len2)" if "kept a a2" for a2 w2 x2 mem2 len2
    by (rule grows_from [OF that assms(2,3)]) (rule keep_hang_grown)
  have quiet: "grows a (False, b, w', x')" if "kept a b" for b w' x'
    using kept_grown [OF that] by simp
  show "yields (grows a) (save_timeout env a w x mem len was_classified cksum)"
    unfolding save_timeout_def Let_def
    by (intro yields_intros; (rule switch [OF again [OF bits]]; assumption)?; (rule hang [OF again [OF bits]]; assumption)?;
        (rule hang [OF bits]; assumption)?; (rule quiet [OF bits]; assumption)?)
      (rule quiet [OF kept_counters(2)])
qed

lemma count_path_kept:
  assumes "count_path hash64 a = Inr (cksum, b)" "fit a"
  shows "kept a b"
proof -
  obtain fs f where fs: "classify_counts (fsrv a) = Inr fs" and b: "b = a\<lparr>fsrv := fs, n_fuzz := f\<rparr>"
    using assms(1) by (auto simp: count_path_def bnd_eq_Inr_iff Let_def)
  show ?thesis
    unfolding b by (rule kept_trans [OF kept_fsrv [OF classify_kept [OF fs assms(2)]] kept_counters(9)])
qed

lemma save_if_interesting_grown:
  assumes "save_if_interesting env a w x mem len fault = Inr r" "fit a" "unat (queued_items a) + 1 < 2 ^ 32"
  shows "grows a r"
proof (rule yieldsD [OF _ assms(1)])
  let ?often = "schedule a \<ge> FAST \<and> schedule a \<le> RARE"
  have path: "kept a a1" if "(if ?often then count_path h a else Inr (0, a)) = Inr p" "p = (cksum, a1)" for h p cksum a1
  proof (cases ?often)
    case True
    then show ?thesis
      using that(1) count_path_kept [OF _ assms(2), of h cksum a1] unfolding that(2) by simp
  next
    case False
    then show ?thesis
      using that by (auto simp: kept_refl)
  qed
  have timeout: "yields (grows a) (save_timeout env a1 w x mem len c k)" if "kept a a1" for a1 c k
    by (rule grows_from [OF that assms(2,3)]) (rule save_timeout_grown)
  have switch: "yields (grows a) (save_switch env fault a1 w x mem len c k u)" if "kept a a1" for a1 c k u
    by (rule grows_from [OF that assms(2,3)]) (rule save_switch_grown)
  have quiet: "grows a (False, a, w, x)"
    using kept_grown [OF kept_refl] by simp
  show "yields (grows a) (save_if_interesting env a w x mem len fault)"
    unfolding save_if_interesting_def Let_def
    by (intro yields_intros; (rule timeout [OF path]; assumption)?; (rule switch [OF path]; assumption)?) (rule quiet)
qed

text \<open>A case run from a stage: at most one entry more, and the counter of the finds knows.\<close>

definition fuzzed :: "bool \<Rightarrow> ('a) afl_save_scheme \<Rightarrow> ('a) afl_save_scheme \<Rightarrow> bool" where
  "fuzzed saved a b \<longleftrightarrow> (\<exists>c. grown saved a c \<and> b = c\<lparr>queued_discovered := queued_discovered c + of_bool saved\<rparr>)"

lemma fuzzed_kept: "kept a b \<Longrightarrow> fuzzed False a b"
  unfolding fuzzed_def by (intro exI [of _ b]) (simp add: kept_grown)

lemma common_fuzz_stuff_fuzzed:
  assumes "common_fuzz_stuff env a w x buf len = Inr r" "fit a" "unat (queued_items a) + 1 < 2 ^ 32"
  shows "\<exists>saved. fuzzed saved a (fst (snd r)) \<and> \<not> (fst r \<and> saved)"
proof (rule yieldsD [OF _ assms(1)])
  let ?P = "\<lambda>r :: bool \<times> ('a) afl_save_scheme \<times> world \<times> 'b. \<exists>saved. fuzzed saved a (fst (snd r)) \<and> \<not> (fst r \<and> saved)"
  have written: "kept a a1" if "write_to_testcase muts a w buf len False = Inr p" "p = (n, p1)" "p1 = (m, p2)" "p2 = (a1, w1)"
    for muts w buf len p n p1 m p2 a1 w1
    using that by (simp, intro write_to_testcase_kept)
  have ran: "kept a a2" if "kept a a1" "fuzz_run_target child a1 w1 t x = Inr p" "p = (f, p1)" "p1 = (a2, x1)"
    for a1 child w1 t x p f p1 a2 x1
    using that kept_trans [OF that(1) fuzz_run_target_kept [of child a1 w1 t x f a2 x1]] by simp
  have quiet: "?P (s, b, w', x')" if "kept a b" for s b w' x'
    using fuzzed_kept [OF that] by auto
  have give_up: "?P (s, b\<lparr>subseq_tmouts := t, cur_skipped_items := u\<rparr>, w', x')" if "kept a b" for s b t u w' x'
    by (rule quiet [OF kept_trans [OF that kept_counters(6)]])
  have reset: "kept a c" if "kept a b" "c = b\<lparr>subseq_tmouts := t\<rparr>" for b c t
    unfolding that(2) by (rule kept_trans [OF that(1) kept_counters(3)])
  have skip: "?P (s, b\<lparr>skip_requested := c, cur_skipped_items := u\<rparr>, w', x')" if "kept a b" for s b c u w' x'
    by (rule quiet [OF kept_trans [OF that kept_counters(7)]])
  have saved: "?P (False, c\<lparr>queued_discovered := queued_discovered c + of_bool s\<rparr>, w', x')"
    if "kept a b" "save_if_interesting env b w x m n fault = Inr p" "p = (s, p1)" "p1 = (c, p2)" "p2 = (w', x')"
    for b w x m n fault p s p1 c p2 w' x'
  proof -
    have "fit b" "unat (queued_items b) + 1 < 2 ^ 32"
      using that(1) assms(2,3) by (simp_all add: kept_def)
    from save_if_interesting_grown [OF that(2) this] have "grown s b c"
      by (simp add: that)
    then have "fuzzed s a (c\<lparr>queued_discovered := queued_discovered c + of_bool s\<rparr>)"
      using grown_trans [OF that(1)] unfolding fuzzed_def by blast
    then show ?thesis
      by auto
  qed
  show "yields ?P (common_fuzz_stuff env a w x buf len)"
    unfolding common_fuzz_stuff_def
    by (intro yields_intros;
        (rule quiet [OF written]; assumption)?; (rule quiet [OF ran [OF written]]; assumption)?;
        (rule give_up [OF ran [OF written]]; assumption)?;
        (rule skip [OF reset [OF ran [OF written]]]; assumption)?;
        (rule saved [OF reset [OF ran [OF written]]]; assumption)?)
qed

end
