(* ===== verification/Saved.thy ===== *)
theory Saved
  imports Save
begin

text \<open>
  What \<open>save_if_interesting\<close> and \<open>common_fuzz_stuff\<close> achieve: any sequence of cases keeps the queue and the
  maps well-formed and only adds entries; a hang is never saved; a crash that hits fewer edges than any
  before is entered and calibrated; the name of a saved case tells why it was saved.
\<close>

section \<open>Sequences of cases\<close>

text \<open>One case after the other, whatever the stages write into them.\<close>

inductive fuzz_step ::
  "('a) afl_save_scheme \<times> world \<times> 'x \<Rightarrow> ('a) afl_save_scheme \<times> world \<times> 'x \<Rightarrow> bool" where
  case_run: "common_fuzz_stuff env a w x buf len = Inr (stop, b, w', x') \<Longrightarrow> unat (queued_items a) + 1 < 2 ^ 32 \<Longrightarrow>
    fuzz_step (a, w, x) (b, w', x')"

inductive_cases fuzz_stepE: "fuzz_step (a, w, x) s'"

abbreviation fuzz_run :: "('a) afl_save_scheme \<times> world \<times> 'x \<Rightarrow> ('a) afl_save_scheme \<times> world \<times> 'x \<Rightarrow> bool" where
  "fuzz_run \<equiv> fuzz_step\<^sup>*\<^sup>*"

text \<open>What any number of cases adds to the queue, with the counter of the finds.\<close>

definition extended :: "('a) afl_save_scheme \<Rightarrow> ('a) afl_save_scheme \<Rightarrow> bool" where
  "extended a b \<longleftrightarrow> fit b \<and> (\<exists>new. names b = names a @ new \<and>
     queued_items b = queued_items a + of_nat (length new) \<and> queued_discovered b = queued_discovered a + of_nat (length new))"

lemma names_upd [simp]: "names (a\<lparr>queued_discovered := n\<rparr>) = names a"
  by (simp add: names_def)

lemma fit_found [simp]: "fit (a\<lparr>queued_discovered := n\<rparr>) = fit a"
proof -
  have "get_virgin vm (a\<lparr>queued_discovered := n\<rparr>) = get_virgin vm a" for vm
    by (cases vm) simp_all
  then show ?thesis
    by (simp add: fit_def queue_wf_def cov_wf_def)
qed

lemma step_extended:
  assumes "fuzz_step (a, w, x) (b, w', x')" "fit a"
  shows "extended a b"
proof -
  obtain env buf len stop where run: "common_fuzz_stuff env a w x buf len = Inr (stop, b, w', x')"
    and room: "unat (queued_items a) + 1 < 2 ^ 32"
    using assms(1) by (auto elim: fuzz_stepE)
  from common_fuzz_stuff_fuzzed [OF run assms(2) room] obtain saved where "fuzzed saved a b"
    by auto
  then obtain c where c: "grown saved a c" "b = c\<lparr>queued_discovered := queued_discovered c + of_bool saved\<rparr>"
    unfolding fuzzed_def by blast
  then show ?thesis
    using assms(2) room by (cases saved) (auto simp: grown_def extended_def)
qed

lemma run_extended:
  assumes "fuzz_run s s'" "fit (fst s)"
  shows "extended (fst s) (fst s')"
  using assms
proof (induction rule: rtranclp_induct)
  case base
  then show ?case
    by (auto simp: extended_def)
next
  case (step s1 s2)
  have one: "extended (fst s) (fst s1)"
    by (rule step.IH [OF step.prems])
  then have "fit (fst s1)"
    by (simp add: extended_def)
  moreover obtain b w' x' where "s2 = (b, w', x')"
    by (cases s2)
  moreover obtain a w x where "s1 = (a, w, x)"
    by (cases s1)
  ultimately have "extended (fst s1) (fst s2)"
    using step_extended step.hyps(2) by auto
  then obtain new where new: "fit (fst s2)" "names (fst s2) = names (fst s1) @ new"
    "queued_items (fst s2) = queued_items (fst s1) + of_nat (length new)"
    "queued_discovered (fst s2) = queued_discovered (fst s1) + of_nat (length new)"
    unfolding extended_def by blast
  obtain old where "names (fst s1) = names (fst s) @ old" "queued_items (fst s1) = queued_items (fst s) + of_nat (length old)"
    "queued_discovered (fst s1) = queued_discovered (fst s) + of_nat (length old)"
    using one unfolding extended_def by blast
  then show ?case
    unfolding extended_def by (intro conjI new(1) exI [of _ "old @ new"]) (simp_all add: new(2-4))
qed

section \<open>Hangs\<close>

lemma overlap_virgin: "(\<And>k. k < n * i \<Longrightarrow> vs ! k = 0xff) \<Longrightarrow> \<not> overlap n i cs vs"
  unfolding overlap_def
proof
  assume v: "\<And>k. k < n * i \<Longrightarrow> vs ! k = 0xff"
  assume "\<exists>j < i. (\<exists>k < n. vs ! (n * j + k) \<noteq> 0xff) \<and> (\<exists>k < n. cs ! (n * j + k) AND vs ! (n * j + k) \<noteq> 0)"
  then obtain j k where jk: "j < i" "k < n" "vs ! (n * j + k) \<noteq> 0xff"
    by blast
  have "n * j + k < n * Suc j"
    using jk(2) by simp
  also have "\<dots> \<le> n * i"
    using jk(1) by (intro mult_le_mono) simp_all
  finally show False
    using v jk(3) by blast
qed

lemma map2_restore_virgin:
  "length cs = length vs \<Longrightarrow> \<forall>v \<in> set vs. v = 0xff \<Longrightarrow> map2 restore cs vs = vs"
  by (induction cs vs rule: list_induct2) (simp_all add: restore_def)

lemma simplified_has_no_few_bits:
  assumes "cov_wf a" "testcase_matrix a \<noteq> None" "\<forall>v \<in> set (virgin_tmout a). v = 0xff"
    and "min_bitmap_size a \<le> real_map_size (fsrv a)" "trace_bits (fsrv a) = map simplify_lookup t"
  shows "has_few_bits a VIRGIN_TMOUT = Inr (0x10, a)"
proof -
  let ?cs = "trace_bits (fsrv a)" and ?vs = "virgin_tmout a" and ?s = "seen64 a"
  have len: "length ?vs = unat (map_size (fsrv a))" "length ?cs = unat (map_size (fsrv a))" "?s \<le> unat (map_size (fsrv a))"
    using cov_wfD(2,3,5) [OF assms(1)] get_virgin.simps(2) [of a] by metis+
  have v: "?vs ! k = 0xff" if "k < ?s" for k
    using assms(3) that len by simp
  have "\<forall>b \<in> set ?cs. b \<noteq> 0"
    by (auto simp: assms(5) simplify_lookup_def)
  then have all: "filter (\<lambda>b. b \<noteq> 0) (counted a ?cs) = counted a ?cs"
    unfolding counted_def by (intro filter_True) (auto dest: in_set_takeD)
  let ?n = "4 * ((unat (real_map_size (fsrv a)) + 3) div 4)"
  have wf: "unat (real_map_size (fsrv a)) \<le> unat (map_size (fsrv a))" "unat (map_size (fsrv a)) mod 64 = 0"
    "unat (map_size (fsrv a)) \<le> 2 ^ 29"
    using assms(1) by (auto simp: cov_wf_def map_wf_def)
  then have n: "unat (real_map_size (fsrv a)) \<le> ?n" "?n \<le> unat (map_size (fsrv a))"
    by presburger+
  then have "length (counted a ?cs) = ?n" "?n < 2 ^ 32"
    using len(2) wf(3) by (simp_all add: counted_def)
  moreover have "unat (of_nat m :: u32) = m" if "m < 2 ^ 32" for m
    using that by (simp add: unat_of_nat take_bit_nat_eq_self_iff)
  ultimately have "unat (of_nat (length (counted a ?cs)) :: u32) = ?n"
    by (simp only:)
  then have count: "\<not> (of_nat (length (filter (\<lambda>b. b \<noteq> 0) (counted a ?cs))) :: u32) < min_bitmap_size a"
    using assms(4) n(1) by (simp add: all word_less_nat_alt word_le_nat_alt)
  have "\<not> overlap 8 (?s div 8) ?cs ?vs"
    by (rule overlap_virgin) (use v seen_words(2) [OF assms(1)] in simp)
  moreover have "\<not> (\<exists>k < ?s. disappeared (?cs ! k) (?vs ! k))"
    using v by (simp add: disappeared_def)
  moreover have "map2 restore (take ?s ?cs) (take ?s ?vs) @ drop ?s ?vs = ?vs"
    using assms(3) len by (subst map2_restore_virgin) (auto dest: in_set_takeD)
  ultimately show ?thesis
    using count unfolding has_few_bits_matrix [OF assms(1,2)] Let_def finish_few_bits_simps get_virgin.simps
    by (simp add: few_bits_code_def)
qed

lemma save_timeout_loses:
  assumes "fit a" "testcase_matrix a \<noteq> None" "\<forall>v \<in> set (virgin_tmout a). v = 0xff" "min_bitmap_size a \<le> real_map_size (fsrv a)"
  shows "\<exists>b. save_timeout env a w x mem len was_classified cksum = Inr (False, b, w, x) \<and>
    saved_hangs b = saved_hangs a \<and> virgin_tmout b = virgin_tmout a"
proof (cases "saved_hangs a \<ge> KEEP_UNIQUE_HANG")
  case True
  then show ?thesis
    by (simp add: save_timeout_def)
next
  case False
  let ?a0 = "a\<lparr>total_tmouts := total_tmouts a + 1\<rparr>"
  have fit0: "fit ?a0"
    by (rule kept_fit [OF kept_counters(2) assms(1)])
  then have "map_wf (fsrv ?a0)"
    by (simp add: fit_def queue_wf_def)
  then obtain fs where fs: "(if was_classified then Inr (fsrv ?a0) else classify_counts (fsrv ?a0)) = Inr fs"
    using classify_counts_map by (cases was_classified) auto
  then have same: "same_map (fsrv ?a0) fs"
    using classify_kept [of ?a0 fs] fit0 by (cases was_classified) simp_all
  have "map_wf fs"
    using fit0 same_map_wf [OF same] by (simp add: fit_def queue_wf_def)
  then have t: "simplify_trace (?a0\<lparr>fsrv := fs\<rparr>) (trace_bits fs) = Inr (map simplify_lookup (trace_bits fs))"
    by (intro simplify_trace_map(1)) (simp_all add: map_wf_def)
  define a2 where "a2 = ?a0\<lparr>fsrv := fs\<lparr>trace_bits := map simplify_lookup (trace_bits fs)\<rparr>\<rparr>"
  have "same_map (fsrv ?a0) (fs\<lparr>trace_bits := map simplify_lookup (trace_bits fs)\<rparr>)"
    using same by (simp add: same_map_def)
  then have "kept ?a0 a2"
    unfolding a2_def using kept_fsrv by blast
  then have "cov_wf a2"
    using kept_fit [OF _ fit0] by (auto simp: fit_def)
  moreover have "testcase_matrix a2 \<noteq> None" "\<forall>v \<in> set (virgin_tmout a2). v = 0xff" "min_bitmap_size a2 \<le> real_map_size (fsrv a2)"
    "trace_bits (fsrv a2) = map simplify_lookup (trace_bits fs)"
    using assms(2-4) same by (simp_all add: a2_def same_map_def)
  ultimately have "has_few_bits a2 VIRGIN_TMOUT = Inr (0x10, a2)"
    by (rule simplified_has_no_few_bits)
  then have "save_timeout env a w x mem len was_classified cksum = Inr (False, a2, w, x)"
    using False unfolding save_timeout_def Let_def fs bnd_simps t a2_def [symmetric] by simp
  then show ?thesis
    by (simp add: a2_def)
qed

lemma save_if_interesting_loses:
  assumes "fit a" "testcase_matrix a \<noteq> None" "\<forall>v \<in> set (virgin_tmout a). v = 0xff" "min_bitmap_size a \<le> real_map_size (fsrv a)"
  shows "\<exists>b. save_if_interesting env a w x mem len FSRV_RUN_TMOUT = Inr (False, b, w, x) \<and>
    saved_hangs b = saved_hangs a \<and> virgin_tmout b = virgin_tmout a"
proof (cases "len = 0 \<or> afl_ignore_timeouts a")
  case True
  then show ?thesis
    by (auto simp: save_if_interesting_def)
next
  case False
  let ?often = "schedule a \<ge> FAST \<and> schedule a \<le> RARE"
  have map: "map_wf (fsrv a)"
    using assms(1) by (simp add: fit_def queue_wf_def)
  have "\<exists>k a1. (if ?often then count_path (e_hash env) a else Inr (0, a)) = Inr (k, a1) \<and> kept a a1 \<and>
      virgin_tmout a1 = virgin_tmout a \<and> min_bitmap_size a1 = min_bitmap_size a \<and> saved_hangs a1 = saved_hangs a \<and>
      real_map_size (fsrv a1) = real_map_size (fsrv a)"
  proof (cases ?often)
    case True
    obtain k a1 where k: "count_path (e_hash env) a = Inr (k, a1)"
      using classify_counts_map [OF map] by (auto simp: count_path_def Let_def)
    then have "virgin_tmout a1 = virgin_tmout a \<and> min_bitmap_size a1 = min_bitmap_size a \<and> saved_hangs a1 = saved_hangs a \<and>
        real_map_size (fsrv a1) = real_map_size (fsrv a)"
      using classify_counts_map [OF map] by (auto simp: count_path_def Let_def)
    then show ?thesis
      using True k count_path_kept [OF k assms(1)] by auto
  next
    case False
    then show ?thesis
      by (auto simp: kept_refl)
  qed
  then obtain k a1 where k: "(if ?often then count_path (e_hash env) a else Inr (0, a)) = Inr (k, a1)" "kept a a1"
    "virgin_tmout a1 = virgin_tmout a" "min_bitmap_size a1 = min_bitmap_size a" "saved_hangs a1 = saved_hangs a"
    "real_map_size (fsrv a1) = real_map_size (fsrv a)"
    by blast
  then have a1: "fit a1" "testcase_matrix a1 \<noteq> None" "\<forall>v \<in> set (virgin_tmout a1). v = 0xff"
    "min_bitmap_size a1 \<le> real_map_size (fsrv a1)"
    using assms kept_fit [OF k(2)] by (simp_all add: kept_def)
  show ?thesis
    using save_timeout_loses [OF a1, of env w x mem len ?often k] False k(3,5)
    unfolding save_if_interesting_def Let_def k(1) bnd_simps by simp
qed

section \<open>Crashes that are kept\<close>

text \<open>
  The surroundings: no custom mutators, no cmplog, no stop request, an entry to compare with, a list of
  details that can be written, and, if there is a test case cache, memory and a slot unless it is
  full, which its invariant gives. Any level of the crash mode will do.
\<close>

definition storable :: "('a) afl_cache_scheme \<Rightarrow> bool" where
  "storable a \<longleftrightarrow> (\<forall>len. \<not> cache_full a len \<longrightarrow>
     (\<exists>i. free_slot (q_testcase_cache a) (unat (if q_testcase_max_cache_count a \<ge> q_testcase_max_cache_entries a
        then q_testcase_smallest_free a else q_testcase_max_cache_count a)) = Inr i))"

definition plain :: "'x save_env \<Rightarrow> ('a) afl_save_scheme \<Rightarrow> bool" where
  "plain env a \<longleftrightarrow> custom_mutators_count a = 0 \<and> \<not> cmplog_mode a \<and> \<not> stop_soon a \<and>
     (q_testcase_max_cache_size a \<noteq> 0 \<longrightarrow> e_mem_ok env \<and> storable a) \<and>
     testcase_matrix a \<noteq> None \<and> min_length a \<le> max_length a \<and> max_length a \<le> MAX_FILE \<and>
     length (readme (out_dir a)) < PATH_MAX \<and> (\<forall>x w. \<not> deny (e_leaves env x w) (readme (out_dir a)))"

lemma cache_wf_storable: "cache_wf a \<Longrightarrow> storable a"
  unfolding storable_def using not_full_free by blast

lemma storable_same: "slots_of b = slots_of a \<Longrightarrow> storable b = storable a"
  by (simp add: storable_def slots_of_def cache_full_def)

lemma plain_same:
  assumes "slots_of b = slots_of a" "custom_mutators_count b = custom_mutators_count a" "cmplog_mode b = cmplog_mode a"
    and "stop_soon b = stop_soon a" "testcase_matrix b = testcase_matrix a" "min_length b = min_length a"
    and "max_length b = max_length a" "out_dir b = out_dir a"
  shows "plain env b = plain env a"
proof -
  have "q_testcase_max_cache_size b = q_testcase_max_cache_size a"
    using assms(1) by (simp add: slots_of_def)
  then show ?thesis
    by (simp only: plain_def assms(2-8) storable_same [OF assms(1)])
qed

text \<open>Whether the crash is at the site remembered, as far as that matters; and a look at the site
  changes no more than the first byte of the report.\<close>

definition same_site :: "'x save_env \<Rightarrow> ('a) afl_save_scheme \<Rightarrow> world \<Rightarrow> bool" where
  "same_site env a w \<longleftrightarrow> (crash_mode a \<ge> NEW_CRASH_MODE_LV3 \<longrightarrow>
     snd (fst (find_crash_site (e_symb env) (fsrv a) True w)) = snd (fsrv_site (fsrv a)))"

lemma find_crash_site_frame:
  assumes "find_crash_site symb fs True w = (site, w1)"
  shows "deny w1 = deny w" "links w1 = links w" "files w1 p = None \<longleftrightarrow> files w p = None"
  using assms by (auto simp: find_crash_site_def open_read_def split: option.splits if_splits)

lemma find_crash_site_same:
  assumes "call_stack_file fs' = call_stack_file fs" "target_path fs' = target_path fs"
  shows "find_crash_site symb fs' flush w = find_crash_site symb fs flush w"
  unfolding find_crash_site_def assms ..

lemma set_site_same: "set_site (fsrv_site (fsrv a)) a = a"
  by (simp add: set_site_def fsrv_site_def)

lemma set_site_twice: "set_site s (set_site s' a) = set_site s a"
  by (cases s; cases s') (simp add: set_site_def)

lemma report_crash_total:
  fixes a :: "('a) afl_save_scheme"
  assumes "q < length (queue_buf a)" "length (readme (out_dir a)) < PATH_MAX" "\<not> deny w (readme (out_dir a))"
  shows "\<exists>s w'. report_crash symb q a w = Inr (set_site s a, w')"
proof -
  obtain site w1 where find: "find_crash_site symb (fsrv a) True w = (site, w1)"
    by (cases "find_crash_site symb (fsrv a) True w")
  have detail: "\<exists>w'. write_crash_detail (set_site s a) q v = Inr w'" if "deny v = deny w" for s v
    using assms that by (cases s) (simp add: write_crash_detail_def sprintf_path_def set_site_def q_get_def rd_def)
  consider "crash_mode a = 0" | "crash_mode a \<noteq> 0" "crash_mode a \<ge> NEW_CRASH_MODE_LV3" "snd (fsrv_site (fsrv a)) = snd site"
    | "crash_mode a \<noteq> 0" "crash_mode a \<ge> NEW_CRASH_MODE_LV3" "snd (fsrv_site (fsrv a)) \<noteq> snd site"
    | "crash_mode a \<noteq> 0" "\<not> crash_mode a \<ge> NEW_CRASH_MODE_LV3"
    by blast
  then show ?thesis
  proof cases
    case 1
    then show ?thesis
      using detail [of w "fsrv_site (fsrv a)"] unfolding set_site_same
      by (intro exI [of _ "fsrv_site (fsrv a)"]) (auto simp: report_crash_def set_site_same)
  next
    case 2
    then show ?thesis
      using detail [OF find_crash_site_frame(1) [OF find], of site] find
      by (intro exI [of _ site]) (auto simp: report_crash_def same_crash_site_def)
  next
    case 3
    obtain w2 where "write_crash_detail (set_site site a) q w1 = Inr w2"
      using detail [OF find_crash_site_frame(1) [OF find]] by blast
    then show ?thesis
      using 3 find
      by (intro exI [of _ "fsrv_site (fsrv a)"]) (auto simp: report_crash_def same_crash_site_def set_site_twice)
  next
    case 4
    then show ?thesis
      using detail [OF find_crash_site_frame(1) [OF find], of site] find
      by (intro exI [of _ site]) (auto simp: report_crash_def)
  qed
qed

lemma store_total:
  fixes a :: "('a) afl_cache_scheme"
  assumes "storable a" "q < length (queue_buf a)" "unat (q_len (queue_buf a ! q)) \<le> length mem"
  shows "\<exists>b i m. queue_testcase_store_mem True a q mem = Inr b \<and> (b = a \<or> b = register i q m a)"
proof (cases "cache_full a (q_len (queue_buf a ! q))")
  case True
  then show ?thesis
    using assms(2) by (auto simp: queue_testcase_store_mem_def)
next
  case False
  then obtain i where "free_slot (q_testcase_cache a) (unat (if q_testcase_max_cache_count a \<ge> q_testcase_max_cache_entries a
        then q_testcase_smallest_free a else q_testcase_max_cache_count a)) = Inr i"
    using assms(1) unfolding storable_def by blast
  then show ?thesis
    using False assms(2,3)
    by (intro exI [of _ "register i q (take (unat (q_len (queue_buf a ! q))) mem) a"] exI [of _ i]
        exI [of _ "take (unat (q_len (queue_buf a ! q))) mem"])
      (simp add: queue_testcase_store_mem_def Let_def)
qed

lemma registered_entry:
  fixes a :: "('a) afl_save_scheme"
  assumes "q < length (queue_buf a)"
  shows "length (queue_buf (register i q m a)) = length (queue_buf a)" "out_dir (register i q m a) = out_dir a"
    "exec_cksum (queue_buf (register i q m a) ! q) = exec_cksum (queue_buf a ! q)"
    "bitmap_size (queue_buf (register i q m a) ! q) = bitmap_size (queue_buf a ! q)"
    "cal_failed (queue_buf (register i q m a) ! q) = cal_failed (queue_buf a ! q)"
    "saved_crashes (register i q m a) = saved_crashes a" "min_bitmap_size (register i q m a) = min_bitmap_size a"
  using assms by (simp_all add: register_def q_upd_def Let_def)

text \<open>Every name \<open>describe_op\<close> makes up for the case fits and is not taken.\<close>

definition nameable :: "'x save_env \<Rightarrow> ('a) afl_save_scheme \<Rightarrow> world \<Rightarrow> bool" where
  "nameable env a w \<longleftrightarrow> (\<forall>nb. \<exists>descr. describe_op (e_describe env) (e_now env) a nb (NAME_MAX - 10) = Inr descr \<and>
     fst (create_excl (queue_name a descr) w))"

lemma saved_crashes_more: "afl_cal.more a = afl_cal.more b \<Longrightarrow> saved_crashes a = saved_crashes b"
  by (cases a; cases b) simp

lemma admit_crash_steady:
  fixes a :: "('a) afl_save_scheme"
  assumes "fit a" "plain env a" "exec_cksum (queue_buf a ! q) = K" "hits a (trace_bits (fsrv a)) = h"
    and "lengths_ok a q mem" "transport_ok (fsrv a) w" "n = unat (map_size (fsrv a))" "0 < n"
    and "steady T n (e_child env)" "crashes (cal_timeout a False) (e_child env)"
    and "raw = raw_trace T a q mem" "h = hits a raw" "h \<noteq> 0" "K = e_hash env (map count_class_lookup8 raw)" "K \<noteq> 0"
  shows "\<exists>b w' x'. admit_crash env q a w x mem = Inr (True, b, w', x') \<and> exec_cksum (queue_buf b ! q) = K \<and>
    bitmap_size (queue_buf b ! q) = h \<and> cal_failed (queue_buf b ! q) = 0 \<and> saved_crashes b = saved_crashes a + 1 \<and>
    min_bitmap_size b = min (min_bitmap_size a) h"
proof -
  have p: "testcase_matrix a \<noteq> None" "\<not> cmplog_mode a" "\<not> stop_soon a"
    "q_testcase_max_cache_size a \<noteq> 0 \<Longrightarrow> e_mem_ok env \<and> storable a"
    "length (readme (out_dir a)) < PATH_MAX" "\<not> deny (e_leaves env x w) (readme (out_dir a))" for x w
    using assms(2) by (simp_all add: plain_def)
  have wf: "queue_wf a" "cov_wf a"
    using assms(1) by (simp_all add: fit_def)
  obtain a1 w1 x1 where cal: "calibrate_case (e_child env) (e_hash env) (e_muts env) (e_clock env) (e_stage_cur env) a w x q mem
      (ucast (queue_cycle a - 1)) False = Inr (FSRV_RUN_CRASH, a1, w1, x1)"
    and a1: "calibrated q K h a a1" "min_bitmap_size a1 = min (min_bitmap_size a) h"
    using calibrate_steady [where ?hash64.0 = "e_hash env" and K = K and h = h, OF wf p(1-3) disjI2 [OF conjI [OF assms(3,4)]] assms(5-15)]
    by blast
  have "kept a a1"
    by (rule calibrate_case_kept [OF cal assms(1)])
  then have out: "out_dir a1 = out_dir a"
    by (simp add: kept_def)
  have q: "q < length (queue_buf a)" "unat (q_len (queue_buf a ! q)) \<le> length mem"
    using assms(5) by (simp_all add: lengths_ok_def)
  have c: "q < length (queue_buf a1)" "q_len (queue_buf a1 ! q) = q_len (queue_buf a ! q)" "slots_of a1 = slots_of a"
    "saved_crashes a1 = saved_crashes a" "exec_cksum (queue_buf a1 ! q) = K" "bitmap_size (queue_buf a1 ! q) = h"
    "cal_failed (queue_buf a1 ! q) = 0"
    using a1(1) q saved_crashes_more [of a1 a] by (simp_all add: calibrated_def)
  obtain a2 where store: "(if q_testcase_max_cache_size a1 \<noteq> 0 then queue_testcase_store_mem (e_mem_ok env) a1 q mem else Inr a1) = Inr a2"
    and a2: "a2 = a1 \<or> (\<exists>i m. a2 = register i q m a1)"
  proof (cases "q_testcase_max_cache_size a1 = 0")
    case True
    then show ?thesis
      using that [of a1] by simp
  next
    case False
    then have "q_testcase_max_cache_size a \<noteq> 0"
      using c(3) by (simp add: slots_of_def)
    then have ok: "e_mem_ok env" "storable a1"
      using p(4) storable_same [OF c(3)] by simp_all
    from store_total [OF ok(2) c(1), of mem] q(2) c(2) obtain b i m where
      "queue_testcase_store_mem True a1 q mem = Inr b" "b = a1 \<or> b = register i q m a1"
      by auto
    then show ?thesis
      using False ok(1) by (intro that [of b]) auto
  qed
  have same: "q < length (queue_buf a2)" "out_dir a2 = out_dir a" "exec_cksum (queue_buf a2 ! q) = K" "bitmap_size (queue_buf a2 ! q) = h"
    "cal_failed (queue_buf a2 ! q) = 0" "saved_crashes a2 = saved_crashes a" "min_bitmap_size a2 = min (min_bitmap_size a) h"
    using a2 c out a1(2) registered_entry [OF c(1)] by auto
  obtain s w2 where report: "report_crash (e_symb env) q a2 (e_leaves env x1 w1) = Inr (set_site s a2, w2)"
    using report_crash_total [OF same(1)] p(5,6) same(2) by metis
  obtain b where b: "b = (set_site s a2)\<lparr>saved_crashes := saved_crashes (set_site s a2) + 1, last_crash_time := e_done env,
      last_crash_execs := total_execs (fsrv (set_site s a2))\<rparr>"
    by blast
  have "admit_crash env q a w x mem = Inr (True, b, w2, x1)"
    by (simp add: admit_crash_def cal store report b)
  moreover have "queue_buf b = queue_buf a2" "saved_crashes b = saved_crashes a2 + 1" "min_bitmap_size b = min_bitmap_size a2"
    by (cases s; simp add: b set_site_def)+
  ultimately show ?thesis
    using same by auto
qed

lemma enrol_explicit:
  assumes "q < length (queue_buf a)"
  shows "\<exists>e c f. enrol hash64 q nb ck a = a\<lparr>queue_buf := (queue_buf a)[q := e], queued_with_cov := c, n_fuzz := f\<rparr> \<and>
    exec_cksum e = hash64 (take (unat (map_size (fsrv a))) (trace_bits (fsrv a))) \<and> q_len e = q_len (queue_buf a ! q)"
proof -
  let ?k = "hash64 (take (unat (map_size (fsrv a))) (trace_bits (fsrv a)))"
  let ?e = "(queue_buf a ! q)\<lparr>has_new_cov := (nb AND 0x02 \<noteq> 0 \<or> has_new_cov (queue_buf a ! q)), exec_cksum := ?k,
    n_fuzz_entry := (if ck \<noteq> 0 then ucast (ck mod N_FUZZ_SIZE) else n_fuzz_entry (queue_buf a ! q))\<rparr>"
  show ?thesis
    by (rule exI [of _ ?e], rule exI [of _ "if nb AND 0x02 \<noteq> 0 then queued_with_cov a + 1 else queued_with_cov a"],
        rule exI [of _ "if ck \<noteq> 0 then (n_fuzz a)(unat (ck mod N_FUZZ_SIZE) := 1) else n_fuzz a"])
      (use assms in \<open>simp add: enrol_def q_upd_def Let_def\<close>)
qed

lemma add_to_queue_explicit:
  assumes "custom_mutators_count a = 0" "\<not> cmplog_mode a" "add_to_queue hooks now a w fn len det = Inr (b, w')"
  shows "w' = w \<and> (\<exists>md qt q rs qi ai pn cw buf lf lt. b = a\<lparr>max_depth := md, queue_top := qt, queue := q,
    ready_for_splicing_count := rs, queued_items := qi, active_items := ai, pending_not_fuzzed := pn, cycles_wo_finds := cw,
    queue_buf := buf, longest_find_time := lf, last_find_time := lt\<rparr>)"
proof -
  have find: "\<exists>lf. find_times s now = s\<lparr>longest_find_time := lf, last_find_time := now\<rparr>" for s :: "('b) afl_queue_scheme"
    unfolding find_times_def Let_def by blast
  have link: "\<exists>md qt q rs qi ai pn cw. link_entry a e i = a\<lparr>max_depth := md, queue_top := qt, queue := q,
    ready_for_splicing_count := rs, queued_items := qi, active_items := ai, pending_not_fuzzed := pn, cycles_wo_finds := cw\<rparr>" for e i
    by (rule exI [of _ "if depth e > ucast (max_depth a) then ucast (depth e) else max_depth a"], rule exI [of _ "Some i"],
        rule exI [of _ "if queue_top a \<noteq> None then queue a else Some i"],
        rule exI [of _ "if q_len e > 4 then ready_for_splicing_count a + 1 else ready_for_splicing_count a"],
        rule exI [of _ "queued_items a + 1"], rule exI [of _ "active_items a + 1"], rule exI [of _ "pending_not_fuzzed a + 1"],
        rule exI [of _ 0]) (simp add: link_entry_def Let_def)
  have same: "custom_mutators_count (find_times ((link_entry a e i)\<lparr>queue_buf := buf\<rparr>) now) = 0"
    "\<not> cmplog_mode (find_times ((link_entry a e i)\<lparr>queue_buf := buf\<rparr>) now)" for e i buf
    using assms(1,2) by (simp_all add: find_times_def link_entry_def Let_def)
  have "yields (\<lambda>(b, w'). \<exists>e i buf q. b = q_upd i (\<lambda>_. q) (find_times ((link_entry a e i)\<lparr>queue_buf := buf\<rparr>) now) \<and> w' = w)
      (add_to_queue hooks now a w fn len det)"
    unfolding add_to_queue_def Let_def same by (intro yields_intros) (simp_all add: same, blast+)
  from yieldsD [OF this assms(3)] obtain e i buf q where
    b: "b = q_upd i (\<lambda>_. q) (find_times ((link_entry a e i)\<lparr>queue_buf := buf\<rparr>) now)" "w' = w"
    by auto
  moreover obtain md qt hd rs qi ai pn cw where "link_entry a e i = a\<lparr>max_depth := md, queue_top := qt, queue := hd,
      ready_for_splicing_count := rs, queued_items := qi, active_items := ai, pending_not_fuzzed := pn, cycles_wo_finds := cw\<rparr>"
    using link by blast
  moreover obtain lf where "find_times ((link_entry a e i)\<lparr>queue_buf := buf\<rparr>) now =
      (link_entry a e i)\<lparr>queue_buf := buf, longest_find_time := lf, last_find_time := now\<rparr>"
    using find by blast
  ultimately have "b = a\<lparr>max_depth := md, queue_top := qt, queue := hd, ready_for_splicing_count := rs, queued_items := qi,
      active_items := ai, pending_not_fuzzed := pn, cycles_wo_finds := cw, queue_buf := buf[i := q], longest_find_time := lf,
      last_find_time := now\<rparr>"
    by (simp add: q_upd_def)
  then show ?thesis
    using b(2) by blast
qed

lemma describe_op_same:
  assumes "syncing_party b = syncing_party a" "syncing_case b = syncing_case a" "current_entry b = current_entry a"
    and "splicing_with b = splicing_with a" "prev_run_time b = prev_run_time a" "start_time b = start_time a"
    and "total_execs (fsrv b) = total_execs (fsrv a)" "op_short b = op_short a" "op_cur_byte b = op_cur_byte a"
    and "op_val_type b = op_val_type a" "op_cur_val b = op_cur_val a"
  shows "describe_op d now b nb m = describe_op d now a nb m"
  by (simp only: assms describe_op_def describe_prefix_def normal_op_def custom_op_def)

text \<open>From the new entry on: it is recorded and calibrated.\<close>

lemma enter_steady:
  fixes a :: "('a) afl_save_scheme"
  assumes "fit a" "plain env a" "unat (queued_items a) + 1 < 2 ^ 32" "transport_ok (fsrv a) w"
    and "trace_bits (fsrv a) = map count_class_lookup8 raw"
    and "raw = overlay (T (take (unat len) mem)) (replicate n 0)" "len \<le> max_length a" "unat len \<le> length mem"
    and "n = unat (map_size (fsrv a))" "0 < n" "steady T n (e_child env)" "crashes (cal_timeout a False) (e_child env)"
    and "h = hits a raw" "h \<noteq> 0" "K = e_hash env (map count_class_lookup8 raw)" "K \<noteq> 0"
    and "add_to_queue hooks now a w (queue_name a descr) len False = Inr (a3, w3)" "q = length (names a)"
  shows "queue_top a3 = Some q \<and> (\<exists>b w' x'. admit_crash env q (enrol (e_hash env) q nb ck a3) w3 x mem = Inr (True, b, w', x') \<and>
    exec_cksum (queue_buf b ! q) = K \<and> bitmap_size (queue_buf b ! q) = h \<and> cal_failed (queue_buf b ! q) = 0 \<and>
    saved_crashes b = saved_crashes a + 1 \<and> min_bitmap_size b = min (min_bitmap_size a) h)"
proof -
  have custom: "custom_mutators_count a = 0" "\<not> cmplog_mode a" and wf: "queue_wf a" "map_wf (fsrv a)"
    using assms(1,2) by (simp_all add: plain_def fit_def cov_wf_def)
  have top: "fit a3" "queue_top a3 = Some q"
    using add_to_queue_grown [OF assms(17)] assms(1,3,18) by (simp_all add: grown_def)
  have q: "q = length (queue_buf a)"
    using assms(18) by (simp add: names_def)
  have q3: "q < length (queue_buf a3)" "q_len (queue_buf a3 ! q) = len"
    using add_to_queue_result [OF wf(1) assms(3,17)] custom(1) q by auto
  obtain e c f where enrol: "enrol (e_hash env) q nb ck a3 = a3\<lparr>queue_buf := (queue_buf a3)[q := e], queued_with_cov := c, n_fuzz := f\<rparr>"
    and e: "exec_cksum e = e_hash env (take (unat (map_size (fsrv a3))) (trace_bits (fsrv a3)))" "q_len e = q_len (queue_buf a3 ! q)"
    using enrol_explicit [OF q3(1), of "e_hash env" nb ck] by blast
  define a4 where "a4 = enrol (e_hash env) q nb ck a3"
  note a3 = add_to_queue_explicit [OF custom assms(17)]
  have f3: "fsrv a3 = fsrv a"
    using a3 by auto
  have hits: "hits b (map count_class_lookup8 raw) = h" "hits b raw = h" if "fsrv b = fsrv a" for b :: "('a) afl_save_scheme"
    using that assms(13) hits_classified [of b raw] by (simp_all add: hits_def counted_def)
  have "\<exists>b w' x'. admit_crash env q a4 w3 x mem = Inr (True, b, w', x') \<and> exec_cksum (queue_buf b ! q) = K \<and>
    bitmap_size (queue_buf b ! q) = h \<and> cal_failed (queue_buf b ! q) = 0 \<and> saved_crashes b = saved_crashes a4 + 1 \<and>
    min_bitmap_size b = min (min_bitmap_size a4) h"
  proof (rule admit_crash_steady)
    show "fit a4"
      unfolding a4_def by (rule kept_fit [OF enrol_kept top(1)])
    show "plain env a4"
    proof -
      have "plain env a4 = plain env a"
        by (rule plain_same) (use a3 in \<open>auto simp: slots_of_def a4_def enrol\<close>)
      then show ?thesis
        using assms(2) by simp
    qed
    show "exec_cksum (queue_buf a4 ! q) = K"
      using e(1) q3(1) wf(2) assms(5,15) by (simp add: a4_def enrol f3 map_wf_def)
    show "lengths_ok a4 q mem"
      using assms(2,7,8) q3 e(2) a3 by (auto simp: lengths_ok_def plain_def a4_def enrol)
    show "transport_ok (fsrv a4) w3"
      using assms(4) a3 by (auto simp: a4_def enrol f3)
    show "crashes (cal_timeout a4 False) (e_child env)"
      using assms(12) a3 by (auto simp: a4_def enrol cal_timeout_def)
    show "raw = raw_trace T a4 q mem"
      using assms(6,9) q3 e(2) by (simp add: raw_trace_def a4_def enrol f3)
    have f4: "fsrv a4 = fsrv a"
      by (simp add: a4_def enrol f3)
    show "hits a4 (trace_bits (fsrv a4)) = h" "h = hits a4 raw" "n = unat (map_size (fsrv a4))"
      using hits [OF f4] assms(5,9) by (simp_all add: f4)
  qed (rule assms)+
  moreover have "saved_crashes a4 = saved_crashes a" "min_bitmap_size a4 = min_bitmap_size a"
    using a3 by (auto simp: a4_def enrol)
  ultimately show ?thesis
    using top(2) by (simp add: a4_def)
qed

text \<open>The site is compared first: \<open>a\<close> and \<open>w\<close> are what that leaves.\<close>

lemma save_crash_passed:
  fixes a :: "('a) afl_save_scheme"
  assumes "fit a" "plain env a" "unat (queued_items a) + 1 < 2 ^ 32" "nameable env a w" "transport_ok (fsrv a) w"
    and "(if wc then Inr (fsrv a) else classify_counts (fsrv a)) = Inr fs" "trace_bits fs = map count_class_lookup8 raw"
    and "raw = overlay (T (take (unat len) mem)) (replicate n 0)" "len \<le> max_length a" "unat len \<le> length mem"
    and "n = unat (map_size (fsrv a))" "0 < n" "steady T n (e_child env)" "crashes (cal_timeout a False) (e_child env)"
    and "h = hits a raw" "h \<noteq> 0" "h < min_bitmap_size a" "K = e_hash env (map count_class_lookup8 raw)" "K \<noteq> 0"
    and "q = length (names a)"
    and passed: "(if crash_mode ao \<ge> NEW_CRASH_MODE_LV3
       then same_crash_site (e_symb env) (ao\<lparr>total_crashes := total_crashes ao + 1\<rparr>) None False False wo
       else Inr (True, ao\<lparr>total_crashes := total_crashes ao + 1\<rparr>, wo)) = Inr (True, a\<lparr>total_crashes := total_crashes a + 1\<rparr>, w)"
  shows "\<exists>b w' x'. save_crash env ao wo x mem len wc ck 0 = Inr (True, b, w', x') \<and> exec_cksum (queue_buf b ! q) = K \<and>
    bitmap_size (queue_buf b ! q) = h \<and> cal_failed (queue_buf b ! q) = 0 \<and> saved_crashes b = saved_crashes a + 1 \<and>
    min_bitmap_size b = h"
proof -
  have "map_wf (fsrv a)"
    using assms(1) by (simp add: fit_def cov_wf_def)
  then have fs: "fs = fsrv a \<or> fs = classified (fsrv a)"
    using assms(6) classify_counts_map by (auto simp: classified_def split: if_splits)
  then have same: "same_map (fsrv a) fs" "transport_ok fs w" "exec_tmout fs = exec_tmout (fsrv a)" "total_execs fs = total_execs (fsrv a)"
    using assms(5) by (auto simp: same_map_def classified_def transport_ok_def)
  define a1 where "a1 = a\<lparr>total_crashes := total_crashes a + 1, fsrv := fs\<rparr>"
  have kept: "kept a a1"
    using kept_trans [OF kept_counters(1) kept_fsrv] same(1) by (simp add: a1_def)
  have "fit a1" "testcase_matrix a1 \<noteq> None"
    using kept_fit [OF kept assms(1)] assms(2) by (simp_all add: a1_def plain_def)
  then obtain nb m bc where bits: "has_few_bits a1 VIRGIN_BITS = Inr (nb, a1\<lparr>virgin_bits := m, bitmap_changed := bc\<rparr>)"
      and "0x10 \<le> nb" "hits a1 (trace_bits fs) < min_bitmap_size a1 \<longrightarrow> 0x10 < nb"
    using few_bits_run [of a1] by (auto simp: fit_def hits_def counted_def a1_def)
  moreover have hits: "hits a1 (trace_bits fs) = h"
    using assms(7,15) same(1) hits_classified [of a1 raw] by (simp add: hits_def counted_def a1_def same_map_def)
  ultimately have nb: "nb \<noteq> 0x10" "nb \<noteq> 0"
    using assms(17) by (auto simp: a1_def)
  define a2 where "a2 = a1\<lparr>virgin_bits := m, bitmap_changed := bc\<rparr>"
  have k2: "kept a a2"
    using kept_trans [OF kept has_few_bits_kept [OF bits \<open>fit a1\<close>]] by (simp add: a2_def)
  obtain descr where descr: "describe_op (e_describe env) (e_now env) a nb (NAME_MAX - 10) = Inr descr"
    and free: "fst (create_excl (queue_name a descr) w)"
    using assms(4) unfolding nameable_def by blast
  have describe: "describe_op (e_describe env) (e_now env) a2 nb (NAME_MAX - 10) = Inr descr"
    unfolding descr [symmetric] using same(4) by (intro describe_op_same) (simp_all add: a2_def a1_def)
  obtain w2 where written: "write_case (queue_name a descr) mem len w = Inr w2" and "deny w2 = deny w"
    using free assms(10) by (auto simp: write_case_def create_excl_def split: if_splits)
  have name: "queue_name a2 descr = queue_name a descr"
    by (simp add: queue_name_def a2_def a1_def)
  have room: "unat (queued_items a2) + 1 < 2 ^ 32" and fit2: "fit a2" and len2: "q = length (names a2)"
    using k2 assms(1,3,20) by (simp_all add: kept_def)
  have plain2: "plain env a2"
    using assms(2) plain_same [of a2 a env] by (simp add: slots_of_def a2_def a1_def)
  then have "custom_mutators_count a2 = 0"
    by (simp add: plain_def)
  then obtain a3 w3 where add: "add_to_queue (e_hooks env) (e_add_time env) a2 w2 (queue_name a2 descr) len False = Inr (a3, w3)"
    using add_to_queue_total fit2 unfolding fit_def by blast
  have t2: "transport_ok (fsrv a2) w2"
    using same(2) \<open>deny w2 = deny w\<close> by (simp add: a2_def a1_def transport_ok_def)
  have fields: "trace_bits (fsrv a2) = map count_class_lookup8 raw" "len \<le> max_length a2" "n = unat (map_size (fsrv a2))"
    "crashes (cal_timeout a2 False) (e_child env)" "h = hits a2 raw"
    using assms(7,9,11,14,15) same(1,3) by (simp_all add: a2_def a1_def cal_timeout_def hits_def counted_def same_map_def)
  note entered = enter_steady [OF fit2 plain2 room t2 fields(1) assms(8) fields(2) assms(10) fields(3) assms(12,13) fields(4,5)
      assms(16,18,19) add len2, of nb ck x]
  have "save_crash env ao wo x mem len wc ck 0 = admit_crash env q (enrol (e_hash env) q nb ck a3) w3 x mem"
  proof -
    let ?a0 = "a\<lparr>total_crashes := total_crashes a + 1\<rparr>"
    have mode: "crash_mode (ao\<lparr>total_crashes := n\<rparr>) = crash_mode ao" for n
      by simp
    have cls: "(if wc then Inr (fsrv ?a0) else classify_counts (fsrv ?a0)) = Inr fs"
      using assms(6) by (simp split: if_splits)
    show ?thesis
      unfolding save_crash_def Let_def mode passed bnd_simps prod.case cls a1_def [symmetric] bits a2_def [symmetric]
      using nb describe written add entered by (simp add: name)
  qed
  moreover have "saved_crashes a2 = saved_crashes a" "min_bitmap_size a2 = min_bitmap_size a"
    by (simp_all add: a2_def a1_def)
  ultimately show ?thesis
    using entered assms(17) by (auto simp: min_def)
qed

lemma nameable_site:
  assumes "nameable env a w" "find_crash_site symb (fsrv a) True w = (site, w1)"
  shows "nameable env (set_site s a) w1"
proof -
  have free: "fst (create_excl fn w1) = fst (create_excl fn w)" for fn
    using find_crash_site_frame [OF assms(2)] by (simp add: create_excl_def)
  have "describe_op d now (set_site s a) nb m = describe_op d now a nb m" for d now nb m
    by (cases s, rule describe_op_same) (simp_all add: set_site_def)
  moreover have "queue_name (set_site s a) descr = queue_name a descr" for descr
    by (cases s) (simp add: queue_name_def set_site_def)
  ultimately show ?thesis
    using assms(1) free by (simp add: nameable_def)
qed

lemma save_crash_steady:
  fixes a :: "('a) afl_save_scheme"
  assumes "fit a" "plain env a" "unat (queued_items a) + 1 < 2 ^ 32" "nameable env a w" "transport_ok (fsrv a) w"
    and "trace_bits (fsrv a) = (if wc then map count_class_lookup8 raw else raw)"
    and "raw = overlay (T (take (unat len) mem)) (replicate n 0)" "len \<le> max_length a" "unat len \<le> length mem"
    and "n = unat (map_size (fsrv a))" "0 < n" "steady T n (e_child env)" "crashes (cal_timeout a False) (e_child env)"
    and "h = hits a raw" "h \<noteq> 0" "h < min_bitmap_size a" "K = e_hash env (map count_class_lookup8 raw)" "K \<noteq> 0"
    and "q = length (names a)" "same_site env a w"
  shows "\<exists>b w' x'. save_crash env a w x mem len wc ck 0 = Inr (True, b, w', x') \<and> exec_cksum (queue_buf b ! q) = K \<and>
    bitmap_size (queue_buf b ! q) = h \<and> cal_failed (queue_buf b ! q) = 0 \<and> saved_crashes b = saved_crashes a + 1 \<and>
    min_bitmap_size b = h"
proof -
  obtain s w1 where passed: "(if crash_mode a \<ge> NEW_CRASH_MODE_LV3
       then same_crash_site (e_symb env) (a\<lparr>total_crashes := total_crashes a + 1\<rparr>) None False False w
       else Inr (True, a\<lparr>total_crashes := total_crashes a + 1\<rparr>, w)) =
         Inr (True, (set_site s a)\<lparr>total_crashes := total_crashes (set_site s a) + 1\<rparr>, w1)"
    and w1: "nameable env (set_site s a) w1" "deny w1 = deny w"
  proof (cases "crash_mode a \<ge> NEW_CRASH_MODE_LV3")
    case True
    obtain site w1 where find: "find_crash_site (e_symb env) (fsrv a) True w = (site, w1)"
      by (cases "find_crash_site (e_symb env) (fsrv a) True w")
    moreover have "snd (fsrv_site (fsrv a)) = snd site"
      using assms(20) True find by (simp add: same_site_def)
    moreover have "set_site site (a\<lparr>total_crashes := total_crashes a + 1\<rparr>) =
        (set_site site a)\<lparr>total_crashes := total_crashes (set_site site a) + 1\<rparr>"
      by (cases site) (simp add: set_site_def)
    ultimately show ?thesis
      using True nameable_site [OF assms(4) find] find_crash_site_frame(1) [OF find]
      by (intro that [of site w1]) (simp_all add: same_crash_site_def)
  next
    case False
    then show ?thesis
      using assms(4) by (intro that [of "fsrv_site (fsrv a)" w]) (simp_all add: set_site_same)
  qed
  define a' where "a' = set_site s a"
  obtain c m i where s: "s = (c, m, i)"
    by (cases s)
  have f: "fsrv a' = (fsrv a)\<lparr>crash_symbol := c, crash_module := m, crash_offset := i\<rparr>"
    by (simp add: a'_def s set_site_def)
  have kept: "kept a a'"
    unfolding a'_def by (rule set_site_kept)
  then have a': "fit a'" "unat (queued_items a') + 1 < 2 ^ 32" "q = length (names a')"
    using assms(1,3,19) by (simp_all add: kept_def)
  have same: "plain env a'" "len \<le> max_length a'" "n = unat (map_size (fsrv a'))" "crashes (cal_timeout a' False) (e_child env)"
    "h = hits a' raw" "h < min_bitmap_size a'" "transport_ok (fsrv a') w1" "saved_crashes a' = saved_crashes a"
    "trace_bits (fsrv a') = (if wc then map count_class_lookup8 raw else raw)"
    using assms(2,5,6,8,10,13,14,16) w1(2) plain_same [of a' a env]
    by (simp_all add: a'_def s set_site_def slots_of_def cal_timeout_def hits_def counted_def transport_ok_def)
  define fs where "fs = (if wc then fsrv a' else classified (fsrv a'))"
  have "map_wf (fsrv a')"
    using a'(1) by (simp add: fit_def cov_wf_def)
  then have "(if wc then Inr (fsrv a') else classify_counts (fsrv a')) = Inr fs" "trace_bits fs = map count_class_lookup8 raw"
    using classify_counts_map same(9) by (simp_all add: fs_def classified_def)
  from save_crash_passed [OF a'(1) same(1) a'(2) w1(1) [folded a'_def] same(7) this assms(7) same(2) assms(9) same(3) assms(11,12)
      same(4,5) assms(15) same(6) assms(17,18) a'(3) passed [folded a'_def], of x ck]
  show ?thesis
    by (simp add: same(8))
qed

text \<open>Level 3: a crash at another site is discarded.\<close>

lemma save_crash_elsewhere:
  fixes a :: "('a) afl_save_scheme"
  assumes "\<not> same_site env a w"
  shows "save_crash env a w x mem len wc ck t =
    Inr (False, a\<lparr>total_crashes := total_crashes a + 1\<rparr>, snd (find_crash_site (e_symb env) (fsrv a) True w), x)"
proof -
  let ?a = "a\<lparr>total_crashes := total_crashes a + 1\<rparr>"
  obtain site w1 where find: "find_crash_site (e_symb env) (fsrv a) True w = (site, w1)"
    by (cases "find_crash_site (e_symb env) (fsrv a) True w")
  have "crash_mode a \<ge> NEW_CRASH_MODE_LV3" "snd (fsrv_site (fsrv a)) \<noteq> snd site"
    using assms find by (auto simp: same_site_def)
  moreover have "set_site (fsrv_site (fsrv a)) (set_site site ?a) = ?a"
    using set_site_same [of ?a] by (simp add: set_site_twice)
  ultimately show ?thesis
    using find by (simp add: save_crash_def same_crash_site_def Let_def)
qed

lemma count_path_run:
  assumes "map_wf (fsrv a)"
  shows "\<exists>f. count_path hash64 a = Inr (hash64 (map count_class_lookup8 (trace_bits (fsrv a))), a\<lparr>fsrv := classified (fsrv a), n_fuzz := f\<rparr>)"
proof -
  have c: "classify_counts (fsrv a) = Inr (classified (fsrv a))"
    "take (unat (map_size (classified (fsrv a)))) (trace_bits (classified (fsrv a))) = map count_class_lookup8 (trace_bits (fsrv a))"
    using classify_counts_map [OF assms] assms by (simp_all add: classified_def map_wf_def)
  show ?thesis
    unfolding count_path_def c(1) bnd_simps Let_def c(2) by blast
qed

lemma nameable_same:
  assumes "nameable env a w" "total_execs fs = total_execs (fsrv a)"
  shows "nameable env (a\<lparr>fsrv := fs, n_fuzz := f\<rparr>) w"
proof -
  have "describe_op d now (a\<lparr>fsrv := fs, n_fuzz := f\<rparr>) nb m = describe_op d now a nb m" for d now nb m
    by (rule describe_op_same) (simp_all add: assms(2))
  moreover have "queue_name (a\<lparr>fsrv := fs, n_fuzz := f\<rparr>) descr = queue_name a descr" for descr
    by (simp add: queue_name_def)
  ultimately show ?thesis
    using assms(1) by (simp add: nameable_def)
qed

lemma save_steady:
  fixes a :: "('a) afl_save_scheme"
  assumes "fit a" "plain env a" "unat (queued_items a) + 1 < 2 ^ 32" "nameable env a w" "transport_ok (fsrv a) w"
    and "trace_bits (fsrv a) = raw" "raw = overlay (T (take (unat len) mem)) (replicate n 0)" "len \<noteq> 0" "len \<le> max_length a"
    and "unat len \<le> length mem" "n = unat (map_size (fsrv a))" "0 < n" "steady T n (e_child env)"
    and "crashes (cal_timeout a False) (e_child env)" "h = hits a raw" "h \<noteq> 0" "h < min_bitmap_size a"
    and "K = e_hash env (map count_class_lookup8 raw)" "K \<noteq> 0" "q = length (names a)" "same_site env a w"
  shows "\<exists>b w' x'. save_if_interesting env a w x mem len FSRV_RUN_CRASH = Inr (True, b, w', x') \<and> exec_cksum (queue_buf b ! q) = K \<and>
    bitmap_size (queue_buf b ! q) = h \<and> cal_failed (queue_buf b ! q) = 0 \<and> saved_crashes b = saved_crashes a + 1 \<and>
    min_bitmap_size b = h"
proof (cases "schedule a \<ge> FAST \<and> schedule a \<le> RARE")
  case True
  have wf: "map_wf (fsrv a)"
    using assms(1) by (simp add: fit_def cov_wf_def)
  obtain f where path: "count_path (e_hash env) a = Inr (e_hash env (map count_class_lookup8 (trace_bits (fsrv a))),
      a\<lparr>fsrv := classified (fsrv a), n_fuzz := f\<rparr>)"
    using count_path_run [OF wf] by blast
  define a1 where "a1 = a\<lparr>fsrv := classified (fsrv a), n_fuzz := f\<rparr>"
  have "kept a a1"
    using count_path_kept [OF path assms(1)] by (simp add: a1_def)
  then have a1: "fit a1" "unat (queued_items a1) + 1 < 2 ^ 32" "q = length (names a1)"
    using assms(1,3,20) by (simp_all add: kept_def)
  have "plain env a1" "nameable env a1 w" "transport_ok (fsrv a1) w" "trace_bits (fsrv a1) = (if True then map count_class_lookup8 raw else raw)"
    "len \<le> max_length a1" "n = unat (map_size (fsrv a1))" "crashes (cal_timeout a1 False) (e_child env)" "h = hits a1 raw"
    "h < min_bitmap_size a1" "saved_crashes a1 = saved_crashes a" "same_site env a1 w"
    using assms(2,5,6,9,11,14,15,17,21) plain_same [of a1 a env] nameable_same [OF assms(4), of "classified (fsrv a)" f]
      find_crash_site_same [of "classified (fsrv a)" "fsrv a" "e_symb env" True w]
    by (simp_all add: a1_def slots_of_def classified_def transport_ok_def cal_timeout_def hits_def counted_def
        same_site_def fsrv_site_def)
  note same = this
  from save_crash_steady [OF a1(1) same(1) a1(2) same(2-4) assms(7) same(5) assms(10) same(6) assms(12,13) same(7,8)
      assms(16) same(9) assms(18,19) a1(3) same(11), of x "e_hash env (map count_class_lookup8 (trace_bits (fsrv a)))"]
  show ?thesis
    using True assms(8) by (simp add: save_if_interesting_def path a1_def [symmetric] save_switch_def same(10))
next
  case False
  have "trace_bits (fsrv a) = (if False then map count_class_lookup8 raw else raw)"
    using assms(6) by simp
  from save_crash_steady [OF assms(1-5) this assms(7,9-21), of x 0] show ?thesis
    using False assms(8) by (auto simp: save_if_interesting_def save_switch_def)
qed

lemma save_elsewhere:
  fixes a :: "('a) afl_save_scheme"
  assumes "fit a" "len \<noteq> 0" "\<not> same_site env a w"
  shows "\<exists>b. save_if_interesting env a w x mem len FSRV_RUN_CRASH =
      Inr (False, b, snd (find_crash_site (e_symb env) (fsrv a) True w), x) \<and> kept a b \<and> saved_crashes b = saved_crashes a \<and>
    total_crashes b = total_crashes a + 1 \<and> min_bitmap_size b = min_bitmap_size a \<and> fsrv_site (fsrv b) = fsrv_site (fsrv a)"
proof (cases "schedule a \<ge> FAST \<and> schedule a \<le> RARE")
  case True
  have wf: "map_wf (fsrv a)"
    using assms(1) by (simp add: fit_def cov_wf_def)
  obtain f where path: "count_path (e_hash env) a = Inr (e_hash env (map count_class_lookup8 (trace_bits (fsrv a))),
      a\<lparr>fsrv := classified (fsrv a), n_fuzz := f\<rparr>)"
    using count_path_run [OF wf] by blast
  define a1 where "a1 = a\<lparr>fsrv := classified (fsrv a), n_fuzz := f\<rparr>"
  have "kept a a1"
    using count_path_kept [OF path assms(1)] by (simp add: a1_def)
  then have k: "kept a (a1\<lparr>total_crashes := total_crashes a1 + 1\<rparr>)"
    by (rule kept_trans [OF _ kept_counters(1)])
  have site: "find_crash_site symb (fsrv a1) flush w = find_crash_site symb (fsrv a) flush w" for symb flush w
    by (rule find_crash_site_same) (simp_all add: a1_def classified_def)
  then have "\<not> same_site env a1 w"
    using assms(3) by (simp add: same_site_def) (simp add: a1_def fsrv_site_def classified_def)
  from save_crash_elsewhere [OF this] k show ?thesis
    using True assms(2)
    by (intro exI [of _ "a1\<lparr>total_crashes := total_crashes a1 + 1\<rparr>"])
      (simp add: save_if_interesting_def path a1_def [symmetric] save_switch_def site, simp add: a1_def fsrv_site_def classified_def)
next
  case False
  then show ?thesis
    using assms(2) save_crash_elsewhere [OF assms(3)] kept_counters(1) [of a]
    by (intro exI [of _ "a\<lparr>total_crashes := total_crashes a + 1\<rparr>"])
      (auto simp: save_if_interesting_def save_switch_def)
qed

section \<open>Properties\<close>

text \<open>C2. A crash that hits fewer edges than any before is kept, at any level of the crash mode and with the
  test case cache on or off: on a target that crashes the same way on the same input, \<open>save_if_interesting\<close>
  writes the case under the next number of the queue, appends exactly one entry, calibrates it (checksum
  of the classified trace, number of edges, no longer failing), counts the crash and lowers the bar to
  it; the queue and the maps stay well-formed. The one exception is a crash at another site than the one
  remembered when sites are compared (level 3): then it is counted in \<open>total_crashes\<close> only, no entry is made, the
  bar and the remembered site stay, and of the files only the first byte of the report is overwritten. It is
  assumed that there are no custom mutators, no cmplog and no request to stop, that there is an entry to
  compare with, that the details can be written and a name is free, and, with the cache on, that memory
  suffices.\<close>

theorem crash_is_kept:
  fixes a :: "('a) afl_save_scheme"
  assumes "fit a" "plain env a" "unat (queued_items a) + 1 < 2 ^ 32" "nameable env a w" "transport_ok (fsrv a) w"
    and "trace_bits (fsrv a) = raw" "raw = overlay (T (take (unat len) mem)) (replicate n 0)" "len \<noteq> 0" "len \<le> max_length a"
    and "unat len \<le> length mem" "n = unat (map_size (fsrv a))" "0 < n" "steady T n (e_child env)"
    and "crashes (cal_timeout a False) (e_child env)" "h = hits a raw" "h \<noteq> 0" "h < min_bitmap_size a"
    and "K = e_hash env (map count_class_lookup8 raw)" "K \<noteq> 0"
  shows "(same_site env a w \<longrightarrow>
     (\<exists>descr b w' x'. save_if_interesting env a w x mem len FSRV_RUN_CRASH = Inr (True, b, w', x') \<and> fit b \<and>
       names b = names a @ [queue_name a descr] \<and> exec_cksum (last (queue_buf b)) = K \<and> bitmap_size (last (queue_buf b)) = h \<and>
       cal_failed (last (queue_buf b)) = 0 \<and> saved_crashes b = saved_crashes a + 1 \<and> min_bitmap_size b = h)) \<and>
    (\<not> same_site env a w \<longrightarrow>
     (\<exists>b. save_if_interesting env a w x mem len FSRV_RUN_CRASH =
         Inr (False, b, snd (find_crash_site (e_symb env) (fsrv a) True w), x) \<and> fit b \<and> names b = names a \<and>
       saved_crashes b = saved_crashes a \<and> total_crashes b = total_crashes a + 1 \<and>
       min_bitmap_size b = min_bitmap_size a \<and> fsrv_site (fsrv b) = fsrv_site (fsrv a)))"
proof (intro conjI impI)
  assume "same_site env a w"
  from save_steady [OF assms refl this] obtain b w' x' where
    run: "save_if_interesting env a w x mem len FSRV_RUN_CRASH = Inr (True, b, w', x')"
    and b: "exec_cksum (queue_buf b ! length (names a)) = K" "bitmap_size (queue_buf b ! length (names a)) = h"
      "cal_failed (queue_buf b ! length (names a)) = 0" "saved_crashes b = saved_crashes a + 1" "min_bitmap_size b = h"
    by blast
  from save_if_interesting_grown [OF run assms(1,3)] assms(1,3) obtain descr
    where new: "fit b" "names b = names a @ [queue_name a descr]"
    by (auto simp: grown_def)
  have "length (names b) = Suc (length (names a))"
    by (simp add: new(2))
  then have "length (queue_buf b) = Suc (length (names a))"
    by (simp add: names_def)
  then have "last (queue_buf b) = queue_buf b ! length (names a)"
    by (cases "queue_buf b" rule: rev_cases) (simp_all add: nth_append)
  then show "\<exists>descr b w' x'. save_if_interesting env a w x mem len FSRV_RUN_CRASH = Inr (True, b, w', x') \<and> fit b \<and>
       names b = names a @ [queue_name a descr] \<and> exec_cksum (last (queue_buf b)) = K \<and> bitmap_size (last (queue_buf b)) = h \<and>
       cal_failed (last (queue_buf b)) = 0 \<and> saved_crashes b = saved_crashes a + 1 \<and> min_bitmap_size b = h"
    using run b new by auto
next
  assume "\<not> same_site env a w"
  from save_elsewhere [OF assms(1,8) this, of x mem] show "\<exists>b. save_if_interesting env a w x mem len FSRV_RUN_CRASH =
         Inr (False, b, snd (find_crash_site (e_symb env) (fsrv a) True w), x) \<and> fit b \<and> names b = names a \<and>
       saved_crashes b = saved_crashes a \<and> total_crashes b = total_crashes a + 1 \<and>
       min_bitmap_size b = min_bitmap_size a \<and> fsrv_site (fsrv b) = fsrv_site (fsrv a)"
    using assms(1) by (auto simp: kept_def)
qed

text \<open>C24. Hangs are lost: the simplified trace of a timeout has no byte that is not hit, so unless the map of
  hangs is touched already, which only this comparison could do, \<open>has_few_bits\<close> finds nothing, and no
  timeout is ever saved. The map stays untouched, so the same holds for the next one.\<close>

theorem hangs_are_lost:
  assumes "fit a" "testcase_matrix a \<noteq> None" "\<forall>v \<in> set (virgin_tmout a). v = 0xff" "min_bitmap_size a \<le> real_map_size (fsrv a)"
  shows "\<exists>b. save_if_interesting env a w x mem len FSRV_RUN_TMOUT = Inr (False, b, w, x) \<and>
    saved_hangs b = saved_hangs a \<and> (\<forall>v \<in> set (virgin_tmout b). v = 0xff)"
proof -
  from save_if_interesting_loses [OF assms, of env w x mem len] obtain b where
    "save_if_interesting env a w x mem len FSRV_RUN_TMOUT = Inr (False, b, w, x)"
    "saved_hangs b = saved_hangs a" "virgin_tmout b = virgin_tmout a"
    by blast
  then show ?thesis
    using assms(3) by (intro exI [of _ b]) simp
qed

text \<open>C6. Whatever the target, the mutators and the file system do, after any number of cases the queue and the
  maps are well-formed, every entry there was keeps its place and file, and the number of entries and of
  finds have grown by the number of new ones.\<close>

theorem fuzzing_invariant:
  assumes "fuzz_run (a, w, x) (b, w', x')" "fit a"
  shows "fit b \<and> (\<exists>new. names b = names a @ new \<and> queued_items b = queued_items a + of_nat (length new) \<and>
    queued_discovered b = queued_discovered a + of_nat (length new))"
  using run_extended [OF assms(1)] assms(2) by (simp add: extended_def)

text \<open>What the end of a file name says.\<close>

definition read_tag :: "string \<Rightarrow> u8" where
  "read_tag s = (case filter (\<lambda>c. cov_tag c = drop (length s - 5) s) [0x02, 0x11, 0x12, 0x13, 0x14, 0x15, 0x16, 0x17] of
     [c] \<Rightarrow> c | _ \<Rightarrow> 0)"

lemma cov_tag_length: "length (cov_tag c) \<le> 5"
  by (simp add: cov_tag_def)

lemma read_cov_tag:
  assumes "c \<in> {0x02, 0x11, 0x12, 0x13, 0x14, 0x15, 0x16, 0x17}"
  shows "read_tag (s @ cov_tag c) = c"
  using assms by (auto simp: read_tag_def cov_tag_def)

text \<open>C25. The name of a saved case tells what it was saved for: it ends with a tag from which the code of
  \<open>has_few_bits\<close> can be read back, behind the mark of a timeout if the second run crashed, and it
  fits both the limit of the caller and the buffer.\<close>

theorem describe_op_tag:
  assumes "describe_op describe now afl (c OR (if tout then 0x20 else 0)) n = Inr s"
    and "c \<in> {0x02, 0x11, 0x12, 0x13, 0x14, 0x15, 0x16, 0x17}"
  shows "read_tag s = c \<and> (\<exists>p. s = p @ (if tout then '',+tout'' else '''') @ cov_tag c) \<and> length s < n \<and> length s < 256"
proof -
  have code: "(c OR (if tout then 0x20 else 0)) AND 0x20 \<noteq> 0 \<longleftrightarrow> tout"
    "(if tout then (c OR (if tout then 0x20 else 0)) - 0x20 else c OR (if tout then 0x20 else 0)) = c"
    using assms(2) by auto
  obtain p where "s = p @ (if tout then '',+tout'' else '''') @ cov_tag c" "length s < 256" "length s < n"
    using assms(1) unfolding describe_op_def Let_def code by (auto simp: bnd_eq_Inr_iff not_le split: if_splits)
  moreover from this have "read_tag s = c"
    using read_cov_tag [OF assms(2), of "p @ (if tout then '',+tout'' else '''')"] by simp
  ultimately show ?thesis
    by blast
qed

text \<open>The queue of the calibration example with an untouched map of hangs, a lower bar, a cache of two slots
  and crash sites compared.\<close>

definition save_example :: afl_save where
  "save_example = afl_cal.extend (cal_example\<lparr>fsrv := example_fsrv (1 # replicate 63 0), virgin_tmout := replicate 64 0xff,
       crash_mode := 3, q_testcase_max_cache_size := 52428800, q_testcase_max_cache_entries := 2, q_testcase_cache_size := 0,
       q_testcase_max_cache_count := 0, q_testcase_cache_count := 0, q_testcase_smallest_free := 0,
       q_testcase_cache := [None, None], syncing_party := Some ''m''\<rparr>)
     (afl_save.fields False 1000 0 0 0 0 0 0 0 0 0 0 0 ''x'' 0 0 0 0 0)"

definition example_env :: "unit save_env" where
  "example_env = \<lparr>e_child = crashing, e_muts = [], e_hooks = [], e_describe = None, e_symb = crash_symb, e_hash = (\<lambda>_. 7),
     e_leaves = (\<lambda>_ _. empty_world), e_now = 0, e_add_time = 0, e_clock = (0, 0), e_done = 0, e_stage_cur = 0, e_mem_ok = True\<rparr>"

lemma save_example_simps:
  "fsrv save_example = example_fsrv (1 # replicate 63 0)" "queue_buf save_example = [zero_entry\<lparr>q_len := 8, fname := ''f''\<rparr>]"
  "custom_mutators_count save_example = 0" "\<not> stop_soon save_example" "testcase_matrix save_example = Some 0"
  "top_rated save_example = replicate 64 None" "queued_items save_example = 1" "length (map_tmp_buf save_example) = 8"
  "length (get_virgin vm save_example) = 64" "\<not> cmplog_mode save_example" "min_length save_example = 1"
  "max_length save_example = MAX_FILE" "\<not> resuming_fuzz save_example" "min_bitmap_size save_example = 5"
  "crash_mode save_example = 3" "q_testcase_max_cache_size save_example = 52428800" "q_testcase_max_cache_count save_example = 0"
  "q_testcase_max_cache_entries save_example = 2" "q_testcase_cache save_example = [None, None]" "out_dir save_example = ''o''"
  "syncing_party save_example = Some ''m''" "syncing_case save_example = 0" "virgin_tmout save_example = replicate 64 0xff"
  "saved_crashes save_example = 0" "saved_hangs save_example = 0"
  by (cases vm; simp add: save_example_def afl_cal.defs afl_save.defs cal_example_def trim_example_def afl_run.defs afl_trim.defs run_state_def
      afl_crash.defs crash_state_def afl_extras.defs dict_example_def mopt_example_def afl_mopt.defs afl_cache.defs zero_afl_def)+

lemma save_example_fit: "fit save_example"
  by (simp add: fit_def queue_wf_def cov_wf_def save_example_simps map_wf_def top_inv_def zero_entry_def count_list_replicate_eq)

lemma save_example_ready:
  "plain example_env save_example" "unat (queued_items save_example) + 1 < 2 ^ 32"
  "transport_ok (fsrv save_example) empty_world" "trace_bits (fsrv save_example) = 1 # replicate 63 0"
  "1 # replicate 63 0 = overlay ((\<lambda>_. [1]) (take (unat 2) [5, 6])) (replicate 64 0)" "(2 :: u32) \<noteq> 0" "2 \<le> max_length save_example"
  "unat (2 :: u32) \<le> length [5, 6 :: u8]" "64 = unat (map_size (fsrv save_example))" "0 < (64 :: nat)"
  "steady (\<lambda>_. [1]) 64 (e_child example_env)" "crashes (cal_timeout save_example False) (e_child example_env)"
  "1 = hits save_example (1 # replicate 63 0)" "(1 :: u32) \<noteq> 0" "1 < min_bitmap_size save_example"
  "7 = e_hash example_env t" "(7 :: u64) \<noteq> 0"
  "same_site example_env save_example empty_world"
proof -
  have "storable save_example"
    by (simp add: storable_def save_example_simps free_slot.simps)
  then show "plain example_env save_example"
    by (simp add: plain_def save_example_simps example_env_def empty_world_def readme_def PATH_MAX_def MAX_FILE_def)
  show "same_site example_env save_example empty_world"
    by (simp add: same_site_def save_example_simps find_crash_site_def example_fsrv_def no_site_def fsrv_site_def)
  show "steady (\<lambda>_. [1]) 64 (e_child example_env)"
    by (simp add: example_env_def crashing_steady)
  show "transport_ok (fsrv save_example) empty_world" "unat (queued_items save_example) + 1 < 2 ^ 32"
    "2 \<le> max_length save_example" "1 < min_bitmap_size save_example" "trace_bits (fsrv save_example) = 1 # replicate 63 0"
    by (simp_all add: save_example_simps empty_world_def MAX_FILE_def transport_ok_def example_fsrv_def)
  show "1 # replicate 63 0 = overlay ((\<lambda>_. [1]) (take (unat 2) [5, 6])) (replicate 64 0)"
    by (simp add: overlay_def)
  show "1 = hits save_example (1 # replicate 63 0)"
    by (simp add: hits_def counted_def save_example_simps)
  show "crashes (cal_timeout save_example False) (e_child example_env)"
    by (simp add: crashes_def example_env_def crashing_def cal_timeout_def save_example_simps CAL_TMOUT_ADD_def CAL_TMOUT_PERC_def example_fsrv_def)
  show "64 = unat (map_size (fsrv save_example))"
    by (simp add: save_example_simps)
qed (simp_all add: example_env_def)

lemma sync_nameable:
  assumes "syncing_party a = Some ''m''" "syncing_case a = 0"
  shows "nameable example_env a empty_world"
proof -
  have zero: "dec06 0 = ''000000''"
    by code_simp
  have "\<exists>descr. describe_op (e_describe example_env) (e_now example_env) a nb (NAME_MAX - 10) = Inr descr" for nb
  proof -
    have "length (cov_tag nb) < 200" "length (cov_tag (nb - 32)) < 200"
      using cov_tag_length [of nb] cov_tag_length [of "nb - 32"] by simp_all
    then show ?thesis
      by (simp add: describe_op_def describe_prefix_def assms zero NAME_MAX_def Let_def)
  qed
  then show ?thesis
    by (simp add: nameable_def create_excl_def empty_world_def)
qed

theorem crash_is_kept_witness:
  "crash_mode save_example = 3 \<and> q_testcase_max_cache_size save_example = 52428800 \<and>
   (\<exists>descr b w' x'. save_if_interesting example_env save_example empty_world () [5, 6] 2 FSRV_RUN_CRASH = Inr (True, b, w', x') \<and>
     names b = [''f'', queue_name save_example descr] \<and> bitmap_size (last (queue_buf b)) = 1 \<and> min_bitmap_size b = 1)"
proof -
  note r = save_example_ready
  have "nameable example_env save_example empty_world"
    by (rule sync_nameable) (simp_all add: save_example_simps)
  from crash_is_kept [OF save_example_fit r(1,2) this r(3-17), of "()"] r(18) show ?thesis
    by (auto simp: names_def save_example_simps)
qed

theorem hangs_are_lost_witness:
  "\<exists>b. save_if_interesting example_env save_example empty_world () [5, 6] 2 FSRV_RUN_TMOUT = Inr (False, b, empty_world, ()) \<and>
     saved_hangs b = 0"
proof -
  have "testcase_matrix save_example \<noteq> None" "\<forall>v \<in> set (virgin_tmout save_example). v = 0xff"
    "min_bitmap_size save_example \<le> real_map_size (fsrv save_example)"
    by (simp_all add: save_example_simps)
  from hangs_are_lost [OF save_example_fit this, of example_env empty_world "()" "[5, 6]" 2] show ?thesis
    by (auto simp: save_example_simps)
qed

text \<open>One whole case of a stage on the example.\<close>

lemma example_step: "\<exists>s'. fuzz_step (save_example, empty_world, ()) s'"
proof -
  note r = save_example_ready
  obtain fs1 w1 where written: "write_to_testcase [] save_example empty_world [5, 6] 2 False = Inr (2, [5, 6], save_example\<lparr>fsrv := fs1\<rparr>, w1)"
    and fs1: "target_input fs1 w1 = [5, 6]" "transport_ok fs1 w1" "map_size fs1 = map_size (fsrv save_example)"
      "trace_bits fs1 = trace_bits (fsrv save_example)" "real_map_size fs1 = real_map_size (fsrv save_example)"
      "exec_tmout fs1 = exec_tmout (fsrv save_example)"
    using case_delivered [of save_example empty_world 2 2 False "[5, 6]" "[]"] r(3) by (auto simp: save_example_simps MAX_FILE_def)
  have wf: "map_wf fs1"
    using save_example_fit fs1(3-5) by (simp add: fit_def cov_wf_def map_wf_def)
  obtain v x fs2 b where run: "fuzz_run_target crashing (save_example\<lparr>fsrv := fs1\<rparr>) w1 (exec_tmout fs1) () =
      Inr (v, save_example\<lparr>fsrv := fs2, stop_soon := False, skip_requested := b\<rparr>, x)"
    and fs2: "run_frame fs2 = run_frame fs1" "trace_bits fs2 = 1 # replicate 63 0"
    and v: "exec_tmout fs1 \<ge> 10 \<longrightarrow> v = FSRV_RUN_CRASH"
    using steady_run [OF crashing_steady, of "save_example\<lparr>fsrv := fs1\<rparr>" w1 "exec_tmout fs1" "()"] wf fs1(3)
    by (auto simp: save_example_simps overlay_def crashing_def)
  define a2 where "a2 = save_example\<lparr>fsrv := fs2, stop_soon := False, skip_requested := b\<rparr>"
  define a3 where "a3 = a2\<lparr>subseq_tmouts := 0\<rparr>"
  have crash: "v = FSRV_RUN_CRASH"
    using v fs1(6) by (simp add: save_example_simps example_fsrv_def)
  note same = run_frame_simps [OF fs2(1)]
  have "kept save_example a3"
    unfolding a3_def a2_def using write_to_testcase_kept [OF written] fuzz_run_target_kept [OF run] kept_counters(3) kept_trans by blast
  then have fit: "fit a3"
    by (rule kept_fit [OF _ save_example_fit])
  have step: "common_fuzz_stuff example_env save_example empty_world () [5, 6] 2 = Inr r \<Longrightarrow> ?thesis" for r
    using case_run [of example_env save_example empty_world "()" "[5, 6]" 2] r(2) by (cases r) auto
  show ?thesis
  proof (cases b)
    case True
    then show ?thesis
      using written run crash by (intro step) (simp add: common_fuzz_stuff_def example_env_def save_example_simps)
  next
    case False
    have a3: "plain example_env a3" "unat (queued_items a3) + 1 < 2 ^ 32" "nameable example_env a3 empty_world"
      "transport_ok (fsrv a3) empty_world" "trace_bits (fsrv a3) = 1 # replicate 63 0" "2 \<le> max_length a3"
      "64 = unat (map_size (fsrv a3))" "crashes (cal_timeout a3 False) (e_child example_env)" "1 = hits a3 (1 # replicate 63 0)"
      "1 < min_bitmap_size a3"
    proof -
      have t: "transport_ok fs2 w1" "map_size fs2 = 64" "real_map_size fs2 = 64" "exec_tmout fs2 = 1000"
        using same fs1 by (simp_all add: save_example_simps) (simp add: example_fsrv_def)
      show "nameable example_env a3 empty_world"
        by (rule sync_nameable) (simp_all add: a3_def a2_def save_example_simps)
      show "plain example_env a3" "unat (queued_items a3) + 1 < 2 ^ 32" "2 \<le> max_length a3" "1 < min_bitmap_size a3"
        using r(1,2,7,15) plain_same [of a3 save_example example_env]
        by (simp_all add: save_example_simps slots_of_def a3_def a2_def)
      show "trace_bits (fsrv a3) = 1 # replicate 63 0" "64 = unat (map_size (fsrv a3))" "1 = hits a3 (1 # replicate 63 0)"
        using fs2(2) t by (simp_all add: a3_def a2_def hits_def counted_def)
      show "crashes (cal_timeout a3 False) (e_child example_env)"
        using t(4) by (simp add: crashes_def example_env_def crashing_def cal_timeout_def a3_def a2_def CAL_TMOUT_ADD_def
            CAL_TMOUT_PERC_def save_example_simps)
      show "transport_ok (fsrv a3) empty_world"
        using t(1) by (auto simp: transport_ok_def a3_def a2_def empty_world_def split: if_splits)
    qed
    obtain sv c w' x' where "save_if_interesting example_env a3 empty_world x [5, 6] 2 FSRV_RUN_CRASH = Inr (sv, c, w', x')"
      using save_elsewhere [OF fit r(6), of example_env empty_world x "[5, 6]"] save_steady [OF fit a3(1-5) r(5,6) a3(6) r(8) a3(7) r(10,11) a3(8,9) r(14) a3(10) r(16,17) refl, of x] by blast
    then show ?thesis
      using False written run crash
      by (intro step) (simp add: common_fuzz_stuff_def example_env_def save_example_simps Let_def a3_def a2_def)
  qed
qed

theorem fuzzing_invariant_witness:
  "\<exists>b w x. fuzz_step (save_example, empty_world, ()) (b, w, x) \<and> fit b \<and>
     (\<exists>new. names b = ''f'' # new \<and> queued_items b = 1 + of_nat (length new))"
proof -
  obtain b w x where step: "fuzz_step (save_example, empty_world, ()) (b, w, x)"
    using example_step by (metis prod_cases3)
  from fuzzing_invariant [OF r_into_rtranclp [where r = fuzz_step, OF this] save_example_fit] show ?thesis
    using step by (auto simp: names_def save_example_simps)
qed

theorem describe_op_tag_witness:
  "describe_op None 0 save_example (0x14 OR 0x20) 245 = Inr ''sync:m,src:000000,+tout,-bxx'' \<and>
   read_tag ''sync:m,src:000000,+tout,-bxx'' = 0x14"
proof -
  have "dec06 0 = ''000000''"
    by code_simp
  then have "describe_op None 0 save_example (0x14 OR (if True then 0x20 else 0)) 245 = Inr ''sync:m,src:000000,+tout,-bxx''"
    by (simp add: describe_op_def describe_prefix_def save_example_simps cov_tag_def)
  with describe_op_tag [OF this] show ?thesis
    by simp
qed

end
