(* ===== verification/Havoc.thy ===== *)
theory Havoc
  imports Saved Det_Stages
begin

text \<open>
  The randomised part of \<open>fuzz_one_original\<close> (src/afl-fuzz-one.c): the havoc stage, which stacks random
  tweaks on a copy of the test case and runs the result, and splicing, which joins two test cases for
  another havoc stage. Every array access is checked; \<open>memcpy\<close> between overlapping areas, undefined in C,
  counts as an access outside. Where C leaves open which of two draws comes first, the model takes the
  order of writing.
\<close>

section \<open>State\<close>

record afl_havoc = afl_save +
  havoc_stack_pow2 :: u8
  havoc_div :: u32
  havoc_max_mult :: u8
  expand_havoc :: bool
  cmplog_binary :: bool
  use_splicing :: bool
  havoc_finds :: u64
  havoc_cycles :: u64
  splice_finds :: u64
  splice_cycles :: u64

definition HAVOC_CYCLES :: u32 where "HAVOC_CYCLES = 256"
definition HAVOC_CYCLES_INIT :: u32 where "HAVOC_CYCLES_INIT = 1024"
definition HAVOC_MIN :: u32 where "HAVOC_MIN = 12"
definition SPLICE_CYCLES :: u32 where "SPLICE_CYCLES = 15"
definition SPLICE_HAVOC :: u32 where "SPLICE_HAVOC = 32"
definition MAX_HAVOC_ENTRY :: u32 where "MAX_HAVOC_ENTRY = 64"
definition MUTATE_ASCII_DICT :: u32 where "MUTATE_ASCII_DICT = 64"

text \<open>The state of the mutation: the fuzzer, the buffer and the length of the case in it.\<close>

type_synonym 'a hv = "('a) afl_havoc_scheme \<times> bytes \<times> u32"

section \<open>Memory\<close>

definition chunk :: "bytes \<Rightarrow> nat \<Rightarrow> nat \<Rightarrow> bytes res" where
  "chunk b i n = (if i + n \<le> length b then Inr (take n (drop i b)) else Inl Oob)"

definition blit :: "bytes \<Rightarrow> nat \<Rightarrow> bytes \<Rightarrow> bytes res" where
  "blit b i v = (if i + length v \<le> length b then Inr (take i b @ v @ drop (i + length v) b) else Inl Oob)"

definition memmove :: "bytes \<Rightarrow> nat \<Rightarrow> nat \<Rightarrow> nat \<Rightarrow> bytes res" where
  "memmove b dst src n = bnd (chunk b src n) (blit b dst)"

definition memcpy_within :: "bytes \<Rightarrow> nat \<Rightarrow> nat \<Rightarrow> nat \<Rightarrow> bytes res" where
  "memcpy_within b dst src n =
     (if 0 < n \<and> (dst < src + n \<and> src < dst + n) then Inl Oob else memmove b dst src n)"

text \<open>Head, inserted part and tail, in a buffer of their own.\<close>

definition insert_block :: "bytes \<Rightarrow> u32 \<Rightarrow> u32 \<Rightarrow> bytes \<Rightarrow> bytes res" where
  "insert_block b n pos v =
     bnd (chunk b 0 (unat pos)) (\<lambda>head.
     bnd (chunk b (unat pos) (unat (n - pos))) (\<lambda>tail. Inr (head @ v @ tail)))"

text \<open>\<open>afl_realloc\<close> keeps the content; the bytes it adds are written before they are read.\<close>

definition enlarge :: "nat \<Rightarrow> bytes \<Rightarrow> bytes" where
  "enlarge n b = b @ replicate (n - length b) 0"

section \<open>Bytes and words\<close>

definition havoc_byte ::
  "(('a) afl_havoc_scheme \<Rightarrow> ((u8 \<Rightarrow> u8) \<times> ('a) afl_havoc_scheme) res) \<Rightarrow> 'a hv \<Rightarrow> 'a hv res" where
  "havoc_byte pick = (\<lambda>(afl, b, n).
     bnd (rand_below afl n) (\<lambda>(p, a1).
     bnd (pick a1) (\<lambda>(f, a2).
     bnd (rd b (unat p)) (\<lambda>v.
     bnd (wr b (unat p) (f v)) (\<lambda>b'. Inr (a2, b', n))))))"

definition havoc_word ::
  "(('a) afl_havoc_scheme \<Rightarrow> (('c::len word \<Rightarrow> 'c word) \<times> ('a) afl_havoc_scheme) res) \<Rightarrow> 'a hv \<Rightarrow> 'a hv res" where
  "havoc_word pick = (\<lambda>(afl, b, n).
     if n < of_nat (wbytes TYPE('c)) then Inr (afl, b, n)
     else bnd (rand_below afl (n - (of_nat (wbytes TYPE('c)) - 1))) (\<lambda>(p, a1).
     bnd (pick a1) (\<lambda>(f, a2).
     bnd (peek b (unat p)) (\<lambda>v.
     bnd (poke b (unat p) (f v)) (\<lambda>b'. Inr (a2, b', n))))))"

definition keep_gen :: "'f \<Rightarrow> ('a) afl_havoc_scheme \<Rightarrow> ('f \<times> ('a) afl_havoc_scheme) res" where
  "keep_gen f afl = Inr (f, afl)"

definition pick_interesting ::
  "int list \<Rightarrow> ('c::len word \<Rightarrow> 'c word) \<Rightarrow> ('a) afl_havoc_scheme \<Rightarrow> (('c word \<Rightarrow> 'c word) \<times> ('a) afl_havoc_scheme) res" where
  "pick_interesting vals order afl =
     bnd (rand_below afl (of_nat (length vals))) (\<lambda>(i, a1).
     bnd (rd vals (unat i)) (\<lambda>v. Inr (\<lambda>_. order (word_of_int v), a1)))"

definition pick_arith ::
  "('c::len word \<Rightarrow> 'c word \<Rightarrow> 'c word) \<Rightarrow> ('a) afl_havoc_scheme \<Rightarrow> (('c word \<Rightarrow> 'c word) \<times> ('a) afl_havoc_scheme) res" where
  "pick_arith f afl = bnd (rand_below afl (of_nat ARITH_MAX)) (\<lambda>(r, a1). Inr (\<lambda>v. f v (ucast (1 + r)), a1))"

definition havoc_flip :: "'a hv \<Rightarrow> 'a hv res" where
  "havoc_flip = (\<lambda>(afl, b, n).
     bnd (rand_below afl (push_bit 3 n)) (\<lambda>(p, a1).
     bnd (FLIP_BIT (unat p) b) (\<lambda>b'. Inr (a1, b', n))))"

definition havoc_rand8 :: "'a hv \<Rightarrow> 'a hv res" where
  "havoc_rand8 = havoc_byte (\<lambda>afl. bnd (rand_below afl 255) (\<lambda>(r, a1). Inr (\<lambda>v. v XOR ucast (1 + r), a1)))"

section \<open>Blocks\<close>

definition havoc_clone :: "'a hv \<Rightarrow> 'a hv res" where
  "havoc_clone = (\<lambda>(afl, b, n).
     if n + HAVOC_BLK_XL < MAX_FILE then
       bnd (choose_block_len afl n) (\<lambda>(clone_len, a1).
       bnd (rand_below a1 (n - clone_len + 1)) (\<lambda>(clone_from, a2).
       bnd (rand_below a2 n) (\<lambda>(clone_to, a3).
       bnd (chunk b (unat clone_from) (unat clone_len)) (\<lambda>v.
       bnd (insert_block b n clone_to v) (\<lambda>b'. Inr (a3, b', n + clone_len))))))
     else Inr (afl, b, n))"

text \<open>A random byte, or one of the case.\<close>

definition fill_byte :: "'a hv \<Rightarrow> (u8 \<times> ('a) afl_havoc_scheme) res" where
  "fill_byte = (\<lambda>(afl, b, n).
     bnd (rand_below afl 2) (\<lambda>(c, a1).
     if c \<noteq> 0 then bnd (rand_below a1 256) (\<lambda>(v, a2). Inr (ucast v, a2))
     else bnd (rand_below a1 n) (\<lambda>(p, a2). bnd (rd b (unat p)) (\<lambda>v. Inr (v, a2)))))"

definition havoc_insert :: "'a hv \<Rightarrow> 'a hv res" where
  "havoc_insert = (\<lambda>(afl, b, n).
     if n + HAVOC_BLK_XL < MAX_FILE then
       bnd (choose_block_len afl HAVOC_BLK_XL) (\<lambda>(clone_len, a1).
       bnd (rand_below a1 n) (\<lambda>(clone_to, a2).
       bnd (fill_byte (a2, b, n)) (\<lambda>(v, a3).
       bnd (insert_block b n clone_to (replicate (unat clone_len) v)) (\<lambda>b'. Inr (a3, b', n + clone_len)))))
     else Inr (afl, b, n))"

definition havoc_copy :: "'a hv \<Rightarrow> 'a hv res" where
  "havoc_copy = (\<lambda>(afl, b, n).
     if n < 2 then Inr (afl, b, n)
     else bnd (choose_block_len afl (n - 1)) (\<lambda>(copy_len, a1).
       bnd (rand_below a1 (n - copy_len + 1)) (\<lambda>(copy_from, a2).
       bnd (rand_below a2 (n - copy_len + 1)) (\<lambda>(copy_to, a3).
       if copy_from \<noteq> copy_to
       then bnd (memmove b (unat copy_to) (unat copy_from) (unat copy_len)) (\<lambda>b'. Inr (a3, b', n))
       else Inr (a3, b, n)))))"

definition havoc_fill :: "'a hv \<Rightarrow> 'a hv res" where
  "havoc_fill = (\<lambda>(afl, b, n).
     if n < 2 then Inr (afl, b, n)
     else bnd (choose_block_len afl (n - 1)) (\<lambda>(copy_len, a1).
       bnd (rand_below a1 (n - copy_len + 1)) (\<lambda>(copy_to, a2).
       bnd (fill_byte (a2, b, n)) (\<lambda>(v, a3).
       bnd (blit b (unat copy_to) (replicate (unat copy_len) v)) (\<lambda>b'. Inr (a3, b', n))))))"

text \<open>\<open>do ... while (switch_from == switch_to)\<close>\<close>

partial_function (option) other_pos :: "u32 \<Rightarrow> u32 \<Rightarrow> ('a) afl_havoc_scheme \<Rightarrow> (u32 \<times> ('a) afl_havoc_scheme) res option" where
  "other_pos n from afl =
     (case rand_below afl n of
        Inl e \<Rightarrow> Some (Inl e)
      | Inr r \<Rightarrow> if fst r = from then other_pos n from (snd r) else Some (Inr r))"

definition or_hang :: "'b res option \<Rightarrow> 'b res" where
  "or_hang m = (case m of None \<Rightarrow> Inl Hang | Some r \<Rightarrow> r)"

definition swap_blocks :: "bytes \<Rightarrow> nat \<Rightarrow> nat \<Rightarrow> nat \<Rightarrow> bytes res" where
  "swap_blocks b i j n =
     bnd (chunk b i n) (\<lambda>backup.
     bnd (memcpy_within b i j n) (\<lambda>b1. blit b1 j backup))"

definition havoc_switch :: "'a hv \<Rightarrow> 'a hv res" where
  "havoc_switch = (\<lambda>(afl, b, n).
     if n < 4 then Inr (afl, b, n)
     else bnd (rand_below afl n) (\<lambda>(switch_from, a1).
       bnd (or_hang (other_pos n switch_from a1)) (\<lambda>(switch_to, a2).
       let (switch_len, to_end) = (if switch_from < switch_to then (switch_to - switch_from, n - switch_to)
                                   else (switch_from - switch_to, n - switch_from))
       in bnd (choose_block_len a2 (min switch_len to_end)) (\<lambda>(len, a3).
          bnd (swap_blocks b (unat switch_from) (unat switch_to) (unat len)) (\<lambda>b'. Inr (a3, b', n))))))"

definition havoc_delete :: "'a hv \<Rightarrow> 'a hv res" where
  "havoc_delete = (\<lambda>(afl, b, n).
     if n < 2 then Inr (afl, b, n)
     else bnd (choose_block_len afl (n - 1)) (\<lambda>(del_len, a1).
       bnd (rand_below a1 (n - del_len + 1)) (\<lambda>(del_from, a2).
       bnd (memmove b (unat del_from) (unat (del_from + del_len)) (unat (n - del_from - del_len))) (\<lambda>b'.
       Inr (a2, b', n - del_len)))))"

section \<open>Dictionary tokens\<close>

definition token_over :: "(('a) afl_havoc_scheme \<Rightarrow> bytes list) \<Rightarrow> 'a hv \<Rightarrow> 'a hv res" where
  "token_over tokens = (\<lambda>(afl, b, n).
     bnd (rand_below afl (of_nat (length (tokens afl)))) (\<lambda>(use_extra, a1).
     bnd (rd (tokens a1) (unat use_extra)) (\<lambda>t.
     let extra_len = (of_nat (length t) :: u32) in
     if extra_len > n then Inr (a1, b, n)
     else bnd (rand_below a1 (n - extra_len + 1)) (\<lambda>(insert_at, a2).
          bnd (blit b (unat insert_at) t) (\<lambda>b'. Inr (a2, b', n))))))"

definition token_insert :: "(('a) afl_havoc_scheme \<Rightarrow> bytes list) \<Rightarrow> 'a hv \<Rightarrow> 'a hv res" where
  "token_insert tokens = (\<lambda>(afl, b, n).
     bnd (rand_below afl (of_nat (length (tokens afl)))) (\<lambda>(use_extra, a1).
     bnd (rd (tokens a1) (unat use_extra)) (\<lambda>t.
     let extra_len = (of_nat (length t) :: u32) in
     if n + extra_len \<ge> MAX_FILE then Inr (a1, b, n)
     else bnd (rand_below a1 (n + 1)) (\<lambda>(insert_at, a2).
          bnd (memmove (enlarge (unat (n + extra_len)) b) (unat (insert_at + extra_len)) (unat insert_at) (unat (n - insert_at))) (\<lambda>b1.
          bnd (blit b1 (unat insert_at) t) (\<lambda>b'. Inr (a2, b', n + extra_len)))))))"

definition auto_tokens :: "('a) afl_havoc_scheme \<Rightarrow> bytes list" where
  "auto_tokens afl = map ax_data (a_extras afl)"

section \<open>Other test cases\<close>

text \<open>\<open>do ... while (tid == afl->current_entry || afl->queue_buf[tid]->len < 4)\<close>\<close>

partial_function (option) pick_target :: "('a) afl_havoc_scheme \<Rightarrow> (u32 \<times> ('a) afl_havoc_scheme) res option" where
  "pick_target afl =
     (case rand_below afl (queued_items afl) of
        Inl e \<Rightarrow> Some (Inl e)
      | Inr r \<Rightarrow>
          if fst r = current_entry afl then pick_target (snd r)
          else (case rd (queue_buf (snd r)) (unat (fst r)) of
                  Inl e \<Rightarrow> Some (Inl e)
                | Inr q \<Rightarrow> if q_len q < 4 then pick_target (snd r) else Some (Inr r)))"

definition splice_over :: "bytes \<Rightarrow> u32 \<Rightarrow> 'a hv \<Rightarrow> 'a hv res" where
  "splice_over new_buf new_len = (\<lambda>(afl, b, n).
     bnd (choose_block_len afl (new_len - 1)) (\<lambda>(len, a1).
     let copy_len = (if len > n then n else len) in
     bnd (rand_below a1 (new_len - copy_len + 1)) (\<lambda>(copy_from, a2).
     bnd (rand_below a2 (n - copy_len + 1)) (\<lambda>(copy_to, a3).
     bnd (chunk new_buf (unat copy_from) (unat copy_len)) (\<lambda>v.
     bnd (blit b (unat copy_to) v) (\<lambda>b'. Inr (a3, b', n)))))))"

definition splice_insert :: "bytes \<Rightarrow> u32 \<Rightarrow> 'a hv \<Rightarrow> 'a hv res" where
  "splice_insert new_buf new_len = (\<lambda>(afl, b, n).
     bnd (choose_block_len afl new_len) (\<lambda>(clone_len, a1).
     bnd (rand_below a1 (new_len - clone_len + 1)) (\<lambda>(clone_from, a2).
     bnd (rand_below a2 (n + 1)) (\<lambda>(clone_to, a3).
     bnd (chunk new_buf (unat clone_from) (unat clone_len)) (\<lambda>v.
     bnd (insert_block b n clone_to v) (\<lambda>b'. Inr (a3, b', n + clone_len)))))))"

definition havoc_splice :: "bool \<Rightarrow> world \<Rightarrow> u32 \<Rightarrow> 'a hv \<Rightarrow> 'a hv res" where
  "havoc_splice mem_ok w r = (\<lambda>(afl, b, n).
     bnd (or_hang (pick_target afl)) (\<lambda>(tid, a1).
     bnd (rd (queue_buf a1) (unat tid)) (\<lambda>target.
     bnd (queue_testcase_get mem_ok a1 w (unat tid)) (\<lambda>(new_buf, a2).
     if n \<ge> 2 \<and> r mod 2 \<noteq> 0 \<or> n + HAVOC_BLK_XL \<ge> MAX_FILE then splice_over new_buf (q_len target) (a2, b, n)
     else splice_insert new_buf (q_len target) (a2, b, n)))))"

section \<open>One tweak\<close>

definition ascii_mode :: "('a) afl_havoc_scheme \<Rightarrow> bool res" where
  "ascii_mode afl =
     (if \<not> cmplog_binary afl then Inr False
      else case queue_cur afl of
             None \<Rightarrow> Inl NullPtr
           | Some c \<Rightarrow> bnd (q_get afl c) (\<lambda>e. Inr (is_ascii e)))"

text \<open>\<open>default\<close>: the user's tokens, the automatic ones, other test cases.\<close>

definition havoc_default :: "bool \<Rightarrow> world \<Rightarrow> u32 \<Rightarrow> 'a hv \<Rightarrow> 'a hv res" where
  "havoc_default mem_ok w r0 = (\<lambda>(afl, b, n).
     if extras afl \<noteq> [] \<and> r0 < 2 then token_over extras (afl, b, n)
     else if extras afl \<noteq> [] \<and> r0 < 4 then token_insert extras (afl, b, n)
     else let r1 = (if extras afl \<noteq> [] then r0 - 4 else r0) in
       if a_extras afl = [] then havoc_splice mem_ok w r1 (afl, b, n)
       else bnd (ascii_mode afl) (\<lambda>asc.
         let r_cmp = (if asc then drop_bit 1 MUTATE_ASCII_DICT else 2) in
         if r1 < r_cmp then token_over auto_tokens (afl, b, n)
         else if r1 < push_bit 1 r_cmp then token_insert auto_tokens (afl, b, n)
         else havoc_splice mem_ok w (r1 - push_bit 1 r_cmp) (afl, b, n)))"

definition minus_by :: "'c::len word \<Rightarrow> 'c word \<Rightarrow> 'c word" where "minus_by v j = v - j"
definition plus_by :: "'c::len word \<Rightarrow> 'c word \<Rightarrow> 'c word" where "plus_by v j = v + j"

definition in_order :: "('c::len word \<Rightarrow> 'c word) \<Rightarrow> ('c word \<Rightarrow> 'c word \<Rightarrow> 'c word) \<Rightarrow> 'c word \<Rightarrow> 'c word \<Rightarrow> 'c word" where
  "in_order swap f v j = swap (f (swap v) j)"

definition havoc_op :: "bool \<Rightarrow> world \<Rightarrow> u32 \<Rightarrow> 'a hv \<Rightarrow> 'a hv res" where
  "havoc_op mem_ok w r =
     (if r \<le> 3 then havoc_flip
      else if r \<le> 7 then havoc_byte (pick_interesting interesting_8 id)
      else if r \<le> 9 then havoc_word (pick_interesting interesting_16 (id :: u16 \<Rightarrow> u16))
      else if r \<le> 11 then havoc_word (pick_interesting interesting_16 SWAP16)
      else if r \<le> 13 then havoc_word (pick_interesting interesting_32 (id :: u32 \<Rightarrow> u32))
      else if r \<le> 15 then havoc_word (pick_interesting interesting_32 SWAP32)
      else if r \<le> 19 then havoc_byte (pick_arith minus_by)
      else if r \<le> 23 then havoc_byte (pick_arith plus_by)
      else if r \<le> 25 then havoc_word (pick_arith (minus_by :: u16 \<Rightarrow> u16 \<Rightarrow> u16))
      else if r \<le> 27 then havoc_word (pick_arith (in_order SWAP16 minus_by))
      else if r \<le> 29 then havoc_word (pick_arith (plus_by :: u16 \<Rightarrow> u16 \<Rightarrow> u16))
      else if r \<le> 31 then havoc_word (pick_arith (in_order SWAP16 plus_by))
      else if r \<le> 33 then havoc_word (pick_arith (minus_by :: u32 \<Rightarrow> u32 \<Rightarrow> u32))
      else if r \<le> 35 then havoc_word (pick_arith (in_order SWAP32 minus_by))
      else if r \<le> 37 then havoc_word (pick_arith (plus_by :: u32 \<Rightarrow> u32 \<Rightarrow> u32))
      else if r \<le> 39 then havoc_word (pick_arith (in_order SWAP32 plus_by))
      else if r \<le> 43 then havoc_rand8
      else if r \<le> 46 then havoc_clone
      else if r = 47 then havoc_insert
      else if r \<le> 50 then havoc_copy
      else if r = 51 then havoc_fill
      else if r = 52 then havoc_byte (keep_gen (\<lambda>v. v + 1))
      else if r = 53 then havoc_byte (keep_gen (\<lambda>v. v - 1))
      else if r = 54 then havoc_byte (keep_gen (\<lambda>v. v XOR 0xff))
      else if r \<le> 56 then havoc_switch
      else if r \<le> MAX_HAVOC_ENTRY then havoc_delete
      else havoc_default mem_ok w (r - (MAX_HAVOC_ENTRY + 1)))"

section \<open>The stage\<close>

text \<open>A custom mutator takes part with some probability; it gets the case and returns the length of its
  result and a buffer, or none.\<close>

record havoc_mutator =
  stacked_custom :: bool
  stacked_custom_prob :: u8
  custom_havoc :: "bytes \<Rightarrow> nat \<times> bytes option"

definition run_custom :: "havoc_mutator \<Rightarrow> 'a hv \<Rightarrow> 'a hv res" where
  "run_custom el = (\<lambda>(afl, b, n).
     if \<not> stacked_custom el then Inr (afl, b, n)
     else bnd (rand_below afl 100) (\<lambda>(p, a1).
       if \<not> p < ucast (stacked_custom_prob el) then Inr (a1, b, n)
       else case custom_havoc el (take (unat n) b) of
              (_, None) \<Rightarrow> Inl (Fatal ''Error in custom_havoc'')
            | (new_len, Some buf) \<Rightarrow>
                if new_len = 0 then Inr (a1, b, n)
                else bnd (chunk buf 0 (unat (of_nat new_len :: u32))) (\<lambda>b'. Inr (a1, b', of_nat new_len))))"

definition havoc_tweak :: "havoc_mutator list \<Rightarrow> bool \<Rightarrow> world \<Rightarrow> u32 \<Rightarrow> 'a hv \<Rightarrow> 'a hv res" where
  "havoc_tweak muts mem_ok w r_max s =
     bnd (if custom_mutators_count (fst s) \<noteq> 0 then foldm run_custom muts s else Inr s) (\<lambda>(afl, b, n).
     bnd (rand_below afl r_max) (\<lambda>(r, a1). havoc_op mem_ok w r (a1, b, n)))"

definition havoc_r_max :: "u64 \<Rightarrow> ('a) afl_havoc_scheme \<Rightarrow> u32 res" where
  "havoc_r_max now afl =
     bnd (if a_extras afl = [] then Inr 0
          else bnd (ascii_mode afl) (\<lambda>asc. Inr (if asc then MUTATE_ASCII_DICT else 4))) (\<lambda>auto.
     let more = (ready_for_splicing_count afl > 1) in
     Inr (MAX_HAVOC_ENTRY + 1 + (if extras afl \<noteq> [] then 4 else 0) + auto + (if expand_havoc afl \<and> more then 4 else 0) +
          (if now - last_find_time afl > 5000 \<and> more then 4 else 0)))"

text \<open>The stacked tweaks of one case.\<close>

definition havoc_mutate ::
  "havoc_mutator list \<Rightarrow> bool \<Rightarrow> world \<Rightarrow> u32 \<Rightarrow> bytes \<Rightarrow> u32 \<Rightarrow> ('a) afl_havoc_scheme \<Rightarrow> 'a hv res" where
  "havoc_mutate muts mem_ok w r_max in_buf len afl =
     bnd (rand_below afl (ucast (havoc_stack_pow2 afl))) (\<lambda>(k, a1).
     let use_stacking = (push_bit (unat (1 + k)) 1 :: u32) in
     bnd (chunk in_buf 0 (unat len)) (\<lambda>out_buf.
     foldm (\<lambda>_. havoc_tweak muts mem_ok w r_max) [0 ..< unat use_stacking] (a1\<lparr>op_cur_val := use_stacking\<rparr>, out_buf, len)))"

text \<open>Between two cases: the stage is prolonged when something was found, while the score allows it.\<close>

definition prolong :: "('a) afl_havoc_scheme \<Rightarrow> u32 \<times> u32 \<times> u32 \<Rightarrow> u32 \<times> u32 \<times> u32" where
  "prolong afl = (\<lambda>(smax, score, havoc_queued).
     if queued_items afl \<noteq> havoc_queued then
       (if score \<le> ucast (havoc_max_mult afl) * 100 then (smax * 2, score * 2, queued_items afl)
        else (smax, score, queued_items afl))
     else (smax, score, havoc_queued))"

text \<open>The loop over the cases; \<open>envs\<close> gives what each case gets from outside. It ends with the verdict
  whether the entry is to be abandoned.\<close>

partial_function (option) havoc_loop ::
  "(u32 \<Rightarrow> 'x save_env) \<Rightarrow> havoc_mutator list \<Rightarrow> u32 \<Rightarrow> bytes \<Rightarrow> u32 \<Rightarrow> u32 \<Rightarrow> u32 \<times> u32 \<times> u32 \<Rightarrow> ('a) afl_havoc_scheme \<Rightarrow> world \<Rightarrow> 'x
     \<Rightarrow> (bool \<times> (u32 \<times> u32 \<times> u32) \<times> ('a) afl_havoc_scheme \<times> world \<times> 'x) res option" where
  "havoc_loop envs muts r_max in_buf len cur lims afl w x =
     (if \<not> cur < fst lims then Some (Inr (False, lims, afl, w, x))
      else case havoc_mutate muts (e_mem_ok (envs cur)) w r_max in_buf len afl of
             Inl e \<Rightarrow> Some (Inl e)
           | Inr s \<Rightarrow>
               (case common_fuzz_stuff (envs cur) (fst s) w x (fst (snd s)) (snd (snd s)) of
                  Inl e \<Rightarrow> Some (Inl e)
                | Inr r \<Rightarrow>
                    if fst r then Some (Inr (True, lims, snd r))
                    else havoc_loop envs muts r_max in_buf len (cur + 1) (prolong (fst (snd r)) lims)
                           (fst (snd r)) (fst (snd (snd r))) (snd (snd (snd r)))))"

definition havoc_stage_max :: "bool \<Rightarrow> u32 \<Rightarrow> u32 \<Rightarrow> ('a) afl_havoc_scheme \<Rightarrow> u32 res" where
  "havoc_stage_max doing_det splice_cycle score afl =
     (if havoc_div afl = 0 then Inl DivZero
      else let cycles = (if splice_cycle \<noteq> 0 then SPLICE_HAVOC else if doing_det then HAVOC_CYCLES_INIT else HAVOC_CYCLES)
           in Inr (max (drop_bit 8 (cycles * score div havoc_div afl)) HAVOC_MIN))"

text \<open>\<open>stage_finds\<close> and \<open>stage_cycles\<close>\<close>

definition havoc_account :: "u32 \<Rightarrow> u64 \<Rightarrow> u32 \<Rightarrow> ('a) afl_havoc_scheme \<Rightarrow> ('a) afl_havoc_scheme" where
  "havoc_account splice_cycle hits0 smax afl =
     (let new_hit_cnt = ucast (queued_items afl) + saved_crashes afl in
      if splice_cycle = 0
      then afl\<lparr>havoc_finds := havoc_finds afl + (new_hit_cnt - hits0), havoc_cycles := havoc_cycles afl + ucast smax\<rparr>
      else afl\<lparr>splice_finds := splice_finds afl + (new_hit_cnt - hits0), splice_cycles := splice_cycles afl + ucast smax\<rparr>)"

definition havoc_stage ::
  "(u32 \<Rightarrow> 'x save_env) \<Rightarrow> havoc_mutator list \<Rightarrow> bool \<Rightarrow> u32 \<Rightarrow> u32 \<Rightarrow> u32 \<Rightarrow> bytes \<Rightarrow> u32 \<Rightarrow> ('a) afl_havoc_scheme \<Rightarrow> world \<Rightarrow> 'x
     \<Rightarrow> (bool \<times> u32 \<times> ('a) afl_havoc_scheme \<times> world \<times> 'x) res" where
  "havoc_stage envs muts doing_det splice_cycle score orig_perf in_buf len afl w x =
     (let perf = (if splice_cycle = 0 then score else orig_perf);
          hits0 = ucast (queued_items afl) + saved_crashes afl
      in bnd (havoc_stage_max doing_det splice_cycle perf afl) (\<lambda>smax.
         if list_ex (\<lambda>el. custom_mutators_count afl \<noteq> 0 \<and> stacked_custom el \<and> stacked_custom_prob el > 100) muts
         then Inl (Fatal ''The probability has to be in the range 0-100.'')
         else bnd (havoc_r_max (e_now (envs 0)) afl) (\<lambda>r_max.
         bnd (or_hang (havoc_loop envs muts r_max in_buf len 0 (smax, perf, queued_items afl) (afl\<lparr>op_cur_byte := - 1, op_short := (if splice_cycle = 0 then ''havoc'' else ''splice'')\<rparr>) w x))
           (\<lambda>(stop, lims, a1, w1, x1).
         if stop then Inr (True, fst (snd lims), a1, w1, x1)
         else Inr (False, fst (snd lims), havoc_account splice_cycle hits0 (fst lims) a1, w1, x1)))))"

section \<open>Splicing\<close>

text \<open>The result is the joint input, as long as the other one, or nothing when the two inputs do not differ
  enough; then another one is tried. The tail is copied from the beginning of the other input.\<close>

definition join_inputs :: "bytes \<Rightarrow> u32 \<Rightarrow> bytes \<Rightarrow> u32 \<Rightarrow> ('a) afl_havoc_scheme \<Rightarrow> (bytes option \<times> ('a) afl_havoc_scheme) res" where
  "join_inputs in_buf len new_buf target_len afl =
     bnd (locate_diffs in_buf new_buf (unat (min len target_len))) (\<lambda>(f_diff, l_diff).
     if sint f_diff < 0 \<or> sint l_diff < 2 \<or> f_diff = l_diff then Inr (None, afl)
     else bnd (rand_below afl (l_diff - f_diff)) (\<lambda>(r, a1).
       let split_at = f_diff + r in
       bnd (chunk in_buf 0 (unat split_at)) (\<lambda>head.
       bnd (chunk new_buf 0 (unat (target_len - split_at))) (\<lambda>tail. Inr (Some (head @ tail), a1)))))"

text \<open>From \<open>retry_splicing\<close> on; \<open>orig_in\<close> is the input of the entry.\<close>

partial_function (option) splice_input ::
  "bool \<Rightarrow> world \<Rightarrow> bytes \<Rightarrow> u32 \<Rightarrow> ('a) afl_havoc_scheme \<Rightarrow> ((bytes option \<times> u32) \<times> ('a) afl_havoc_scheme) res option" where
  "splice_input mem_ok w orig_in cycle afl =
     (if \<not> use_splicing afl then Some (Inr ((None, cycle), afl))
      else if \<not> cycle < SPLICE_CYCLES \<or> \<not> ready_for_splicing_count afl > 1 then Some (Inr ((None, cycle + 1), afl))
      else (case (case queue_cur afl of None \<Rightarrow> Inl NullPtr | Some c \<Rightarrow> q_get afl c) of
              Inl e \<Rightarrow> Some (Inl e)
            | Inr cur \<Rightarrow>
                if q_len cur < 4 then Some (Inr ((None, cycle + 1), afl))
                else (case or_hang (pick_target afl) of
                        Inl e \<Rightarrow> Some (Inl e)
                      | Inr t \<Rightarrow>
                          (case bnd (rd (queue_buf (snd t)) (unat (fst t))) (\<lambda>target.
                                bnd (queue_testcase_get mem_ok (snd t\<lparr>splicing_with := fst t\<rparr>) w (unat (fst t))) (\<lambda>(new_buf, a2).
                                join_inputs orig_in (q_len cur) new_buf (q_len target) a2)) of
                             Inl e \<Rightarrow> Some (Inl e)
                           | Inr s \<Rightarrow> if fst s = None then splice_input mem_ok w orig_in (cycle + 1) (snd s)
                                      else Some (Inr ((fst s, cycle + 1), snd s))))))"

end
