(* ===== verification/Havoc_Safe.thy ===== *)
theory Havoc_Safe
  imports Havoc
begin

text \<open>
  What the havoc stage and splicing keep: every tweak of a fuzzer in good order stays inside the buffer and
  leaves a case of between one and \<open>MAX_FILE\<close> bytes in it, the loop over the cases returns, and the joint
  input of splicing has the shape the code gives it. An error that may remain is a draw that never ends or
  a condition the code reports itself.
\<close>

section \<open>Errors that are defects\<close>

definition sound :: "('b \<Rightarrow> bool) \<Rightarrow> 'b res \<Rightarrow> bool" where
  "sound P m \<longleftrightarrow> (case m of Inl e \<Rightarrow> e \<notin> {Oob, NullPtr, DivZero} | Inr r \<Rightarrow> P r)"

lemma sound_simps [simp]:
  "sound P (Inr r) \<longleftrightarrow> P r" "sound P (Inl Hang)" "sound P (Inl (Fatal s))" "sound P (Inl (PFatal s))"
  "\<not> sound P (Inl Oob)" "\<not> sound P (Inl NullPtr)"
  by (simp_all add: sound_def)

lemma sound_bnd:
  assumes "sound Q m" "\<And>x. Q x \<Longrightarrow> sound P (f x)"
  shows "sound P (bnd m f)"
  using assms by (cases m) (auto simp: sound_def)

lemma sound_bnd2:
  assumes "sound (\<lambda>(x, y). Q x y) m" "\<And>x y. Q x y \<Longrightarrow> sound P (f x y)"
  shows "sound P (bnd m (\<lambda>(x, y). f x y))"
  using assms by (intro sound_bnd [OF assms(1)]) auto

lemma sound_mono: "sound Q m \<Longrightarrow> (\<And>x. Q x \<Longrightarrow> P x) \<Longrightarrow> sound P m"
  by (auto simp: sound_def split: sum.splits)

lemma sound_foldm:
  assumes "P s" "\<And>x s. x \<in> set xs \<Longrightarrow> P s \<Longrightarrow> sound P (f x s)"
  shows "sound P (foldm f xs s)"
  using assms by (induction xs arbitrary: s) (auto intro: sound_bnd)

section \<open>Drawing\<close>

lemma rand_errors: "rand_below a l = Inl e \<Longrightarrow> e = Hang \<or> (\<exists>m. e = PFatal m)"
  unfolding rand_below_def reseed_def Let_def by (auto simp: bnd_def split: if_splits sum.splits option.splits list.splits prod.splits)

lemma draw: "sound (\<lambda>(r, a'). quiet a' = quiet a \<and> unat r < max 1 (unat l)) (rand_below a l)"
proof (cases "rand_below a l")
  case (Inl e)
  then show ?thesis
    using rand_errors by fastforce
next
  case (Inr p)
  then obtain r a' where p: "rand_below a l = Inr (r, a')"
    by (cases p) simp
  show ?thesis
    using rand_below_lt [OF p] quiet_rand_below [OF p] by (auto simp: p word_less_nat_alt)
qed

lemma draw_block:
  assumes "0 < unat l"
  shows "sound (\<lambda>(k, a'). quiet a' = quiet a \<and> 1 \<le> unat k \<and> unat k \<le> unat l \<and> unat k \<le> 32768) (choose_block_len a l)"
proof -
  have range: "sound (\<lambda>(mn, mx, a'). quiet a' = quiet a) (block_range a)"
    unfolding block_range_def Let_def
    by (rule sound_bnd [OF draw], clarsimp, rule sound_bnd [OF draw], clarsimp)
  have "sound (\<lambda>(k, a'). quiet a' = quiet a) (choose_block_len a l)"
    unfolding choose_block_len_def Let_def
    by (rule sound_bnd [OF range], clarsimp split del: if_split, rule sound_bnd [OF draw], clarsimp)
  moreover have "1 \<le> unat k \<and> unat k \<le> unat l \<and> unat k \<le> 32768" if "choose_block_len a l = Inr (k, a')" for k a'
    using choose_block_len_bounds [OF _ that] assms by (simp add: word_le_nat_alt word_less_nat_alt HAVOC_BLK_XL_def)
  ultimately show ?thesis
    by (auto simp: sound_def split: sum.splits)
qed

section \<open>The invariant\<close>

definition ready :: "world \<Rightarrow> ('a) afl_havoc_scheme \<Rightarrow> bool" where
  "ready w a \<longleftrightarrow> cache_wf a \<and> cache_true a w \<and> length (queue_buf a) = unat (queued_items a) \<and> 0 < queued_items a \<and>
     length (extras a) < 2 ^ 32 \<and> length (a_extras a) < 2 ^ 32 \<and>
     (\<forall>t \<in> set (extras a) \<union> set (auto_tokens a). length t \<le> unat MAX_FILE) \<and>
     (cmplog_binary a \<longrightarrow> (\<exists>c < length (queue_buf a). queue_cur a = Some c))"

definition buf_ok :: "bytes \<Rightarrow> u32 \<Rightarrow> bool" where
  "buf_ok b n \<longleftrightarrow> 1 \<le> n \<and> n \<le> MAX_FILE \<and> unat n \<le> length b"

definition case_ok :: "world \<Rightarrow> 'a hv \<Rightarrow> bool" where
  "case_ok w = (\<lambda>(a, b, n). ready w a \<and> buf_ok b n)"

lemma ready_quiet: "quiet a' = quiet a \<Longrightarrow> ready w a' = ready w a"
proof -
  have "ready w (quiet a) = ready w a" for a :: "('a) afl_havoc_scheme"
    by (simp add: ready_def quiet_def cache_wf_def cache_true_def auto_tokens_def)
  then show "quiet a' = quiet a \<Longrightarrow> ready w a' = ready w a"
    by metis
qed

lemma quiet_tokens:
  assumes "quiet a' = quiet a"
  shows "extras a' = extras a" "a_extras a' = a_extras a" "queue_buf a' = queue_buf a" "queued_items a' = queued_items a"
proof -
  show "extras a' = extras a" "a_extras a' = a_extras a" "queue_buf a' = queue_buf a" "queued_items a' = queued_items a"
    using arg_cong [OF assms, of extras] arg_cong [OF assms, of a_extras] arg_cong [OF assms, of queue_buf]
      arg_cong [OF assms, of queued_items] by (simp_all add: quiet_def)
qed

lemma buf_okD:
  assumes "buf_ok b n"
  shows "0 < unat n" "unat n \<le> 1048576" "unat n \<le> length b"
  using assms by (simp_all add: buf_ok_def word_le_nat_alt MAX_FILE_def)

lemma case_okI:
  assumes "ready w a" "quiet a' = quiet a" "0 < unat n" "unat n \<le> 1048576" "unat n \<le> length b"
  shows "case_ok w (a', b, n)"
  using assms ready_quiet [OF assms(2)] by (simp add: case_ok_def buf_ok_def word_le_nat_alt MAX_FILE_def)

lemma unat_room:
  fixes n k :: u32
  assumes "unat k \<le> unat n" "unat n \<le> 1048576"
  shows "unat (n - k + 1) = unat n - unat k + 1"
proof -
  have "unat (n - k) = unat n - unat k"
    using assms(1) by (simp add: unat_sub word_le_nat_alt)
  then show ?thesis
    using assms by (subst unat_add_lem [THEN iffD1]) simp_all
qed

lemma unat_more:
  fixes n k :: u32
  assumes "unat n + unat k < 2 ^ 32"
  shows "unat (n + k) = unat n + unat k"
  using assms by (subst unat_add_lem [THEN iffD1]) simp_all

section \<open>Memory\<close>

lemma chunk_sound: "i + n \<le> length b \<Longrightarrow> sound (\<lambda>v. length v = n) (chunk b i n)"
  by (simp add: chunk_def)

lemma blit_sound: "i + length v \<le> length b \<Longrightarrow> sound (\<lambda>b'. length b' = length b) (blit b i v)"
  by (simp add: blit_def)

lemma memmove_sound: "src + n \<le> length b \<Longrightarrow> dst + n \<le> length b \<Longrightarrow> sound (\<lambda>b'. length b' = length b) (memmove b dst src n)"
  unfolding memmove_def by (rule sound_bnd [OF chunk_sound]) (auto intro: blit_sound)

lemma insert_block_sound:
  assumes "unat pos \<le> unat n" "unat n \<le> length b"
  shows "sound (\<lambda>b'. length b' = unat n + length v) (insert_block b n pos v)"
proof -
  have "unat (n - pos) = unat n - unat pos"
    using assms(1) by (simp add: unat_sub word_le_nat_alt)
  then show ?thesis
    using assms by (simp add: insert_block_def chunk_def)
qed


section \<open>The tweaks\<close>

text \<open>What a routine that yields an update function may change.\<close>

definition picks :: "(('a) afl_havoc_scheme \<Rightarrow> ('f \<times> ('a) afl_havoc_scheme) res) \<Rightarrow> bool" where
  "picks pick \<longleftrightarrow> (\<forall>a. sound (\<lambda>(f, a'). quiet a' = quiet a) (pick a))"

lemma picks_keep: "picks (keep_gen f)"
  by (simp add: picks_def keep_gen_def)

lemma picks_interesting: "0 < length vals \<Longrightarrow> length vals < 2 ^ 32 \<Longrightarrow> picks (pick_interesting vals ord)"
  unfolding picks_def pick_interesting_def
  by (intro allI, rule sound_bnd [OF draw]) (auto simp: unat_of_nat take_bit_nat_eq_self_iff max_def split: if_splits)

lemma picks_arith: "picks (pick_arith f)"
  unfolding picks_def pick_arith_def by (intro allI, rule sound_bnd [OF draw]) auto

lemma havoc_byte_sound:
  assumes "case_ok w (a, b, n)" "picks pick"
  shows "sound (case_ok w) (havoc_byte pick (a, b, n))"
proof -
  have ok: "ready w a" "0 < unat n" "unat n \<le> 1048576" "unat n \<le> length b"
    using assms(1) buf_okD [of b n] by (simp_all add: case_ok_def)
  have "sound (\<lambda>(f, a'). quiet a' = quiet a1) (pick a1)" for a1
    using assms(2) by (simp add: picks_def)
  note pick = this
  show ?thesis
    unfolding havoc_byte_def prod.case
    by (rule sound_bnd [OF draw], clarsimp, rule sound_bnd [OF pick]) (use ok in \<open>auto simp: wr_def intro!: case_okI [OF ok(1)]\<close>)
qed

lemma havoc_word_sound:
  assumes "case_ok w (a, b, n)" "picks (pick :: _ \<Rightarrow> (('c::len word \<Rightarrow> _) \<times> _) res)" "0 < wbytes TYPE('c)" "wbytes TYPE('c) \<le> 4"
  shows "sound (case_ok w) (havoc_word pick (a, b, n))"
proof (cases "n < of_nat (wbytes TYPE('c))")
  case True
  then show ?thesis
    using assms(1) by (simp add: havoc_word_def)
next
  case False
  have ok: "ready w a" "0 < unat n" "unat n \<le> 1048576" "unat n \<le> length b"
    using assms(1) buf_okD [of b n] by (simp_all add: case_ok_def)
  have pick: "sound (\<lambda>(f, a'). quiet a' = quiet a1) (pick a1)" for a1
    using assms(2) by (simp add: picks_def)
  let ?k = "wbytes TYPE('c)"
  have k: "unat (of_nat ?k :: u32) = ?k"
    using assms(4) by (simp add: unat_of_nat take_bit_nat_eq_self_iff)
  then have "?k \<le> unat n"
    using False by (simp add: word_less_nat_alt)
  moreover have "unat (of_nat ?k - 1 :: u32) = ?k - 1"
    using k assms(3) by (subst unat_sub) (simp_all add: word_le_nat_alt)
  ultimately have room: "unat (n - (of_nat ?k - 1)) = unat n - (?k - 1)"
    by (subst unat_sub) (simp_all add: word_le_nat_alt)
  have tail: "sound (case_ok w) (bnd (peek b (unat p)) (\<lambda>v :: 'c word. bnd (poke b (unat p) (f v)) (\<lambda>b'. Inr (a2, b', n))))"
    if "unat p < max 1 (unat n - (?k - 1))" "quiet a2 = quiet a" for p :: u32 and f :: "'c word \<Rightarrow> 'c word" and a2
  proof -
    have "unat p + ?k \<le> length b"
      using that(1) ok(4) \<open>?k \<le> unat n\<close> assms(3) by (auto simp: max_def split: if_splits)
    then show ?thesis
      using that(2) ok by (auto simp: peek_def poke_def intro!: case_okI [OF ok(1)])
  qed
  show ?thesis
    unfolding havoc_word_def prod.case if_not_P [OF False]
    by (rule sound_bnd [OF draw], clarsimp simp: room, rule sound_bnd [OF pick]) (auto intro!: tail)
qed

lemma havoc_flip_sound:
  assumes "case_ok w (a, b, n)"
  shows "sound (case_ok w) (havoc_flip (a, b, n))"
proof -
  have ok: "ready w a" "0 < unat n" "unat n \<le> 1048576" "unat n \<le> length b"
    using assms buf_okD [of b n] by (simp_all add: case_ok_def)
  have "unat (push_bit 3 n) = unat n * 8"
    using ok(3) by (simp add: push_bit_eq_mult, subst unat_mult_lem [THEN iffD1]) simp_all
  then have "unat p div 8 < length b" if "unat p < max 1 (unat (push_bit 3 n))" for p :: u32
    using that ok(2,4) by (auto simp: max_def split: if_splits)
  then show ?thesis
    unfolding havoc_flip_def prod.case
    by (intro sound_bnd [OF draw]) (use ok in \<open>auto simp: FLIP_BIT_def Let_def intro!: case_okI [OF ok(1)]\<close>)
qed

lemma picks_rand8: "picks (\<lambda>a. bnd (rand_below a 255) (\<lambda>(r, a1). Inr (\<lambda>v. v XOR ucast (1 + r), a1)))"
  unfolding picks_def by (intro allI, rule sound_bnd [OF draw]) auto

text \<open>The lengths a guard leaves room for.\<close>

lemma grown_case:
  assumes "ready w a" "quiet a' = quiet a" "0 < unat n" "unat n + unat k < 1048576" "length b' = unat n + unat k"
  shows "case_ok w (a', b', n + k)"
  using assms unat_more [of n k] by (intro case_okI [OF assms(1,2)]) simp_all

lemma has_room: "n + HAVOC_BLK_XL < MAX_FILE \<Longrightarrow> unat n \<le> 1048576 \<Longrightarrow> unat n + 32768 < 1048576"
  using unat_more [of n HAVOC_BLK_XL] by (simp add: word_less_nat_alt HAVOC_BLK_XL_def MAX_FILE_def)

lemma havoc_clone_sound:
  assumes "case_ok w (a, b, n)"
  shows "sound (case_ok w) (havoc_clone (a, b, n))"
proof (cases "n + HAVOC_BLK_XL < MAX_FILE")
  case False
  then show ?thesis
    using assms by (simp add: havoc_clone_def)
next
  case True
  have ok: "ready w a" "0 < unat n" "unat n \<le> 1048576" "unat n \<le> length b"
    using assms buf_okD [of b n] by (simp_all add: case_ok_def)
  have last: "sound (case_ok w) (bnd (chunk b (unat p) (unat k)) (\<lambda>v. bnd (insert_block b n q v) (\<lambda>b'. Inr (a', b', n + k))))"
    if "1 \<le> unat k" "unat k \<le> unat n" "unat k \<le> 32768" "unat p < max 1 (unat (n - k + 1))" "unat q < max 1 (unat n)" "quiet a' = quiet a"
    for k p q a'
  proof (rule sound_bnd [OF chunk_sound])
    show "unat p + unat k \<le> length b"
      using that(1,2,4) unat_room [OF that(2) ok(3)] ok(4) by simp
    show "sound (case_ok w) (bnd (insert_block b n q v) (\<lambda>b'. Inr (a', b', n + k)))" if "length v = unat k" for v
    proof (rule sound_bnd [OF insert_block_sound])
      show "unat q \<le> unat n"
        using \<open>unat q < max 1 (unat n)\<close> ok(2) by simp
      show "sound (case_ok w) (Inr (a', b', n + k))" if "length b' = unat n + length v" for b'
        using grown_case [OF ok(1) \<open>quiet a' = quiet a\<close> ok(2), of k b'] has_room [OF True ok(3)] \<open>unat k \<le> 32768\<close> \<open>length v = unat k\<close> that
        by simp
    qed (rule ok(4))
  qed
  show ?thesis
    unfolding havoc_clone_def prod.case if_P [OF True]
    by (rule sound_bnd [OF draw_block [OF ok(2)]], clarsimp, rule sound_bnd [OF draw], clarsimp, rule sound_bnd [OF draw], clarsimp)
      (rule last; simp)
qed

lemma fill_byte_sound:
  assumes "0 < unat n" "unat n \<le> length b"
  shows "sound (\<lambda>(v, a'). quiet a' = quiet a) (fill_byte (a, b, n))"
  unfolding fill_byte_def prod.case
  by (rule sound_bnd [OF draw], clarsimp)
    (use assms in \<open>auto intro!: sound_bnd [OF draw] simp: max_def split: if_splits\<close>)

lemma havoc_insert_sound:
  assumes "case_ok w (a, b, n)"
  shows "sound (case_ok w) (havoc_insert (a, b, n))"
proof (cases "n + HAVOC_BLK_XL < MAX_FILE")
  case False
  then show ?thesis
    using assms by (simp add: havoc_insert_def)
next
  case True
  have ok: "ready w a" "0 < unat n" "unat n \<le> 1048576" "unat n \<le> length b"
    using assms buf_okD [of b n] by (simp_all add: case_ok_def)
  have last: "sound (case_ok w) (bnd (insert_block b n q (replicate (unat k) v)) (\<lambda>b'. Inr (a', b', n + k)))"
    if "unat k \<le> 32768" "unat q < max 1 (unat n)" "quiet a' = quiet a" for k q a' v
  proof (rule sound_bnd [OF insert_block_sound])
    show "unat q \<le> unat n"
      using that(2) ok(2) by simp
    show "sound (case_ok w) (Inr (a', b', n + k))" if "length b' = unat n + length (replicate (unat k) v)" for b'
      using grown_case [OF ok(1) \<open>quiet a' = quiet a\<close> ok(2), of k b'] has_room [OF True ok(3)] \<open>unat k \<le> 32768\<close> that by simp
  qed (rule ok(4))
  have blk: "0 < unat HAVOC_BLK_XL"
    by (simp add: HAVOC_BLK_XL_def)
  show ?thesis
    unfolding havoc_insert_def prod.case if_P [OF True]
    by (rule sound_bnd [OF draw_block [OF blk]], clarsimp, rule sound_bnd [OF draw], clarsimp, rule sound_bnd [OF fill_byte_sound [OF ok(2,4)]], clarsimp)
      (rule last; simp)
qed

text \<open>The operations that need two bytes choose a block shorter than the case.\<close>

lemma draw_shorter:
  assumes "\<not> n < 2" "unat n \<le> 1048576"
  shows "sound (\<lambda>(k, a'). quiet a' = quiet a \<and> 1 \<le> unat k \<and> unat k < unat n) (choose_block_len a (n - 1))"
proof -
  have "unat (n - 1) = unat n - 1" "2 \<le> unat n"
    using assms(1) by (simp_all add: unat_sub word_le_nat_alt word_less_nat_alt)
  then show ?thesis
    by (intro sound_mono [OF draw_block [of "n - 1" a]]) auto
qed

lemma havoc_copy_sound:
  assumes "case_ok w (a, b, n)"
  shows "sound (case_ok w) (havoc_copy (a, b, n))"
proof (cases "n < 2")
  case True
  then show ?thesis
    using assms by (simp add: havoc_copy_def)
next
  case False
  have ok: "ready w a" "0 < unat n" "unat n \<le> 1048576" "unat n \<le> length b"
    using assms buf_okD [of b n] by (simp_all add: case_ok_def)
  have last: "sound (case_ok w) (if p \<noteq> q then bnd (memmove b (unat q) (unat p) (unat k)) (\<lambda>b'. Inr (a', b', n)) else Inr (a', b, n))"
    if "unat k < unat n" "unat p < max 1 (unat (n - k + 1))" "unat q < max 1 (unat (n - k + 1))" "quiet a' = quiet a" for k p q a'
  proof -
    have "unat p + unat k \<le> length b" "unat q + unat k \<le> length b"
      using that(1-3) unat_room [of k n] ok(3,4) by simp_all
    then show ?thesis
      using that(4) ok by (auto intro!: sound_bnd [OF memmove_sound] case_okI [OF ok(1)])
  qed
  show ?thesis
    unfolding havoc_copy_def prod.case if_not_P [OF False]
    by (rule sound_bnd [OF draw_shorter [OF False ok(3)]], clarsimp, rule sound_bnd [OF draw], clarsimp, rule sound_bnd [OF draw])
      (clarsimp split del: if_split, rule last; simp)
qed

lemma havoc_fill_sound:
  assumes "case_ok w (a, b, n)"
  shows "sound (case_ok w) (havoc_fill (a, b, n))"
proof (cases "n < 2")
  case True
  then show ?thesis
    using assms by (simp add: havoc_fill_def)
next
  case False
  have ok: "ready w a" "0 < unat n" "unat n \<le> 1048576" "unat n \<le> length b"
    using assms buf_okD [of b n] by (simp_all add: case_ok_def)
  have last: "sound (case_ok w) (bnd (blit b (unat q) (replicate (unat k) v)) (\<lambda>b'. Inr (a', b', n)))"
    if "unat k < unat n" "unat q < max 1 (unat (n - k + 1))" "quiet a' = quiet a" for k q a' v
  proof -
    have "unat q + length (replicate (unat k) v) \<le> length b"
      using that(1,2) unat_room [of k n] ok(3,4) by simp
    then show ?thesis
      using that(3) ok by (auto intro!: sound_bnd [OF blit_sound] case_okI [OF ok(1)])
  qed
  show ?thesis
    unfolding havoc_fill_def prod.case if_not_P [OF False]
    by (rule sound_bnd [OF draw_shorter [OF False ok(3)]], clarsimp, rule sound_bnd [OF draw], clarsimp, rule sound_bnd [OF fill_byte_sound [OF ok(2,4)]])
      (clarsimp, rule last; simp)
qed

lemma havoc_delete_sound:
  assumes "case_ok w (a, b, n)"
  shows "sound (case_ok w) (havoc_delete (a, b, n))"
proof (cases "n < 2")
  case True
  then show ?thesis
    using assms by (simp add: havoc_delete_def)
next
  case False
  have ok: "ready w a" "0 < unat n" "unat n \<le> 1048576" "unat n \<le> length b"
    using assms buf_okD [of b n] by (simp_all add: case_ok_def)
  have last: "sound (case_ok w) (bnd (memmove b (unat q) (unat (q + k)) (unat (n - q - k))) (\<lambda>b'. Inr (a', b', n - k)))"
    if "unat k < unat n" "unat q < max 1 (unat (n - k + 1))" "quiet a' = quiet a" for k q a'
  proof -
    have q: "unat q + unat k \<le> unat n"
      using that(1,2) unat_room [of k n] ok(3) by simp
    have u: "unat (q + k) = unat q + unat k" "unat (n - k) = unat n - unat k" "unat (n - q) = unat n - unat q"
      using q ok(3) unat_more [of q k] by (simp_all add: unat_sub word_le_nat_alt)
    moreover have "unat (n - q - k) = unat n - unat q - unat k"
      using q u(3) by (subst unat_sub) (simp_all add: word_le_nat_alt)
    ultimately have "sound (\<lambda>b'. length b' = length b) (memmove b (unat q) (unat (q + k)) (unat (n - q - k)))"
      using q ok(4) by (intro memmove_sound) simp_all
    then show ?thesis
      by (rule sound_bnd) (use u(2) that(1,3) ok in \<open>auto intro!: case_okI [OF ok(1)]\<close>)
  qed
  show ?thesis
    unfolding havoc_delete_def prod.case if_not_P [OF False]
    by (rule sound_bnd [OF draw_shorter [OF False ok(3)]], clarsimp, rule sound_bnd [OF draw]) (clarsimp, rule last; simp)
qed

section \<open>Exchanging blocks\<close>

lemma other_pos_sound:
  assumes "other_pos n src a = Some m"
  shows "sound (\<lambda>(t, a'). quiet a' = quiet a \<and> t \<noteq> src \<and> unat t < max 1 (unat n)) m"
proof (rule other_pos.raw_induct [OF _ assms])
  fix pos n src and a :: "('a) afl_havoc_scheme" and m
  assume IH: "\<And>n src a m. pos n src a = Some m \<Longrightarrow> sound (\<lambda>(t, a'). quiet a' = quiet a \<and> t \<noteq> src \<and> unat t < max 1 (unat n)) m"
    and step: "(case rand_below a n of Inl e \<Rightarrow> Some (Inl e)
      | Inr r \<Rightarrow> if fst r = src then pos n src (snd r) else Some (Inr r)) = Some m"
  show "sound (\<lambda>(t, a'). quiet a' = quiet a \<and> t \<noteq> src \<and> unat t < max 1 (unat n)) m"
  proof (cases "rand_below a n")
    case (Inl e)
    then show ?thesis
      using step draw [of a n] unfolding Inl by (auto simp: sound_def)
  next
    case (Inr r)
    have r: "quiet (snd r) = quiet a" "unat (fst r) < max 1 (unat n)"
      using draw [of a n] by (simp_all add: Inr case_prod_beta)
    show ?thesis
    proof (cases "fst r = src")
      case True
      then show ?thesis
        using step Inr IH [of n src "snd r" m] r(1) by simp
    next
      case False
      then show ?thesis
        using step Inr r by (auto simp: case_prod_beta)
    qed
  qed
qed

lemma or_hang_sound: "(\<And>r. m = Some r \<Longrightarrow> sound P r) \<Longrightarrow> sound P (or_hang m)"
  by (cases m) (simp_all add: or_hang_def)

lemma swap_blocks_sound:
  assumes "i + n \<le> length b" "j + n \<le> length b" "i + n \<le> j \<or> j + n \<le> i"
  shows "sound (\<lambda>b'. length b' = length b) (swap_blocks b i j n)"
  unfolding swap_blocks_def
proof (rule sound_bnd [OF chunk_sound [OF assms(1)]])
  fix backup :: bytes
  assume len: "length backup = n"
  have "memcpy_within b i j n = memmove b i j n"
    using assms(3) by (auto simp: memcpy_within_def)
  then have "sound (\<lambda>b'. length b' = length b) (memcpy_within b i j n)"
    using memmove_sound [OF assms(2,1)] by simp
  then show "sound (\<lambda>b'. length b' = length b) (bnd (memcpy_within b i j n) (\<lambda>b1. blit b1 j backup))"
  proof (rule sound_bnd)
    fix b1 :: bytes
    assume "length b1 = length b"
    then show "sound (\<lambda>b'. length b' = length b) (blit b1 j backup)"
      using blit_sound [of j backup b1] assms(2) len by simp
  qed
qed

text \<open>The two places and the room they leave: the chosen length fits behind both and keeps them apart.\<close>

lemma switch_room:
  fixes p q n :: u32
  assumes "unat p < unat n" "unat q < unat n" "q \<noteq> p"
  defines "m \<equiv> min (max p q - min p q) (n - max p q)"
  shows "(if p < q then (q - p, n - q) else (p - q, n - p)) = (max p q - min p q, n - max p q)" "0 < unat m"
    "unat k \<le> unat m \<Longrightarrow> unat p + unat k \<le> unat n \<and> unat q + unat k \<le> unat n \<and> (unat p + unat k \<le> unat q \<or> unat q + unat k \<le> unat p)"
proof -
  define i j where "i = min p q" and "j = max p q"
  have pq: "unat i < unat j" "unat j < unat n" "unat p = unat i \<and> unat q = unat j \<or> unat p = unat j \<and> unat q = unat i"
    using assms(1-3) by (auto simp: i_def j_def min_def max_def word_less_nat_alt word_le_nat_alt word_unat_eq_iff)
  show "(if p < q then (q - p, n - q) else (p - q, n - p)) = (max p q - min p q, n - max p q)"
    using assms(3) by (auto simp: min_def max_def)
  have "unat (j - i) = unat j - unat i" "unat (n - j) = unat n - unat j"
    using pq by (simp_all add: unat_sub word_le_nat_alt)
  then have room: "unat m \<le> unat j - unat i" "unat m \<le> unat n - unat j" "0 < unat m"
    using pq by (auto simp: m_def min_def [of "_ - _"] word_le_nat_alt simp flip: i_def j_def)
  then show "0 < unat m"
    by simp
  show "unat p + unat k \<le> unat n \<and> unat q + unat k \<le> unat n \<and> (unat p + unat k \<le> unat q \<or> unat q + unat k \<le> unat p)"
    if "unat k \<le> unat m"
    using that room(1,2) pq by auto
qed

lemma havoc_switch_sound:
  assumes "case_ok w (a, b, n)"
  shows "sound (case_ok w) (havoc_switch (a, b, n))"
proof (cases "n < 4")
  case True
  then show ?thesis
    using assms by (simp add: havoc_switch_def)
next
  case False
  have ok: "ready w a" "0 < unat n" "unat n \<le> 1048576" "unat n \<le> length b"
    using assms buf_okD [of b n] by (simp_all add: case_ok_def)
  have last: "sound (case_ok w) (let (switch_len, to_end) = (if p < q then (q - p, n - q) else (p - q, n - p))
      in bnd (choose_block_len a' (min switch_len to_end)) (\<lambda>(len, a3).
         bnd (swap_blocks b (unat p) (unat q) (unat len)) (\<lambda>b'. Inr (a3, b', n))))"
    if "unat p < max 1 (unat n)" "unat q < max 1 (unat n)" "q \<noteq> p" "quiet a' = quiet a" for p q a'
  proof -
    have pq: "unat p < unat n" "unat q < unat n"
      using that(1,2) ok(2) by simp_all
    note room = switch_room [OF pq that(3)]
    have swap: "sound (\<lambda>b'. length b' = length b) (swap_blocks b (unat p) (unat q) (unat k))"
      if "unat k \<le> unat (min (max p q - min p q) (n - max p q))" for k
      using room(3) [OF that] ok(4) by (intro swap_blocks_sound) auto
    show ?thesis
      unfolding room(1) Let_def prod.case
      by (rule sound_bnd [OF draw_block [OF room(2)]], clarsimp, rule sound_bnd [OF swap])
        (use that(4) ok in \<open>auto intro!: case_okI [OF ok(1)]\<close>)
  qed
  show ?thesis
    unfolding havoc_switch_def prod.case if_not_P [OF False]
    by (rule sound_bnd [OF draw], clarsimp split del: if_split, rule sound_bnd [OF or_hang_sound [OF other_pos_sound]], assumption,
        clarsimp split del: if_split, rule last [unfolded Let_def]; simp)
qed

section \<open>Tokens\<close>

definition tokens_ok :: "(('a) afl_havoc_scheme \<Rightarrow> bytes list) \<Rightarrow> ('a) afl_havoc_scheme \<Rightarrow> bool" where
  "tokens_ok tokens a \<longleftrightarrow> tokens a \<noteq> [] \<and> length (tokens a) < 2 ^ 32 \<and> (\<forall>t \<in> set (tokens a). length t \<le> 1048576) \<and>
     (\<forall>a'. quiet a' = quiet a \<longrightarrow> tokens a' = tokens a)"

lemma extras_ok: "ready w a \<Longrightarrow> extras a \<noteq> [] \<Longrightarrow> tokens_ok extras a"
  by (auto simp: tokens_ok_def ready_def MAX_FILE_def intro: quiet_tokens(1))

lemma auto_ok: "ready w a \<Longrightarrow> a_extras a \<noteq> [] \<Longrightarrow> tokens_ok auto_tokens a"
  by (auto simp: tokens_ok_def ready_def auto_tokens_def MAX_FILE_def dest: quiet_tokens(2))

lemma draw_token:
  assumes "tokens_ok tokens a" "unat k < max 1 (unat (of_nat (length (tokens a)) :: u32))" "quiet a' = quiet a"
  shows "sound (\<lambda>t. length t \<le> 1048576) (rd (tokens a') (unat k))"
proof -
  have t: "tokens a \<noteq> []" "length (tokens a) < 2 ^ 32" "\<forall>t \<in> set (tokens a). length t \<le> 1048576" "tokens a' = tokens a"
    using assms(1,3) unfolding tokens_ok_def by blast+
  have "unat (of_nat (length (tokens a)) :: u32) = length (tokens a)" "0 < length (tokens a)"
    using t(1,2) by (simp_all add: unat_of_nat take_bit_nat_eq_self_iff)
  then have "unat k < length (tokens a)"
    using assms(2) by (auto simp: max_def split: if_splits)
  then show ?thesis
    using t(3,4) by simp
qed

lemma unat_len: "n \<le> 1048576 \<Longrightarrow> unat (of_nat n :: u32) = n"
  by (simp add: unat_of_nat take_bit_nat_eq_self_iff)

lemma token_over_sound:
  assumes "case_ok w (a, b, n)" "tokens_ok tokens a"
  shows "sound (case_ok w) (token_over tokens (a, b, n))"
proof -
  have ok: "ready w a" "0 < unat n" "unat n \<le> 1048576" "unat n \<le> length b"
    using assms(1) buf_okD [of b n] by (simp_all add: case_ok_def)
  have last: "sound (case_ok w) (let extra_len = of_nat (length t) in if extra_len > n then Inr (a', b, n)
      else bnd (rand_below a' (n - extra_len + 1)) (\<lambda>(pos, a2). bnd (blit b (unat pos) t) (\<lambda>b'. Inr (a2, b', n))))"
    if "length t \<le> 1048576" "quiet a' = quiet a" for t a'
  proof (cases "of_nat (length t) > n")
    case True
    then show ?thesis
      using that(2) ok by (simp add: case_okI [OF ok(1)])
  next
    case False
    then have fits: "unat (of_nat (length t) :: u32) \<le> unat n"
      by (simp add: word_le_nat_alt not_less)
    have "sound (\<lambda>b'. length b' = length b) (blit b (unat p) t)" if "unat p < max 1 (unat (n - of_nat (length t) + 1))" for p
      using that unat_room [OF fits ok(3)] unat_len [OF \<open>length t \<le> 1048576\<close>] fits ok(4) by (intro blit_sound) simp
    note over = this
    show ?thesis
      unfolding Let_def if_not_P [OF False]
      by (rule sound_bnd [OF draw], clarsimp, rule sound_bnd [OF over])
        (use that(2) ok in \<open>auto intro!: case_okI [OF ok(1)]\<close>)
  qed
  show ?thesis
    unfolding token_over_def prod.case
    by (rule sound_bnd [OF draw], clarsimp, rule sound_bnd [OF draw_token [OF assms(2)]], simp, simp, rule last)
qed

lemma token_insert_sound:
  assumes "case_ok w (a, b, n)" "tokens_ok tokens a"
  shows "sound (case_ok w) (token_insert tokens (a, b, n))"
proof -
  have ok: "ready w a" "0 < unat n" "unat n \<le> 1048576" "unat n \<le> length b"
    using assms(1) buf_okD [of b n] by (simp_all add: case_ok_def)
  have last: "sound (case_ok w) (let extra_len = of_nat (length t) in if n + extra_len \<ge> MAX_FILE then Inr (a', b, n)
      else bnd (rand_below a' (n + 1)) (\<lambda>(pos, a2).
           bnd (memmove (enlarge (unat (n + extra_len)) b) (unat (pos + extra_len)) (unat pos) (unat (n - pos))) (\<lambda>b1.
           bnd (blit b1 (unat pos) t) (\<lambda>b'. Inr (a2, b', n + extra_len)))))"
    if "length t \<le> 1048576" "quiet a' = quiet a" for t a'
  proof (cases "n + of_nat (length t) \<ge> MAX_FILE")
    case True
    then show ?thesis
      using that(2) ok by (simp add: case_okI [OF ok(1)])
  next
    case False
    define k :: u32 where "k = of_nat (length t)"
    have k: "unat k = length t" "unat n + unat k < 1048576" "unat (n + k) = unat n + unat k"
      using False that(1) ok(3) unat_len [OF that(1)] unat_more [of n k]
      by (simp_all add: k_def word_le_nat_alt MAX_FILE_def)
    let ?b = "enlarge (unat (n + k)) b"
    have len: "length ?b = max (length b) (unat n + unat k)"
      using k(3) by (simp add: enlarge_def)
    have tail: "sound (case_ok w) (bnd (memmove ?b (unat (p + k)) (unat p) (unat (n - p))) (\<lambda>b1.
        bnd (blit b1 (unat p) t) (\<lambda>b'. Inr (a2, b', n + k))))"
      if "unat p < max 1 (unat (n + 1))" "quiet a2 = quiet a" for p a2
    proof -
      have "unat (n + 1) = unat n + 1"
        using ok(3) unat_more [of n 1] by simp
      then have p: "unat p \<le> unat n" "unat (n - p) = unat n - unat p" "unat (p + k) = unat p + unat k"
        using that(1) k(2) unat_more [of p k] by (simp_all add: unat_sub word_le_nat_alt)
      have "sound (\<lambda>b'. length b' = length ?b) (memmove ?b (unat (p + k)) (unat p) (unat (n - p)))"
        using p len by (intro memmove_sound) auto
      then show ?thesis
      proof (rule sound_bnd)
        fix b1 :: bytes
        assume b1: "length b1 = length ?b"
        have "sound (\<lambda>b'. length b' = length b1) (blit b1 (unat p) t)"
          using p(1) k(1) b1 len by (intro blit_sound) auto
        then show "sound (case_ok w) (bnd (blit b1 (unat p) t) (\<lambda>b'. Inr (a2, b', n + k)))"
          by (rule sound_bnd) (use that(2) ok(2) k b1 len in \<open>auto intro!: case_okI [OF ok(1)]\<close>)
      qed
    qed
    show ?thesis
      unfolding Let_def k_def [symmetric] if_not_P [OF False [folded k_def]]
      by (rule sound_bnd [OF draw], clarsimp) (rule tail; simp add: that(2))
  qed
  show ?thesis
    unfolding token_insert_def prod.case
    by (rule sound_bnd [OF draw], clarsimp, rule sound_bnd [OF draw_token [OF assms(2)]], simp, simp, rule last)
qed

section \<open>Fetching another case\<close>

text \<open>What drawing and fetching leave alone.\<close>

definition core :: "('a) afl_cache_scheme \<Rightarrow> 'a \<times> u32 \<times> nat option" where
  "core a = (afl_cache.more a, queued_items a, queue_cur a)"

lemma core_quiet: "quiet a' = quiet a \<Longrightarrow> core a' = core a"
proof -
  have "core (quiet a) = core a" for a :: "('a) afl_cache_scheme"
    by (simp add: core_def quiet_def)
  then show "quiet a' = quiet a \<Longrightarrow> core a' = core a"
    by metis
qed

lemma pick_victim_core:
  assumes "pick_victim a = Some m"
  shows "\<forall>t a'. m = Inr (t, a') \<longrightarrow> core a' = core a"
proof (rule pick_victim.raw_induct [OF _ assms])
  fix pick and a :: "('a) afl_cache_scheme" and m
  assume IH: "\<And>a m. pick a = Some m \<Longrightarrow> \<forall>t a'. m = Inr (t, a') \<longrightarrow> core a' = core a"
    and step: "(case rand_below a (q_testcase_max_cache_count a) of Inl e \<Rightarrow> Some (Inl e)
      | Inr r \<Rightarrow> (case rd (q_testcase_cache (snd r)) (unat (fst r)) of Inl e \<Rightarrow> Some (Inl e)
           | Inr c \<Rightarrow> if c = None \<or> c = queue_cur (snd r) then pick (snd r) else Some (Inr r))) = Some m"
  show "\<forall>t a'. m = Inr (t, a') \<longrightarrow> core a' = core a"
  proof (cases "rand_below a (q_testcase_max_cache_count a)")
    case (Inr r)
    then have "core (snd r) = core a"
      using core_quiet quiet_rand_below by (cases r) fastforce
    then show ?thesis
      using step Inr IH [of "snd r" m] by (auto split: sum.splits if_splits)
  qed (use step in auto)
qed

lemma evict_core: "evict t a = Inr a' \<Longrightarrow> core a' = core a"
  by (auto simp: evict_def bnd_eq_Inr_iff core_def q_upd_def split: option.splits)

lemma learn_core: "core (cache_learn len a) = core a"
  by (simp add: cache_learn_def core_def Let_def)

lemma make_room_core:
  assumes "make_room len tid a = Some m"
  shows "\<forall>t a'. m = Inr (t, a') \<longrightarrow> core a' = core a"
proof (rule make_room.raw_induct [OF _ assms])
  fix room len tid and a :: "('a) afl_cache_scheme" and m
  assume IH: "\<And>len tid a m. room len tid a = Some m \<Longrightarrow> \<forall>t a'. m = Inr (t, a') \<longrightarrow> core a' = core a"
    and step: "(if \<not> cache_full a len then Some (Inr (tid, a))
      else Option.bind (pick_victim (cache_learn len a)) (\<lambda>r. case r of Inl e \<Rightarrow> Some (Inl e)
        | Inr v \<Rightarrow> (case evict (fst v) (snd v) of Inl e \<Rightarrow> Some (Inl e) | Inr afl' \<Rightarrow> room len (fst v) afl'))) = Some m"
  show "\<forall>t a'. m = Inr (t, a') \<longrightarrow> core a' = core a"
  proof (cases "cache_full a len")
    case True
    then obtain r where r: "pick_victim (cache_learn len a) = Some r"
      using step by (auto simp: bind_eq_Some_conv)
    show ?thesis
    proof (cases r)
      case (Inl e)
      then show ?thesis
        using True step r by auto
    next
      case (Inr v)
      then have "core (snd v) = core a"
        using pick_victim_core [OF r] learn_core by (metis prod.collapse)
      then show ?thesis
        using True step r Inr IH [of len "fst v" _ m] evict_core [of "fst v" "snd v"] by (auto split: sum.splits)
    qed
  qed (use step in auto)
qed

lemma register_core: "core (register i q b a) = core a"
  by (simp add: register_def core_def q_upd_def Let_def)

lemma queue_testcase_get_core:
  assumes "queue_testcase_get m a w q = Inr (b, a')"
  shows "core a' = core a"
proof -
  have room: "core a1 = core a" if "make_room len t a = Some r" "r = Inr (u, a1)" for len t r u a1
    using make_room_core [OF that(1)] that(2) by blast
  show ?thesis
    using assms room
    by (auto simp: queue_testcase_get_def bnd_eq_Inr_iff Let_def register_core split: if_splits option.splits)
qed

lemma ready_more:
  assumes "core a' = core a" "unbuffered a' = unbuffered a" "cache_wf a'" "cache_true a' w" "ready w a"
  shows "ready w a'"
proof -
  have more: "afl_cache.more a' = afl_cache.more a" "queued_items a' = queued_items a" "queue_cur a' = queue_cur a"
    using assms(1) by (simp_all add: core_def)
  then have "extras a' = extras a" "a_extras a' = a_extras a" "cmplog_binary a' = cmplog_binary a"
    by (cases a; cases a'; simp)+
  moreover have "length (queue_buf a') = length (queue_buf a)"
    using arg_cong [OF assms(2), of length] by (simp add: unbuffered_def)
  ultimately show ?thesis
    using assms(3-5) more by (auto simp: ready_def auto_tokens_def)
qed

lemma fetch_sound:
  assumes "ready w a" "q < length (queue_buf a)"
  shows "sound (\<lambda>(b, a'). ready w a' \<and> length b = unat (q_len (queue_buf a ! q))) (queue_testcase_get m a w q)"
proof -
  have wf: "cache_wf a" "cache_true a w"
    using assms(1) by (simp_all add: ready_def)
  note get = get_transparent [OF wf assms(2), of m]
  show ?thesis
  proof (cases "queue_testcase_get m a w q")
    case (Inl e)
    then show ?thesis
      using get by auto
  next
    case (Inr p)
    then obtain b a' where p: "queue_testcase_get m a w q = Inr (b, a')"
      by (cases p) simp
    then have "ready w a'"
      using get ready_more [OF queue_testcase_get_core [OF p] _ _ _ assms(1)] by simp
    moreover have "length b = unat (q_len (queue_buf a ! q))"
      using get p by (auto simp: read_case_def split: option.splits if_splits)
    ultimately show ?thesis
      by (simp add: p)
  qed
qed

lemma pick_target_sound:
  assumes "pick_target a = Some m" "ready w a"
  shows "sound (\<lambda>(t, a'). quiet a' = quiet a \<and> unat t < length (queue_buf a) \<and> 4 \<le> unat (q_len (queue_buf a ! unat t))) m"
proof -
  let ?P = "\<lambda>a m. sound (\<lambda>(t, a'). quiet a' = quiet a \<and> unat t < length (queue_buf a) \<and> 4 \<le> unat (q_len (queue_buf a ! unat t))) m"
  have "ready w a \<longrightarrow> ?P a m"
  proof (rule pick_target.raw_induct [OF _ assms(1)])
    fix pick and a :: "('a) afl_havoc_scheme" and m
    assume IH: "\<And>a m. pick a = Some m \<Longrightarrow> ready w a \<longrightarrow> ?P a m"
      and step: "(case rand_below a (queued_items a) of Inl e \<Rightarrow> Some (Inl e)
        | Inr r \<Rightarrow> if fst r = current_entry a then pick (snd r)
            else (case rd (queue_buf (snd r)) (unat (fst r)) of Inl e \<Rightarrow> Some (Inl e)
                  | Inr q \<Rightarrow> if q_len q < 4 then pick (snd r) else Some (Inr r))) = Some m"
    show "ready w a \<longrightarrow> ?P a m"
    proof
      assume ready: "ready w a"
      show "?P a m"
      proof (cases "rand_below a (queued_items a)")
        case (Inl e)
        then show ?thesis
          using step draw [of a "queued_items a"] unfolding Inl by (auto simp: sound_def)
      next
        case (Inr r)
        have r: "quiet (snd r) = quiet a" "unat (fst r) < max 1 (unat (queued_items a))"
          using draw [of a "queued_items a"] by (simp_all add: Inr case_prod_beta)
        have "0 < unat (queued_items a)"
          using ready by (simp add: ready_def word_less_nat_alt)
        then have q: "unat (fst r) < length (queue_buf a)"
          using ready r(2) by (simp add: ready_def)
        have again: "?P a m" if "pick (snd r) = Some m"
          using IH [OF that] ready ready_quiet [OF r(1), of w] quiet_tokens [OF r(1)] r(1) by simp
        show ?thesis
          using step again q r(1) quiet_tokens(3) [OF r(1)] unfolding Inr
          by (auto simp: case_prod_beta word_less_nat_alt not_less split: if_splits)
      qed
    qed
  qed
  then show ?thesis
    using assms(2) by blast
qed

lemma havoc_splice_sound:
  assumes "case_ok w (a, b, n)"
  shows "sound (case_ok w) (havoc_splice m w r (a, b, n))"
proof -
  have ok: "ready w a" "0 < unat n" "unat n \<le> 1048576" "unat n \<le> length b"
    using assms buf_okD [of b n] by (simp_all add: case_ok_def)
  have over: "sound (case_ok w) (splice_over nb nl (a', b, n))" if "ready w a'" "length nb = unat nl" "4 \<le> unat nl" for nb nl a'
  proof -
    have nl: "unat (nl - 1) = unat nl - 1"
      using that(3) by (simp add: unat_sub word_le_nat_alt)
    then have pos: "0 < unat (nl - 1)"
      using that(3) by simp
    have last: "sound (case_ok w) (let copy_len = (if k > n then n else k) in
       bnd (rand_below a1 (nl - copy_len + 1)) (\<lambda>(copy_from, a2).
       bnd (rand_below a2 (n - copy_len + 1)) (\<lambda>(copy_to, a3).
       bnd (chunk nb (unat copy_from) (unat copy_len)) (\<lambda>v. bnd (blit b (unat copy_to) v) (\<lambda>b'. Inr (a3, b', n))))))"
      if "quiet a1 = quiet a'" "unat k \<le> unat nl - 1" for k a1
    proof -
      define c where "c = (if k > n then n else k)"
      have c: "unat c \<le> unat nl - 1" "unat c \<le> unat n"
        using that(2) by (auto simp: c_def word_less_nat_alt)
      have "unat (nl - c) = unat nl - unat c"
        using c(1) \<open>4 \<le> unat nl\<close> by (simp add: unat_sub word_le_nat_alt)
      then have lim: "unat (nl - c + 1) \<le> unat nl - unat c + 1" "unat (n - c + 1) = unat n - unat c + 1"
        using unat_room [OF c(2) ok(3)] by (simp_all add: unat_word_ariths)
      have tail: "sound (case_ok w) (bnd (chunk nb (unat p) (unat c)) (\<lambda>v. bnd (blit b (unat q) v) (\<lambda>b'. Inr (a3, b', n))))"
        if "unat p < max 1 (unat (nl - c + 1))" "unat q < max 1 (unat (n - c + 1))" "quiet a3 = quiet a'" for p q a3
      proof (rule sound_bnd [OF chunk_sound])
        show "unat p + unat c \<le> length nb"
          using that(1) lim(1) c(1) \<open>length nb = unat nl\<close> \<open>4 \<le> unat nl\<close> by (auto simp: max_def split: if_splits)
        show "sound (case_ok w) (bnd (blit b (unat q) v) (\<lambda>b'. Inr (a3, b', n)))" if "length v = unat c" for v
          by (rule sound_bnd [OF blit_sound])
            (use \<open>unat q < max 1 (unat (n - c + 1))\<close> lim(2) c(2) ok that \<open>quiet a3 = quiet a'\<close> in \<open>auto intro!: case_okI [OF \<open>ready w a'\<close>]\<close>)
      qed
      show ?thesis
        unfolding Let_def c_def [symmetric]
        by (rule sound_bnd [OF draw], clarsimp, rule sound_bnd [OF draw], clarsimp) (rule tail; simp add: that(1))
    qed
    show ?thesis
      unfolding splice_over_def prod.case
      by (rule sound_bnd2 [OF draw_block [OF pos]], rule last) (use nl in simp_all)
  qed
  have ins: "sound (case_ok w) (splice_insert nb nl (a', b, n))"
    if "ready w a'" "length nb = unat nl" "4 \<le> unat nl" "n + HAVOC_BLK_XL < MAX_FILE" for nb nl a'
  proof -
    have pos: "0 < unat nl"
      using that(3) by simp
    have tail: "sound (case_ok w) (bnd (chunk nb (unat p) (unat k)) (\<lambda>v. bnd (insert_block b n q v) (\<lambda>b'. Inr (a3, b', n + k))))"
      if "1 \<le> unat k" "unat k \<le> unat nl" "unat k \<le> 32768" "unat p < max 1 (unat (nl - k + 1))" "unat q < max 1 (unat (n + 1))"
        "quiet a3 = quiet a'" for p q k a3
    proof (rule sound_bnd [OF chunk_sound])
      have "unat (nl - k) = unat nl - unat k"
        using that(2) by (simp add: unat_sub word_le_nat_alt)
      then have "unat (nl - k + 1) \<le> unat nl - unat k + 1"
        by (simp add: unat_word_ariths)
      then show "unat p + unat k \<le> length nb"
        using that(2,4) \<open>length nb = unat nl\<close> by (auto simp: max_def split: if_splits)
      have "unat (n + 1) = unat n + 1"
        using ok(3) unat_more [of n 1] by simp
      then have q: "unat q \<le> unat n"
        using that(5) by simp
      show "sound (case_ok w) (bnd (insert_block b n q v) (\<lambda>b'. Inr (a3, b', n + k)))" if "length v = unat k" for v
        by (rule sound_bnd [OF insert_block_sound [OF q ok(4)]])
          (use has_room [OF \<open>n + HAVOC_BLK_XL < MAX_FILE\<close> ok(3)] \<open>unat k \<le> 32768\<close> that
            grown_case [OF \<open>ready w a'\<close> \<open>quiet a3 = quiet a'\<close> ok(2), of k] in auto)
    qed
    show ?thesis
      unfolding splice_insert_def prod.case
      by (rule sound_bnd [OF draw_block [OF pos]], clarsimp, rule sound_bnd [OF draw], clarsimp, rule sound_bnd [OF draw], clarsimp)
        (rule tail; simp)
  qed
  have fetched: "sound (case_ok w) (bnd (rd (queue_buf a1) (unat t)) (\<lambda>target.
      bnd (queue_testcase_get m a1 w (unat t)) (\<lambda>(new_buf, a2).
      if n \<ge> 2 \<and> r mod 2 \<noteq> 0 \<or> n + HAVOC_BLK_XL \<ge> MAX_FILE then splice_over new_buf (q_len target) (a2, b, n)
      else splice_insert new_buf (q_len target) (a2, b, n))))"
    if "quiet a1 = quiet a" "unat t < length (queue_buf a)" "4 \<le> unat (q_len (queue_buf a ! unat t))" for t a1
  proof -
    have a1: "ready w a1" "unat t < length (queue_buf a1)" "4 \<le> unat (q_len (queue_buf a1 ! unat t))"
      using ready_quiet [OF that(1)] ok(1) that(2,3) quiet_tokens(3) [OF that(1)] by simp_all
    show ?thesis
      unfolding rd_ok [OF a1(2)] bnd_simps
      by (rule sound_bnd [OF fetch_sound [OF a1(1,2)]]) (use a1(3) over ins in \<open>auto simp: not_le\<close>)
  qed
  show ?thesis
    unfolding havoc_splice_def prod.case
    by (rule sound_bnd2 [OF or_hang_sound [OF pick_target_sound [OF _ ok(1)]]], assumption, rule fetched) simp_all
qed

section \<open>Any tweak\<close>

lemma ascii_mode_sound: "ready w a \<Longrightarrow> sound (\<lambda>_. True) (ascii_mode a)"
  by (auto simp: ascii_mode_def ready_def q_get_def)

lemma havoc_default_sound:
  assumes "case_ok w (a, b, n)"
  shows "sound (case_ok w) (havoc_default m w r (a, b, n))"
proof -
  have ready: "ready w a"
    using assms by (simp add: case_ok_def)
  show ?thesis
    unfolding havoc_default_def Let_def prod.case
    by (auto intro!: sound_bnd [OF ascii_mode_sound [OF ready]] token_over_sound [OF assms] token_insert_sound [OF assms]
        havoc_splice_sound [OF assms] extras_ok [OF ready] auto_ok [OF ready])
qed

text \<open>Tweaks by the shape of their selection.\<close>

definition keeps :: "world \<Rightarrow> ('a hv \<Rightarrow> 'a hv res) \<Rightarrow> bool" where
  "keeps w f \<longleftrightarrow> (\<forall>s. case_ok w s \<longrightarrow> sound (case_ok w) (f s))"

lemma keepsI: "(\<And>a b n. case_ok w (a, b, n) \<Longrightarrow> sound (case_ok w) (f (a, b, n))) \<Longrightarrow> keeps w f"
  unfolding keeps_def by (metis prod_cases3)

lemma keepsD: "keeps w f \<Longrightarrow> case_ok w s \<Longrightarrow> sound (case_ok w) (f s)"
  unfolding keeps_def by blast

lemma keeps_if: "keeps w f \<Longrightarrow> keeps w g \<Longrightarrow> keeps w (if c then f else g)"
  by simp

lemma havoc_op_keeps: "keeps w (havoc_op m w r)"
proof -
  have vals: "0 < length interesting_8" "length interesting_8 < 2 ^ 32" "0 < length interesting_16" "length interesting_16 < 2 ^ 32"
    "0 < length interesting_32" "length interesting_32 < 2 ^ 32"
    by (simp_all add: interesting_8_def interesting_16_def interesting_32_def)
  note picks = picks_keep picks_arith picks_interesting [OF vals(1,2)] picks_interesting [OF vals(3,4)] picks_interesting [OF vals(5,6)]
  have bytes: "keeps w (havoc_byte pick)" if "picks pick" for pick
    by (rule keepsI) (rule havoc_byte_sound [OF _ that])
  have words16: "keeps w (havoc_word (pick :: _ \<Rightarrow> ((u16 \<Rightarrow> u16) \<times> _) res))" if "picks pick" for pick
    by (rule keepsI, rule havoc_word_sound [OF _ that]) simp_all
  have words32: "keeps w (havoc_word (pick :: _ \<Rightarrow> ((u32 \<Rightarrow> u32) \<times> _) res))" if "picks pick" for pick
    by (rule keepsI, rule havoc_word_sound [OF _ that]) simp_all
  have rand8: "keeps w havoc_rand8"
    unfolding havoc_rand8_def by (rule bytes [OF picks_rand8])
  have blocks: "keeps w havoc_flip" "keeps w havoc_clone" "keeps w havoc_insert" "keeps w havoc_copy" "keeps w havoc_fill"
    "keeps w havoc_switch" "keeps w havoc_delete"
    by (rule keepsI, rule havoc_flip_sound havoc_clone_sound havoc_insert_sound havoc_copy_sound havoc_fill_sound
        havoc_switch_sound havoc_delete_sound, assumption)+
  have default: "keeps w (havoc_default m w r)" for r
    by (rule keepsI) (rule havoc_default_sound)
  show ?thesis
    unfolding havoc_op_def by (intro keeps_if blocks default bytes words16 words32 rand8 picks)
qed

section \<open>A case\<close>

text \<open>A custom mutator returns a length within its buffer and within \<open>max_size\<close>, as it is documented to.\<close>

definition mutator_ok :: "havoc_mutator \<Rightarrow> bool" where
  "mutator_ok el \<longleftrightarrow> (\<forall>v. case custom_havoc el v of
     (k, Some buf) \<Rightarrow> k \<le> unat MAX_FILE \<and> k \<le> length buf
   | (k, None) \<Rightarrow> True)"

lemma run_custom_sound:
  assumes "case_ok w s" "mutator_ok el"
  shows "sound (case_ok w) (run_custom el s)"
proof -
  obtain a b n where s: "s = (a, b, n)"
    by (rule prod_cases3)
  have ok: "ready w a" "0 < unat n" "unat n \<le> 1048576" "unat n \<le> length b"
    using assms(1) buf_okD [of b n] by (simp_all add: s case_ok_def)
  have same: "case_ok w (a', b, n)" if "quiet a' = quiet a" for a'
    using case_okI [OF ok(1) that ok(2-4)] .
  have ran: "sound (case_ok w) (case custom_havoc el (take (unat n) b) of
              (_, None) \<Rightarrow> Inl (Fatal ''Error in custom_havoc'')
            | (new_len, Some buf) \<Rightarrow>
                if new_len = 0 then Inr (a', b, n)
                else bnd (chunk buf 0 (unat (of_nat new_len :: u32))) (\<lambda>b'. Inr (a', b', of_nat new_len)))"
    if "quiet a' = quiet a" for a'
  proof (cases "custom_havoc el (take (unat n) b)")
    case (Pair k buf)
    show ?thesis
    proof (cases buf)
      case None
      then show ?thesis
        by (simp add: Pair)
    next
      case (Some v)
      then have k: "k \<le> 1048576" "k \<le> length v"
        using assms(2) Pair unfolding mutator_ok_def MAX_FILE_def by (auto dest: spec [of _ "take (unat n) b"])
      then show ?thesis
        using same [OF that] unat_len [OF k(1)]
        by (auto simp: Pair Some chunk_def intro!: case_okI [OF ok(1) that])
    qed
  qed
  show ?thesis
    unfolding s run_custom_def prod.case
    using assms(1) s by (auto intro!: sound_bnd2 [OF draw] same ran)
qed

lemma havoc_tweak_sound:
  assumes "\<forall>el \<in> set muts. mutator_ok el" "case_ok w s"
  shows "sound (case_ok w) (havoc_tweak muts m w r_max s)"
proof -
  have "sound (case_ok w) (if custom_mutators_count (fst s) \<noteq> 0 then foldm run_custom muts s else Inr s)"
    using assms by (auto intro!: sound_foldm run_custom_sound)
  then show ?thesis
    unfolding havoc_tweak_def
  proof (rule sound_bnd)
    fix s'
    assume s': "case_ok w s'"
    obtain a b n where e: "s' = (a, b, n)"
      by (rule prod_cases3)
    have "case_ok w (a', b, n)" if "quiet a' = quiet a" for a'
      using s' ready_quiet [OF that] by (simp add: e case_ok_def)
    then show "sound (case_ok w) (case s' of (afl, b, n) \<Rightarrow> bnd (rand_below afl r_max) (\<lambda>(r, a1). havoc_op m w r (a1, b, n)))"
      unfolding e prod.case by (intro sound_bnd2 [OF draw]) (auto intro: keepsD [OF havoc_op_keeps])
  qed
qed

lemma ready_op_cur: "ready w (a\<lparr>op_cur_val := v\<rparr>) = ready w a"
  by (simp add: ready_def cache_wf_def cache_true_def auto_tokens_def)

lemma mutate_sound:
  assumes "ready w a" "buf_ok in_buf len" "\<forall>el \<in> set muts. mutator_ok el"
  shows "sound (case_ok w) (havoc_mutate muts m w r_max in_buf len a)"
proof -
  have ok: "0 < unat len" "unat len \<le> 1048576" "unat len \<le> length in_buf"
    using buf_okD [OF assms(2)] .
  have ready: "ready w (a1\<lparr>op_cur_val := v\<rparr>)" if "quiet a1 = quiet a" for a1 v
    using ready_quiet [OF that, of w] assms(1) by (simp add: ready_op_cur)
  have start: "case_ok w (a1\<lparr>op_cur_val := v\<rparr>, out_buf, len)" if "quiet a1 = quiet a" "length out_buf = unat len" for a1 v out_buf
    using ready [OF that(1)] that(2) ok by (simp add: case_ok_def buf_ok_def word_le_nat_alt MAX_FILE_def)
  show ?thesis
    unfolding havoc_mutate_def Let_def
  proof (rule sound_bnd2 [OF draw])
    fix k a1
    assume k: "quiet a1 = quiet a \<and> unat k < max 1 (unat (ucast (havoc_stack_pow2 a) :: u32))"
    let ?u = "push_bit (unat (1 + k)) 1 :: u32"
    show "sound (case_ok w) (bnd (chunk in_buf 0 (unat len)) (\<lambda>out_buf.
        foldm (\<lambda>_. havoc_tweak muts m w r_max) [0 ..< unat ?u] (a1\<lparr>op_cur_val := ?u\<rparr>, out_buf, len)))"
    proof (rule sound_bnd [OF chunk_sound])
      fix out_buf :: bytes
      assume "length out_buf = unat len"
      then show "sound (case_ok w) (foldm (\<lambda>_. havoc_tweak muts m w r_max) [0 ..< unat ?u] (a1\<lparr>op_cur_val := ?u\<rparr>, out_buf, len))"
        using k by (intro sound_foldm start havoc_tweak_sound [OF assms(3)]) simp_all
    qed (use ok(3) in simp)
  qed
qed

section \<open>The loop\<close>

text \<open>
  A round is one case: its stacked tweaks and its execution. \<open>havoc_rounds\<close> is a sequence of rounds that
  all went well, with the fuzzer's state after each of them.
\<close>

definition havoc_round ::
  "(u32 \<Rightarrow> 'x save_env) \<Rightarrow> havoc_mutator list \<Rightarrow> u32 \<Rightarrow> bytes \<Rightarrow> u32 \<Rightarrow> u32 \<Rightarrow> ('a) afl_havoc_scheme \<times> world \<times> 'x
     \<Rightarrow> (bool \<times> ('a) afl_havoc_scheme \<times> world \<times> 'x) res" where
  "havoc_round envs muts r_max in_buf len cur = (\<lambda>(a, w, x).
     bnd (havoc_mutate muts (e_mem_ok (envs cur)) w r_max in_buf len a) (\<lambda>(a1, b, n).
     common_fuzz_stuff (envs cur) a1 w x b n))"

inductive havoc_rounds ::
  "(u32 \<Rightarrow> 'x save_env) \<Rightarrow> havoc_mutator list \<Rightarrow> u32 \<Rightarrow> bytes \<Rightarrow> u32 \<Rightarrow> u32 \<Rightarrow> ('a) afl_havoc_scheme \<times> world \<times> 'x
     \<Rightarrow> ('a) afl_havoc_scheme list \<Rightarrow> ('a) afl_havoc_scheme \<times> world \<times> 'x \<Rightarrow> bool"
  for envs muts r_max in_buf len where
  none: "havoc_rounds envs muts r_max in_buf len cur s [] s"
| one: "havoc_round envs muts r_max in_buf len cur s = Inr (False, s1) \<Longrightarrow>
    havoc_rounds envs muts r_max in_buf len (cur + 1) s1 as s' \<Longrightarrow>
    havoc_rounds envs muts r_max in_buf len cur s (fst s1 # as) s'"

text \<open>
  What the limits are after such a sequence. A round is a find if the number of queue entries is not
  what it was after the round before; \<open>find_caps\<close> lists the cap of the score, 100 times the multiplier,
  for the finds only. Each find doubles the score and the limit as long as the score is at most its
  cap, counted by \<open>doublings\<close> in unbounded numbers.
\<close>

definition find_caps :: "u32 \<Rightarrow> ('a) afl_havoc_scheme list \<Rightarrow> nat list" where
  "find_caps q as = map (\<lambda>(_, a). unat (havoc_max_mult a) * 100)
     (filter (\<lambda>(q, a). queued_items a \<noteq> q) (zip (q # map queued_items as) as))"

fun doublings :: "nat \<Rightarrow> nat list \<Rightarrow> nat" where
  "doublings score [] = 0"
| "doublings score (c # cs) = (if score \<le> c then Suc (doublings (2 * score) cs) else doublings score cs)"

definition havoc_limits :: "u32 \<times> u32 \<times> u32 \<Rightarrow> ('a) afl_havoc_scheme list \<Rightarrow> u32 \<times> u32 \<times> u32" where
  "havoc_limits = (\<lambda>(smax, score, q) as. let k = doublings (unat score) (find_caps q as) in
     (smax * 2 ^ k, of_nat (unat score * 2 ^ k), last (q # map queued_items as)))"

lemma find_caps_simps [simp]:
  "find_caps q [] = []"
  "find_caps q (a # as) = (if queued_items a \<noteq> q then [unat (havoc_max_mult a) * 100] else []) @ find_caps (queued_items a) as"
  by (simp_all add: find_caps_def)

lemma find_caps_bound: "\<forall>c \<in> set (find_caps q as). c \<le> 25500"
proof -
  have "unat (havoc_max_mult a) * 100 \<le> 25500" for a :: "('a) afl_havoc_scheme"
    using unsigned_less [of "havoc_max_mult a", where 'a = nat] by simp
  then show ?thesis by (auto simp: find_caps_def)
qed

lemma doublings_bound:
  "\<forall>c \<in> set cs. c \<le> m \<Longrightarrow> score * 2 ^ doublings score cs \<le> max score (2 * m)"
proof (induction cs arbitrary: score)
  case (Cons c cs)
  then show ?case using Cons.IH [of "2 * score"] Cons.IH [of score] by (auto simp: mult_ac)
qed simp

lemma havoc_limits_Nil [simp]: "havoc_limits lims [] = lims"
  by (cases lims) (simp add: havoc_limits_def Let_def of_nat_unat)

lemma havoc_limits_Cons: "havoc_limits lims (a # as) = havoc_limits (prolong a lims) as"
proof -
  obtain smax score q where l: "lims = (smax, score, q)" by (metis prod_cases3)
  have cap: "unat (ucast (havoc_max_mult a) * 100 :: u32) = unat (havoc_max_mult a) * 100"
    using unat_mult_le [of "ucast (havoc_max_mult a) :: u32" 100] unsigned_less [of "havoc_max_mult a", where 'a = nat] 
    by (simp add: unat_word_ariths unsigned_ucast_eq take_bit_nat_eq_self)
  show ?thesis
  proof (cases "queued_items a \<noteq> q \<and> score \<le> ucast (havoc_max_mult a) * 100")
    case True
    then have le: "unat score \<le> unat (havoc_max_mult a) * 100" using cap by (simp add: word_le_nat_alt)
    then have "unat (score * 2) = 2 * unat score"
      using unsigned_less [of "havoc_max_mult a", where 'a = nat] by (simp add: unat_word_ariths)
    then show ?thesis using True le 
      by (simp add: l havoc_limits_def prolong_def Let_def mult_ac)
  next
    case False
    then show ?thesis using cap
      by (auto simp: l havoc_limits_def prolong_def Let_def word_le_nat_alt)
  qed
qed

lemma havoc_limits_example:
  "havoc_limits (256, 900, 3)
     [a\<lparr>queued_items := 4, havoc_max_mult := 16\<rparr>, a\<lparr>queued_items := 4, havoc_max_mult := 16\<rparr>,
      a\<lparr>queued_items := 7, havoc_max_mult := 16\<rparr>] = (512, 1800, 7)"
  by (simp add: havoc_limits_def Let_def)

text \<open>The round the loop ends with: the limit is reached, or the round fails, or it asks to abandon the
  entry. And the guard that every round before it has passed.\<close>

definition havoc_end ::
  "(u32 \<Rightarrow> 'x save_env) \<Rightarrow> havoc_mutator list \<Rightarrow> u32 \<Rightarrow> bytes \<Rightarrow> u32 \<Rightarrow> u32 \<Rightarrow> u32 \<times> u32 \<times> u32
     \<Rightarrow> ('a) afl_havoc_scheme \<times> world \<times> 'x \<Rightarrow> (bool \<times> (u32 \<times> u32 \<times> u32) \<times> ('a) afl_havoc_scheme \<times> world \<times> 'x) res \<Rightarrow> bool" where
  "havoc_end envs muts r_max in_buf len cur lims s r \<longleftrightarrow>
     (if cur < fst lims
      then (\<exists>e. havoc_round envs muts r_max in_buf len cur s = Inl e \<and> r = Inl e) \<or>
           (\<exists>s'. havoc_round envs muts r_max in_buf len cur s = Inr (True, s') \<and> r = Inr (True, lims, s'))
      else r = Inr (False, lims, s))"

definition within_limits :: "u32 \<Rightarrow> u32 \<times> u32 \<times> u32 \<Rightarrow> ('a) afl_havoc_scheme list \<Rightarrow> bool" where
  "within_limits cur lims as \<longleftrightarrow> (\<forall>i < length as. cur + of_nat i < fst (havoc_limits lims (take i as)))"

definition loop_ran ::
  "(u32 \<Rightarrow> 'x save_env) \<Rightarrow> havoc_mutator list \<Rightarrow> u32 \<Rightarrow> bytes \<Rightarrow> u32 \<Rightarrow> u32 \<Rightarrow> u32 \<times> u32 \<times> u32
     \<Rightarrow> ('a) afl_havoc_scheme \<times> world \<times> 'x \<Rightarrow> (bool \<times> (u32 \<times> u32 \<times> u32) \<times> ('a) afl_havoc_scheme \<times> world \<times> 'x) res \<Rightarrow> bool" where
  "loop_ran envs muts r_max in_buf len cur lims s r \<longleftrightarrow> (\<exists>as s'.
    havoc_rounds envs muts r_max in_buf len cur s as s' \<and> within_limits cur lims as \<and>
    havoc_end envs muts r_max in_buf len (cur + of_nat (length as)) (havoc_limits lims as) s' r)"

lemma loop_ranI:
  assumes "cur < fst lims" "havoc_round envs muts r_max in_buf len cur s = Inr (False, s1)"
    "loop_ran envs muts r_max in_buf len (cur + 1) (prolong (fst s1) lims) s1 r"
  shows "loop_ran envs muts r_max in_buf len cur lims s r"
proof -
  obtain as s' where r: "havoc_rounds envs muts r_max in_buf len (cur + 1) s1 as s'"
    "\<forall>i < length as. cur + 1 + of_nat i < fst (havoc_limits (prolong (fst s1) lims) (take i as))"
    "havoc_end envs muts r_max in_buf len (cur + 1 + of_nat (length as)) (havoc_limits (prolong (fst s1) lims) as) s' r"
    using assms(3) unfolding loop_ran_def within_limits_def by blast
  have "cur + of_nat i < fst (havoc_limits lims (take i (fst s1 # as)))" if "i < length (fst s1 # as)" for i
    using that assms(1) r(2) by (cases i) (simp_all add: havoc_limits_Cons add_ac)
  then show ?thesis
    unfolding loop_ran_def within_limits_def using havoc_rounds.one [OF assms(2) r(1)] r(3)
    by (intro exI [of _ "fst s1 # as"] exI [of _ s']) (simp add: havoc_limits_Cons add_ac)
qed

lemma havoc_loop_round:
  "havoc_loop envs muts r_max in_buf len cur lims a w x =
     (if \<not> cur < fst lims then Some (Inr (False, lims, a, w, x))
      else case havoc_round envs muts r_max in_buf len cur (a, w, x) of
             Inl e \<Rightarrow> Some (Inl e)
           | Inr (stop, a1, w1, x1) \<Rightarrow>
               if stop then Some (Inr (True, lims, a1, w1, x1))
               else havoc_loop envs muts r_max in_buf len (cur + 1) (prolong a1 lims) a1 w1 x1)"
  by (subst havoc_loop.simps) (auto simp: havoc_round_def split: sum.splits prod.splits)

lemma loop_ran_step:
  fixes a :: "('a) afl_havoc_scheme"
  assumes more: "\<And>(a1 :: ('a) afl_havoc_scheme) w1 x1. cur < fst lims \<Longrightarrow>
      \<exists>r. havoc_loop envs muts r_max in_buf len (cur + 1) (prolong a1 lims) a1 w1 x1 = Some r \<and>
        loop_ran envs muts r_max in_buf len (cur + 1) (prolong a1 lims) (a1, w1, x1) r"
  shows "\<exists>r. havoc_loop envs muts r_max in_buf len cur lims a w x = Some r \<and>
    loop_ran envs muts r_max in_buf len cur lims (a, w, x) r"
proof -
  let ?round = "havoc_round envs muts r_max in_buf len cur (a, w, x)"
  have stop: "loop_ran envs muts r_max in_buf len cur lims (a, w, x) r"
    if "havoc_end envs muts r_max in_buf len cur lims (a, w, x) r" for r
    unfolding loop_ran_def using that by (intro exI [of _ "[]"] exI [of _ "(a, w, x)"]) (simp add: havoc_rounds.none within_limits_def)
  show ?thesis
  proof (cases "cur < fst lims")
    case fin: False
    then show ?thesis using stop by (subst havoc_loop_round) (simp add: havoc_end_def)
  next
    case cur: True
    show ?thesis
    proof (cases ?round)
      case (Inl e)
      then show ?thesis using cur stop by (subst havoc_loop_round) (simp add: havoc_end_def)
    next
      case (Inr t)
      obtain st a1 w1 x1 where t: "?round = Inr (st, a1, w1, x1)" using Inr by (metis prod_cases4)
      show ?thesis
      proof (cases st)
        case True
        then show ?thesis using cur t stop by (subst havoc_loop_round) (simp add: havoc_end_def)
      next
        case False
        obtain r where "havoc_loop envs muts r_max in_buf len (cur + 1) (prolong a1 lims) a1 w1 x1 = Some r"
          "loop_ran envs muts r_max in_buf len (cur + 1) (prolong a1 lims) (a1, w1, x1) r"
          using more [OF cur, of a1 w1 x1] by (elim exE conjE) (rule that)
        then show ?thesis using loop_ranI [OF cur, of envs muts r_max in_buf len "(a, w, x)" "(a1, w1, x1)" r] t False cur
          by (subst havoc_loop_round) simp
      qed
    qed
  qed
qed

text \<open>Every doubling clears one more low bit of the limit, every other round comes closer to it.\<close>

lemma havoc_loop_below:
  fixes a :: "('a) afl_havoc_scheme"
  shows "\<exists>r. havoc_loop envs muts r_max in_buf len cur (v * 2 ^ (32 - j), score, q) a w x = Some r \<and>
    loop_ran envs muts r_max in_buf len cur (v * 2 ^ (32 - j), score, q) (a, w, x) r"
proof (induction j arbitrary: v cur score q a w x)
  case 0
  have "(2 :: u32) ^ 32 = 0"
    by simp
  then have none: "v * 2 ^ (32 - 0) = 0"
    by (simp only: diff_zero mult_zero_right)
  show ?case
    unfolding none by (rule loop_ran_step) simp
next
  case (Suc j)
  define smax where "smax = v * 2 ^ (32 - Suc j)"
  let ?ok = "\<lambda>cur lims a w x r. havoc_loop envs muts r_max in_buf len cur lims a w x = Some r \<and>
    loop_ran envs muts r_max in_buf len cur lims (a, w, x) r"
  have double: "\<exists>r. ?ok cur (smax * 2, score, q) a w x r" for cur score q w x and a :: "('a) afl_havoc_scheme"
  proof (cases "j < 32")
    case True
    then have "32 - j = Suc (32 - Suc j)"
      by simp
    then have "smax * 2 = v * 2 ^ (32 - j)"
      by (simp add: smax_def)
    then show ?thesis
      using Suc.IH by simp
  next
    case False
    then have "smax * 2 = (v * 2) * 2 ^ (32 - j)"
      by (simp add: smax_def)
    then show ?thesis
      using Suc.IH by simp
  qed
  have "\<exists>r. ?ok cur (smax, score, q) a w x r"
  proof (induction "unat smax - unat cur" arbitrary: cur score q a w x rule: less_induct)
    case less
    show ?case
    proof (rule loop_ran_step)
      fix a1 :: "('a) afl_havoc_scheme" and w1 x1
      assume "cur < fst (smax, score, q)"
      then have cur: "cur < smax" by simp
      then have "unat (cur + 1) = unat cur + 1"
        using unsigned_less [of smax, where 'a = nat] by (simp add: unat_word_ariths word_less_nat_alt)
      then have "unat smax - unat (cur + 1) < unat smax - unat cur"
        using cur by (simp add: word_less_nat_alt)
      moreover have "prolong a1 (smax, score, q) \<in> range (\<lambda>(s, q). (smax, s, q)) \<union> range (\<lambda>(s, q). (smax * 2, s, q))"
        by (auto simp: prolong_def)
      ultimately show "\<exists>r. ?ok (cur + 1) (prolong a1 (smax, score, q)) a1 w1 x1 r"
        using less [of "cur + 1"] double [of "cur + 1"] by fastforce
    qed
  qed
  then show ?case
    by (simp add: smax_def)
qed

text \<open>C10. The havoc stage loop runs as many cases as its limits allow, and the limits move exactly with the
  finds. It is the sequence of its rounds, each started below the limit of that moment, and it ends
  in one of three ways: the case counter has reached the limit; the next case asks to abandon the
  entry; or the next case fails, and then with that case's error (\<open>Hang\<close> for a draw of random numbers
  that never ends, in which case the code does not return). At any time the limit and the score are
  the initial ones times \<open>2 ^ k\<close>, where \<open>k\<close> counts the finds made while the score was within its cap,
  and the third component is the current number of queue entries. The score never wraps around: it
  stays below 51000 or keeps its initial value. So the loop always ends when its cases do: a limit doubled
  again and again would wrap around to zero.\<close>

theorem havoc_loop_correct:
  "\<exists>r as s'. havoc_loop envs muts r_max in_buf len cur (smax, score, q) a w x = Some r \<and>
     havoc_rounds envs muts r_max in_buf len cur (a, w, x) as s' \<and>
     within_limits cur (smax, score, q) as \<and>
     havoc_end envs muts r_max in_buf len (cur + of_nat (length as)) (havoc_limits (smax, score, q) as) s' r \<and>
     unat score * 2 ^ doublings (unat score) (find_caps q as) \<le> max (unat score) 51000"
proof -
  obtain r as s' where r: "havoc_loop envs muts r_max in_buf len cur (smax, score, q) a w x = Some r"
    "havoc_rounds envs muts r_max in_buf len cur (a, w, x) as s'" "within_limits cur (smax, score, q) as"
    "havoc_end envs muts r_max in_buf len (cur + of_nat (length as)) (havoc_limits (smax, score, q) as) s' r"
    using havoc_loop_below [of envs muts r_max in_buf len cur smax 32 score q a w x] by (auto simp: loop_ran_def)
  moreover have "unat score * 2 ^ doublings (unat score) (find_caps q as) \<le> max (unat score) 51000"
    using doublings_bound [OF find_caps_bound, of "unat score" q as] by simp
  ultimately show ?thesis by blast
qed

section \<open>Splicing\<close>

text \<open>The positions below the common length in which two inputs differ.\<close>

definition differing :: "bytes \<Rightarrow> bytes \<Rightarrow> nat \<Rightarrow> nat set" where
  "differing p q n = {i. i < n \<and> p ! i \<noteq> q ! i}"

lemma signed_small:
  assumes "unat (w :: u32) < 2 ^ 20"
  shows "sint w = int (unat w)"
proof -
  have "int (unat w) < int (2 ^ 20)"
    using assms by (simp only: of_nat_less_iff)
  then have "uint w < 2 ^ 31"
    by (simp add: of_nat_unat)
  moreover have "- (2 ^ 31) \<le> uint w"
    by (rule order_trans [of _ 0]) simp_all
  ultimately have "sint w = uint w"
    by (simp add: sint_uint signed_take_bit_int_eq_self_iff)
  then show ?thesis
    by (simp add: of_nat_unat)
qed

lemma join_range:
  fixes f l r :: u32
  assumes "unat f < unat l" "unat l < 2 ^ 20" "unat r < max 1 (unat (l - f))"
  shows "unat f \<le> unat (f + r)" "unat (f + r) < unat l"
proof -
  have "unat (l - f) = unat l - unat f"
    using assms(1) by (simp add: unat_sub word_le_nat_alt)
  then have "unat f + unat r < unat l"
    using assms(1,3) by simp
  moreover from this have "unat (f + r) = unat f + unat r"
    using assms(2) by (intro unat_more) simp
  ultimately show "unat f \<le> unat (f + r)" "unat (f + r) < unat l"
    by simp_all
qed

lemma differing_range:
  assumes "locate_diffs p q n = Inr (f, l)" "n \<le> length p" "n \<le> length q" "n \<le> 2 ^ 20"
  shows "differing p q n = {} \<and> f = - 1 \<and> l = - 1 \<or>
    unat f < n \<and> unat l < n \<and> unat f = Min (differing p q n) \<and> unat l = Max (differing p q n) \<and> differing p q n \<noteq> {}"
proof -
  have "n < 2 ^ 31"
    using assms(4) by simp
  from locate_diffs_correct [OF assms(2,3) this]
  have c: "(\<forall>i < n. p ! i = q ! i) \<and> f = - 1 \<and> l = - 1 \<or>
     unat f < n \<and> unat l < n \<and> p ! unat f \<noteq> q ! unat f \<and> p ! unat l \<noteq> q ! unat l \<and>
       (\<forall>i < n. p ! i \<noteq> q ! i \<longrightarrow> unat f \<le> i \<and> i \<le> unat l)"
    using assms(1) by auto
  have fin: "finite (differing p q n)"
    by (simp add: differing_def)
  from c show ?thesis
  proof
    assume "(\<forall>i < n. p ! i = q ! i) \<and> f = - 1 \<and> l = - 1"
    then show ?thesis
      by (simp add: differing_def)
  next
    assume d: "unat f < n \<and> unat l < n \<and> p ! unat f \<noteq> q ! unat f \<and> p ! unat l \<noteq> q ! unat l \<and>
       (\<forall>i < n. p ! i \<noteq> q ! i \<longrightarrow> unat f \<le> i \<and> i \<le> unat l)"
    then have m: "unat f \<in> differing p q n" "unat l \<in> differing p q n"
      by (simp_all add: differing_def)
    have "Min (differing p q n) = unat f"
      by (rule Min_eqI [OF fin]) (use d m in \<open>auto simp: differing_def\<close>)
    moreover have "Max (differing p q n) = unat l"
      by (rule Max_eqI [OF fin]) (use d m in \<open>auto simp: differing_def\<close>)
    ultimately show ?thesis
      using d m by auto
  qed
qed

lemma join_sound:
  assumes "length in_buf = unat len" "length nb = unat tlen" "len \<le> MAX_FILE" "tlen \<le> MAX_FILE"
  defines "D \<equiv> differing in_buf nb (min (unat len) (unat tlen))"
  shows "sound (\<lambda>(r, a'). case r of
      None \<Rightarrow> D = {} \<or> Max D < 2 \<or> Min D = Max D
    | Some v \<Rightarrow> D \<noteq> {} \<and> 2 \<le> Max D \<and> length v = unat tlen \<and> (\<exists>k. Min D \<le> k \<and> k < Max D \<and> v = take k in_buf @ take (unat tlen - k) nb))
    (join_inputs in_buf len nb tlen a)"
proof -
  have sizes: "unat len \<le> 1048576" "unat tlen \<le> 1048576"
    using assms(3,4) by (simp_all add: word_le_nat_alt MAX_FILE_def)
  have m: "unat (min len tlen) = min (unat len) (unat tlen)"
    by (simp add: min_def word_le_nat_alt)
  have "min (unat len) (unat tlen) < 2 ^ 31"
    using sizes by (simp add: min_def)
  from locate_diffs_correct [OF _ _ this, of in_buf nb]
  obtain f l where fl: "locate_diffs in_buf nb (min (unat len) (unat tlen)) = Inr (f, l)"
    using assms(1,2) by auto
  then have d: "D = {} \<and> f = - 1 \<and> l = - 1 \<or>
      unat f < min (unat len) (unat tlen) \<and> unat l < min (unat len) (unat tlen) \<and> unat f = Min D \<and> unat l = Max D \<and> D \<noteq> {}"
    unfolding D_def by (rule differing_range) (use assms(1,2) sizes in auto)
  from d show ?thesis
  proof
    assume "D = {} \<and> f = - 1 \<and> l = - 1"
    then show ?thesis
      by (simp add: join_inputs_def m fl)
  next
    assume u: "unat f < min (unat len) (unat tlen) \<and> unat l < min (unat len) (unat tlen) \<and> unat f = Min D \<and> unat l = Max D \<and> D \<noteq> {}"
    then have s: "sint f = int (Min D)" "sint l = int (Max D)"
      using sizes by (simp_all add: signed_small)
    have fin: "finite D"
      by (simp add: D_def differing_def)
    have le: "Min D \<le> Max D"
      using u Min_le [OF fin Max_in [OF fin]] by blast
    have split: "sound (\<lambda>(r, a'). case r of
        None \<Rightarrow> D = {} \<or> Max D < 2 \<or> Min D = Max D
      | Some v \<Rightarrow> D \<noteq> {} \<and> 2 \<le> Max D \<and> length v = unat tlen \<and> (\<exists>k. Min D \<le> k \<and> k < Max D \<and> v = take k in_buf @ take (unat tlen - k) nb))
      (let split_at = f + r in bnd (chunk in_buf 0 (unat split_at)) (\<lambda>head.
        bnd (chunk nb 0 (unat (tlen - split_at))) (\<lambda>tail. Inr (Some (head @ tail), a1))))"
      if "Min D \<noteq> Max D" "2 \<le> Max D" "unat r < max 1 (unat (l - f))" for r a1
    proof -
      have k: "Min D \<le> unat (f + r)" "unat (f + r) < Max D"
        using join_range [of f l r] that u le sizes by auto
      moreover have "unat (tlen - (f + r)) = unat tlen - unat (f + r)"
        using k(2) u by (simp add: unat_sub word_le_nat_alt)
      moreover have "unat (f + r) \<le> length in_buf" "unat tlen - unat (f + r) \<le> length nb"
        using k(2) u assms(1,2) by simp_all
      ultimately show ?thesis
        using u that(2) assms(1,2) by (auto simp: chunk_def Let_def)
    qed
    show ?thesis
    proof (cases "sint f < 0 \<or> sint l < 2 \<or> f = l")
      case True
      then show ?thesis
        using s u by (auto simp: join_inputs_def m fl)
    next
      case False
      then have "Min D \<noteq> Max D"
        using u by (metis word_unat_eq_iff)
      then show ?thesis
        unfolding join_inputs_def m fl bnd_simps prod.case if_not_P [OF False]
        using False s(2) by (intro sound_bnd2 [OF draw] split [OF \<open>Min D \<noteq> Max D\<close>]) auto
    qed
  qed
qed


text \<open>A queue of one entry and a generator that draws zeros.\<close>

definition havoc_example :: afl_havoc where
  "havoc_example = afl_save.extend (save_example\<lparr>fixed_seed := True, rand_seed0 := 0, rand_seed1 := 0, rand_seed2 := 0,
     crash_mode := 0, q_testcase_max_cache_size := 0, q_testcase_cache := [None], q_testcase_max_cache_entries := 1\<rparr>) (afl_havoc.fields 1 1 16 False False False 0 0 0 0)"

lemmas havoc_example_defs = havoc_example_def afl_save.defs afl_havoc.defs
   save_example_def afl_cal.defs afl_save.defs cal_example_def trim_example_def afl_run.defs afl_trim.defs run_state_def
      afl_crash.defs crash_state_def afl_extras.defs dict_example_def mopt_example_def afl_mopt.defs afl_cache.defs zero_afl_def

lemma havoc_example_ready: "ready empty_world havoc_example"
  by (simp add: ready_def cache_wf_def slots_ok_def limits_ok_def taken_def cache_true_def held_def zero_entry_def auto_tokens_def MAX_FILE_def
      havoc_example_defs)

text \<open>Such a generator stays as it is.\<close>

definition zero_gen :: "('a) afl_rand_scheme \<Rightarrow> bool" where
  "zero_gen a \<longleftrightarrow> fixed_seed a \<and> rand_seed0 a = 0 \<and> rand_seed1 a = 0"

lemma zero_draw:
  assumes "zero_gen a"
  shows "rand_below a l = Inr (0, if l \<le> 1 then a else a\<lparr>rand_cnt := rand_cnt a - 1\<rparr>)"
proof (cases "l \<le> 1")
  case False
  let ?a = "a\<lparr>rand_cnt := rand_cnt a - 1\<rparr>"
  have "0 < l" "l \<noteq> 0" "2 \<le> unat l"
    using False by (simp_all add: word_le_nat_alt word_gt_0) (cases "l = 0"; simp)+
  then have "0 < unat (draw_bound l)"
    using unat_draw_bound [of l] div_greater_zero_iff [of "2 ^ 64 - 1" "unat l"] unsigned_less [of l, where 'a = nat] by simp
  then have "\<not> draw_bound l \<le> 0"
    by (simp add: word_le_nat_alt)
  moreover have "rand_next ?a = (0, ?a)"
    using assms by (cases a) (simp add: rand_next_def zero_gen_def ROTL_def)
  ultimately have "rand_draw l ?a = Some (0, ?a)"
    by (subst rand_draw.simps) simp
  then show ?thesis
    using False assms by (simp add: rand_below_def reseed_def zero_gen_def)
qed (simp add: rand_below_def)

lemma zero_gen_more [simp]:
  "zero_gen (a\<lparr>rand_cnt := c\<rparr>) = zero_gen a" "zero_gen (a'\<lparr>op_cur_val := v\<rparr>) = zero_gen a'"
  by (simp_all add: zero_gen_def)

lemma havoc_example_zero: "zero_gen havoc_example" "havoc_stack_pow2 havoc_example = 1" "custom_mutators_count havoc_example = 0"
  by (simp_all add: zero_gen_def havoc_example_defs)

lemma havoc_example_flips: "\<exists>a'. havoc_mutate [] True empty_world 65 [5, 6] 2 havoc_example = Inr (a', [5, 6], 2)"
  by (simp add: havoc_mutate_def havoc_tweak_def havoc_op_def havoc_flip_def zero_draw havoc_example_zero chunk_def FLIP_BIT_def
      push_bit_eq_mult upt_rec)

lemma havoc_example_joins: "\<exists>a'. join_inputs [1, 2, 3, 4] 4 [1, 5, 6, 7] 4 havoc_example = Inr (Some [1, 1, 5, 6], a')"
  by (simp add: join_inputs_def locate_diffs_def zero_draw havoc_example_zero chunk_def upt_rec)

section \<open>Exact effects\<close>

lemma blit_nth:
  assumes "blit b i v = Inr b'"
  shows "length b' = length b" "p < length b \<Longrightarrow> b' ! p = (if i \<le> p \<and> p < i + length v then v ! (p - i) else b ! p)"
proof -
  have b': "b' = take i b @ v @ drop (i + length v) b" "i + length v \<le> length b"
    using assms by (auto simp: blit_def split: if_splits)
  then show "length b' = length b"
    by simp
  show "b' ! p = (if i \<le> p \<and> p < i + length v then v ! (p - i) else b ! p)" if "p < length b"
  proof -
    have lt: "p - i < length v \<longleftrightarrow> p < i + length v" if "i \<le> p"
      using that by arith
    consider "p < i" | "i \<le> p" "p < i + length v" | "i + length v \<le> p"
      by linarith
    then show ?thesis
      using b'(2) that unfolding b'(1) by cases (simp_all add: nth_append lt add.commute)
  qed
qed

lemma swap_blocks_nth:
  assumes "swap_blocks b i j n = Inr b'" "i + n \<le> length b" "j + n \<le> length b" "i + n \<le> j \<or> j + n \<le> i"
  shows "length b' = length b"
    "p < length b \<Longrightarrow> b' ! p = (if i \<le> p \<and> p < i + n then b ! (p - i + j) else if j \<le> p \<and> p < j + n then b ! (p - j + i) else b ! p)"
proof -
  have "memcpy_within b i j n = memmove b i j n"
    using assms(4) by (auto simp: memcpy_within_def)
  then obtain b1 where b1: "blit b i (take n (drop j b)) = Inr b1" "blit b1 j (take n (drop i b)) = Inr b'"
    using assms(1-3) by (auto simp: swap_blocks_def memmove_def chunk_def bnd_eq_Inr_iff)
  have l: "length (take n (drop i b)) = n" "length (take n (drop j b)) = n"
    using assms(2,3) by simp_all
  note first = blit_nth [OF b1(1), unfolded l] and second = blit_nth [OF b1(2), unfolded l]
  show "length b' = length b"
    using first(1) second(1) by simp
  assume p: "p < length b"
  show "b' ! p = (if i \<le> p \<and> p < i + n then b ! (p - i + j) else if j \<le> p \<and> p < j + n then b ! (p - j + i) else b ! p)"
    using first(1) first(2) [OF p] second(2) [of p] p assms(2-4) by (auto simp: add.commute)
qed

lemma xor_moves:
  assumes "(c :: 'c::len word) \<noteq> 0"
  shows "b XOR c \<noteq> b"
proof
  assume same: "b XOR c = b"
  have "c = b XOR (b XOR c)"
    by (simp flip: xor.assoc)
  also have "\<dots> = 0"
    by (simp add: same)
  finally show False
    using assms by simp
qed

lemma rand8_exact:
  assumes "0 < unat n" "unat n \<le> length b" "havoc_rand8 (a, b, n) = Inr (a', b', n')"
  shows "n' = n \<and> (\<exists>p < unat n. \<exists>v. v \<noteq> b ! p \<and> b' = b[p := v])"
proof -
  obtain p a1 r a2 where d: "rand_below a n = Inr (p, a1)" "rand_below a1 255 = Inr (r, a2)"
    "wr b (unat p) (b ! unat p XOR ucast (1 + r)) = Inr b'" "n' = n" "unat p < length b"
    using assms(3) by (auto simp: havoc_rand8_def havoc_byte_def bnd_eq_Inr_iff rd_def split: if_splits)
  have "unat p < unat n"
    using draw [of a n] assms(1) by (simp add: d(1))
  have "unat r < 255"
    using draw [of a1 255] by (simp add: d(2))
  then have "unat (1 + r) = 1 + unat r"
    using unat_more [of 1 r] by simp
  then have "unat (ucast (1 + r) :: u8) = 1 + unat r"
    using \<open>unat r < 255\<close> by (simp add: unsigned_ucast_eq take_bit_nat_eq_self_iff)
  then have "(ucast (1 + r) :: u8) \<noteq> 0"
    by (metis add_is_0 unat_0 zero_neq_one)
  then have "b ! unat p XOR ucast (1 + r) \<noteq> b ! unat p"
    by (rule xor_moves)
  then show ?thesis
    using d(3,4) \<open>unat p < unat n\<close> by (auto simp: wr_def split: if_splits)
qed

text \<open>C9. Switching bytes: two disjoint blocks of the same positive length, both inside the case, exchange
  their places, every other byte and the length stay; a case of less than four bytes is left alone.\<close>

theorem havoc_switch_exact:
  assumes "buf_ok b n" "havoc_switch (a, b, n) = Inr (a', b', n')"
  shows "n' = n \<and> length b' = length b \<and> (n < 4 \<and> b' = b \<or>
    (\<exists>i j k. 0 < k \<and> i + k \<le> unat n \<and> j + k \<le> unat n \<and> (i + k \<le> j \<or> j + k \<le> i) \<and>
      (\<forall>p < length b. b' ! p = (if i \<le> p \<and> p < i + k then b ! (p - i + j) else if j \<le> p \<and> p < j + k then b ! (p - j + i) else b ! p))))"
proof (cases "n < 4")
  case True
  then show ?thesis
    using assms(2) by (simp add: havoc_switch_def)
next
  case False
  have ok: "0 < unat n" "unat n \<le> 1048576" "unat n \<le> length b"
    using buf_okD [OF assms(1)] .
  obtain p a1 q a2 where d: "rand_below a n = Inr (p, a1)" "or_hang (other_pos n p a1) = Inr (q, a2)"
    "(let (switch_len, to_end) = (if p < q then (q - p, n - q) else (p - q, n - p))
      in bnd (choose_block_len a2 (min switch_len to_end)) (\<lambda>(len, a3).
         bnd (swap_blocks b (unat p) (unat q) (unat len)) (\<lambda>b'. Inr (a3, b', n)))) = Inr (a', b', n')"
    using assms(2) False by (auto simp: havoc_switch_def bnd_eq_Inr_iff simp del: Let_def)
  have p: "unat p < unat n"
    using draw [of a n] ok(1) by (simp add: d(1))
  have "other_pos n p a1 = Some (Inr (q, a2))"
    using d(2) by (simp add: or_hang_def split: option.splits)
  from other_pos_sound [OF this] have q: "unat q < unat n" "q \<noteq> p"
    using ok(1) by simp_all
  note room = switch_room [OF p q]
  obtain k a3 where k: "choose_block_len a2 (min (max p q - min p q) (n - max p q)) = Inr (k, a3)"
    "swap_blocks b (unat p) (unat q) (unat k) = Inr b'" "n' = n"
    using d(3) unfolding room(1) by (auto simp: bnd_eq_Inr_iff)
  have len: "1 \<le> unat k" "unat k \<le> unat (min (max p q - min p q) (n - max p q))"
    using draw_block [OF room(2), of a2] by (simp_all add: k(1))
  have in_range: "0 < unat k" "unat p + unat k \<le> unat n" "unat q + unat k \<le> unat n" "unat p + unat k \<le> unat q \<or> unat q + unat k \<le> unat p"
    using room(3) [OF len(2)] len(1) by auto
  have "unat p + unat k \<le> length b" "unat q + unat k \<le> length b"
    using in_range(2,3) ok(3) by simp_all
  note swapped = swap_blocks_nth [OF k(2) this in_range(4)]
  show ?thesis
    using in_range swapped k(3) by blast
qed

lemma draw_fixed:
  assumes "fixed_seed a" "1 < l" "rand_seed0 a < draw_bound l"
  shows "rand_below a l = Inr (ucast (rand_seed0 a mod ucast l), a\<lparr>rand_cnt := rand_cnt a - 1,
    rand_seed0 := 15241094284759029579 * rand_seed1 a, rand_seed1 := ROTL (rand_seed1 a - rand_seed0 a) 27\<rparr>)"
proof -
  have "rand_draw l (a\<lparr>rand_cnt := rand_cnt a - 1\<rparr>) = Some (rand_next (a\<lparr>rand_cnt := rand_cnt a - 1\<rparr>))"
    using assms(3)[folded not_le] by (subst rand_draw.simps) (simp add: rand_next_def Let_def del: not_le)
  then show ?thesis
    using assms(1) assms(2)[folded not_le] by (simp add: rand_below_def reseed_def rand_next_def Let_def del: not_le)
qed

lemma other_pos_found: "rand_below a n = Inr (r, a') \<Longrightarrow> r \<noteq> src \<Longrightarrow> other_pos n src a = Some (Inr (r, a'))"
  by (subst other_pos.simps) simp

lemma rand_below_one: "rand_below a 1 = Inr (0, a)"
  by (simp add: rand_below_def)

lemma draw_bound_four: "draw_bound 4 = 18446744073709551612"
  by code_simp

lemma havoc_example_short: "\<not> run_over10m havoc_example"
  by (simp add: havoc_example_defs)

lemma havoc_example_switches:
  "\<exists>a'. havoc_switch (havoc_example\<lparr>rand_seed1 := 1\<rparr>, [1, 2, 3, 4], 4) = Inr (a', [4, 2, 3, 1], 4)"
  by (simp add: havoc_switch_def draw_fixed draw_bound_four havoc_example_zero [unfolded zero_gen_def] ROTL_def other_pos_found
      or_hang_def choose_block_len_def block_range_def rand_below_one havoc_example_short HAVOC_BLK_SMALL_def swap_blocks_def
      memcpy_within_def memmove_def chunk_def blit_def)

text \<open>C7. Mutating a case for the havoc stage: from a fuzzer in good order (a consistent test case cache and
  queue, tokens of at most \<open>MAX_FILE\<close> bytes) and an input that lies in its buffer, whatever number of tweaks
  is stacked and whatever is drawn, the result is a case of between one and \<open>MAX_FILE\<close> bytes inside its
  buffer, with the fuzzer still in good order, or one of the errors the code reports or a draw that never
  ends: no access leaves a buffer, no null pointer is followed and no block overlaps another where
  \<open>memcpy\<close> forbids it. Custom mutators are relied on to return a length within the maximum and their buffer.\<close>

theorem havoc_mutate_safe:
  assumes "ready w a" "buf_ok in_buf len" "\<forall>el \<in> set muts. mutator_ok el"
  shows "case havoc_mutate muts m w r_max in_buf len a of
      Inl e \<Rightarrow> e \<notin> {Oob, NullPtr, DivZero}
    | Inr (a', b, n) \<Rightarrow> ready w a' \<and> 1 \<le> n \<and> n \<le> MAX_FILE \<and> unat n \<le> length b"
  using mutate_sound [OF assms, of m r_max] by (auto simp: sound_def case_ok_def buf_ok_def split: sum.splits)

theorem havoc_mutate_safe_witness:
  "\<exists>a'. havoc_mutate [] True empty_world 65 [5, 6] 2 havoc_example = Inr (a', [5, 6], 2) \<and> ready empty_world a'"
proof -
  have "buf_ok [5, 6] 2"
    by (simp add: buf_ok_def MAX_FILE_def)
  from havoc_mutate_safe [OF havoc_example_ready this, of "[]" True 65] havoc_example_flips show ?thesis
    by auto
qed

text \<open>C8. Joining two inputs for splicing: nothing is joined exactly when the inputs agree on their common
  length, differ in one byte only or not beyond the second one; otherwise the result is as long as the other
  input and consists of the first bytes of the current one, up to a place between the first and the last
  difference, and the first bytes of the other one. So the tail comes from the wrong place: it is taken from
  the beginning of the other input, not from the place of the split.\<close>

theorem join_inputs_correct:
  assumes "length in_buf = unat len" "length nb = unat tlen" "len \<le> MAX_FILE" "tlen \<le> MAX_FILE"
  shows "let D = differing in_buf nb (min (unat len) (unat tlen)) in
    case join_inputs in_buf len nb tlen a of
      Inl e \<Rightarrow> e \<notin> {Oob, NullPtr, DivZero}
    | Inr (None, a') \<Rightarrow> D = {} \<or> Max D < 2 \<or> Min D = Max D
    | Inr (Some v, a') \<Rightarrow> D \<noteq> {} \<and> 2 \<le> Max D \<and> length v = length nb \<and>
        (\<exists>k. Min D \<le> k \<and> k < Max D \<and> v = take k in_buf @ take (length nb - k) nb)"
  using join_sound [OF assms, of a] by (auto simp: sound_def Let_def assms split: sum.splits option.splits)

theorem join_inputs_correct_witness:
  "\<exists>a' k. join_inputs [1, 2, 3, 4] 4 [1, 5, 6, 7] 4 havoc_example = Inr (Some [1, 1, 5, 6], a') \<and>
     [1, 1, 5, 6 :: u8] = take k [1, 2, 3, 4] @ take (length [1, 5, 6, 7 :: u8] - k) [1, 5, 6, 7]"
proof -
  obtain a' where joined: "join_inputs [1, 2, 3, 4] 4 [1, 5, 6, 7] 4 havoc_example = Inr (Some [1, 1, 5, 6], a')"
    using havoc_example_joins by blast
  have "\<exists>k. [1, 1, 5, 6 :: u8] = take k [1, 2, 3, 4] @ take (length [1, 5, 6, 7 :: u8] - k) [1, 5, 6, 7 :: u8]"
    using join_inputs_correct [of "[1, 2, 3, 4]" 4 "[1, 5, 6, 7]" 4 havoc_example]
    unfolding joined Let_def by (auto simp: MAX_FILE_def simp del: length_Cons)
  then show ?thesis
    using joined by blast
qed

theorem havoc_switch_exact_witness:
  "\<exists>a' i j k. havoc_switch (havoc_example\<lparr>rand_seed1 := 1\<rparr>, [1, 2, 3, 4], 4) = Inr (a', [4, 2, 3, 1], 4) \<and>
     0 < k \<and> i + k \<le> (4 :: nat) \<and> j + k \<le> 4 \<and> (i + k \<le> j \<or> j + k \<le> i)"
proof -
  obtain a' where switched: "havoc_switch (havoc_example\<lparr>rand_seed1 := 1\<rparr>, [1, 2, 3, 4], 4) = Inr (a', [4, 2, 3, 1], 4)"
    using havoc_example_switches by blast
  have "buf_ok [1, 2, 3, 4] 4"
    by (simp add: buf_ok_def MAX_FILE_def)
  from havoc_switch_exact [OF this switched]
  have "\<exists>i j k. 0 < k \<and> i + k \<le> (4 :: nat) \<and> j + k \<le> 4 \<and> (i + k \<le> j \<or> j + k \<le> i)"
    by auto
  then show ?thesis
    using switched by blast
qed

end
