(* ===== verification/Spec2Isabelle.thy ===== *)
theory Spec2Isabelle
  imports Virgin Text Rng Queue Score Alias Cache Dict_Stages Crash_Site Trim Calibrate Saved Havoc_Safe
begin

text \<open>
  A verification development for IgorFuzz (src/engine), a fork of AFL++ that explores crashes: starting
  from a crashing test case it looks for cases that crash at the same place on shorter paths. The
  development models the fuzzer's core, the C code of src/engine/src and src/engine/include; all paths
  below are relative to src/engine.

  The program. The fuzzer keeps a queue of test cases. It picks an entry by a weighted draw, trims it,
  mutates it in deterministic stages, then in random ones, and runs the target on each result. The target
  fills a map with hit counts of edges; the fuzzer classifies the counts and compares the map with what
  it has seen, the \<open>virgin\<close> maps. AFL++ keeps a case that adds coverage; IgorFuzz, once a matrix trace
  is set, keeps a crash that loses coverage (\<open>has_few_bits\<close>). A case that is kept gets a file and a queue
  entry, is calibrated by running it again, competes for the slots of the \<open>top_rated\<close> table and is filed
  under the place of its crash.

  Parts and theories.

  \<^item> \<open>Prelude\<close>: C integers as words, results as a sum of \<open>error\<close> and a value, checked reads and writes,
    sequencing (\<open>bnd\<close>, \<open>foldm\<close>), the byte view of words. Accesses outside an array, null pointers and
    divisions by zero are error values, so a theorem that a routine returns shows that it has none.
    Plain list operations are used where a check of the same place or a guard of the code precedes; the
    one read without any is that of the effector map in the overwriting stage (\<open>span_flagged\<close>).
  \<^item> \<open>State\<close>: \<open>afl_state_t\<close>, \<open>afl_forkserver_t\<close> and \<open>struct queue_entry\<close> (include/afl-fuzz.h,
    include/forkserver.h). The fuzzer's state is a chain of extensible records; each theory that needs
    more fields extends it (\<open>afl_mopt\<close>, \<open>afl_extras\<close>, \<open>afl_crash\<close>, \<open>afl_run\<close>, \<open>afl_trim\<close>, \<open>afl_cal\<close>,
    \<open>afl_save\<close>, \<open>afl_havoc\<close>) and the operations of the earlier ones apply to it unchanged. Entries are
    referred to by their index in \<open>queue_buf\<close>. The file system is a \<open>world\<close>.
  \<^item> \<open>Coverage\<close>, \<open>Counting\<close>, \<open>Virgin\<close>: include/coverage-64.h and coverage-32.h and the map routines of
    src/afl-fuzz-bitmap.c (\<open>classify_counts\<close>, \<open>simplify_trace\<close>, \<open>count_bytes\<close>, \<open>has_new_bits\<close>,
    \<open>has_few_bits\<close>). The two word sizes are one locale, \<open>coverage_word\<close>, with two interpretations.
  \<^item> \<open>Text\<close>: \<open>check_if_text\<close>. \<open>Rng\<close>: the generator of src/afl-performance.c and \<open>rand_below\<close>.
  \<^item> \<open>Queue\<close>, \<open>Score\<close>, \<open>Alias\<close>, \<open>Cache\<close>: src/afl-fuzz-queue.c, that is \<open>add_to_queue\<close>,
    \<open>update_bitmap_score\<close> and \<open>cull_queue\<close>; \<open>calculate_score\<close>; \<open>create_alias_table\<close> and
    \<open>select_next_queue_entry\<close>; the test case cache, whose clients see the locale \<open>case_store\<close>.
  \<^item> \<open>Dict\<close>: src/afl-fuzz-extras.c, the dictionary of user tokens and automatic tokens.
  \<^item> \<open>Target\<close>: \<open>write_to_testcase\<close>, \<open>afl_fsrv_run_target\<close> (src/afl-forkserver.c, src/afl-fuzz-run.c) and
    \<open>ck_write\<close> of include/debug.h. The child is a parameter: what it answers over the pipe and the map it
    leaves.
  \<^item> \<open>Trim\<close>, \<open>Calibrate\<close>: \<open>trim_case\<close> and \<open>calibrate_case\<close> of src/afl-fuzz-run.c. The trimmer's loops run over
    the locale \<open>trimming\<close>.
  \<^item> \<open>Crash_Site\<close>: the report of the target runtime (instrumentation/afl-igorfuzz-rt.o.c) and
    \<open>find_crash_site\<close>, \<open>write_crash_detail\<close>, \<open>same_crash_site\<close> of src/afl-fuzz-bitmap.c.
  \<^item> \<open>Save\<close>, \<open>Keep\<close>, \<open>Saved\<close>: \<open>describe_op\<close> and \<open>save_if_interesting\<close> (src/afl-fuzz-bitmap.c) and
    \<open>common_fuzz_stuff\<close> (src/afl-fuzz-run.c), which compose the theories before them; what each operation
    around a run keeps; the step relation \<open>fuzz_step\<close> of one case after the other and its invariant.
  \<^item> \<open>Det_Helpers\<close>, \<open>Det_Stages\<close>, \<open>Dict_Stages\<close>: the helpers and the deterministic stages of
    \<open>fuzz_one_original\<close> (src/afl-fuzz-one.c), refined to lists of the cases they execute. The lists of the
    arithmetic and interesting-value stages are given by what the earlier stages can make of a word
    (\<open>flip_reach\<close>, \<open>arith_reach\<close>, \<open>interest_reach\<close>), not by the code's filters, which are proved to decide
    just that. There \<open>common_fuzz_stuff\<close> is a parameter, as the stages use only whether it stops.
  \<^item> \<open>Havoc\<close>, \<open>Havoc_Safe\<close>: the havoc stage with all its tweaks, over the real \<open>common_fuzz_stuff\<close>, and splicing.
    Its loop is proved to be the sequence of its rounds (\<open>havoc_rounds\<close>), with the limits that the finds
    call for (\<open>havoc_limits\<close>).

  What the lemmas show. For the maps, that the word-at-a-time routines compute the byte-wise specification
  and which facts \<open>has_few_bits\<close> encodes. For the queue, that its invariant (indices, reference counts and
  compact traces of \<open>top_rated\<close>, counters) is kept and that culling is the greedy cover. For the cache,
  that it is transparent. For the dictionary, round trips. For the target, the outcome of a run for every
  answer of the child. For trimming and calibration, what holds on a steady target, one whose map is a
  function of its input, and what holds on any. For a crash on a steady target, that it is kept exactly as
  the fork intends, at every level of the crash mode and with the cache on or off; for any sequence of cases, that the queue and the maps stay well-formed and nothing
  is lost. For the stages, which cases they run, that the buffer is restored and that no access leaves it.

  Bounds and fuel. No fuel is used. Loops with a counter are folds over it; \<open>rand_below\<close>, the cache, the
  trimmer, the dictionary loader, havoc and splicing have loops that C does not bound, which are partial
  functions whose value \<open>None\<close> (or the error \<open>Hang\<close>) is a loop that does not end. That \<open>trim_case\<close> ends is proved, and
  that the loop of havoc has no endless run of rounds; that the loader of dictionaries may not end is
  proved as well. Draws that are rejected for ever are \<open>Hang\<close>, which stands for code that does not return:
  where a theorem admits the error of a draw or of a round, that is among it. Calibration has a fold of at most 12 rounds, as many as the code can run.
  \<open>save_if_interesting\<close> jumps back to its switch after a timeout at most once. Widths are those of the code;
  sums that wrap are words, \<open>double\<close> values are reals, which rounds nothing.

  Parameters. \<open>hash64\<close> (xxhash), \<open>qsort\<close>, the symbolizer, the child, custom mutators, the clock and
  /dev/urandom; the theorems that rely on one say so in a hypothesis, and its witness instantiates it.

  Not modelled. \<open>fuzz_one_original\<close> as a whole, which chains the stages by jumps, and MOpt
  (\<open>mopt_common_fuzzing\<close>), which repeats them with statistics. Start-up, the main loop and its options
  (afl-fuzz.c, afl-fuzz-init.c), statistics output, shared memory calls, the start of the fork server,
  \<open>sync_fuzzers\<close> and \<open>trim_case_custom\<close>: they are traffic with the operating system, other processes or
  plug-ins around the modelled routines. Command comparison logging (redqueen) needs a second binary and is
  a stage of its own. Compiler wrappers, the instrumentation runtime but for the crash report, binary-only
  modes, stand-alone tools, plug-in mutators, vendored libraries (xxhash, dlmalloc, radamsa) and the
  Python console are other programs or third-party code. Code under \<open>INTROSPECTION\<close>, Nyx and persistent
  recording is not compiled in by default and left out.
\<close>

end
